(* ===== verification/Prelude.thy ===== *)
theory Prelude
  imports Main "HOL-Library.Word" "HOL-Library.Multiset" "HOL-Library.Monad_Syntax"
begin

text \<open>
  The vocabulary every component shares: machine integers, the block-structured memory that raw
  pointers address, the raw-pointer and slice primitives of the standard library the crate calls,
  atomic counters, and the lemma collections the component proofs draw on.

  The target is 64-bit: \<open>usize\<close>, \<open>u64\<close> and raw pointers are 64-bit words and wrap as in a release
  build. A function whose result type is an \<open>option\<close> returns \<open>None\<close> exactly where the program has no
  defined result: an access outside a live block, a misaligned pointer access, or a loop that does
  not end. A panic is an ordinary value, \<open>Inl\<close> of the type \<open>panic\<close>.
\<close>

unbundle bit_operations_syntax

named_theorems heap_simps
named_theorems chain_simps
named_theorems atomic_simps

section \<open>Machine integers and pointers\<close>

type_synonym u8 = "8 word"
type_synonym u32 = "32 word"
type_synonym u64 = "64 word"
type_synonym usize = "64 word"
type_synonym addr = "64 word"

text \<open>A block of memory is one allocation: its base address and its bytes.\<close>

type_synonym heap = "addr \<rightharpoonup> u8 list"

datatype panic =
    AssertFailed
  | LayoutError
  | AllocError
  | MmapFailed
  | SliceLength
  | SliceIndex
  | ExpectFailed
  | CallbackPanicked

text \<open>\<open>isize::MAX\<close>: no allocation and no slice is longer.\<close>

definition isize_max :: nat where
  "isize_max = 2 ^ 63 - 1"

definition aligned_to :: "nat \<Rightarrow> addr \<Rightarrow> bool" where
  "aligned_to a p = (unat p mod a = 0)"

section \<open>Atomic counters\<close>

text \<open>\<open>AtomicU64::fetch_add\<close> and \<open>fetch_sub\<close> wrap around on overflow.\<close>

definition fetch_add :: "u64 \<Rightarrow> u64 \<Rightarrow> u64" where
  "fetch_add c n = c + n"

definition fetch_sub :: "u64 \<Rightarrow> u64 \<Rightarrow> u64" where
  "fetch_sub c n = c - n"

definition usize_saturating_add :: "usize \<Rightarrow> usize \<Rightarrow> usize" where
  "usize_saturating_add a b = (if unat a + unat b < 2 ^ 64 then a + b else - 1)"

section \<open>Memory primitives\<close>

text \<open>A pointer value stored in memory occupies eight bytes, lowest byte first.\<close>

definition ptr_to_bytes :: "addr \<Rightarrow> u8 list" where
  "ptr_to_bytes p = map (\<lambda>i. ucast (drop_bit (8 * i) p)) [0..<8]"

definition bytes_to_ptr :: "u8 list \<Rightarrow> addr" where
  "bytes_to_ptr bs = foldr (\<lambda>b acc. ucast b OR push_bit 8 acc) bs 0"

text \<open>\<open>ptr::read(p as *const *mut u8)\<close> and \<open>ptr::write(p as *mut *mut u8, v)\<close> at the base of a
  block: defined for an aligned pointer to a live block of at least eight bytes.\<close>

definition ptr_read :: "heap \<Rightarrow> addr \<Rightarrow> addr option" where
  "ptr_read h p = (case h p of
      None \<Rightarrow> None
    | Some bs \<Rightarrow> if aligned_to 8 p \<and> 8 \<le> length bs then Some (bytes_to_ptr (take 8 bs)) else None)"

definition ptr_write :: "heap \<Rightarrow> addr \<Rightarrow> addr \<Rightarrow> heap option" where
  "ptr_write h p v = (case h p of
      None \<Rightarrow> None
    | Some bs \<Rightarrow> if aligned_to 8 p \<and> 8 \<le> length bs
        then Some (h(p \<mapsto> ptr_to_bytes v @ drop 8 bs)) else None)"

text \<open>\<open>slice::from_raw_parts(p.add(off), len)\<close> and writes through
  \<open>slice::from_raw_parts_mut\<close> or \<open>ptr::copy_nonoverlapping\<close>.\<close>

definition mem_read :: "heap \<Rightarrow> addr \<Rightarrow> nat \<Rightarrow> nat \<Rightarrow> u8 list option" where
  "mem_read h p off len = (case h p of
      None \<Rightarrow> None
    | Some bs \<Rightarrow> if off + len \<le> length bs then Some (take len (drop off bs)) else None)"

definition mem_write :: "heap \<Rightarrow> addr \<Rightarrow> nat \<Rightarrow> u8 list \<Rightarrow> heap option" where
  "mem_write h p off data = (case h p of
      None \<Rightarrow> None
    | Some bs \<Rightarrow> if off + length data \<le> length bs
        then Some (h(p \<mapsto> take off bs @ data @ drop (off + length data) bs)) else None)"

text \<open>A mutable slice \<open>&mut [u8]\<close> is a byte range of a block; the empty slice needs no block.
  \<open>slice_range s i j\<close> is \<open>&mut s[i..j]\<close>, and \<open>copy_from_slice\<close> panics when the lengths differ.\<close>

record slice_mut =
  sl_base :: addr
  sl_off :: nat
  sl_len :: nat

definition slice_range :: "slice_mut \<Rightarrow> nat \<Rightarrow> nat \<Rightarrow> panic + slice_mut" where
  "slice_range s i j =
     (if i \<le> j \<and> j \<le> sl_len s then Inr (s\<lparr>sl_off := sl_off s + i, sl_len := j - i\<rparr>) else Inl SliceIndex)"

definition slice_bytes :: "slice_mut \<Rightarrow> heap \<Rightarrow> u8 list option" where
  "slice_bytes s h = (if sl_len s = 0 then Some [] else mem_read h (sl_base s) (sl_off s) (sl_len s))"

definition slice_write :: "slice_mut \<Rightarrow> u8 list \<Rightarrow> heap \<Rightarrow> heap option" where
  "slice_write s data h = (if data = [] then Some h else mem_write h (sl_base s) (sl_off s) data)"

definition copy_from_slice :: "slice_mut \<Rightarrow> u8 list \<Rightarrow> heap \<Rightarrow> ((panic + unit) \<times> heap) option" where
  "copy_from_slice s data h =
     (if length data \<noteq> sl_len s then Some (Inl SliceLength, h)
      else do { h \<leftarrow> slice_write s data h; Some (Inr (), h) })"

text \<open>A closure \<open>FnOnce(&mut [u8]) -> R\<close> of the client: from the bytes it finds to the bytes it leaves
  and its result, \<open>None\<close> when it panics. It cannot change the length of the slice.\<close>

type_synonym 'r init = "u8 list \<Rightarrow> u8 list \<times> 'r option"

definition keeps_length :: "'r init \<Rightarrow> bool" where
  "keeps_length f \<longleftrightarrow> (\<forall>bs. length (fst (f bs)) = length bs)"

definition run_init :: "'r init \<Rightarrow> slice_mut \<Rightarrow> heap \<Rightarrow> ((panic + 'r) \<times> heap) option" where
  "run_init f s h = do {
     bs \<leftarrow> slice_bytes s h;
     let (bs', r) = f bs;
     h \<leftarrow> (if length bs' = length bs then slice_write s bs' h else None);
     Some (case r of None \<Rightarrow> Inl CallbackPanicked | Some v \<Rightarrow> Inr v, h)
   }"

section \<open>Counted references\<close>

text \<open>The values behind \<open>Arc\<close>s of one type are the cells of a table, each with its strong count; an
  \<open>Arc\<close> is the index of a cell. The count is zero once the value has been dropped, and a cell is
  never used again. A strong count is a natural number: the library aborts the process before the
  counter overflows.\<close>

definition get_cell :: "nat \<Rightarrow> ('a \<times> nat) list \<Rightarrow> ('a \<times> nat) option" where
  "get_cell j cells = (if j < length cells \<and> snd (cells ! j) \<noteq> 0 then Some (cells ! j) else None)"

definition live_cells :: "('a \<times> nat) list \<Rightarrow> 'a multiset" where
  "live_cells cells = mset (map fst (filter (\<lambda>(v, n). n \<noteq> 0) cells))"

lemma live_cells_Nil [simp]: "live_cells [] = {#}"
  by (simp add: live_cells_def)

lemma live_cells_append [simp]: "live_cells (xs @ ys) = live_cells xs + live_cells ys"
  by (simp add: live_cells_def)

lemma live_cells_single [simp]: "live_cells [(v, n)] = (if n = 0 then {#} else {#v#})"
  by (simp add: live_cells_def)

lemma get_cell_Some: "get_cell j cells = Some (v, n) \<longleftrightarrow> j < length cells \<and> cells ! j = (v, n) \<and> n \<noteq> 0"
  by (auto simp: get_cell_def)

lemma live_cells_split:
  assumes "j < length cells" and "cells ! j = (v, n)" and "n \<noteq> 0"
  obtains L where "live_cells cells = add_mset v L"
    and "\<And>m. live_cells (cells[j := (v, m)]) = (if m = 0 then L else add_mset v L)"
proof
  have eq: "cells = take j cells @ (v, n) # drop (Suc j) cells" using assms by (metis id_take_nth_drop)
  show "live_cells cells = add_mset v (live_cells (take j cells @ drop (Suc j) cells))"
    by (subst eq) (simp add: live_cells_def assms(3))
  show "live_cells (cells[j := (v, m)]) = (if m = 0 then live_cells (take j cells @ drop (Suc j) cells)
      else add_mset v (live_cells (take j cells @ drop (Suc j) cells)))" for m
    by (simp add: upd_conv_take_nth_drop assms(1) live_cells_def)
qed

lemma live_cells_two:
  assumes "get_cell i cells = Some (u, m)" and "get_cell j cells = Some (v, n)" and "i \<noteq> j"
  obtains L where "live_cells cells = add_mset u (add_mset v L)"
proof -
  have i: "i < length cells" "cells ! i = (u, m)" "m \<noteq> 0" and j: "j < length cells" "cells ! j = (v, n)" "n \<noteq> 0"
    using assms by (simp_all add: get_cell_Some)
  from live_cells_split [OF i] obtain L where L: "live_cells cells = add_mset u L"
    "live_cells (cells[i := (u, 0)]) = L" by metis
  have "(cells[i := (u, 0)]) ! j = (v, n)" "j < length (cells[i := (u, 0)])" using assms(3) j by simp_all
  from live_cells_split [OF this(2,1) j(3)] obtain K where "L = add_mset v K" using L(2) by metis
  with L(1) that show thesis by blast
qed

lemma live_cells_empty: "(\<And>j. j < length cells \<Longrightarrow> snd (cells ! j) = 0) \<Longrightarrow> live_cells cells = {#}"
  by (auto simp: live_cells_def in_set_conv_nth) (metis snd_conv)

lemma get_cell_live: "get_cell j cells = Some (v, n) \<Longrightarrow> v \<in># live_cells cells"
  by (elim get_cell_Some [THEN iffD1, elim_format] conjE) (auto elim!: live_cells_split)

section \<open>Lemmas on bytes and words\<close>

lemma length_ptr_to_bytes [simp]: "length (ptr_to_bytes p) = 8"
  by (simp add: ptr_to_bytes_def)

lemma ptr_bytes_step:
  "(ucast (ucast (drop_bit n p) :: u8) :: addr) OR push_bit 8 (drop_bit (n + 8) p) = drop_bit n p"
proof (rule bit_word_eqI)
  fix m assume m: "m < LENGTH(64)"
  show "bit ((ucast (ucast (drop_bit n p) :: u8) :: addr) OR push_bit 8 (drop_bit (n + 8) p)) m
      = bit (drop_bit n p) m"
  proof (cases "m < 8")
    case True
    then show ?thesis by (auto simp: bit_simps)
  next
    case False
    then have "n + 8 + (m - 8) = n + m" by simp
    with False m show ?thesis by (auto simp: bit_simps add.commute)
  qed
qed

lemmas ptr_bytes_steps =
  ptr_bytes_step [of 0, simplified] ptr_bytes_step [of 8, simplified]
  ptr_bytes_step [of 16, simplified] ptr_bytes_step [of 24, simplified]
  ptr_bytes_step [of 32, simplified] ptr_bytes_step [of 40, simplified]
  ptr_bytes_step [of 48, simplified]

lemma ptr_bytes_last: "(ucast (ucast (drop_bit 56 p) :: u8) :: addr) = drop_bit 56 p"
  by (rule bit_word_eqI) (auto simp: bit_simps dest: bit_imp_le_length)

lemma ptr_to_bytes_unfold:
  "ptr_to_bytes p =
     [ucast p, ucast (drop_bit 8 p), ucast (drop_bit 16 p), ucast (drop_bit 24 p),
      ucast (drop_bit 32 p), ucast (drop_bit 40 p), ucast (drop_bit 48 p), ucast (drop_bit 56 p)]"
  by (simp add: ptr_to_bytes_def upt_rec)

lemma bytes_to_ptr_to_bytes [simp]: "bytes_to_ptr (ptr_to_bytes p) = p"
  by (simp add: bytes_to_ptr_def ptr_to_bytes_unfold ptr_bytes_last ptr_bytes_steps)

lemma fetch_add_sub [atomic_simps]: "fetch_sub (fetch_add c n) n = c"
  by (simp add: fetch_add_def fetch_sub_def)

lemma fetch_sub_add [atomic_simps]: "fetch_add (fetch_sub c n) n = c"
  by (simp add: fetch_add_def fetch_sub_def)

lemma unat_usize_lt [simp]: "unat (a :: usize) < 18446744073709551616"
  using unsigned_less [of a, where ?'a = nat] by simp

lemma unat_minus_one_usize [simp]: "unat (- 1 :: usize) = 18446744073709551615"
  by (simp add: unsigned_minus_1_eq_mask mask_eq_exp_minus_1)

lemma unat_add_usize: "unat a + unat b < 2 ^ 64 \<Longrightarrow> unat (a + b :: usize) = unat a + unat b"
  by (simp add: unat_word_ariths)

lemma unat_sub_usize: "b \<le> a \<Longrightarrow> unat (a - b :: usize) = unat a - unat b"
  by (rule unat_sub)

lemma usize_saturating_add_le:
  assumes "unat b < 2 ^ 64 - 1"
  shows "usize_saturating_add a c \<le> b \<longleftrightarrow> unat a + unat c \<le> unat b"
proof (cases "unat a + unat c < 2 ^ 64")
  case True
  then have "unat (a + c) = unat a + unat c" by (rule unat_add_usize)
  with True show ?thesis by (simp add: usize_saturating_add_def word_le_nat_alt)
next
  case False
  with False assms show ?thesis
    by (auto simp: usize_saturating_add_def word_le_nat_alt not_less)
qed

lemma drop_bit_below: "a < 2 ^ 26 \<Longrightarrow> drop_bit 26 (a :: u32) = 0"
  by (simp add: drop_bit_eq_div div_word_less)

section \<open>Lemmas on memory\<close>

text \<open>Reads and writes at a block depend on that block only.\<close>

lemma ptr_read_other [heap_simps]: "p \<noteq> q \<Longrightarrow> ptr_read (h(q := b)) p = ptr_read h p"
  by (simp add: ptr_read_def)

lemma ptr_write_Some_iff:
  "ptr_write h p v = Some h' \<longleftrightarrow>
     (\<exists>bs. h p = Some bs \<and> aligned_to 8 p \<and> 8 \<le> length bs \<and>
           h' = h(p \<mapsto> ptr_to_bytes v @ drop 8 bs))"
  by (auto simp: ptr_write_def split: option.splits)

lemma ptr_read_write: "ptr_write h p v = Some h' \<Longrightarrow> ptr_read h' p = Some v"
  by (auto simp: ptr_write_Some_iff ptr_read_def)

lemma mem_read_Some_iff:
  "mem_read h p off len = Some xs \<longleftrightarrow>
     (\<exists>bs. h p = Some bs \<and> off + len \<le> length bs \<and> xs = take len (drop off bs))"
  by (auto simp: mem_read_def split: option.splits)

lemma mem_write_Some_iff:
  "mem_write h p off data = Some h' \<longleftrightarrow>
     (\<exists>bs. h p = Some bs \<and> off + length data \<le> length bs \<and>
           h' = h(p \<mapsto> take off bs @ data @ drop (off + length data) bs))"
  by (auto simp: mem_write_def split: option.splits)

lemma mem_read_other [heap_simps]: "p \<noteq> q \<Longrightarrow> mem_read (h(q := b)) p off len = mem_read h p off len"
  by (simp add: mem_read_def)

lemma mem_read_write_same:
  assumes "mem_write h p off data = Some h'"
  shows "mem_read h' p off (length data) = Some data"
  using assms by (auto simp: mem_write_Some_iff mem_read_def)

text \<open>Slices over a live block.\<close>

lemma slice_write_eq:
  assumes "h (sl_base s) = Some bs" and "sl_off s + length data \<le> length bs"
  shows "slice_write s data h
    = Some (h(sl_base s \<mapsto> take (sl_off s) bs @ data @ drop (sl_off s + length data) bs))"
  using assms by (auto simp: slice_write_def mem_write_def fun_upd_idem)

lemma slice_bytes_eq:
  assumes "h (sl_base s) = Some bs" and "sl_off s + sl_len s \<le> length bs"
  shows "slice_bytes s h = Some (take (sl_len s) (drop (sl_off s) bs))"
  using assms by (auto simp: slice_bytes_def mem_read_def)

lemma run_init_eq:
  assumes "h (sl_base s) = Some bs" and "sl_off s + sl_len s \<le> length bs" and "keeps_length f"
  shows "run_init f s h = Some (case snd (f (take (sl_len s) (drop (sl_off s) bs))) of
      None \<Rightarrow> Inl CallbackPanicked | Some v \<Rightarrow> Inr v,
    h(sl_base s \<mapsto> take (sl_off s) bs @ fst (f (take (sl_len s) (drop (sl_off s) bs)))
        @ drop (sl_off s + sl_len s) bs))"
proof -
  let ?xs = "take (sl_len s) (drop (sl_off s) bs)"
  have len: "length (fst (f ?xs)) = sl_len s" using assms(2,3) by (simp add: keeps_length_def)
  from slice_write_eq [where s = s and h = h and data = "fst (f ?xs)", OF assms(1)]
    slice_bytes_eq [where s = s and h = h, OF assms(1,2)] len assms(2)
  show ?thesis by (simp add: run_init_def case_prod_unfold Let_def)
qed

text \<open>A write leaves every byte range of the block that it does not meet unchanged.\<close>

lemma splice_before:
  "off + len \<le> i \<Longrightarrow> i \<le> length bs \<Longrightarrow>
   take len (drop off (take i bs @ data @ rest)) = take len (drop off bs)"
  by (auto simp: drop_take)

lemma splice_after:
  assumes "i + length data \<le> off" and "i + length data \<le> length bs"
  shows "drop off (take i bs @ data @ drop (i + length data) bs) = drop off bs"
proof -
  have "drop off (take i bs @ data @ drop (i + length data) bs)
      = drop (off - (i + length data)) (drop (i + length data) bs)"
    using assms by simp
  also have "\<dots> = drop off bs" using assms by simp
  finally show ?thesis .
qed

lemma mem_read_write_disjoint:
  assumes "mem_write h p i data = Some h'"
    and "off + len \<le> i \<or> i + length data \<le> off"
  shows "mem_read h' p off len = mem_read h p off len"
proof -
  from assms(1) obtain bs where bs: "h p = Some bs" and le: "i + length data \<le> length bs"
    and h': "h' = h(p \<mapsto> take i bs @ data @ drop (i + length data) bs)"
    by (auto simp: mem_write_Some_iff)
  have len: "length (take i bs @ data @ drop (i + length data) bs) = length bs"
    using le by simp
  have "take len (drop off (take i bs @ data @ drop (i + length data) bs)) = take len (drop off bs)"
    using assms(2)
  proof
    assume "off + len \<le> i"
    with le show ?thesis by (intro splice_before) simp_all
  next
    assume "i + length data \<le> off"
    with le show ?thesis by (simp only: splice_after)
  qed
  with bs h' len show ?thesis by (simp add: mem_read_def)
qed

section \<open>Lemmas on lists\<close>

definition remove_nth :: "nat \<Rightarrow> 'a list \<Rightarrow> 'a list" where
  "remove_nth i xs = take i xs @ drop (Suc i) xs"

lemma mset_remove_nth: "i < length xs \<Longrightarrow> mset xs = add_mset (xs ! i) (mset (remove_nth i xs))"
  unfolding remove_nth_def by (subst id_take_nth_drop [of i xs]) simp_all

lemma mset_update_nth: "i < length xs \<Longrightarrow> mset (xs[i := x]) = add_mset x (mset (remove_nth i xs))"
  by (simp add: upd_conv_take_nth_drop remove_nth_def)

section \<open>Lemmas on multisets\<close>

lemma image_mset_apart: "y \<notin># image_mset f Q \<Longrightarrow> q \<in># Q \<Longrightarrow> f q \<noteq> y"
  by (metis image_eqI set_image_mset)

lemma count_le_one_apart:
  assumes "count (A + B) x \<le> 1" and "x \<in># B"
  shows "x \<notin># A"
proof
  assume "x \<in># A"
  then have "0 < count A x" and "0 < count B x" using assms(2) by simp_all
  with assms(1) show False by simp
qed

section \<open>Sums over a list of threads\<close>

definition tally :: "('a \<Rightarrow> 'b::comm_monoid_add) \<Rightarrow> 'a list \<Rightarrow> 'b" where
  "tally f ts = sum_list (map f ts)"

lemma tally_simps [simp]: "tally f [] = 0" "tally f (t # ts) = f t + tally f ts" "tally f (ts @ us) = tally f ts + tally f us"
  by (simp_all add: tally_def)

lemma tally_update:
  assumes "i < length ts"
  shows "tally f ts = f (ts ! i) + tally f (remove_nth i ts)"
    and "tally f (ts[i := pc]) = f pc + tally f (remove_nth i ts)"
proof -
  show "tally f ts = f (ts ! i) + tally f (remove_nth i ts)"
    by (subst id_take_nth_drop [OF assms]) (simp add: remove_nth_def ac_simps)
  show "tally f (ts[i := pc]) = f pc + tally f (remove_nth i ts)"
    by (simp add: upd_conv_take_nth_drop [OF assms] remove_nth_def ac_simps)
qed

lemma tally_mem: "pc \<in> set ts \<Longrightarrow> x \<in># f pc \<Longrightarrow> x \<in># tally f ts"
  by (induction ts) auto

lemma set_update_nth: "i < length ts \<Longrightarrow> set (ts[i := pc]) = insert pc (set (remove_nth i ts))"
  by (metis mset_update_nth set_mset_add_mset_insert set_mset_mset)

lemma set_remove_nth_subset: "set (remove_nth i ts) \<subseteq> set ts"
  by (auto simp: remove_nth_def dest: in_set_takeD in_set_dropD)

lemma sum_list_update_less:
  "i < length xs \<Longrightarrow> n < snd (xs ! i) \<Longrightarrow> sum_list (map snd (xs[i := (v, n)])) < sum_list (map snd xs :: nat list)"
  by (induction xs arbitrary: i) (auto split: nat.split)

end
