(* ===== verification/Tenants.thy ===== *)
theory Tenants
  imports Prelude
begin

text \<open>
  \<open>src/tenant.rs\<close>: tenant identifiers, the atomic counters of a tenant and the handle that shares
  them. \<open>tenant_stats\<close> is the struct \<open>TenantStats\<close>, one field per \<open>AtomicU64\<close>; the operations
  \<open>record_allocate\<close>, \<open>record_release\<close>, \<open>record_chunk_allocate\<close> and \<open>record_chunk_release\<close> apply the
  atomic updates in the order of the source.

  Two views of the counters are related to that model: a ledger of live allocations, which the
  counters refine when the operations run one after another, and a machine that interleaves the
  single atomic accesses of \<open>record_allocate\<close> with those of other threads.
\<close>

section \<open>Counters and handles\<close>

record tenant_stats =
  t_bytes_in_use :: u64
  t_pages_in_use :: u64
  t_total_pages_allocated :: u64
  t_peak_bytes_in_use :: u64
  t_chunks_in_use :: u64
  t_total_chunks_allocated :: u64

definition tenant_stats_default :: tenant_stats where
  "tenant_stats_default = \<lparr>t_bytes_in_use = 0, t_pages_in_use = 0, t_total_pages_allocated = 0,
     t_peak_bytes_in_use = 0, t_chunks_in_use = 0, t_total_chunks_allocated = 0\<rparr>"

definition record_allocate :: "u64 \<Rightarrow> tenant_stats \<Rightarrow> tenant_stats" where
  "record_allocate page_bytes s =
     (let s = s\<lparr>t_total_pages_allocated := fetch_add (t_total_pages_allocated s) 1\<rparr>;
          s = s\<lparr>t_pages_in_use := fetch_add (t_pages_in_use s) 1\<rparr>;
          new_bytes = t_bytes_in_use s + page_bytes;
          s = s\<lparr>t_bytes_in_use := fetch_add (t_bytes_in_use s) page_bytes\<rparr>
      in if new_bytes > t_peak_bytes_in_use s then s\<lparr>t_peak_bytes_in_use := new_bytes\<rparr> else s)"

definition record_release :: "u64 \<Rightarrow> tenant_stats \<Rightarrow> tenant_stats" where
  "record_release page_bytes s =
     (let s = s\<lparr>t_bytes_in_use := fetch_sub (t_bytes_in_use s) page_bytes\<rparr>
      in s\<lparr>t_pages_in_use := fetch_sub (t_pages_in_use s) 1\<rparr>)"

definition record_chunk_allocate :: "u64 \<Rightarrow> tenant_stats \<Rightarrow> tenant_stats" where
  "record_chunk_allocate chunk_bytes s =
     (let s = s\<lparr>t_total_chunks_allocated := fetch_add (t_total_chunks_allocated s) 1\<rparr>;
          s = s\<lparr>t_chunks_in_use := fetch_add (t_chunks_in_use s) 1\<rparr>;
          new_bytes = t_bytes_in_use s + chunk_bytes;
          s = s\<lparr>t_bytes_in_use := fetch_add (t_bytes_in_use s) chunk_bytes\<rparr>
      in if new_bytes > t_peak_bytes_in_use s then s\<lparr>t_peak_bytes_in_use := new_bytes\<rparr> else s)"

definition record_chunk_release :: "u64 \<Rightarrow> tenant_stats \<Rightarrow> tenant_stats" where
  "record_chunk_release chunk_bytes s =
     (let s = s\<lparr>t_bytes_in_use := fetch_sub (t_bytes_in_use s) chunk_bytes\<rparr>
      in s\<lparr>t_chunks_in_use := fetch_sub (t_chunks_in_use s) 1\<rparr>)"

text \<open>A tenant identifier is its text. The cells behind \<open>Arc<TenantStats>\<close> live in a table indexed
  by a cell number: a handle is the number, cloning a handle copies it, and every clone reads and
  writes the same cell.\<close>

datatype tenant_id = TenantId string

fun as_str :: "tenant_id \<Rightarrow> string" where
  "as_str (TenantId s) = s"

definition tenant_id_from :: "string \<Rightarrow> tenant_id" where
  "tenant_id_from s = TenantId s"

record tenant =
  tenant_id :: tenant_id
  tenant_cell :: nat

type_synonym stats_table = "nat \<Rightarrow> tenant_stats"

text \<open>\<open>Tenant::new\<close>: the new cell is a number not handed out before; it starts at zero.\<close>

definition tenant_new :: "nat \<Rightarrow> string \<Rightarrow> stats_table \<Rightarrow> tenant \<times> stats_table" where
  "tenant_new fresh s tab =
     (\<lparr>tenant_id = tenant_id_from s, tenant_cell = fresh\<rparr>, tab(fresh := tenant_stats_default))"

definition tenant_clone :: "tenant \<Rightarrow> tenant" where
  "tenant_clone t = t"

definition tenant_stats_of :: "tenant \<Rightarrow> stats_table \<Rightarrow> tenant_stats" where
  "tenant_stats_of t tab = tab (tenant_cell t)"

section \<open>The ledger specification\<close>

text \<open>What the counters promise: the live allocations of the tenant, page allocations and chunk
  allocations apart, the lifetime counts, and the highest total ever live.\<close>

datatype tenant_event = PageAlloc u64 | PageRelease u64 | ChunkAlloc u64 | ChunkRelease u64

fun apply_event :: "tenant_event \<Rightarrow> tenant_stats \<Rightarrow> tenant_stats" where
  "apply_event (PageAlloc b) s = record_allocate b s"
| "apply_event (PageRelease b) s = record_release b s"
| "apply_event (ChunkAlloc b) s = record_chunk_allocate b s"
| "apply_event (ChunkRelease b) s = record_chunk_release b s"

record ledger =
  live_pages :: "u64 multiset"
  live_chunks :: "u64 multiset"
  pages_total :: nat
  chunks_total :: nat
  peak_bytes :: nat

definition empty_ledger :: ledger where
  "empty_ledger = \<lparr>live_pages = {#}, live_chunks = {#}, pages_total = 0, chunks_total = 0,
     peak_bytes = 0\<rparr>"

definition ledger_bytes :: "ledger \<Rightarrow> nat" where
  "ledger_bytes l = sum_mset (image_mset unat (live_pages l)) + sum_mset (image_mset unat (live_chunks l))"

definition raise_peak :: "ledger \<Rightarrow> ledger" where
  "raise_peak l = l\<lparr>peak_bytes := max (peak_bytes l) (ledger_bytes l)\<rparr>"

fun ledger_event :: "tenant_event \<Rightarrow> ledger \<Rightarrow> ledger option" where
  "ledger_event (PageAlloc b) l =
     Some (raise_peak (l\<lparr>live_pages := add_mset b (live_pages l), pages_total := Suc (pages_total l)\<rparr>))"
| "ledger_event (PageRelease b) l =
     (if b \<in># live_pages l then Some (l\<lparr>live_pages := live_pages l - {#b#}\<rparr>) else None)"
| "ledger_event (ChunkAlloc b) l =
     Some (raise_peak (l\<lparr>live_chunks := add_mset b (live_chunks l), chunks_total := Suc (chunks_total l)\<rparr>))"
| "ledger_event (ChunkRelease b) l =
     (if b \<in># live_chunks l then Some (l\<lparr>live_chunks := live_chunks l - {#b#}\<rparr>) else None)"

fun ledger_run :: "tenant_event list \<Rightarrow> ledger \<Rightarrow> ledger option" where
  "ledger_run [] l = Some l"
| "ledger_run (e # es) l = do { l' \<leftarrow> ledger_event e l; ledger_run es l' }"

definition counters_match :: "ledger \<Rightarrow> tenant_stats \<Rightarrow> bool" where
  "counters_match l s \<longleftrightarrow>
     t_bytes_in_use s = of_nat (ledger_bytes l) \<and>
     t_pages_in_use s = of_nat (size (live_pages l)) \<and>
     t_chunks_in_use s = of_nat (size (live_chunks l)) \<and>
     t_total_pages_allocated s = of_nat (pages_total l) \<and>
     t_total_chunks_allocated s = of_nat (chunks_total l) \<and>
     ledger_bytes l \<le> peak_bytes l \<and>
     t_peak_bytes_in_use s = of_nat (peak_bytes l)"

section \<open>Atomic accesses, interleaved\<close>

text \<open>The five accesses of \<open>record_allocate\<close>, one per step: three \<open>fetch_add\<close>, the load of the
  peak, and the store of the peak when the load saw a smaller value.\<close>

datatype alloc_pc = AddTotal | AddPages | AddBytes | LoadPeak u64 | StorePeak u64 | Finished

fun alloc_step :: "u64 \<Rightarrow> alloc_pc \<Rightarrow> tenant_stats \<Rightarrow> alloc_pc \<times> tenant_stats" where
  "alloc_step b AddTotal s =
     (AddPages, s\<lparr>t_total_pages_allocated := fetch_add (t_total_pages_allocated s) 1\<rparr>)"
| "alloc_step b AddPages s = (AddBytes, s\<lparr>t_pages_in_use := fetch_add (t_pages_in_use s) 1\<rparr>)"
| "alloc_step b AddBytes s =
     (LoadPeak (t_bytes_in_use s + b), s\<lparr>t_bytes_in_use := fetch_add (t_bytes_in_use s) b\<rparr>)"
| "alloc_step b (LoadPeak nb) s = (if nb > t_peak_bytes_in_use s then StorePeak nb else Finished, s)"
| "alloc_step b (StorePeak nb) s = (Finished, s\<lparr>t_peak_bytes_in_use := nb\<rparr>)"
| "alloc_step b Finished s = (Finished, s)"

fun run_alone :: "nat \<Rightarrow> u64 \<Rightarrow> alloc_pc \<Rightarrow> tenant_stats \<Rightarrow> alloc_pc \<times> tenant_stats" where
  "run_alone 0 b pc s = (pc, s)"
| "run_alone (Suc n) b pc s = (case alloc_step b pc s of (pc', s') \<Rightarrow> run_alone n b pc' s')"

text \<open>Two threads allocate for the same tenant; the schedule says which one moves.\<close>

fun run_two :: "bool list \<Rightarrow> u64 \<Rightarrow> u64 \<Rightarrow> alloc_pc \<Rightarrow> alloc_pc \<Rightarrow> tenant_stats
    \<Rightarrow> alloc_pc \<times> alloc_pc \<times> tenant_stats" where
  "run_two [] b1 b2 pc1 pc2 s = (pc1, pc2, s)"
| "run_two (first # sched) b1 b2 pc1 pc2 s =
     (if first then (case alloc_step b1 pc1 s of (pc, s') \<Rightarrow> run_two sched b1 b2 pc pc2 s')
      else (case alloc_step b2 pc2 s of (pc, s') \<Rightarrow> run_two sched b1 b2 pc1 pc s'))"

text \<open>One allocating thread, and any number of threads that release: the comment in
  \<open>record_allocate\<close> rests on this discipline.\<close>

inductive single_writer :: "alloc_pc \<times> tenant_stats \<Rightarrow> bool" where
  sw_init: "single_writer (Finished, tenant_stats_default)"
| sw_begin: "single_writer (Finished, s) \<Longrightarrow> single_writer (AddTotal, s)"
| sw_alloc: "single_writer (pc, s) \<Longrightarrow> single_writer (alloc_step b pc s)"
| sw_release: "single_writer (pc, s) \<Longrightarrow> b \<le> t_bytes_in_use s \<Longrightarrow>
     single_writer (pc, s\<lparr>t_bytes_in_use := fetch_sub (t_bytes_in_use s) b\<rparr>)"
| sw_release_page: "single_writer (pc, s) \<Longrightarrow>
     single_writer (pc, s\<lparr>t_pages_in_use := fetch_sub (t_pages_in_use s) 1\<rparr>)"

definition peak_covers :: "alloc_pc \<times> tenant_stats \<Rightarrow> bool" where
  "peak_covers st = (case st of (pc, s) \<Rightarrow>
     (case pc of
        LoadPeak nb \<Rightarrow> t_bytes_in_use s \<le> max nb (t_peak_bytes_in_use s)
      | StorePeak nb \<Rightarrow> t_bytes_in_use s \<le> nb \<and> t_peak_bytes_in_use s \<le> nb
      | _ \<Rightarrow> t_bytes_in_use s \<le> t_peak_bytes_in_use s))"

section \<open>Lemmas\<close>

lemmas record_defs =
  record_allocate_def record_release_def record_chunk_allocate_def record_chunk_release_def

lemma ledger_bytes_simps [simp]:
  "ledger_bytes (l\<lparr>live_pages := add_mset b (live_pages l), pages_total := n\<rparr>) = unat b + ledger_bytes l"
  "ledger_bytes (l\<lparr>live_chunks := add_mset b (live_chunks l), chunks_total := n\<rparr>) = unat b + ledger_bytes l"
  "ledger_bytes (l\<lparr>peak_bytes := m\<rparr>) = ledger_bytes l"
  by (simp_all add: ledger_bytes_def)

lemma ledger_bytes_remove_page:
  "b \<in># live_pages l \<Longrightarrow> ledger_bytes l = unat b + ledger_bytes (l\<lparr>live_pages := live_pages l - {#b#}\<rparr>)"
  by (auto simp: ledger_bytes_def dest!: multi_member_split)

lemma ledger_bytes_remove_chunk:
  "b \<in># live_chunks l \<Longrightarrow> ledger_bytes l = unat b + ledger_bytes (l\<lparr>live_chunks := live_chunks l - {#b#}\<rparr>)"
  by (auto simp: ledger_bytes_def dest!: multi_member_split)

lemma of_nat_less_u64:
  "m < 2 ^ 64 \<Longrightarrow> n < 2 ^ 64 \<Longrightarrow> (of_nat m :: u64) < of_nat n \<longleftrightarrow> m < n"
  by (simp add: word_less_nat_alt unat_of_nat)

text \<open>The bytes and the peak after an allocation, as numbers.\<close>

lemma raised_peak:
  assumes "max p (a + b) < 2 ^ 64"
  shows "(if (of_nat p :: u64) < of_nat a + of_nat b then of_nat a + of_nat b else of_nat p)
       = (of_nat (max p (a + b)) :: u64)"
proof -
  have "(of_nat p :: u64) < of_nat (a + b) \<longleftrightarrow> p < a + b"
    using assms by (intro of_nat_less_u64) auto
  then show ?thesis by (auto simp: max_def)
qed

lemma ledger_event_sim:
  assumes "counters_match l s" and "ledger_event e l = Some l'" and "peak_bytes l' < 2 ^ 64"
  shows "counters_match l' (apply_event e s)"
proof (cases e)
  case (PageAlloc b)
  with assms show ?thesis
    using raised_peak [of "peak_bytes l" "ledger_bytes l" "unat b"]
    by (auto simp: counters_match_def raise_peak_def record_defs fetch_add_def Let_def max_def
        algebra_simps split: if_splits)
next
  case (PageRelease b)
  then have "b \<in># live_pages l" using assms by (auto split: if_splits)
  note bytes = ledger_bytes_remove_page [OF this] and card = size_Diff_singleton [OF this]
  have "0 < size (live_pages l)" using \<open>b \<in># live_pages l\<close> by (auto simp: nonempty_has_size [symmetric])
  with PageRelease assms bytes card show ?thesis
    by (auto simp: counters_match_def record_defs fetch_sub_def Let_def of_nat_diff split: if_splits)
next
  case (ChunkAlloc b)
  with assms show ?thesis
    using raised_peak [of "peak_bytes l" "ledger_bytes l" "unat b"]
    by (auto simp: counters_match_def raise_peak_def record_defs fetch_add_def Let_def max_def
        algebra_simps split: if_splits)
next
  case (ChunkRelease b)
  then have "b \<in># live_chunks l" using assms by (auto split: if_splits)
  note bytes = ledger_bytes_remove_chunk [OF this] and card = size_Diff_singleton [OF this]
  have "0 < size (live_chunks l)" using \<open>b \<in># live_chunks l\<close> by (auto simp: nonempty_has_size [symmetric])
  with ChunkRelease assms bytes card show ?thesis
    by (auto simp: counters_match_def record_defs fetch_sub_def Let_def of_nat_diff split: if_splits)
qed

lemma ledger_event_peak_mono: "ledger_event e l = Some l' \<Longrightarrow> peak_bytes l \<le> peak_bytes l'"
  by (cases e) (auto simp: raise_peak_def split: if_splits)

lemma ledger_run_peak_mono: "ledger_run es l = Some l' \<Longrightarrow> peak_bytes l \<le> peak_bytes l'"
proof (induction es arbitrary: l)
  case (Cons e es)
  then obtain l1 where "ledger_event e l = Some l1" and "ledger_run es l1 = Some l'"
    by (auto simp: bind_eq_Some_conv)
  with Cons.IH show ?case by (blast dest: ledger_event_peak_mono intro: le_trans)
qed simp

lemma ledger_run_sim:
  assumes "counters_match l s" and "ledger_run es l = Some l'" and "peak_bytes l' < 2 ^ 64"
  shows "counters_match l' (fold apply_event es s)"
  using assms
proof (induction es arbitrary: l s)
  case (Cons e es)
  then obtain l1 where e: "ledger_event e l = Some l1" and run: "ledger_run es l1 = Some l'"
    by (auto simp: bind_eq_Some_conv)
  from run Cons.prems(3) have "peak_bytes l1 < 2 ^ 64"
    by (blast dest: ledger_run_peak_mono intro: le_less_trans)
  with e Cons.prems(1) have "counters_match l1 (apply_event e s)"
    by (intro ledger_event_sim)
  with run Cons.prems(3) Cons.IH show ?case by simp
qed simp

lemma counters_match_init: "counters_match empty_ledger tenant_stats_default"
  by (simp add: counters_match_def empty_ledger_def tenant_stats_default_def ledger_bytes_def)

lemma alloc_step_peak_covers: "peak_covers (pc, s) \<Longrightarrow> peak_covers (alloc_step b pc s)"
  by (cases pc) (auto simp: peak_covers_def fetch_add_def max_def split: if_splits)

lemma release_peak_covers:
  "peak_covers (pc, s) \<Longrightarrow> b \<le> t_bytes_in_use s \<Longrightarrow>
   peak_covers (pc, s\<lparr>t_bytes_in_use := fetch_sub (t_bytes_in_use s) b\<rparr>)"
  using word_sub_le [of b "t_bytes_in_use s"]
  by (cases pc) (auto simp: peak_covers_def fetch_sub_def max_def intro: order_trans)

lemma single_writer_peak_covers: "single_writer st \<Longrightarrow> peak_covers st"
proof (induction rule: single_writer.induct)
  case (sw_alloc pc s b)
  then show ?case by (intro alloc_step_peak_covers)
next
  case (sw_release pc s b)
  then show ?case by (intro release_peak_covers)
qed (auto simp: peak_covers_def tenant_stats_default_def split: alloc_pc.splits)

section \<open>Properties\<close>

text \<open>C35: Whatever sequence of allocations and matching releases a tenant goes through, its counters
  are those of the ledger: bytes in use is the sum of the live sizes, the page and chunk counters
  count live and lifetime allocations, and the peak is the highest total that was ever live, as long
  as that total fits in 64 bits.\<close>

theorem tenant_counters_refine_ledger:
  assumes "ledger_run es empty_ledger = Some l" and "peak_bytes l < 2 ^ 64"
  shows "unat (t_bytes_in_use (fold apply_event es tenant_stats_default)) = ledger_bytes l
    \<and> unat (t_peak_bytes_in_use (fold apply_event es tenant_stats_default)) = peak_bytes l
    \<and> t_pages_in_use (fold apply_event es tenant_stats_default) = of_nat (size (live_pages l))
    \<and> t_chunks_in_use (fold apply_event es tenant_stats_default) = of_nat (size (live_chunks l))
    \<and> t_total_pages_allocated (fold apply_event es tenant_stats_default) = of_nat (pages_total l)
    \<and> t_total_chunks_allocated (fold apply_event es tenant_stats_default) = of_nat (chunks_total l)"
proof -
  have m: "counters_match l (fold apply_event es tenant_stats_default)"
    using counters_match_init assms by (rule ledger_run_sim)
  then have "ledger_bytes l < 2 ^ 64"
    using assms(2) by (auto simp: counters_match_def)
  with m assms(2) show ?thesis
    by (simp add: counters_match_def unat_of_nat)
qed

theorem tenant_counters_refine_ledger_witness:
  "unat (t_peak_bytes_in_use (fold apply_event
     [PageAlloc 4096, ChunkAlloc 64, PageRelease 4096, ChunkAlloc 8] tenant_stats_default)) = 4160
   \<and> unat (t_bytes_in_use (fold apply_event
     [PageAlloc 4096, ChunkAlloc 64, PageRelease 4096, ChunkAlloc 8] tenant_stats_default)) = 72"
proof -
  let ?es = "[PageAlloc 4096, ChunkAlloc 64, PageRelease 4096, ChunkAlloc 8]"
  let ?l = "\<lparr>live_pages = {#}, live_chunks = {#8, 64#}, pages_total = 1, chunks_total = 2,
     peak_bytes = 4160\<rparr>"
  have run: "ledger_run ?es empty_ledger = Some ?l"
    by (simp add: empty_ledger_def raise_peak_def ledger_bytes_def)
  show ?thesis
    using tenant_counters_refine_ledger [OF run] by (simp add: ledger_bytes_def)
qed

text \<open>The five atomic accesses of \<open>record_allocate\<close>, run without interference, finish and have
  the effect of the sequential operation.\<close>

theorem record_allocate_atomic_steps:
  "run_alone 5 b AddTotal s = (Finished, record_allocate b s)"
  by (simp add: numeral_eq_Suc record_allocate_def fetch_add_def Let_def)

text \<open>With one allocating thread, and releases by any threads at any moment, the recorded peak
  covers the bytes in use whenever no allocation is under way.\<close>

theorem single_writer_peak:
  assumes "single_writer (Finished, s)"
  shows "t_bytes_in_use s \<le> t_peak_bytes_in_use s"
  using single_writer_peak_covers [OF assms] by (simp add: peak_covers_def)

text \<open>When two workers allocate for clones of one tenant, the load and store of the peak can interleave so that the
  larger peak is overwritten: for any two page sizes and any state of the tenant whose peak is not above what is in
  use, both allocations can finish with the bytes of both in use and the peak that of the first alone.\<close>

theorem peak_lost_update:
  assumes "t_peak_bytes_in_use s \<le> t_bytes_in_use s" and "0 < b1" and "0 < b2"
    and "unat (t_bytes_in_use s) + unat b1 + unat b2 < 2 ^ 64"
  shows "\<exists>sched s'. run_two sched b1 b2 AddTotal AddTotal s = (Finished, Finished, s')
     \<and> t_bytes_in_use s' = t_bytes_in_use s + b1 + b2 \<and> t_peak_bytes_in_use s' = t_bytes_in_use s + b1
     \<and> t_peak_bytes_in_use s' < t_bytes_in_use s'"
proof -
  let ?sched = "[True, True, True, False, False, False, False, True, False, True]"
  have 1: "unat (t_bytes_in_use s + b1) = unat (t_bytes_in_use s) + unat b1" using assms(4) by (intro unat_add_usize) simp
  have 2: "unat (t_bytes_in_use s + b1 + b2) = unat (t_bytes_in_use s) + unat b1 + unat b2"
    using assms(4) 1 unat_add_usize [of "t_bytes_in_use s + b1" b2] by simp
  have p: "t_peak_bytes_in_use s < t_bytes_in_use s + b1" "t_peak_bytes_in_use s < t_bytes_in_use s + b1 + b2"
    "t_bytes_in_use s + b1 < t_bytes_in_use s + b1 + b2"
    using assms(1-3) 1 2 by (simp_all add: word_less_nat_alt word_le_nat_alt)
  show ?thesis by (intro exI [of _ ?sched]) (simp add: fetch_add_def p)
qed

end
