(* ===== verification/Sources.thy ===== *)
theory Sources
  imports Prelude
begin

text \<open>
  \<open>src/source.rs\<close> and \<open>src/mmap.rs\<close>: the backing memory of a pool.

  \<open>page_source\<close> is a trait object \<open>Box<dyn PageSource>\<close>, one field per method of the trait; the
  locale \<open>page_source_contract\<close> is the \<open># Safety\<close> section of the trait. \<open>heap_vtable\<close>, \<open>mmap_vtable\<close>
  and \<open>huge_vtable\<close> are the implementations the crate ships, and each of them is shown to keep the
  contract. Where the global allocator places a block is a parameter (a \<open>placement\<close>); a placement
  that is null or unusable makes the allocation fail. Memory is structured in blocks: a placement chooses the address
  of a new block, blocks at different addresses are separate, and a block has its bytes and no layout, so that \<open>dealloc\<close>
  compares the size and the alignment of the layout it is given with those of the block. The system calls behind \<open>libc\<close> are parameters
  too, a record \<open>os\<close>; what POSIX promises of them is the locale \<open>mmap_os\<close>.
\<close>

section \<open>Layouts and the global allocator\<close>

definition is_power_of_two :: "usize \<Rightarrow> bool" where
  "is_power_of_two w = list_ex (\<lambda>k. w = push_bit k 1) [0..<64]"

record layout =
  l_size :: usize
  l_align :: usize

text \<open>\<open>Layout::from_size_align\<close>: the alignment is a power of two and the size, rounded up to it,
  does not exceed \<open>isize::MAX\<close>.\<close>

definition from_size_align :: "usize \<Rightarrow> usize \<Rightarrow> panic + layout" where
  "from_size_align sz align =
     (if is_power_of_two align \<and> unat sz + unat align \<le> isize_max + 1
      then Inr \<lparr>l_size = sz, l_align = align\<rparr> else Inl LayoutError)"

type_synonym placement = "heap \<Rightarrow> layout \<Rightarrow> addr"

definition placeable :: "heap \<Rightarrow> layout \<Rightarrow> addr \<Rightarrow> bool" where
  "placeable h l p \<longleftrightarrow> p \<noteq> 0 \<and> h p = None \<and> aligned_to (unat (l_align l)) p
     \<and> unat (l_size l) \<le> isize_max \<and> unat p + unat (l_size l) \<le> 2 ^ 64"

text \<open>\<open>std::alloc::alloc_zeroed\<close> returns null or a fresh zeroed block that fits the layout;
  \<open>std::alloc::dealloc\<close> is defined for a live block of that layout only.\<close>

definition alloc_zeroed :: "placement \<Rightarrow> layout \<Rightarrow> heap \<Rightarrow> addr \<times> heap" where
  "alloc_zeroed ga l h =
     (let p = ga h l
      in if placeable h l p then (p, h(p \<mapsto> replicate (unat (l_size l)) 0)) else (0, h))"

definition dealloc :: "addr \<Rightarrow> layout \<Rightarrow> heap \<Rightarrow> heap option" where
  "dealloc p l h = (case h p of
      None \<Rightarrow> None
    | Some bs \<Rightarrow> if length bs = unat (l_size l) \<and> aligned_to (unat (l_align l)) p
        then Some (h(p := None)) else None)"

section \<open>The trait object and its contract\<close>

record page_source =
  src_page_size :: usize
  src_allocate :: "heap \<Rightarrow> (panic + addr) \<times> heap"
  src_release :: "addr \<Rightarrow> heap \<Rightarrow> heap option"
  src_prefault :: "addr \<Rightarrow> heap \<Rightarrow> heap option"

text \<open>The pointers that a call of \<open>allocate\<close> on the source can return. \<open>release\<close> and \<open>prefault\<close> are promised for live
  pages at such pointers only.\<close>

definition src_produces :: "page_source \<Rightarrow> addr \<Rightarrow> bool" where
  "src_produces src p \<longleftrightarrow> (\<exists>h h'. src_allocate src h = (Inr p, h'))"

locale page_source_contract =
  fixes src :: page_source
  assumes allocate_ok: "src_allocate src h = (Inr p, h') \<Longrightarrow>
      p \<noteq> 0 \<and> h p = None \<and> aligned_to 8 p
      \<and> unat (src_page_size src) \<le> isize_max \<and> unat p + unat (src_page_size src) \<le> 2 ^ 64
      \<and> h' = h(p \<mapsto> replicate (unat (src_page_size src)) 0)"
    and allocate_fail: "src_allocate src h = (Inl e, h') \<Longrightarrow> h' = h"
    and release_ok: "src_produces src p \<Longrightarrow> h p = Some bs \<Longrightarrow> length bs = unat (src_page_size src) \<Longrightarrow>
      src_release src p h = Some (h(p := None))"
    and prefault_ok: "src_produces src p \<Longrightarrow> h p = Some bs \<Longrightarrow> length bs = unat (src_page_size src) \<Longrightarrow> length bs \<le> isize_max \<Longrightarrow>
      \<exists>bs'. src_prefault src p h = Some (h(p \<mapsto> bs')) \<and> length bs' = length bs"

section \<open>HeapSource\<close>

record heap_source =
  hs_page_size :: usize
  hs_layout :: layout

text \<open>\<open>size_of::<*mut u8>()\<close> and \<open>align_of::<*mut u8>()\<close>.\<close>

definition ptr_size :: usize where
  "ptr_size = 8"

definition heap_source_new :: "usize \<Rightarrow> panic + heap_source" where
  "heap_source_new page_size =
     (if \<not> page_size \<ge> ptr_size then Inl AssertFailed
      else let align = max ptr_size 8
           in case from_size_align page_size align of
                Inl e \<Rightarrow> Inl e
              | Inr layout \<Rightarrow> Inr \<lparr>hs_page_size = page_size, hs_layout = layout\<rparr>)"

definition heap_allocate :: "placement \<Rightarrow> heap_source \<Rightarrow> heap \<Rightarrow> (panic + addr) \<times> heap" where
  "heap_allocate ga s h =
     (case alloc_zeroed ga (hs_layout s) h of
        (ptr, h') \<Rightarrow> if ptr = 0 then (Inl AllocError, h') else (Inr ptr, h'))"

definition heap_release :: "heap_source \<Rightarrow> addr \<Rightarrow> heap \<Rightarrow> heap option" where
  "heap_release s ptr h = dealloc ptr (hs_layout s) h"

text \<open>The default method of the trait.\<close>

definition default_prefault :: "addr \<Rightarrow> heap \<Rightarrow> heap option" where
  "default_prefault ptr h = Some h"

definition heap_vtable :: "placement \<Rightarrow> heap_source \<Rightarrow> page_source" where
  "heap_vtable ga s = \<lparr>src_page_size = hs_page_size s, src_allocate = heap_allocate ga s,
     src_release = heap_release s, src_prefault = default_prefault\<rparr>"

section \<open>The operating system\<close>

text \<open>\<open>madvise\<close> returns its result code and the error number it leaves in \<open>errno\<close>.\<close>

datatype target_os = Linux | Macos | OtherUnix

record os =
  os_target :: target_os
  os_sysconf_pagesize :: int
  os_mmap :: "usize \<Rightarrow> u32 \<Rightarrow> u32 \<Rightarrow> heap \<Rightarrow> addr \<times> heap"
  os_munmap :: "addr \<Rightarrow> usize \<Rightarrow> heap \<Rightarrow> int \<times> heap"
  os_madvise :: "addr \<Rightarrow> usize \<Rightarrow> u32 \<Rightarrow> heap \<Rightarrow> (int \<times> int) \<times> heap"
  os_prot_read :: u32
  os_prot_write :: u32
  os_map_anonymous :: u32
  os_map_private :: u32
  os_map_hugetlb :: u32
  os_madv_dontneed :: u32
  os_madv_free_reusable :: u32

definition map_failed :: addr where
  "map_failed = - 1"

definition os_page_size :: "os \<Rightarrow> usize" where
  "os_page_size os =
     (let sz = os_sysconf_pagesize os in if sz \<le> 0 then 4096 else of_int sz)"

text \<open>What POSIX promises of anonymous private mappings that are readable and writable: a mapping starts at a multiple
  of the page size, and \<open>munmap\<close> removes a whole mapping that an earlier call of \<open>mmap\<close> returned, if its length is a
  multiple of the page size.\<close>

locale mmap_os =
  fixes os :: os
  assumes sysconf_range: "os_sysconf_pagesize os < 2 ^ 63"
    and page_multiple: "unat (os_page_size os) mod 8 = 0"
    and mmap_ok: "os_mmap os len prot flags h = (p, h') \<Longrightarrow> p \<noteq> map_failed \<Longrightarrow>
      prot = os_prot_read os OR os_prot_write os \<Longrightarrow>
      flags AND (os_map_anonymous os OR os_map_private os) = os_map_anonymous os OR os_map_private os \<Longrightarrow>
      p \<noteq> 0 \<and> h p = None \<and> aligned_to (unat (os_page_size os)) p
      \<and> unat len \<le> isize_max \<and> unat p + unat len \<le> 2 ^ 64
      \<and> h' = h(p \<mapsto> replicate (unat len) 0)"
    and mmap_fail: "os_mmap os len prot flags h = (map_failed, h') \<Longrightarrow> h' = h"
    and munmap_ok: "os_mmap os len prot flags h0 = (p, h1) \<Longrightarrow> p \<noteq> map_failed \<Longrightarrow>
      h p = Some bs \<Longrightarrow> length bs = unat len \<Longrightarrow> unat len mod unat (os_page_size os) = 0 \<Longrightarrow>
      os_munmap os p len h = (0, h(p := None))"

section \<open>MmapSource\<close>

record mmap_source =
  ms_page_size :: usize

definition mmap_source_new :: "os \<Rightarrow> usize \<Rightarrow> panic + mmap_source" where
  "mmap_source_new os page_size =
     (if \<not> page_size \<ge> ptr_size then Inl AssertFailed
      else let os_page = os_page_size os
           in if \<not> page_size mod os_page = 0 then Inl AssertFailed
              else Inr \<lparr>ms_page_size = page_size\<rparr>)"

definition mmap_allocate :: "os \<Rightarrow> mmap_source \<Rightarrow> heap \<Rightarrow> (panic + addr) \<times> heap" where
  "mmap_allocate os s h =
     (case os_mmap os (ms_page_size s) (os_prot_read os OR os_prot_write os)
             (os_map_anonymous os OR os_map_private os) h of
        (ptr, h') \<Rightarrow> if ptr = map_failed then (Inl MmapFailed, h') else (Inr ptr, h'))"

text \<open>The result code of \<open>munmap\<close> is only inspected by a \<open>debug_assert\<close>.\<close>

definition mmap_release :: "os \<Rightarrow> mmap_source \<Rightarrow> addr \<Rightarrow> heap \<Rightarrow> heap option" where
  "mmap_release os s ptr h = (case os_munmap os ptr (ms_page_size s) h of (rc, h') \<Rightarrow> Some h')"

partial_function (option) prefault_loop :: "usize \<Rightarrow> usize \<Rightarrow> addr \<Rightarrow> usize \<Rightarrow> heap \<Rightarrow> heap option" where
  "prefault_loop os_page page_size base offset h =
     (if offset < page_size
      then do {
        h' \<leftarrow> mem_write h base (unat offset) [0];
        prefault_loop os_page page_size base (offset + os_page) h'
      }
      else Some h)"

definition mmap_prefault :: "os \<Rightarrow> mmap_source \<Rightarrow> addr \<Rightarrow> heap \<Rightarrow> heap option" where
  "mmap_prefault os s ptr h = prefault_loop (os_page_size os) (ms_page_size s) ptr 0 h"

definition mmap_vtable :: "os \<Rightarrow> mmap_source \<Rightarrow> page_source" where
  "mmap_vtable os s = \<lparr>src_page_size = ms_page_size s, src_allocate = mmap_allocate os s,
     src_release = mmap_release os s, src_prefault = mmap_prefault os s\<rparr>"

text \<open>\<open>madvise_dontneed\<close>: the advice depends on the target; a result code other than zero gives the last OS error.\<close>

definition madvise_dontneed :: "os \<Rightarrow> addr \<Rightarrow> usize \<Rightarrow> heap \<Rightarrow> (int + unit) \<times> heap" where
  "madvise_dontneed os ptr len h =
     (let advice = (case os_target os of Linux \<Rightarrow> os_madv_dontneed os | Macos \<Rightarrow> os_madv_free_reusable os
        | OtherUnix \<Rightarrow> os_madv_dontneed os)
      in case os_madvise os ptr len advice h of
        ((rc, errno), h') \<Rightarrow> if rc \<noteq> 0 then (Inl errno, h') else (Inr (), h'))"

section \<open>HugePageSource\<close>

record huge_page_source =
  hp_page_size :: usize
  hp_log2_huge_size :: u32

definition size_2mib :: usize where
  "size_2mib = 2 * 1024 * 1024"

definition size_1gib :: usize where
  "size_1gib = 1024 * 1024 * 1024"

definition huge_page_source_new :: "usize \<Rightarrow> panic + huge_page_source" where
  "huge_page_source_new page_size =
     (if page_size = size_2mib then Inr \<lparr>hp_page_size = page_size, hp_log2_huge_size = 21\<rparr>
      else if page_size = size_1gib then Inr \<lparr>hp_page_size = page_size, hp_log2_huge_size = 30\<rparr>
      else Inl AssertFailed)"

definition huge_flags :: "os \<Rightarrow> huge_page_source \<Rightarrow> u32" where
  "huge_flags os s = ((os_map_anonymous os OR os_map_private os) OR os_map_hugetlb os)
     OR push_bit 26 (hp_log2_huge_size s)"

definition huge_allocate :: "os \<Rightarrow> huge_page_source \<Rightarrow> heap \<Rightarrow> (panic + addr) \<times> heap" where
  "huge_allocate os s h =
     (case os_mmap os (hp_page_size s) (os_prot_read os OR os_prot_write os) (huge_flags os s) h of
        (ptr, h') \<Rightarrow> if ptr = map_failed then (Inl MmapFailed, h') else (Inr ptr, h'))"

definition huge_release :: "os \<Rightarrow> huge_page_source \<Rightarrow> addr \<Rightarrow> heap \<Rightarrow> heap option" where
  "huge_release os s ptr h = (case os_munmap os ptr (hp_page_size s) h of (rc, h') \<Rightarrow> Some h')"

text \<open>One write per huge page: a huge page faults in as a whole.\<close>

definition huge_prefault :: "addr \<Rightarrow> heap \<Rightarrow> heap option" where
  "huge_prefault ptr h = mem_write h ptr 0 [0]"

definition huge_vtable :: "os \<Rightarrow> huge_page_source \<Rightarrow> page_source" where
  "huge_vtable os s = \<lparr>src_page_size = hp_page_size s, src_allocate = huge_allocate os s,
     src_release = huge_release os s, src_prefault = huge_prefault\<rparr>"

section \<open>Concrete environments\<close>

text \<open>A global allocator and an operating system that place blocks at the first free multiple of
  4096: instances on which the hypotheses of the properties hold.\<close>

definition candidates :: "addr list" where
  "candidates = map (\<lambda>k. of_nat (4096 * Suc k)) [0..<16]"

definition first_fit :: "heap \<Rightarrow> addr" where
  "first_fit h = (case find (\<lambda>p. h p = None) candidates of Some p \<Rightarrow> p | None \<Rightarrow> 0)"

definition first_fit_alloc :: placement where
  "first_fit_alloc h l = first_fit h"

definition linux_mmap :: "usize \<Rightarrow> u32 \<Rightarrow> u32 \<Rightarrow> heap \<Rightarrow> addr \<times> heap" where
  "linux_mmap len prot flags h =
     (let p = first_fit h
      in if p \<noteq> 0 \<and> unat len \<le> isize_max
         then (p, h(p \<mapsto> replicate (unat len) 0)) else (map_failed, h))"

definition linux_munmap :: "addr \<Rightarrow> usize \<Rightarrow> heap \<Rightarrow> int \<times> heap" where
  "linux_munmap p len h = (0, h(p := None))"

definition linux_madvise :: "addr \<Rightarrow> usize \<Rightarrow> u32 \<Rightarrow> heap \<Rightarrow> (int \<times> int) \<times> heap" where
  "linux_madvise p len advice h =
     (case h p of None \<Rightarrow> ((- 1, 12), h)
      | Some bs \<Rightarrow> ((0, 0), h(p \<mapsto> replicate (unat len) 0 @ drop (unat len) bs)))"

definition linux_os :: os where
  "linux_os = \<lparr>os_target = Linux, os_sysconf_pagesize = 4096, os_mmap = linux_mmap, os_munmap = linux_munmap,
     os_madvise = linux_madvise, os_prot_read = 1, os_prot_write = 2, os_map_anonymous = 32,
     os_map_private = 2, os_map_hugetlb = 262144, os_madv_dontneed = 4,
     os_madv_free_reusable = 0\<rparr>"

section \<open>Lemmas\<close>

lemma is_power_of_two_iff: "is_power_of_two w \<longleftrightarrow> (\<exists>k < 64. w = push_bit k 1)"
  by (auto simp: is_power_of_two_def list_ex_iff)

lemma unat_push_bit_one: "k < 64 \<Longrightarrow> unat (push_bit k 1 :: usize) = 2 ^ k"
proof -
  assume "k < 64"
  then have "(2::nat) ^ k < 2 ^ 64" by (rule power_strict_increasing) simp
  moreover have "(push_bit k 1 :: usize) = of_nat (2 ^ k)" by (simp add: push_bit_eq_mult)
  ultimately show ?thesis by (simp only: unat_of_nat) simp
qed

lemma is_power_of_twoE:
  assumes "is_power_of_two w"
  obtains k where "k < 64" and "unat w = 2 ^ k"
  using assms unat_push_bit_one by (auto simp: is_power_of_two_iff)

lemma alloc_zeroed_cases:
  assumes "alloc_zeroed ga l h = (p, h')"
  shows "p = 0 \<and> h' = h \<or>
    placeable h l p \<and> h' = h(p \<mapsto> replicate (unat (l_size l)) 0)"
  using assms by (auto simp: alloc_zeroed_def Let_def split: if_splits)

lemma from_size_align_eq_Inr:
  "from_size_align sz align = Inr l \<longleftrightarrow>
     is_power_of_two align \<and> unat sz + unat align \<le> isize_max + 1 \<and> l = \<lparr>l_size = sz, l_align = align\<rparr>"
  by (auto simp: from_size_align_def)

lemma is_power_of_two_8 [simp]: "is_power_of_two 8"
  by (auto simp: is_power_of_two_iff intro!: exI [of _ 3])

lemma heap_source_new_eq:
  "heap_source_new ps =
     (if unat ps < 8 then Inl AssertFailed
      else if unat ps \<le> isize_max - 7
        then Inr \<lparr>hs_page_size = ps, hs_layout = \<lparr>l_size = ps, l_align = 8\<rparr>\<rparr> else Inl LayoutError)"
  by (auto simp: heap_source_new_def ptr_size_def from_size_align_def isize_max_def
      word_le_nat_alt word_less_nat_alt)

lemma heap_produces_aligned:
  assumes "src_produces (heap_vtable ga \<lparr>hs_page_size = ps, hs_layout = \<lparr>l_size = ps, l_align = 8\<rparr>\<rparr>) p"
  shows "aligned_to 8 p"
proof -
  from assms obtain h h' where al: "heap_allocate ga \<lparr>hs_page_size = ps, hs_layout = \<lparr>l_size = ps, l_align = 8\<rparr>\<rparr> h = (Inr p, h')"
    by (auto simp: src_produces_def heap_vtable_def)
  obtain q g where q: "alloc_zeroed ga \<lparr>l_size = ps, l_align = 8\<rparr> h = (q, g)" by fastforce
  with al have "q = p" "p \<noteq> 0" by (auto simp: heap_allocate_def split: if_splits)
  with alloc_zeroed_cases [OF q] show ?thesis by (auto simp: placeable_def)
qed

interpretation heap_src: page_source_contract
  "heap_vtable ga \<lparr>hs_page_size = ps, hs_layout = \<lparr>l_size = ps, l_align = 8\<rparr>\<rparr>" for ga ps
proof unfold_locales
  let ?s = "\<lparr>hs_page_size = ps, hs_layout = \<lparr>l_size = ps, l_align = 8\<rparr>\<rparr>"
  fix h p h'
  assume "src_allocate (heap_vtable ga ?s) h = (Inr p, h')"
  then show "p \<noteq> 0 \<and> h p = None \<and> aligned_to 8 p
      \<and> unat (src_page_size (heap_vtable ga ?s)) \<le> isize_max
      \<and> unat p + unat (src_page_size (heap_vtable ga ?s)) \<le> 2 ^ 64
      \<and> h' = h(p \<mapsto> replicate (unat (src_page_size (heap_vtable ga ?s))) 0)"
    by (auto simp: heap_vtable_def heap_allocate_def placeable_def
        split: prod.splits if_splits dest!: alloc_zeroed_cases)
next
  fix h e h'
  assume "src_allocate (heap_vtable ga \<lparr>hs_page_size = ps, hs_layout = \<lparr>l_size = ps, l_align = 8\<rparr>\<rparr>) h
      = (Inl e, h')"
  then show "h' = h"
    by (auto simp: heap_vtable_def heap_allocate_def placeable_def
        split: prod.splits if_splits dest!: alloc_zeroed_cases)
next
  fix h :: heap and p and bs :: "u8 list"
  assume "h p = Some bs"
  then show "\<exists>bs'. src_prefault (heap_vtable ga \<lparr>hs_page_size = ps,
      hs_layout = \<lparr>l_size = ps, l_align = 8\<rparr>\<rparr>) p h = Some (h(p \<mapsto> bs')) \<and> length bs' = length bs"
    by (intro exI [of _ bs]) (auto simp: heap_vtable_def default_prefault_def)
next
  fix h :: heap and p and bs :: "u8 list"
  let ?src = "heap_vtable ga \<lparr>hs_page_size = ps, hs_layout = \<lparr>l_size = ps, l_align = 8\<rparr>\<rparr>"
  assume "src_produces ?src p" and "h p = Some bs" and "length bs = unat (src_page_size ?src)"
  then show "src_release ?src p h = Some (h(p := None))"
    using heap_produces_aligned [of ga ps p] by (simp add: heap_vtable_def heap_release_def dealloc_def)
qed

text \<open>The prefault loop: it ends, and it zeroes exactly the first byte of every OS page.\<close>

lemma prefault_loop_ends:
  assumes "0 < unat os_page" and "unat os_page < 2 ^ 63" and "unat page_size \<le> isize_max"
    and "h base = Some bs" and "length bs = unat page_size"
    and "unat offset mod unat os_page = 0"
  shows "\<exists>bs'. prefault_loop os_page page_size base offset h = Some (h(base \<mapsto> bs'))
      \<and> length bs' = length bs
      \<and> (\<forall>i < length bs. bs' ! i = (if unat offset \<le> i \<and> i mod unat os_page = 0 then 0 else bs ! i))"
  using assms(4-6)
proof (induction "unat page_size - unat offset" arbitrary: offset h bs rule: less_induct)
  case less
  show ?case
  proof (cases "offset < page_size")
    case False
    then have "prefault_loop os_page page_size base offset h = Some (h(base \<mapsto> bs))"
      using less.prems by (simp add: prefault_loop.simps fun_upd_idem)
    with False less.prems show ?thesis
      by (intro exI [of _ bs]) (auto simp: word_less_nat_alt)
  next
    case True
    let ?bs = "bs[unat offset := 0]"
    have o: "unat offset < length bs" using True less.prems by (simp add: word_less_nat_alt)
    have step: "unat (offset + os_page) = unat offset + unat os_page"
      using assms(2,3) o less.prems(2) by (intro unat_add_usize) (simp add: isize_max_def)
    have w: "mem_write h base (unat offset) [0] = Some (h(base \<mapsto> ?bs))"
      using less.prems(1) o by (simp add: mem_write_def upd_conv_take_nth_drop)
    have "\<exists>bs'. prefault_loop os_page page_size base (offset + os_page) (h(base \<mapsto> ?bs))
           = Some ((h(base \<mapsto> ?bs))(base \<mapsto> bs')) \<and> length bs' = length ?bs
        \<and> (\<forall>i < length ?bs. bs' ! i =
             (if unat (offset + os_page) \<le> i \<and> i mod unat os_page = 0 then 0 else ?bs ! i))"
    proof (rule less.hyps)
      show "unat page_size - unat (offset + os_page) < unat page_size - unat offset"
        using step assms(1) o less.prems(2) by simp
    qed (use less.prems step in auto)
    then obtain bs' where r: "prefault_loop os_page page_size base (offset + os_page) (h(base \<mapsto> ?bs))
           = Some (h(base \<mapsto> bs'))" and l: "length bs' = length bs"
      and b: "\<forall>i < length bs. bs' ! i =
             (if unat offset + unat os_page \<le> i \<and> i mod unat os_page = 0 then 0 else ?bs ! i)"
      by (auto simp: step)
    have "bs' ! i = (if unat offset \<le> i \<and> i mod unat os_page = 0 then 0 else bs ! i)"
      if "i < length bs" for i
    proof (cases "unat offset < i \<and> i < unat offset + unat os_page")
      case True
      then obtain d where d: "i = unat offset + d" "0 < d" "d < unat os_page"
        using less_imp_add_positive by auto
      then have "i mod unat os_page = d"
        using less.prems(3) by (simp add: mod_add_left_eq [symmetric])
      with d b that show ?thesis by simp
    qed (use b that less.prems(3) in \<open>auto simp: nth_list_update\<close>)
    with True w r l show ?thesis
      by (intro exI [of _ bs']) (simp add: prefault_loop.simps [of _ _ _ offset])
  qed
qed

lemma os_page_size_bounds:
  assumes "os_sysconf_pagesize os < 2 ^ 63"
  shows "0 < unat (os_page_size os)" and "unat (os_page_size os) < 2 ^ 63"
proof -
  have "unat (of_int n :: usize) = nat n" if "0 < n" "n < 2 ^ 63" for n :: int
    using that by (simp add: unat_eq_nat_uint uint_word_of_int)
  then show "0 < unat (os_page_size os)" and "unat (os_page_size os) < 2 ^ 63"
    using assms by (auto simp: os_page_size_def Let_def)
qed

lemma aligned_to_dvd: "aligned_to a p \<Longrightarrow> a mod 8 = 0 \<Longrightarrow> aligned_to 8 p"
  by (auto simp: aligned_to_def mod_eq_0_iff_dvd intro: dvd_trans)

lemma anon_private_bits:
  "((a OR b) OR c OR d) AND (a OR b) = a OR (b :: u32)"
  "(((a OR b) OR c) OR d) AND (a OR b) = a OR b"
  "(a OR b) AND (a OR b) = a OR b"
  by (auto intro!: bit_word_eqI simp: bit_simps)

lemma mmap_allocate_Inr: "mmap_allocate os s h = (Inr p, h') \<longleftrightarrow>
    os_mmap os (ms_page_size s) (os_prot_read os OR os_prot_write os) (os_map_anonymous os OR os_map_private os) h = (p, h')
    \<and> p \<noteq> map_failed"
  by (cases "os_mmap os (ms_page_size s) (os_prot_read os OR os_prot_write os) (os_map_anonymous os OR os_map_private os) h")
    (auto simp: mmap_allocate_def)

lemma huge_allocate_Inr: "huge_allocate os s h = (Inr p, h') \<longleftrightarrow>
    os_mmap os (hp_page_size s) (os_prot_read os OR os_prot_write os) (huge_flags os s) h = (p, h') \<and> p \<noteq> map_failed"
  by (cases "os_mmap os (hp_page_size s) (os_prot_read os OR os_prot_write os) (huge_flags os s) h") (auto simp: huge_allocate_def)

lemma mmap_new_multiple: "mmap_source_new os ps = Inr s \<Longrightarrow> unat (ms_page_size s) mod unat (os_page_size os) = 0"
  by (auto simp: mmap_source_new_def Let_def unat_mod split: if_splits dest!: arg_cong [of _ "0 :: usize" unat])

context mmap_os
begin

lemmas os_page = os_page_size_bounds [OF sysconf_range]

lemma mapping_aligned: "aligned_to (unat (os_page_size os)) p \<Longrightarrow> aligned_to 8 p"
  using page_multiple by (rule aligned_to_dvd [rotated])

lemma mmap_contract:
  assumes new: "mmap_source_new os ps = Inr ms"
  shows "page_source_contract (mmap_vtable os ms)"
proof unfold_locales
  fix h p h'
  assume "src_allocate (mmap_vtable os ms) h = (Inr p, h')"
  then have "os_mmap os (ms_page_size ms) (os_prot_read os OR os_prot_write os)
      (os_map_anonymous os OR os_map_private os) h = (p, h')" and "p \<noteq> map_failed"
    by (auto simp: mmap_vtable_def mmap_allocate_Inr)
  from mmap_ok [OF this refl anon_private_bits(3)]
  show "p \<noteq> 0 \<and> h p = None \<and> aligned_to 8 p
      \<and> unat (src_page_size (mmap_vtable os ms)) \<le> isize_max
      \<and> unat p + unat (src_page_size (mmap_vtable os ms)) \<le> 2 ^ 64
      \<and> h' = h(p \<mapsto> replicate (unat (src_page_size (mmap_vtable os ms))) 0)"
    using mapping_aligned by (simp add: mmap_vtable_def)
next
  fix h e h'
  assume "src_allocate (mmap_vtable os ms) h = (Inl e, h')"
  then show "h' = h"
    by (auto simp: mmap_vtable_def mmap_allocate_def split: prod.splits if_splits intro: mmap_fail)
next
  fix h :: heap and p and bs :: "u8 list"
  assume prod: "src_produces (mmap_vtable os ms) p" and bs: "h p = Some bs" "length bs = unat (src_page_size (mmap_vtable os ms))"
  from prod obtain h0 h1 where "os_mmap os (ms_page_size ms) (os_prot_read os OR os_prot_write os)
      (os_map_anonymous os OR os_map_private os) h0 = (p, h1)" and "p \<noteq> map_failed"
    by (auto simp: src_produces_def mmap_vtable_def mmap_allocate_Inr)
  from munmap_ok [OF this, of h bs] bs mmap_new_multiple [OF new] show "src_release (mmap_vtable os ms) p h = Some (h(p := None))"
    by (simp add: mmap_vtable_def mmap_release_def)
next
  fix h :: heap and p and bs :: "u8 list"
  assume "h p = Some bs" and "length bs = unat (src_page_size (mmap_vtable os ms))"
    and "length bs \<le> isize_max"
  then show "\<exists>bs'. src_prefault (mmap_vtable os ms) p h = Some (h(p \<mapsto> bs')) \<and> length bs' = length bs"
    using prefault_loop_ends [OF os_page, of "ms_page_size ms" h p bs 0]
    by (auto simp: mmap_vtable_def mmap_prefault_def)
qed

lemma huge_contract:
  assumes pos: "0 < unat ps" and mul: "unat ps mod unat (os_page_size os) = 0"
  shows "page_source_contract (huge_vtable os \<lparr>hp_page_size = ps, hp_log2_huge_size = k\<rparr>)"
proof
  let ?s = "\<lparr>hp_page_size = ps, hp_log2_huge_size = k\<rparr>"
  fix h p h'
  assume "src_allocate (huge_vtable os ?s) h = (Inr p, h')"
  then have "os_mmap os ps (os_prot_read os OR os_prot_write os) (huge_flags os ?s) h = (p, h')"
    and "p \<noteq> map_failed"
    by (auto simp: huge_vtable_def huge_allocate_Inr)
  from mmap_ok [OF this refl, unfolded huge_flags_def, OF anon_private_bits(2)]
  show "p \<noteq> 0 \<and> h p = None \<and> aligned_to 8 p
      \<and> unat (src_page_size (huge_vtable os ?s)) \<le> isize_max
      \<and> unat p + unat (src_page_size (huge_vtable os ?s)) \<le> 2 ^ 64
      \<and> h' = h(p \<mapsto> replicate (unat (src_page_size (huge_vtable os ?s))) 0)"
    using mapping_aligned by (simp add: huge_vtable_def)
next
  fix h e h'
  assume "src_allocate (huge_vtable os \<lparr>hp_page_size = ps, hp_log2_huge_size = k\<rparr>) h = (Inl e, h')"
  then show "h' = h"
    by (auto simp: huge_vtable_def huge_allocate_def split: prod.splits if_splits intro: mmap_fail)
next
  fix h :: heap and p and bs :: "u8 list"
  let ?s = "\<lparr>hp_page_size = ps, hp_log2_huge_size = k\<rparr>"
  assume prod: "src_produces (huge_vtable os ?s) p" and h: "h p = Some bs" and l: "length bs = unat (src_page_size (huge_vtable os ?s))"
  from prod obtain h0 h1 where "os_mmap os ps (os_prot_read os OR os_prot_write os) (huge_flags os ?s) h0 = (p, h1)"
    and "p \<noteq> map_failed" by (auto simp: src_produces_def huge_vtable_def huge_allocate_Inr)
  from munmap_ok [OF this, of h bs] h l mul show "src_release (huge_vtable os ?s) p h = Some (h(p := None))"
    by (simp add: huge_vtable_def huge_release_def)
  show "\<exists>bs'. src_prefault (huge_vtable os ?s) p h = Some (h(p \<mapsto> bs')) \<and> length bs' = length bs"
    using h l pos by (intro exI [of _ "0 # drop 1 bs"])
      (auto simp: huge_vtable_def huge_prefault_def mem_write_def)
qed

end

text \<open>On a system with huge pages, the ordinary pages divide them.\<close>

locale huge_os = mmap_os +
  assumes huge_multiple: "unat size_2mib mod unat (os_page_size os) = 0"

context huge_os
begin

lemma contract_2mib: "page_source_contract (huge_vtable os \<lparr>hp_page_size = size_2mib, hp_log2_huge_size = 21\<rparr>)"
  by (rule huge_contract) (use huge_multiple in \<open>simp_all add: size_2mib_def\<close>)

lemma contract_1gib: "page_source_contract (huge_vtable os \<lparr>hp_page_size = size_1gib, hp_log2_huge_size = 30\<rparr>)"
proof (rule huge_contract)
  have "unat size_1gib = 512 * unat size_2mib" by (simp add: size_1gib_def size_2mib_def)
  then show "unat size_1gib mod unat (os_page_size os) = 0" using huge_multiple by (auto simp: mod_eq_0_iff_dvd)
qed (simp add: size_1gib_def)

end

text \<open>The concrete environments keep what is asked of them.\<close>

lemma first_fit_cases:
  "first_fit h = 0 \<or>
   h (first_fit h) = None \<and> aligned_to 4096 (first_fit h) \<and> 0 < unat (first_fit h)
     \<and> unat (first_fit h) \<le> 65536"
proof (cases "find (\<lambda>p. h p = None) candidates")
  case (Some p)
  then have "p \<in> set candidates" and "h p = None"
    by (auto simp: find_Some_iff)
  moreover have "\<forall>p \<in> set candidates. aligned_to 4096 p \<and> 0 < unat p \<and> unat p \<le> 65536"
    by (simp add: candidates_def aligned_to_def upt_rec)
  ultimately show ?thesis by (simp add: first_fit_def Some)
qed (simp add: first_fit_def)

interpretation linux: mmap_os linux_os
proof unfold_locales
  fix len prot flags h p h'
  assume "os_mmap linux_os len prot flags h = (p, h')" and "p \<noteq> map_failed"
  then have p: "p = first_fit h" "first_fit h \<noteq> 0" "unat len \<le> isize_max"
    "h' = h(p \<mapsto> replicate (unat len) 0)"
    by (auto simp: linux_os_def linux_mmap_def Let_def split: if_splits)
  then show "p \<noteq> 0 \<and> h p = None \<and> aligned_to (unat (os_page_size linux_os)) p
      \<and> unat len \<le> isize_max \<and> unat p + unat len \<le> 2 ^ 64 \<and> h' = h(p \<mapsto> replicate (unat len) 0)"
    using first_fit_cases [of h]
    by (auto simp: linux_os_def os_page_size_def isize_max_def)
next
  fix len prot flags h h'
  assume "os_mmap linux_os len prot flags h = (map_failed, h')"
  then show "h' = h"
    using first_fit_cases [of h]
    by (auto simp: linux_os_def linux_mmap_def Let_def map_failed_def split: if_splits)
qed (auto simp: linux_os_def os_page_size_def linux_munmap_def)

interpretation linux_huge: huge_os linux_os
  by unfold_locales (simp add: linux_os_def os_page_size_def size_2mib_def)

section \<open>Properties\<close>

text \<open>\<open>HeapSource::new\<close> succeeds exactly for page sizes from 8 bytes up to the largest size a
  \<open>Layout\<close> of alignment 8 admits; a smaller size fails the assertion, a larger one the layout.\<close>

theorem heap_source_new_exact:
  "heap_source_new ps =
     (if unat ps < 8 then Inl AssertFailed
      else if unat ps \<le> isize_max - 7
        then Inr \<lparr>hs_page_size = ps, hs_layout = \<lparr>l_size = ps, l_align = 8\<rparr>\<rparr> else Inl LayoutError)"
  by (rule heap_source_new_eq)

text \<open>C37: A \<open>HeapSource\<close> keeps the safety contract of \<open>PageSource\<close>, wherever the global allocator
  places its blocks.\<close>

theorem heap_source_keeps_contract:
  assumes "heap_source_new ps = Inr s"
  shows "page_source_contract (heap_vtable ga s)"
proof -
  from assms have "s = \<lparr>hs_page_size = ps, hs_layout = \<lparr>l_size = ps, l_align = 8\<rparr>\<rparr>"
    by (auto simp: heap_source_new_eq split: if_splits)
  then show ?thesis using heap_src.page_source_contract_axioms by simp
qed

theorem heap_source_keeps_contract_witness:
  "page_source_contract (heap_vtable first_fit_alloc
     \<lparr>hs_page_size = 4096, hs_layout = \<lparr>l_size = 4096, l_align = 8\<rparr>\<rparr>)"
  by (rule heap_source_keeps_contract [of 4096]) (simp add: heap_source_new_eq isize_max_def)

text \<open>C36: An \<open>MmapSource\<close> that \<open>MmapSource::new\<close> has made keeps the contract on every system whose anonymous mappings
  behave as POSIX says: the pages it hands out are zeroed and aligned, \<open>release\<close> removes a live page that it handed out
  (for which \<open>munmap\<close> needs the page size to be a multiple of that of the system), and the prefault loop ends and
  stays inside the page.\<close>

theorem mmap_source_keeps_contract:
  assumes "mmap_os os" and "mmap_source_new os ps = Inr s"
  shows "page_source_contract (mmap_vtable os s)"
  using assms by (rule mmap_os.mmap_contract)

theorem mmap_source_keeps_contract_witness:
  "page_source_contract (mmap_vtable linux_os \<lparr>ms_page_size = 8192\<rparr>)"
proof (rule mmap_source_keeps_contract)
  show "mmap_os linux_os" by (rule linux.mmap_os_axioms)
  show "mmap_source_new linux_os 8192 = Inr \<lparr>ms_page_size = 8192\<rparr>"
    by (simp add: mmap_source_new_def linux_os_def os_page_size_def ptr_size_def)
qed

text \<open>A \<open>HugePageSource\<close> exists for 2 MiB and 1 GiB pages only, and it keeps the contract.\<close>

theorem huge_page_source_keeps_contract:
  assumes "huge_os os" and "huge_page_source_new ps = Inr s"
  shows "(ps = size_2mib \<or> ps = size_1gib) \<and> page_source_contract (huge_vtable os s)"
proof -
  from assms(2) have "ps = size_2mib \<and> s = \<lparr>hp_page_size = size_2mib, hp_log2_huge_size = 21\<rparr>
      \<or> ps = size_1gib \<and> s = \<lparr>hp_page_size = size_1gib, hp_log2_huge_size = 30\<rparr>"
    by (auto simp: huge_page_source_new_def split: if_splits)
  then show ?thesis using huge_os.contract_2mib [OF assms(1)] huge_os.contract_1gib [OF assms(1)] by auto
qed

text \<open>C38: \<open>MmapSource::prefault\<close> ends on every live page, writes a zero to the first byte of each OS
  page inside it, and leaves every other byte as it was.\<close>

theorem mmap_prefault_touches_each_os_page:
  assumes "mmap_os os" and "unat (ms_page_size s) \<le> isize_max"
    and "h p = Some bs" and "length bs = unat (ms_page_size s)"
  shows "\<exists>bs'. mmap_prefault os s p h = Some (h(p \<mapsto> bs')) \<and> length bs' = length bs
      \<and> (\<forall>i < length bs. bs' ! i = (if i mod unat (os_page_size os) = 0 then 0 else bs ! i))"
  using prefault_loop_ends [OF mmap_os.os_page [OF assms(1)], of "ms_page_size s" h p bs 0] assms(2-4)
  by (simp add: mmap_prefault_def)

theorem mmap_prefault_touches_each_os_page_witness:
  "\<exists>bs'. mmap_prefault linux_os \<lparr>ms_page_size = 8192\<rparr> 4096 [4096 \<mapsto> replicate 8192 7]
       = Some [4096 \<mapsto> bs'] \<and> bs' ! 4096 = 0 \<and> bs' ! 4097 = 7"
proof -
  have page: "unat (os_page_size linux_os) = 4096"
    by (simp add: linux_os_def os_page_size_def)
  have "\<exists>bs'. mmap_prefault linux_os \<lparr>ms_page_size = 8192\<rparr> 4096 [4096 \<mapsto> replicate (unat (8192 :: usize)) 7]
       = Some ([4096 \<mapsto> replicate (unat (8192 :: usize)) 7](4096 \<mapsto> bs'))
     \<and> length bs' = length (replicate (unat (8192 :: usize)) (7 :: u8))
     \<and> (\<forall>i < length (replicate (unat (8192 :: usize)) (7 :: u8)). bs' ! i =
          (if i mod unat (os_page_size linux_os) = 0 then 0 else replicate (unat (8192 :: usize)) 7 ! i))"
    by (rule mmap_prefault_touches_each_os_page [OF linux.mmap_os_axioms])
      (simp_all add: isize_max_def)
  then show ?thesis
    by (auto simp: page)
qed

text \<open>The flags \<open>HugePageSource::allocate\<close> passes to \<open>mmap\<close> carry, above bit 26, the base-two
  logarithm of the page size, undisturbed by the other flags.\<close>

theorem huge_flags_select_page_size:
  assumes "huge_page_source_new ps = Inr s"
    and "os_map_anonymous os < 2 ^ 26" and "os_map_private os < 2 ^ 26" and "os_map_hugetlb os < 2 ^ 26"
  shows "drop_bit 26 (huge_flags os s) = hp_log2_huge_size s
    \<and> unat ps = 2 ^ unat (drop_bit 26 (huge_flags os s))"
proof -
  have low: "drop_bit 26 (huge_flags os s) = drop_bit 26 (push_bit 26 (hp_log2_huge_size s))"
    using assms(2-4) by (simp add: huge_flags_def drop_bit_or drop_bit_below)
  from assms(1) have "hp_log2_huge_size s = 21 \<and> ps = size_2mib \<or> hp_log2_huge_size s = 30 \<and> ps = size_1gib"
    by (auto simp: huge_page_source_new_def split: if_splits)
  moreover have "drop_bit 26 (push_bit 26 (21 :: u32)) = 21" and "drop_bit 26 (push_bit 26 (30 :: u32)) = 30"
    by (simp_all add: drop_bit_eq_div push_bit_eq_mult)
  ultimately show ?thesis
    by (auto simp: low size_2mib_def size_1gib_def)
qed

end
