(* ===== verification/Free_List.thy ===== *)
theory Free_List
  imports Sources
begin

text \<open>
  The intrusive lists of \<open>src/pool.rs\<close>. A free buffer holds the address of the next one in its
  first eight bytes; the owner-local free list and the cross-thread return queue are both such
  lists, given by the address of their first buffer. \<open>chain h p xs\<close> says that the list starting at
  \<open>p\<close> in memory \<open>h\<close> consists of the buffers \<open>xs\<close>. The two loops that walk a list (counting its
  buffers and releasing them) are defined here; the locale \<open>intrusive_list\<close> states what they rely on.
\<close>

section \<open>Definitions\<close>

fun chain :: "heap \<Rightarrow> addr \<Rightarrow> addr list \<Rightarrow> bool" where
  "chain h p [] = (p = 0)"
| "chain h p (a # as) = (p = a \<and> a \<noteq> 0 \<and>
     (case ptr_read h a of None \<Rightarrow> False | Some q \<Rightarrow> chain h q as))"

text \<open>The loop of \<open>PagePool::local_free_pages\<close>.\<close>

partial_function (option) count_loop :: "heap \<Rightarrow> addr \<Rightarrow> usize \<Rightarrow> usize option" where
  "count_loop h head n =
     (if head = 0 then Some n
      else do {
        next \<leftarrow> ptr_read h head;
        count_loop h next (n + 1)
      })"

text \<open>The loop of \<open>PagePool::drop\<close> and \<open>PoolShared::drop\<close>: the next pointer is read before the
  buffer that holds it is released.\<close>

partial_function (option) release_loop :: "page_source \<Rightarrow> heap \<Rightarrow> addr \<Rightarrow> heap option" where
  "release_loop src h head =
     (if head = 0 then Some h
      else do {
        next \<leftarrow> ptr_read h head;
        h' \<leftarrow> src_release src head h;
        release_loop src h' next
      })"

text \<open>A buffer of a pool with pages of \<open>n\<close> bytes: a live block, at an address that the source hands out.\<close>

definition buffer_ok :: "heap \<Rightarrow> nat \<Rightarrow> page_source \<Rightarrow> addr \<Rightarrow> bool" where
  "buffer_ok h n src a \<longleftrightarrow> a \<noteq> 0 \<and> aligned_to 8 a \<and> unat a + n \<le> 2 ^ 64 \<and> n \<le> isize_max
     \<and> src_produces src a \<and> (case h a of None \<Rightarrow> False | Some bs \<Rightarrow> length bs = n)"

section \<open>The interface of a list in memory\<close>

locale intrusive_list =
  fixes rep :: "heap \<Rightarrow> addr \<Rightarrow> addr list \<Rightarrow> bool"
  assumes rep_null: "rep h 0 xs \<longleftrightarrow> xs = []"
    and rep_head: "p \<noteq> 0 \<Longrightarrow> rep h p xs \<longleftrightarrow>
      (\<exists>q ys. xs = p # ys \<and> ptr_read h p = Some q \<and> rep h q ys)"
    and rep_frame: "(\<And>a. a \<in> set xs \<Longrightarrow> h' a = h a) \<Longrightarrow> rep h p xs \<Longrightarrow> rep h' p xs"
begin

lemma rep_unique: "rep h p xs \<Longrightarrow> rep h p ys \<Longrightarrow> xs = ys"
proof (induction xs arbitrary: p ys)
  case Nil
  then have "p = 0" by (metis rep_head list.distinct(1))
  with Nil show ?case by (simp add: rep_null)
next
  case (Cons x xs)
  then have "p \<noteq> 0" by (auto simp: rep_null)
  with Cons show ?case by (auto simp: rep_head)
qed

lemma rep_suffix:
  assumes "rep h p xs" and "x \<in> set xs"
  shows "\<exists>ys zs. xs = ys @ zs \<and> hd zs = x \<and> zs \<noteq> [] \<and> rep h x zs"
  using assms
proof (induction xs arbitrary: p)
  case (Cons a xs)
  then have nz: "p \<noteq> 0" by (auto simp: rep_null)
  with Cons.prems(1) obtain q where p: "p = a" and q: "rep h q xs" by (auto simp: rep_head)
  show ?case
  proof (cases "x = a")
    case True
    with p Cons.prems(1) show ?thesis by (intro exI [of _ "[]"] exI [of _ "a # xs"]) simp
  next
    case False
    with Cons.prems(2) have "x \<in> set xs" by simp
    from Cons.IH [OF q this] obtain ys zs where "xs = ys @ zs" "hd zs = x" "zs \<noteq> []" "rep h x zs"
      by blast
    then show ?thesis by (intro exI [of _ "a # ys"] exI [of _ zs]) simp
  qed
qed simp

lemma rep_distinct: "rep h p xs \<Longrightarrow> distinct xs"
proof (induction xs arbitrary: p)
  case (Cons a xs)
  then have nz: "p \<noteq> 0" by (auto simp: rep_null)
  with Cons.prems obtain q where p: "p = a" and q: "rep h q xs" by (auto simp: rep_head)
  have "a \<notin> set xs"
  proof
    assume "a \<in> set xs"
    from rep_suffix [OF q this] obtain ys zs where s: "xs = ys @ zs" "rep h a zs" by blast
    with Cons.prems p have "zs = a # xs" by (blast intro: rep_unique)
    with s show False by simp
  qed
  with Cons.IH [OF q] show ?case by simp
qed simp

lemma rep_cons_nonnull: "rep h p (a # as) \<Longrightarrow> p = a \<and> a \<noteq> 0"
  using rep_null [of h "a # as"] rep_head [of p h "a # as"] by (cases "p = 0") auto

lemma rep_push:
  assumes "ptr_write h a head = Some h'" and "rep h head xs" and "a \<notin> set xs" and "a \<noteq> 0"
  shows "rep h' a (a # xs)"
proof -
  have "rep h' head xs"
    using assms(1-3) by (intro rep_frame [of xs h' h]) (auto simp: ptr_write_Some_iff)
  with ptr_read_write [OF assms(1)] assms(4) show ?thesis by (simp add: rep_head)
qed

lemma count_loop_rep: "rep h p xs \<Longrightarrow> count_loop h p c = Some (c + of_nat (length xs))"
proof (induction xs arbitrary: p c)
  case Nil
  then have "p = 0" by (metis rep_head list.distinct(1))
  then show ?case by (simp add: count_loop.simps)
next
  case (Cons a xs)
  then have "p = a" and nz: "a \<noteq> 0" by (auto dest: rep_cons_nonnull)
  with Cons.prems obtain q where "ptr_read h a = Some q" and "rep h q xs" by (auto simp: rep_head)
  with Cons.IH nz \<open>p = a\<close> show ?case by (simp add: count_loop.simps [of h a] algebra_simps)
qed

end

section \<open>The lists of the pool\<close>

lemma chain_null: "chain h 0 xs \<longleftrightarrow> xs = []"
  by (cases xs) auto

lemma chain_head: "p \<noteq> 0 \<Longrightarrow> chain h p xs \<longleftrightarrow>
    (\<exists>q ys. xs = p # ys \<and> ptr_read h p = Some q \<and> chain h q ys)"
  by (cases xs) (auto split: option.splits)

lemma chain_frame:
  "(\<And>a. a \<in> set xs \<Longrightarrow> h' a = h a) \<Longrightarrow> chain h p xs \<Longrightarrow> chain h' p xs"
  by (induction xs arbitrary: p) (auto simp: ptr_read_def split: option.splits)

interpretation chain: intrusive_list chain
  by unfold_locales (rule chain_null chain_head chain_frame; assumption)+

lemma buffer_okE:
  assumes "buffer_ok h n src a"
  obtains bs where "h a = Some bs" and "length bs = n" and "a \<noteq> 0" and "aligned_to 8 a"
    and "unat a + n \<le> 2 ^ 64" and "n \<le> isize_max" and "src_produces src a"
  using assms by (auto simp: buffer_ok_def split: option.splits)

lemma buffer_ok_cong: "h' a = h a \<Longrightarrow> buffer_ok h' n src a = buffer_ok h n src a"
  by (simp add: buffer_ok_def)

lemma buffer_ok_upd_other: "a \<noteq> b \<Longrightarrow> buffer_ok (h(b := v)) n src a = buffer_ok h n src a"
  by (simp add: buffer_ok_def)

lemma buffer_ok_write:
  "buffer_ok h n src a \<Longrightarrow> length bs = n \<Longrightarrow> buffer_ok (h(b \<mapsto> bs)) n src a"
  by (auto simp: buffer_ok_def split: option.splits)

lemma buffer_ok_ptr_write:
  assumes "buffer_ok h n src a" and "8 \<le> n"
  obtains bs where "h a = Some bs" and "length bs = n"
    and "ptr_write h a v = Some (h(a \<mapsto> ptr_to_bytes v @ drop 8 bs))"
  using assms by (auto simp: ptr_write_def elim!: buffer_okE)

context page_source_contract
begin

lemma allocate_buffer_ok:
  assumes "src_allocate src h = (Inr p, h')"
  shows "buffer_ok h' (unat (src_page_size src)) src p" and "h p = None"
    and "a \<noteq> p \<Longrightarrow> h' a = h a"
  using allocate_ok [OF assms] assms by (auto simp: buffer_ok_def src_produces_def)

lemma release_buffer:
  "buffer_ok h (unat (src_page_size src)) src p \<Longrightarrow> src_release src p h = Some (h(p := None))"
  by (auto simp: release_ok elim!: buffer_okE)

text \<open>Releasing a list ends, and takes exactly its buffers out of memory.\<close>

lemma release_loop_chain:
  assumes "chain h p xs" and "\<forall>a \<in> set xs. buffer_ok h (unat (src_page_size src)) src a"
  shows "release_loop src h p = Some (\<lambda>a. if a \<in> set xs then None else h a)"
  using assms
proof (induction xs arbitrary: h p)
  case Nil
  then show ?case by (simp add: release_loop.simps)
next
  case (Cons x xs)
  then obtain q where nz: "p = x" "x \<noteq> 0" and q: "ptr_read h x = Some q" "chain h q xs"
    by (auto split: option.splits)
  have nin: "x \<notin> set xs" using chain.rep_distinct [OF Cons.prems(1)] by simp
  have rel: "src_release src x h = Some (h(x := None))"
    using Cons.prems(2) by (simp add: release_buffer)
  have "release_loop src (h(x := None)) q = Some (\<lambda>a. if a \<in> set xs then None else (h(x := None)) a)"
  proof (rule Cons.IH)
    show "chain (h(x := None)) q xs"
      by (rule chain_frame [OF _ q(2)]) (use nin in auto)
    show "\<forall>a \<in> set xs. buffer_ok (h(x := None)) (unat (src_page_size src)) src a"
      using Cons.prems(2) nin by (metis buffer_ok_upd_other list.set_intros(2))
  qed
  with nz q rel show ?case
    by (simp add: release_loop.simps [of src h x]) (auto simp: fun_eq_iff)
qed

end

end
