(* ===== verification/Page_Pool.thy ===== *)
theory Page_Pool
  imports Tenants Free_List
begin

text \<open>
  \<open>src/pool.rs\<close>: the fixed-size page pool. \<open>pool_shared\<close> is the struct \<open>PoolShared\<close> behind its
  \<open>Arc\<close>, \<open>page_pool\<close> the owner's side \<open>PagePool\<close>. \<open>pool_world\<close> is the part of the program state the
  pool works on: memory, the tenants' counters, the shared part and the strong count of its \<open>Arc\<close>
  (zero once it has been dropped). The page and chunk layers extend this record with their own
  tables, so every operation here is stated for any extension.

  The invariant \<open>pool_inv\<close> names the buffers on the local list, on the return queue and handed out,
  and says that no buffer is in two places; the abstract pool \<open>apool\<close> keeps just these lists.
\<close>

section \<open>State\<close>

record pool_stats =
  ps_allocations_from_heap :: u64
  ps_pages_in_use :: u64
  ps_free_pages :: u64
  ps_return_queue_drains :: u64
  ps_prewarmed_pages :: u64

definition pool_stats_default :: pool_stats where
  "pool_stats_default = \<lparr>ps_allocations_from_heap = 0, ps_pages_in_use = 0, ps_free_pages = 0,
     ps_return_queue_drains = 0, ps_prewarmed_pages = 0\<rparr>"

record pool_shared =
  sh_page_size :: usize
  sh_source :: page_source
  sh_return_head :: addr
  sh_stats :: pool_stats

record pool_world =
  w_heap :: heap
  w_tenants :: stats_table
  w_shared :: pool_shared
  w_strong :: nat

record page_pool =
  pp_local_head :: addr

section \<open>Access to the shared part\<close>

text \<open>Dereferencing \<open>Arc<PoolShared>\<close> is defined while a strong reference exists.\<close>

definition get_shared :: "'z pool_world_scheme \<Rightarrow> pool_shared option" where
  "get_shared w = (if w_strong w = 0 then None else Some (w_shared w))"

definition upd_stats :: "(pool_stats \<Rightarrow> pool_stats) \<Rightarrow> 'z pool_world_scheme \<Rightarrow> 'z pool_world_scheme" where
  "upd_stats f w = w\<lparr>w_shared := (w_shared w)\<lparr>sh_stats := f (sh_stats (w_shared w))\<rparr>\<rparr>"

definition set_return_head :: "addr \<Rightarrow> 'z pool_world_scheme \<Rightarrow> 'z pool_world_scheme" where
  "set_return_head p w = w\<lparr>w_shared := (w_shared w)\<lparr>sh_return_head := p\<rparr>\<rparr>"

definition clone_shared :: "'z pool_world_scheme \<Rightarrow> 'z pool_world_scheme" where
  "clone_shared w = w\<lparr>w_strong := Suc (w_strong w)\<rparr>"

definition upd_tenant :: "nat \<Rightarrow> (tenant_stats \<Rightarrow> tenant_stats) \<Rightarrow> 'z pool_world_scheme \<Rightarrow> 'z pool_world_scheme" where
  "upd_tenant t f w = w\<lparr>w_tenants := (w_tenants w)(t := f (w_tenants w t))\<rparr>"

section \<open>PoolShared\<close>

text \<open>\<open>push_return\<close> without interference: the loop body with a compare-exchange that succeeds. The
  loop with its interleavings is the subject of the theory \<open>Return_Queue\<close>.\<close>

definition push_return :: "addr \<Rightarrow> 'z pool_world_scheme \<Rightarrow> 'z pool_world_scheme option" where
  "push_return ptr w = do {
     sh \<leftarrow> get_shared w;
     let head = sh_return_head sh;
     h \<leftarrow> ptr_write (w_heap w) ptr head;
     let w = set_return_head ptr (w\<lparr>w_heap := h\<rparr>);
     let w = upd_stats (\<lambda>s. s\<lparr>ps_pages_in_use := fetch_sub (ps_pages_in_use s) 1\<rparr>) w;
     Some (upd_stats (\<lambda>s. s\<lparr>ps_free_pages := fetch_add (ps_free_pages s) 1\<rparr>) w)
   }"

text \<open>\<open>Drop for PoolShared\<close>, run when the strong count has reached zero.\<close>

definition pool_shared_drop :: "'z pool_world_scheme \<Rightarrow> 'z pool_world_scheme option" where
  "pool_shared_drop w = do {
     let head = sh_return_head (w_shared w);
     let w = set_return_head 0 w;
     h \<leftarrow> release_loop (sh_source (w_shared w)) (w_heap w) head;
     Some (w\<lparr>w_heap := h\<rparr>)
   }"

definition drop_shared :: "'z pool_world_scheme \<Rightarrow> 'z pool_world_scheme option" where
  "drop_shared w = do {
     _ \<leftarrow> get_shared w;
     let w = w\<lparr>w_strong := w_strong w - 1\<rparr>;
     if w_strong w = 0 then pool_shared_drop w else Some w
   }"

section \<open>PagePool\<close>

definition with_source :: "page_source \<Rightarrow> 'z pool_world_scheme \<Rightarrow> (panic + page_pool) \<times> 'z pool_world_scheme" where
  "with_source src w =
     (let page_size = src_page_size src
      in if \<not> page_size \<ge> ptr_size then (Inl AssertFailed, w)
         else (Inr \<lparr>pp_local_head = 0\<rparr>,
               w\<lparr>w_shared := \<lparr>sh_page_size = page_size, sh_source = src, sh_return_head = 0,
                              sh_stats = pool_stats_default\<rparr>, w_strong := 1\<rparr>))"

definition page_pool_new :: "placement \<Rightarrow> usize \<Rightarrow> 'z pool_world_scheme \<Rightarrow> (panic + page_pool) \<times> 'z pool_world_scheme" where
  "page_pool_new ga page_size w =
     (case heap_source_new page_size of
        Inl e \<Rightarrow> (Inl e, w)
      | Inr s \<Rightarrow> with_source (heap_vtable ga s) w)"

definition pool_page_size :: "'z pool_world_scheme \<Rightarrow> usize" where
  "pool_page_size w = sh_page_size (w_shared w)"

definition local_free_pages :: "page_pool \<Rightarrow> 'z pool_world_scheme \<Rightarrow> usize option" where
  "local_free_pages pp w = count_loop (w_heap w) (pp_local_head pp) 0"

fun prewarm_loop :: "nat \<Rightarrow> page_pool \<Rightarrow> 'z pool_world_scheme
    \<Rightarrow> ((panic + unit) \<times> page_pool \<times> 'z pool_world_scheme) option" where
  "prewarm_loop 0 pp w = Some (Inr (), pp, w)"
| "prewarm_loop (Suc n) pp w = do {
     sh \<leftarrow> get_shared w;
     (case src_allocate (sh_source sh) (w_heap w) of
        (Inl e, h) \<Rightarrow> Some (Inl e, pp, w\<lparr>w_heap := h\<rparr>)
      | (Inr ptr, h) \<Rightarrow> do {
          h \<leftarrow> src_prefault (sh_source sh) ptr h;
          h \<leftarrow> ptr_write h ptr (pp_local_head pp);
          prewarm_loop n (pp\<lparr>pp_local_head := ptr\<rparr>) (w\<lparr>w_heap := h\<rparr>)
        })
   }"

definition prewarm :: "usize \<Rightarrow> page_pool \<Rightarrow> 'z pool_world_scheme
    \<Rightarrow> ((panic + unit) \<times> page_pool \<times> 'z pool_world_scheme) option" where
  "prewarm num_pages pp w = do {
     (r, pp, w) \<leftarrow> prewarm_loop (unat num_pages) pp w;
     (case r of
        Inl e \<Rightarrow> Some (Inl e, pp, w)
      | Inr _ \<Rightarrow>
          let n = num_pages;
              w = upd_stats (\<lambda>s. s\<lparr>ps_allocations_from_heap := fetch_add (ps_allocations_from_heap s) n\<rparr>) w;
              w = upd_stats (\<lambda>s. s\<lparr>ps_free_pages := fetch_add (ps_free_pages s) n\<rparr>) w;
              w = upd_stats (\<lambda>s. s\<lparr>ps_prewarmed_pages := fetch_add (ps_prewarmed_pages s) n\<rparr>) w
          in Some (Inr (), pp, w))
   }"

definition pop_local :: "page_pool \<Rightarrow> 'z pool_world_scheme
    \<Rightarrow> (addr option \<times> page_pool \<times> 'z pool_world_scheme) option" where
  "pop_local pp w =
     (if pp_local_head pp = 0 then Some (None, pp, w)
      else do {
        let head = pp_local_head pp;
        next \<leftarrow> ptr_read (w_heap w) head;
        let pp = pp\<lparr>pp_local_head := next\<rparr>;
        _ \<leftarrow> get_shared w;
        let w = upd_stats (\<lambda>s. s\<lparr>ps_free_pages := fetch_sub (ps_free_pages s) 1\<rparr>) w;
        Some (Some head, pp, w)
      })"

definition drain_return_queue :: "page_pool \<Rightarrow> 'z pool_world_scheme
    \<Rightarrow> (addr option \<times> page_pool \<times> 'z pool_world_scheme) option" where
  "drain_return_queue pp w = do {
     sh \<leftarrow> get_shared w;
     let head = sh_return_head sh;
     let w = set_return_head 0 w;
     if head = 0 then Some (None, pp, w)
     else do {
       let w = upd_stats (\<lambda>s. s\<lparr>ps_return_queue_drains := fetch_add (ps_return_queue_drains s) 1\<rparr>) w;
       let pp = pp\<lparr>pp_local_head := head\<rparr>;
       pop_local pp w
     }
   }"

definition allocate_fresh :: "'z pool_world_scheme \<Rightarrow> ((panic + addr) \<times> 'z pool_world_scheme) option" where
  "allocate_fresh w = do {
     _ \<leftarrow> get_shared w;
     let w = upd_stats (\<lambda>s. s\<lparr>ps_allocations_from_heap := fetch_add (ps_allocations_from_heap s) 1\<rparr>) w;
     (case src_allocate (sh_source (w_shared w)) (w_heap w) of (r, h) \<Rightarrow> Some (r, w\<lparr>w_heap := h\<rparr>))
   }"

definition allocate_raw_page :: "page_pool \<Rightarrow> 'z pool_world_scheme
    \<Rightarrow> ((panic + addr) \<times> page_pool \<times> 'z pool_world_scheme) option" where
  "allocate_raw_page pp w = do {
     (b, pp, w) \<leftarrow> pop_local pp w;
     (b, pp, w) \<leftarrow> (case b of Some buf \<Rightarrow> Some (Some buf, pp, w) | None \<Rightarrow> drain_return_queue pp w);
     (r, w) \<leftarrow> (case b of Some buf \<Rightarrow> Some (Inr buf, w) | None \<Rightarrow> allocate_fresh w);
     (case r of
        Inl e \<Rightarrow> Some (Inl e, pp, w)
      | Inr buf \<Rightarrow>
          let w = upd_stats (\<lambda>s. s\<lparr>ps_pages_in_use := fetch_add (ps_pages_in_use s) 1\<rparr>) w
          in Some (Inr buf, pp, clone_shared w))
   }"

text \<open>\<open>Drop for PagePool\<close>, and then the drop of its field \<open>shared\<close>.\<close>

definition page_pool_drop :: "page_pool \<Rightarrow> 'z pool_world_scheme \<Rightarrow> 'z pool_world_scheme option" where
  "page_pool_drop pp w = do {
     sh \<leftarrow> get_shared w;
     h \<leftarrow> release_loop (sh_source sh) (w_heap w) (pp_local_head pp);
     drop_shared (w\<lparr>w_heap := h\<rparr>)
   }"

text \<open>A panic of \<open>prewarm\<close> unwinds through \<open>with_capacity\<close>, which drops the pool.\<close>

definition with_capacity :: "placement \<Rightarrow> usize \<Rightarrow> usize \<Rightarrow> 'z pool_world_scheme
    \<Rightarrow> ((panic + page_pool) \<times> 'z pool_world_scheme) option" where
  "with_capacity ga page_size num_pages w =
     (case page_pool_new ga page_size w of
        (Inl e, w) \<Rightarrow> Some (Inl e, w)
      | (Inr pp, w) \<Rightarrow> do {
          (r, pp, w) \<leftarrow> prewarm num_pages pp w;
          (case r of
             Inl e \<Rightarrow> do { w \<leftarrow> page_pool_drop pp w; Some (Inl e, w) }
           | Inr _ \<Rightarrow> Some (Inr pp, w))
        })"

section \<open>The abstract pool\<close>

text \<open>What the pool promises: a buffer is taken from the local list, then from the return queue,
  and only then from the source.\<close>

record apool =
  a_local :: "addr list"
  a_return :: "addr list"

fun a_take :: "apool \<Rightarrow> (addr \<times> apool) option" where
  "a_take a =
     (case a_local a of
        x # xs \<Rightarrow> Some (x, a\<lparr>a_local := xs\<rparr>)
      | [] \<Rightarrow> (case a_return a of
            x # xs \<Rightarrow> Some (x, \<lparr>a_local = xs, a_return = []\<rparr>)
          | [] \<Rightarrow> None))"

definition a_give :: "addr \<Rightarrow> apool \<Rightarrow> apool" where
  "a_give x a = a\<lparr>a_return := x # a_return a\<rparr>"

definition a_free :: "apool \<Rightarrow> addr multiset" where
  "a_free a = mset (a_local a) + mset (a_return a)"

text \<open>The invariant. \<open>pp\<close> is the pool, \<open>None\<close> once it has been dropped; \<open>U\<close> are the buffers handed
  out and not returned.\<close>

definition pool_inv :: "page_pool option \<Rightarrow> 'z pool_world_scheme \<Rightarrow> apool \<Rightarrow> addr multiset \<Rightarrow> bool" where
  "pool_inv pp w a U \<longleftrightarrow>
     page_source_contract (sh_source (w_shared w)) \<and>
     src_page_size (sh_source (w_shared w)) = sh_page_size (w_shared w) \<and>
     8 \<le> unat (sh_page_size (w_shared w)) \<and>
     0 < w_strong w \<and>
     (case pp of None \<Rightarrow> a_local a = [] | Some pp \<Rightarrow> chain (w_heap w) (pp_local_head pp) (a_local a)) \<and>
     chain (w_heap w) (sh_return_head (w_shared w)) (a_return a) \<and>
     (\<forall>x. count (a_free a + U) x \<le> 1) \<and>
     (\<forall>x. x \<in># a_free a + U \<longrightarrow> buffer_ok (w_heap w) (unat (sh_page_size (w_shared w))) (sh_source (w_shared w)) x) \<and>
     ps_pages_in_use (sh_stats (w_shared w)) = of_nat (size U)"

text \<open>The counter of free pages is exact (it is not while a failed \<open>prewarm\<close> is outstanding).\<close>

definition free_count_ok :: "'z pool_world_scheme \<Rightarrow> apool \<Rightarrow> bool" where
  "free_count_ok w a \<longleftrightarrow>
     ps_free_pages (sh_stats (w_shared w)) = of_nat (length (a_local a) + length (a_return a))"

text \<open>What no operation of the pool changes: the tenants' counters, the tables of the layers above,
  the page size and the source.\<close>

definition pool_frame :: "'z pool_world_scheme \<Rightarrow> 'z pool_world_scheme \<Rightarrow> bool" where
  "pool_frame w w' \<longleftrightarrow>
     w_tenants w' = w_tenants w \<and> pool_world.more w' = pool_world.more w \<and>
     sh_page_size (w_shared w') = sh_page_size (w_shared w) \<and>
     sh_source (w_shared w') = sh_source (w_shared w)"

text \<open>A client that takes \<open>n\<close> pages in a row.\<close>

fun allocate_many :: "nat \<Rightarrow> page_pool \<Rightarrow> 'z pool_world_scheme
    \<Rightarrow> ((panic + addr list) \<times> page_pool \<times> 'z pool_world_scheme) option" where
  "allocate_many 0 pp w = Some (Inr [], pp, w)"
| "allocate_many (Suc n) pp w = do {
     (r, pp, w) \<leftarrow> allocate_raw_page pp w;
     (case r of
        Inl e \<Rightarrow> Some (Inl e, pp, w)
      | Inr b \<Rightarrow> do {
          (r, pp, w) \<leftarrow> allocate_many n pp w;
          Some (case r of Inl e \<Rightarrow> Inl e | Inr bs \<Rightarrow> Inr (b # bs), pp, w)
        })
   }"

text \<open>A concrete program state: nothing allocated, all counters zero, and a pool of 16-byte pages.\<close>

definition empty_world :: pool_world where
  "empty_world = \<lparr>w_heap = Map.empty, w_tenants = (\<lambda>_. tenant_stats_default),
     w_shared = \<lparr>sh_page_size = 0, sh_source = heap_vtable first_fit_alloc
        \<lparr>hs_page_size = 0, hs_layout = \<lparr>l_size = 0, l_align = 8\<rparr>\<rparr>,
        sh_return_head = 0, sh_stats = pool_stats_default\<rparr>, w_strong = 0\<rparr>"

definition demo_world :: pool_world where
  "demo_world = snd (page_pool_new first_fit_alloc 16 empty_world)"

definition demo_pool :: page_pool where
  "demo_pool = \<lparr>pp_local_head = 0\<rparr>"

text \<open>A system that can map a single page, and a pool over it.\<close>

definition tiny_os :: os where
  "tiny_os = linux_os\<lparr>os_sysconf_pagesize := 16, os_mmap := (\<lambda>len prot flags h.
     if h 4096 = None \<and> unat len \<le> isize_max then (4096, h(4096 \<mapsto> replicate (unat len) 0))
     else (map_failed, h))\<rparr>"

definition tiny_world :: pool_world where
  "tiny_world = snd (with_source (mmap_vtable tiny_os \<lparr>ms_page_size = 16\<rparr>) empty_world)"

section \<open>Lemmas\<close>

subsection \<open>Projections\<close>

lemma world_upd_simps [simp]:
  "w_heap (upd_stats f w) = w_heap w" "w_tenants (upd_stats f w) = w_tenants w"
  "w_strong (upd_stats f w) = w_strong w" "pool_world.more (upd_stats f w) = pool_world.more w"
  "sh_page_size (w_shared (upd_stats f w)) = sh_page_size (w_shared w)"
  "sh_source (w_shared (upd_stats f w)) = sh_source (w_shared w)"
  "sh_return_head (w_shared (upd_stats f w)) = sh_return_head (w_shared w)"
  "sh_stats (w_shared (upd_stats f w)) = f (sh_stats (w_shared w))"
  "w_heap (set_return_head p w) = w_heap w" "w_tenants (set_return_head p w) = w_tenants w"
  "w_strong (set_return_head p w) = w_strong w"
  "pool_world.more (set_return_head p w) = pool_world.more w"
  "sh_page_size (w_shared (set_return_head p w)) = sh_page_size (w_shared w)"
  "sh_source (w_shared (set_return_head p w)) = sh_source (w_shared w)"
  "sh_return_head (w_shared (set_return_head p w)) = p"
  "sh_stats (w_shared (set_return_head p w)) = sh_stats (w_shared w)"
  "w_heap (clone_shared w) = w_heap w" "w_tenants (clone_shared w) = w_tenants w"
  "w_strong (clone_shared w) = Suc (w_strong w)" "w_shared (clone_shared w) = w_shared w"
  "pool_world.more (clone_shared w) = pool_world.more w"
  "w_heap (upd_tenant t g w) = w_heap w" "w_shared (upd_tenant t g w) = w_shared w"
  "w_strong (upd_tenant t g w) = w_strong w" "pool_world.more (upd_tenant t g w) = pool_world.more w"
  "w_tenants (upd_tenant t g w) = (w_tenants w)(t := g (w_tenants w t))"
  by (simp_all add: upd_stats_def set_return_head_def clone_shared_def upd_tenant_def)

lemma pool_frame_refl [simp]: "pool_frame w w"
  by (simp add: pool_frame_def)

lemma pool_frame_trans: "pool_frame w1 w2 \<Longrightarrow> pool_frame w2 w3 \<Longrightarrow> pool_frame w1 w3"
  by (simp add: pool_frame_def)

lemma pool_inv_strong: "pool_inv pp w a U \<Longrightarrow> get_shared w = Some (w_shared w)"
  by (simp add: pool_inv_def get_shared_def)

text \<open>The invariant depends on the world through the fields it names.\<close>

lemma pool_inv_cong:
  assumes "pool_inv pp w a U" and "w_heap w' = w_heap w" and "w_shared w' = w_shared w"
    and "0 < w_strong w'"
  shows "pool_inv pp w' a U"
  using assms by (auto simp: pool_inv_def split: option.splits)

subsection \<open>Taking a buffer\<close>

lemma pop_local_empty: "pp_local_head pp = 0 \<Longrightarrow> pop_local pp w = Some (None, pp, w)"
  by (simp add: pop_local_def)

lemma pop_local_cons:
  assumes "chain (w_heap w) (pp_local_head pp) (x # xs)" and "0 < w_strong w"
  obtains q where "chain (w_heap w) q xs"
    and "pop_local pp w = Some (Some x, pp\<lparr>pp_local_head := q\<rparr>,
           upd_stats (\<lambda>s. s\<lparr>ps_free_pages := fetch_sub (ps_free_pages s) 1\<rparr>) w)"
  using assms by (auto simp: pop_local_def get_shared_def split: option.splits)

lemma drain_empty:
  "sh_return_head (w_shared w) = 0 \<Longrightarrow> 0 < w_strong w \<Longrightarrow>
   drain_return_queue pp w = Some (None, pp, set_return_head 0 w)"
  by (simp add: drain_return_queue_def get_shared_def)

lemma drain_cons:
  assumes "chain (w_heap w) (sh_return_head (w_shared w)) (x # xs)" and "0 < w_strong w"
  obtains q where "chain (w_heap w) q xs"
    and "drain_return_queue pp w = Some (Some x, pp\<lparr>pp_local_head := q\<rparr>,
           upd_stats (\<lambda>s. s\<lparr>ps_free_pages := fetch_sub (ps_free_pages s) 1\<rparr>)
           (upd_stats (\<lambda>s. s\<lparr>ps_return_queue_drains := fetch_add (ps_return_queue_drains s) 1\<rparr>)
             (set_return_head 0 w)))"
  using assms
  by (auto simp: drain_return_queue_def pop_local_def get_shared_def split: option.splits)

lemma a_take_free: "a_take a = Some (x, a') \<Longrightarrow> a_free a = add_mset x (a_free a')"
  by (auto simp: a_free_def split: list.splits)

lemma a_take_None: "a_take a = None \<longleftrightarrow> a_local a = [] \<and> a_return a = []"
  by (auto split: list.splits)

lemma a_take_Some_cases:
  assumes "a_take a = Some (x, a')"
  obtains xs where "a_local a = x # xs" and "a' = a\<lparr>a_local := xs\<rparr>"
    | xs where "a_local a = []" and "a_return a = x # xs" and "a' = \<lparr>a_local = xs, a_return = []\<rparr>"
  using assms by (auto split: list.splits)

declare a_take.simps [simp del]

lemma allocate_raw_page_take:
  assumes inv: "pool_inv (Some pp) w a U" and take: "a_take a = Some (x, a')"
  shows "\<exists>pp' w'. allocate_raw_page pp w = Some (Inr x, pp', w')
     \<and> pool_inv (Some pp') w' a' (add_mset x U) \<and> pool_frame w w'
     \<and> w_heap w' = w_heap w \<and> w_strong w' = Suc (w_strong w)
     \<and> ps_allocations_from_heap (sh_stats (w_shared w')) = ps_allocations_from_heap (sh_stats (w_shared w))
     \<and> (free_count_ok w a \<longrightarrow> free_count_ok w' a')"
proof -
  have strong: "0 < w_strong w" and local: "chain (w_heap w) (pp_local_head pp) (a_local a)"
    and ret: "chain (w_heap w) (sh_return_head (w_shared w)) (a_return a)"
    using inv by (auto simp: pool_inv_def)
  have free: "a_free a = add_mset x (a_free a')" using take by (rule a_take_free)
  from take show ?thesis
  proof (cases rule: a_take_Some_cases)
    case (1 xs)
    with local have c: "chain (w_heap w) (pp_local_head pp) (x # xs)" by simp
    from c strong obtain q where q: "chain (w_heap w) q xs"
      and pop: "pop_local pp w = Some (Some x, pp\<lparr>pp_local_head := q\<rparr>,
           upd_stats (\<lambda>s. s\<lparr>ps_free_pages := fetch_sub (ps_free_pages s) 1\<rparr>) w)"
      by (rule pop_local_cons)
    from inv free q ret 1 show ?thesis
      by (auto simp: allocate_raw_page_def pop pool_inv_def pool_frame_def free_count_ok_def
          fetch_add_def fetch_sub_def add.commute)
  next
    case (2 xs)
    from 2 local have l0: "pp_local_head pp = 0" by simp
    from ret 2 have c: "chain (w_heap w) (sh_return_head (w_shared w)) (x # xs)" by simp
    from c strong obtain q where q: "chain (w_heap w) q xs"
      and drain: "drain_return_queue pp w = Some (Some x, pp\<lparr>pp_local_head := q\<rparr>,
           upd_stats (\<lambda>s. s\<lparr>ps_free_pages := fetch_sub (ps_free_pages s) 1\<rparr>)
           (upd_stats (\<lambda>s. s\<lparr>ps_return_queue_drains := fetch_add (ps_return_queue_drains s) 1\<rparr>)
             (set_return_head 0 w)))"
      by (rule drain_cons)
    from inv free q 2 show ?thesis
      by (auto simp: allocate_raw_page_def pop_local_empty [OF l0] drain pool_inv_def pool_frame_def
          free_count_ok_def fetch_add_def fetch_sub_def add.commute)
  qed
qed

lemma pool_inv_fresh:
  assumes "pool_inv pp w a U" and "w_heap w x = None"
  shows "x \<notin># a_free a + U"
  using assms by (auto simp: pool_inv_def buffer_ok_def)

lemma pool_inv_heap:
  assumes "pool_inv pp w a U" and "\<And>x. x \<in># a_free a \<Longrightarrow> h x = w_heap w x"
    and "\<And>x. x \<in># U \<Longrightarrow> buffer_ok h (unat (sh_page_size (w_shared w))) (sh_source (w_shared w)) x"
  shows "pool_inv pp (w\<lparr>w_heap := h\<rparr>) a U"
proof -
  have same: "h x = w_heap w x" if "x \<in> set (a_local a) \<or> x \<in> set (a_return a)" for x
    using assms(2) that by (auto simp: a_free_def)
  have "chain (w_heap w) p (a_local a) \<Longrightarrow> chain h p (a_local a)" for p
    by (rule chain_frame [of _ h "w_heap w"]) (simp_all add: same)
  moreover have "chain (w_heap w) p (a_return a) \<Longrightarrow> chain h p (a_return a)" for p
    by (rule chain_frame [of _ h "w_heap w"]) (simp_all add: same)
  moreover have "buffer_ok h n src x = buffer_ok (w_heap w) n src x" if "x \<in># a_free a" for n src x
    using assms(2) [OF that] by (simp add: buffer_ok_def)
  ultimately show ?thesis
    using assms(1,3) by (auto simp: pool_inv_def split: option.splits)
qed

lemma allocate_raw_page_fresh:
  assumes inv: "pool_inv (Some pp) w a U" and none: "a_take a = None"
  shows "\<exists>r w'. allocate_raw_page pp w = Some (r, pp, w') \<and> pool_frame w w'
     \<and> ps_allocations_from_heap (sh_stats (w_shared w')) = ps_allocations_from_heap (sh_stats (w_shared w)) + 1
     \<and> (free_count_ok w a \<longrightarrow> free_count_ok w' a)
     \<and> (case r of
          Inl e \<Rightarrow> pool_inv (Some pp) w' a U \<and> w_heap w' = w_heap w \<and> w_strong w' = w_strong w
        | Inr x \<Rightarrow> pool_inv (Some pp) w' a (add_mset x U) \<and> w_heap w x = None
            \<and> w_heap w' = (w_heap w)(x \<mapsto> replicate (unat (sh_page_size (w_shared w))) 0)
            \<and> w_strong w' = Suc (w_strong w))"
proof -
  have src: "page_source_contract (sh_source (w_shared w))" and strong: "0 < w_strong w"
    and l0: "pp_local_head pp = 0" and r0: "sh_return_head (w_shared w) = 0"
    and ps: "src_page_size (sh_source (w_shared w)) = sh_page_size (w_shared w)"
    using inv none by (auto simp: pool_inv_def a_take_None)
  note drain = drain_empty [OF r0 strong, of pp]
  obtain r h where alloc: "src_allocate (sh_source (w_shared w)) (w_heap w) = (r, h)" by fastforce
  show ?thesis
  proof (cases r)
    case (Inl e)
    with alloc page_source_contract.allocate_fail [OF src] have "h = w_heap w" by simp
    with Inl inv none strong r0 alloc show ?thesis
      by (auto simp: allocate_raw_page_def pop_local_empty [OF l0] drain allocate_fresh_def
          get_shared_def pool_inv_def pool_frame_def free_count_ok_def a_take_None fetch_add_def)
  next
    case (Inr x)
    note alloc' = alloc [unfolded Inr]
    note ok = page_source_contract.allocate_buffer_ok [OF src alloc']
    have h: "h = (w_heap w)(x \<mapsto> replicate (unat (sh_page_size (w_shared w))) 0)"
      using page_source_contract.allocate_ok [OF src alloc'] ps by simp
    have new: "x \<notin># a_free a + U" using inv ok(2) by (rule pool_inv_fresh)
    have "pool_inv (Some pp) (w\<lparr>w_heap := h\<rparr>) a U"
    proof (rule pool_inv_heap [OF inv])
      fix y assume "y \<in># a_free a"
      with new ok(3) show "h y = w_heap w y" by (metis union_iff)
    next
      fix y assume "y \<in># U"
      with new have "y \<noteq> x" by auto
      with \<open>y \<in># U\<close> inv show "buffer_ok h (unat (sh_page_size (w_shared w))) (sh_source (w_shared w)) y"
        by (simp add: h buffer_ok_upd_other pool_inv_def)
    qed
    with Inr new ok(1,2) h none strong r0 alloc ps show ?thesis
      by (auto simp: allocate_raw_page_def pop_local_empty [OF l0] drain allocate_fresh_def
          get_shared_def pool_inv_def pool_frame_def free_count_ok_def a_take_None fetch_add_def
          add.commute not_in_iff)
  qed
qed

subsection \<open>Giving a buffer back\<close>

lemma push_return_ok:
  assumes inv: "pool_inv pp w a (add_mset x U)"
  shows "\<exists>w'. push_return x w = Some w' \<and> pool_inv pp w' (a_give x a) U \<and> pool_frame w w'
     \<and> w_strong w' = w_strong w \<and> (\<forall>y. y \<noteq> x \<longrightarrow> w_heap w' y = w_heap w y)
     \<and> (free_count_ok w a \<longrightarrow> free_count_ok w' (a_give x a))
     \<and> sh_stats (w_shared w') = (sh_stats (w_shared w))
          \<lparr>ps_pages_in_use := ps_pages_in_use (sh_stats (w_shared w)) - 1,
           ps_free_pages := ps_free_pages (sh_stats (w_shared w)) + 1\<rparr>"
proof -
  let ?n = "unat (sh_page_size (w_shared w))" and ?src = "sh_source (w_shared w)" and ?head = "sh_return_head (w_shared w)"
  have x: "buffer_ok (w_heap w) ?n ?src x" "8 \<le> ?n" and gs: "get_shared w = Some (w_shared w)"
    and cnt: "\<And>y. count (a_free a + add_mset x U) y \<le> 1"
    using inv by (auto simp: pool_inv_def get_shared_def)
  from x obtain bs where bs: "w_heap w x = Some bs" "length bs = ?n"
    and wr: "ptr_write (w_heap w) x ?head = Some ((w_heap w)(x \<mapsto> ptr_to_bytes ?head @ drop 8 bs))"
    by (rule buffer_ok_ptr_write)
  let ?h = "(w_heap w)(x \<mapsto> ptr_to_bytes ?head @ drop 8 bs)"
  have nin: "x \<notin># a_free a" "x \<notin># U" using cnt [of x] by (auto simp: not_in_iff)
  have ok: "buffer_ok ?h ?n ?src y" if "buffer_ok (w_heap w) ?n ?src y" for y
    using that bs x(2) by (intro buffer_ok_write) auto
  have "pool_inv pp (w\<lparr>w_heap := ?h\<rparr>) a (add_mset x U)"
    using inv nin by (intro pool_inv_heap) (auto simp: pool_inv_def intro: ok)
  moreover have "chain ?h x (x # a_return a)"
  proof (rule chain.rep_push [OF wr])
    show "chain (w_heap w) ?head (a_return a)" using inv by (simp add: pool_inv_def)
  qed (use nin x(1) in \<open>auto simp: a_free_def buffer_ok_def\<close>)
  ultimately show ?thesis
    by (auto simp: push_return_def gs wr pool_inv_def a_give_def a_free_def pool_frame_def
        free_count_ok_def fetch_add_def fetch_sub_def split: option.splits)
qed

subsection \<open>Opening, prewarming and closing a pool\<close>

lemma with_source_inv:
  assumes "page_source_contract src" and "with_source src w = (Inr pp, w')"
  shows "pool_inv (Some pp) w' \<lparr>a_local = [], a_return = []\<rparr> {#}"
    and "free_count_ok w' \<lparr>a_local = [], a_return = []\<rparr>" and "w_strong w' = 1"
    and "w_heap w' = w_heap w" and "w_tenants w' = w_tenants w"
    and "sh_source (w_shared w') = src" and "sh_stats (w_shared w') = pool_stats_default"
  using assms
  by (auto simp: with_source_def Let_def ptr_size_def pool_inv_def a_free_def pool_stats_default_def
      free_count_ok_def word_le_nat_alt split: if_splits)

text \<open>One iteration of the loop: a new page goes to the front of the local list.\<close>

lemma prewarm_page:
  assumes inv: "pool_inv (Some pp) w a U"
    and alloc: "src_allocate (sh_source (w_shared w)) (w_heap w) = (Inr x, h)"
  obtains h2 h3 where "src_prefault (sh_source (w_shared w)) x h = Some h2"
    and "ptr_write h2 x (pp_local_head pp) = Some h3"
    and "pool_inv (Some (pp\<lparr>pp_local_head := x\<rparr>)) (w\<lparr>w_heap := h3\<rparr>) (a\<lparr>a_local := x # a_local a\<rparr>) U"
    and "w_heap w x = None" and "\<And>y. y \<noteq> x \<Longrightarrow> h3 y = w_heap w y"
proof -
  let ?n = "unat (sh_page_size (w_shared w))" and ?src = "sh_source (w_shared w)"
  have src: "page_source_contract (sh_source (w_shared w))" and n8: "8 \<le> ?n"
    and ps: "src_page_size (sh_source (w_shared w)) = sh_page_size (w_shared w)"
    and loc: "chain (w_heap w) (pp_local_head pp) (a_local a)"
    using inv by (auto simp: pool_inv_def)
  note ok = page_source_contract.allocate_buffer_ok [OF src alloc, unfolded ps]
  from ok(1) obtain bs where bs: "h x = Some bs" "length bs = ?n" "length bs \<le> isize_max"
    and prod: "src_produces ?src x" by (auto elim!: buffer_okE)
  with page_source_contract.prefault_ok [OF src prod, of h bs] ps obtain bs2
    where pre: "src_prefault ?src x h = Some (h(x \<mapsto> bs2))" "length bs2 = ?n" by auto
  let ?h2 = "h(x \<mapsto> bs2)" and ?h3 = "h(x \<mapsto> ptr_to_bytes (pp_local_head pp) @ drop 8 bs2)"
  have wr: "ptr_write ?h2 x (pp_local_head pp) = Some ?h3"
    using ok(1) pre(2) n8 by (auto simp: ptr_write_def elim!: buffer_okE)
  have new: "x \<notin># a_free a + U" using inv ok(2) by (rule pool_inv_fresh)
  have other: "?h3 y = w_heap w y" if "y \<noteq> x" for y using that ok(3) by simp
  have ok3: "buffer_ok ?h3 ?n ?src x" using ok(1) pre(2) n8 by (intro buffer_ok_write) auto
  have "pool_inv (Some pp) (w\<lparr>w_heap := ?h3\<rparr>) a U"
  proof (rule pool_inv_heap [OF inv])
    fix y assume "y \<in># a_free a"
    with new other show "?h3 y = w_heap w y" by (metis union_iff)
  next
    fix y assume "y \<in># U"
    with new have "y \<noteq> x" by auto
    from other [OF this] \<open>y \<in># U\<close> inv show "buffer_ok ?h3 ?n ?src y"
      by (simp add: pool_inv_def buffer_ok_def)
  qed
  moreover have "chain ?h3 x (x # a_local a)"
  proof (rule chain.rep_push [OF wr])
    show "chain ?h2 (pp_local_head pp) (a_local a)"
      by (rule chain_frame [OF _ loc]) (use new ok(3) in \<open>auto simp: a_free_def\<close>)
  qed (use new ok(1) in \<open>auto simp: a_free_def buffer_ok_def\<close>)
  ultimately have
    fin: "pool_inv (Some (pp\<lparr>pp_local_head := x\<rparr>)) (w\<lparr>w_heap := ?h3\<rparr>) (a\<lparr>a_local := x # a_local a\<rparr>) U"
    using new ok3 by (auto simp: pool_inv_def a_free_def not_in_iff)
  from pre(1) wr fin ok(2) other show thesis by (rule that)
qed

text \<open>\<open>ys\<close> are the pages the loop committed, the last one first.\<close>

lemma prewarm_loop_ok:
  assumes "pool_inv (Some pp) w a U"
  shows "\<exists>r pp' w' ys. prewarm_loop n pp w = Some (r, pp', w')
     \<and> pool_inv (Some pp') w' (a\<lparr>a_local := ys @ a_local a\<rparr>) U
     \<and> pool_frame w w' \<and> w_strong w' = w_strong w \<and> sh_stats (w_shared w') = sh_stats (w_shared w)
     \<and> (\<forall>x. x \<notin> set ys \<longrightarrow> w_heap w' x = w_heap w x) \<and> (\<forall>x \<in> set ys. w_heap w x = None)
     \<and> (case r of Inl e \<Rightarrow> length ys < n | Inr _ \<Rightarrow> length ys = n)"
  using assms
proof (induction n arbitrary: pp w a)
  case 0
  then show ?case by (intro exI [of _ "Inr ()"] exI [of _ pp] exI [of _ w] exI [of _ "[]"]) simp
next
  case (Suc n)
  note gs = pool_inv_strong [OF Suc.prems]
  obtain r h where alloc: "src_allocate (sh_source (w_shared w)) (w_heap w) = (r, h)" by fastforce
  show ?case
  proof (cases r)
    case (Inl e)
    have "page_source_contract (sh_source (w_shared w))" using Suc.prems by (simp add: pool_inv_def)
    from page_source_contract.allocate_fail [OF this] alloc Inl have "h = w_heap w" by simp
    with Inl Suc.prems gs alloc show ?thesis
      by (intro exI [of _ "Inl e"] exI [of _ pp] exI [of _ w] exI [of _ "[]"]) simp
  next
    case (Inr x)
    from prewarm_page [OF Suc.prems alloc [unfolded Inr]] obtain h2 h3 where
      step: "src_prefault (sh_source (w_shared w)) x h = Some h2"
        "ptr_write h2 x (pp_local_head pp) = Some h3"
      and inv: "pool_inv (Some (pp\<lparr>pp_local_head := x\<rparr>)) (w\<lparr>w_heap := h3\<rparr>) (a\<lparr>a_local := x # a_local a\<rparr>) U"
      and x: "w_heap w x = None" "\<And>y. y \<noteq> x \<Longrightarrow> h3 y = w_heap w y"
      by blast
    from Suc.IH [OF inv] obtain r' pp' w' ys where
      rec: "prewarm_loop n (pp\<lparr>pp_local_head := x\<rparr>) (w\<lparr>w_heap := h3\<rparr>) = Some (r', pp', w')"
      and inv': "pool_inv (Some pp') w' (a\<lparr>a_local := ys @ x # a_local a\<rparr>) U"
      and fr: "pool_frame (w\<lparr>w_heap := h3\<rparr>) w'" "w_strong w' = w_strong w"
        "sh_stats (w_shared w') = sh_stats (w_shared w)"
      and keep: "\<forall>y. y \<notin> set ys \<longrightarrow> w_heap w' y = h3 y" "\<forall>y \<in> set ys. h3 y = None"
      and len: "case r' of Inl e \<Rightarrow> length ys < n | Inr _ \<Rightarrow> length ys = n"
      by auto
    have "h3 x \<noteq> None" using step(2) by (auto simp: ptr_write_Some_iff)
    then have "\<forall>y \<in> set ys. w_heap w y = None" using keep(2) x(2) by metis
    moreover have "\<forall>y. y \<notin> set (ys @ [x]) \<longrightarrow> w_heap w' y = w_heap w y" using keep(1) x(2) by simp
    moreover have "prewarm_loop (Suc n) pp w = Some (r', pp', w')"
      using gs alloc Inr step rec by simp
    ultimately show ?thesis using inv' fr len x(1)
      by (intro exI [of _ r'] exI [of _ pp'] exI [of _ w'] exI [of _ "ys @ [x]"])
        (auto simp: pool_frame_def split: sum.splits)
  qed
qed

lemma drop_shared_not_last:
  assumes "pool_inv pp w a U" and "1 < w_strong w"
  shows "drop_shared w = Some (w\<lparr>w_strong := w_strong w - 1\<rparr>)"
    and "pool_inv pp (w\<lparr>w_strong := w_strong w - 1\<rparr>) a U"
  using assms by (auto simp: drop_shared_def get_shared_def intro: pool_inv_cong)

lemma drop_shared_last:
  assumes inv: "pool_inv pp w a U" and one: "w_strong w = 1"
  shows "\<exists>w'. drop_shared w = Some w' \<and> w_strong w' = 0
     \<and> w_heap w' = (\<lambda>x. if x \<in> set (a_return a) then None else w_heap w x)
     \<and> pool_frame w w' \<and> sh_stats (w_shared w') = sh_stats (w_shared w)"
proof -
  have src: "page_source_contract (sh_source (w_shared w))"
    and ch: "chain (w_heap w) (sh_return_head (w_shared w)) (a_return a)"
    and ok: "\<forall>x \<in> set (a_return a). buffer_ok (w_heap w) (unat (src_page_size (sh_source (w_shared w)))) (sh_source (w_shared w)) x"
    using inv by (auto simp: pool_inv_def a_free_def)
  from page_source_contract.release_loop_chain [OF src ch ok]
  have rel: "release_loop (sh_source (w_shared w)) (w_heap w) (sh_return_head (w_shared w))
      = Some (\<lambda>x. if x \<in> set (a_return a) then None else w_heap w x)" .
  let ?u = "w\<lparr>w_strong := 0\<rparr>"
  have "pool_shared_drop ?u = Some ((set_return_head 0 ?u)
      \<lparr>w_heap := \<lambda>x. if x \<in> set (a_return a) then None else w_heap w x\<rparr>)"
    using rel by (simp add: pool_shared_drop_def)
  with one show ?thesis by (simp add: drop_shared_def get_shared_def pool_frame_def)
qed

text \<open>The local list is released first; what the last reference releases follows.\<close>

lemma page_pool_drop_local:
  assumes inv: "pool_inv (Some pp) w a U"
  shows "\<exists>w1. page_pool_drop pp w = drop_shared w1 \<and> pool_inv None w1 (a\<lparr>a_local := []\<rparr>) U
     \<and> pool_frame w w1 \<and> w_strong w1 = w_strong w \<and> sh_stats (w_shared w1) = sh_stats (w_shared w)
     \<and> w_heap w1 = (\<lambda>x. if x \<in> set (a_local a) then None else w_heap w x)"
proof -
  let ?h = "\<lambda>x. if x \<in> set (a_local a) then None else w_heap w x"
  have src: "page_source_contract (sh_source (w_shared w))"
    and ch: "chain (w_heap w) (pp_local_head pp) (a_local a)"
    and ok: "\<forall>x \<in> set (a_local a). buffer_ok (w_heap w) (unat (src_page_size (sh_source (w_shared w)))) (sh_source (w_shared w)) x"
    and cnt: "\<And>x. count (a_free a + U) x \<le> 1" and gs: "get_shared w = Some (w_shared w)"
    using inv by (auto simp: pool_inv_def a_free_def get_shared_def)
  have drop: "page_pool_drop pp w = drop_shared (w\<lparr>w_heap := ?h\<rparr>)"
    using page_source_contract.release_loop_chain [OF src ch ok] gs by (simp add: page_pool_drop_def)
  have apart: "x \<notin> set (a_local a)" if "x \<in> set (a_return a) \<or> x \<in># U" for x
    using count_le_one_apart [of "mset (a_local a)" "mset (a_return a) + U" x] cnt [of x] that
    by (auto simp: a_free_def add.assoc)
  have rest: "count (mset (a_return a)) x + count U x \<le> Suc 0" for x
    using cnt [of x] by (simp add: a_free_def)
  have "pool_inv None (w\<lparr>w_heap := ?h\<rparr>) (a\<lparr>a_local := []\<rparr>) U"
  proof (rule pool_inv_heap)
    show "pool_inv None w (a\<lparr>a_local := []\<rparr>) U"
      using inv rest by (auto simp: pool_inv_def a_free_def)
  qed (use apart inv in \<open>auto simp: a_free_def pool_inv_def buffer_ok_def\<close>)
  with drop show ?thesis by (intro exI [of _ "w\<lparr>w_heap := ?h\<rparr>"]) (simp add: pool_frame_def)
qed

subsection \<open>Sequences of allocations\<close>

lemma allocate_many_local:
  assumes "pool_inv (Some pp) w a U" and "n \<le> length (a_local a)"
  shows "\<exists>pp' w'. allocate_many n pp w = Some (Inr (take n (a_local a)), pp', w')
     \<and> pool_inv (Some pp') w' (a\<lparr>a_local := drop n (a_local a)\<rparr>) (mset (take n (a_local a)) + U)
     \<and> w_heap w' = w_heap w
     \<and> ps_allocations_from_heap (sh_stats (w_shared w')) = ps_allocations_from_heap (sh_stats (w_shared w))"
  using assms
proof (induction n arbitrary: pp w a U)
  case (Suc n)
  then obtain x xs where l: "a_local a = x # xs" by (cases "a_local a") auto
  then have "a_take a = Some (x, a\<lparr>a_local := xs\<rparr>)" by (simp add: a_take.simps)
  from allocate_raw_page_take [OF Suc.prems(1) this] obtain pp1 w1 where
    one: "allocate_raw_page pp w = Some (Inr x, pp1, w1)" "w_heap w1 = w_heap w"
      "ps_allocations_from_heap (sh_stats (w_shared w1)) = ps_allocations_from_heap (sh_stats (w_shared w))"
    and inv1: "pool_inv (Some pp1) w1 (a\<lparr>a_local := xs\<rparr>) (add_mset x U)" by blast
  from Suc.IH [OF inv1] Suc.prems(2) l obtain pp' w' where
    "allocate_many n pp1 w1 = Some (Inr (take n xs), pp', w')"
    "pool_inv (Some pp') w' (a\<lparr>a_local := drop n xs\<rparr>) (mset (take n xs) + add_mset x U)"
    "w_heap w' = w_heap w1"
    "ps_allocations_from_heap (sh_stats (w_shared w')) = ps_allocations_from_heap (sh_stats (w_shared w1))"
    by auto
  with one l show ?case by simp
qed simp

subsection \<open>Concrete pools\<close>

lemma page_pool_new_inv:
  assumes "page_pool_new ga ps w = (Inr pp, w')"
  shows "pool_inv (Some pp) w' \<lparr>a_local = [], a_return = []\<rparr> {#}" and "w_strong w' = 1"
    and "free_count_ok w' \<lparr>a_local = [], a_return = []\<rparr>" and "w_heap w' = w_heap w"
    and "sh_stats (w_shared w') = pool_stats_default"
proof -
  from assms obtain s where s: "heap_source_new ps = Inr s"
    and w: "with_source (heap_vtable ga s) w = (Inr pp, w')"
    by (auto simp: page_pool_new_def split: sum.splits)
  from s have "s = \<lparr>hs_page_size = ps, hs_layout = \<lparr>l_size = ps, l_align = 8\<rparr>\<rparr>"
    by (auto simp: heap_source_new_eq split: if_splits)
  then have "page_source_contract (heap_vtable ga s)"
    using heap_src.page_source_contract_axioms by simp
  note all = with_source_inv [OF this w]
  from all show "pool_inv (Some pp) w' \<lparr>a_local = [], a_return = []\<rparr> {#}" and "w_strong w' = 1"
    and "free_count_ok w' \<lparr>a_local = [], a_return = []\<rparr>" and "w_heap w' = w_heap w"
    and "sh_stats (w_shared w') = pool_stats_default" by auto
qed

lemma demo_pool_eq: "page_pool_new first_fit_alloc 16 empty_world = (Inr demo_pool, demo_world)"
  by (simp add: demo_world_def demo_pool_def page_pool_new_def heap_source_new_eq isize_max_def
      with_source_def heap_vtable_def ptr_size_def)

lemmas demo_inv = page_pool_new_inv [OF demo_pool_eq]

lemma prewarm_loop_two: "prewarm_loop 2 pp w = prewarm_loop (Suc (Suc 0)) pp w"
  by (simp add: numeral_2_eq_2)

lemma first_fit_empty: "first_fit Map.empty = 4096"
  by (simp add: first_fit_def candidates_def upt_rec)

lemma demo_first_page:
  "\<exists>w'. allocate_raw_page demo_pool demo_world = Some (Inr 4096, demo_pool, w')
    \<and> pool_inv (Some demo_pool) w' \<lparr>a_local = [], a_return = []\<rparr> {#4096#}
    \<and> w_heap w' = [4096 \<mapsto> replicate 16 0] \<and> w_strong w' = 2
    \<and> free_count_ok w' \<lparr>a_local = [], a_return = []\<rparr>"
proof -
  have "a_take \<lparr>a_local = [], a_return = []\<rparr> = None" by (simp add: a_take.simps)
  from allocate_raw_page_fresh [OF demo_inv(1) this] obtain r w' where
    al: "allocate_raw_page demo_pool demo_world = Some (r, demo_pool, w')"
    and fc: "free_count_ok demo_world \<lparr>a_local = [], a_return = []\<rparr> \<longrightarrow>
      free_count_ok w' \<lparr>a_local = [], a_return = []\<rparr>"
    and rest: "case r of
        Inl e \<Rightarrow> pool_inv (Some demo_pool) w' \<lparr>a_local = [], a_return = []\<rparr> {#}
          \<and> w_heap w' = w_heap demo_world \<and> w_strong w' = w_strong demo_world
      | Inr x \<Rightarrow> pool_inv (Some demo_pool) w' \<lparr>a_local = [], a_return = []\<rparr> {#x#} \<and> w_heap demo_world x = None
          \<and> w_heap w' = (w_heap demo_world)(x \<mapsto> replicate (unat (sh_page_size (w_shared demo_world))) 0)
          \<and> w_strong w' = Suc (w_strong demo_world)"
    by blast
  have "\<exists>w'. allocate_raw_page demo_pool demo_world = Some (Inr 4096, demo_pool, w')"
    by (simp add: allocate_raw_page_def pop_local_def drain_return_queue_def allocate_fresh_def
        get_shared_def demo_pool_def demo_world_def page_pool_new_def heap_source_new_eq isize_max_def
        with_source_def heap_vtable_def ptr_size_def heap_allocate_def alloc_zeroed_def placeable_def
        first_fit_alloc_def empty_world_def first_fit_empty aligned_to_def Let_def)
  with al have r: "r = Inr 4096" by auto
  have ps: "unat (sh_page_size (w_shared demo_world)) = 16"
    by (simp add: demo_world_def page_pool_new_def heap_source_new_eq isize_max_def with_source_def
        heap_vtable_def ptr_size_def)
  from demo_inv(4) have h0: "w_heap demo_world = Map.empty" by (simp add: empty_world_def)
  show ?thesis
    by (intro exI [of _ w']) (use al fc rest r ps h0 demo_inv(2,3) in simp)
qed

lemma tiny_os: "mmap_os tiny_os"
  by unfold_locales
    (auto simp: tiny_os_def linux_os_def os_page_size_def linux_munmap_def aligned_to_def
      isize_max_def map_failed_def split: if_splits)

lemma tiny_pool_eq:
  "with_source (mmap_vtable tiny_os \<lparr>ms_page_size = 16\<rparr>) empty_world = (Inr demo_pool, tiny_world)"
  by (simp add: tiny_world_def demo_pool_def with_source_def mmap_vtable_def ptr_size_def)

lemma tiny_new: "mmap_source_new tiny_os 16 = Inr \<lparr>ms_page_size = 16\<rparr>"
  by (simp add: mmap_source_new_def tiny_os_def os_page_size_def ptr_size_def)

lemmas tiny_inv = with_source_inv [OF mmap_os.mmap_contract [OF tiny_os tiny_new] tiny_pool_eq]

section \<open>Properties\<close>

text \<open>C22: \<open>allocate_raw_page\<close> always has a defined result and refines the abstract pool: it takes the
  most recently freed page of the local list, or, when that list is empty, the most recently returned
  page of the return queue, whose remaining pages become the local list. In both cases memory is
  untouched and the source is not asked. Only when both are empty is the source asked, and then the
  page is a fresh zeroed block; a source failure leaves memory and ownership as they were.\<close>

theorem allocate_raw_page_refines:
  assumes "pool_inv (Some pp) w a U"
  shows "\<exists>r pp' w'. allocate_raw_page pp w = Some (r, pp', w') \<and>
    (case a_take a of
       Some (x, a') \<Rightarrow> r = Inr x \<and> pool_inv (Some pp') w' a' (add_mset x U) \<and> w_heap w' = w_heap w
         \<and> ps_allocations_from_heap (sh_stats (w_shared w')) = ps_allocations_from_heap (sh_stats (w_shared w))
     | None \<Rightarrow> ps_allocations_from_heap (sh_stats (w_shared w'))
           = ps_allocations_from_heap (sh_stats (w_shared w)) + 1
         \<and> (case r of
              Inl e \<Rightarrow> pool_inv (Some pp') w' a U \<and> w_heap w' = w_heap w
            | Inr x \<Rightarrow> pool_inv (Some pp') w' a (add_mset x U) \<and> w_heap w x = None
                \<and> w_heap w' = (w_heap w)(x \<mapsto> replicate (unat (sh_page_size (w_shared w))) 0)))"
proof (cases "a_take a")
  case None
  from allocate_raw_page_fresh [OF assms this] None show ?thesis
    by (fastforce split: sum.splits)
next
  case (Some xa)
  then obtain x a' where "a_take a = Some (x, a')" by (cases xa) auto
  from allocate_raw_page_take [OF assms this] this show ?thesis by fastforce
qed

theorem allocate_raw_page_refines_witness:
  "\<exists>r pp' w'. allocate_raw_page demo_pool demo_world = Some (r, pp', w')
     \<and> ps_allocations_from_heap (sh_stats (w_shared w')) = 1"
  using allocate_raw_page_refines [OF demo_inv(1)] demo_inv(5)
  by (auto simp: a_take.simps pool_stats_default_def)

text \<open>\<open>push_return\<close> moves a buffer that is out to the front of the return queue: no buffer is lost
  or duplicated, the counters move by one, and of memory only that buffer is written.\<close>

theorem push_return_gives_back:
  assumes "pool_inv pp w a (add_mset x U)"
  shows "\<exists>w'. push_return x w = Some w' \<and> pool_inv pp w' (a_give x a) U
     \<and> a_free (a_give x a) + U = a_free a + add_mset x U
     \<and> (\<forall>y. y = x \<or> w_heap w' y = w_heap w y)
     \<and> ps_pages_in_use (sh_stats (w_shared w')) = ps_pages_in_use (sh_stats (w_shared w)) - 1
     \<and> ps_free_pages (sh_stats (w_shared w')) = ps_free_pages (sh_stats (w_shared w)) + 1"
  using push_return_ok [OF assms] by (auto simp: a_free_def a_give_def)

text \<open>C34: When \<open>prewarm\<close> succeeds it has put \<open>num_pages\<close> fresh pages on
  the local list in front of what was there, the heap, free and prewarmed counters have grown by that
  number, no live block of memory has changed, and the next \<open>num_pages\<close> allocations are served from
  these pages without asking the source.\<close>

theorem prewarm_serves_next_allocations:
  assumes "pool_inv (Some pp) w a U" and "prewarm n pp w = Some (Inr (), pp', w')"
  shows "\<exists>ys. length ys = unat n \<and> pool_inv (Some pp') w' (a\<lparr>a_local := ys @ a_local a\<rparr>) U
    \<and> (free_count_ok w a \<longrightarrow> free_count_ok w' (a\<lparr>a_local := ys @ a_local a\<rparr>))
    \<and> ps_allocations_from_heap (sh_stats (w_shared w')) = ps_allocations_from_heap (sh_stats (w_shared w)) + n
    \<and> ps_prewarmed_pages (sh_stats (w_shared w')) = ps_prewarmed_pages (sh_stats (w_shared w)) + n
    \<and> (\<forall>x. w_heap w x = None \<or> w_heap w' x = w_heap w x)
    \<and> (\<exists>pp2 w2. allocate_many (unat n) pp' w' = Some (Inr ys, pp2, w2)
         \<and> ps_allocations_from_heap (sh_stats (w_shared w2))
           = ps_allocations_from_heap (sh_stats (w_shared w')))"
proof -
  obtain r pp1 w1 ys where loop: "prewarm_loop (unat n) pp w = Some (r, pp1, w1)"
    and inv1: "pool_inv (Some pp1) w1 (a\<lparr>a_local := ys @ a_local a\<rparr>) U"
    and st: "sh_stats (w_shared w1) = sh_stats (w_shared w)"
    and keep: "\<forall>x. x \<notin> set ys \<longrightarrow> w_heap w1 x = w_heap w x" "\<forall>x \<in> set ys. w_heap w x = None"
    and len: "case r of Inl e \<Rightarrow> length ys < unat n | Inr _ \<Rightarrow> length ys = unat n"
    using prewarm_loop_ok [OF assms(1), of "unat n"] by auto
  from loop assms(2) have r: "r = Inr ()" and pp': "pp' = pp1"
    by (auto simp: prewarm_def split: sum.splits)
  have w'eq: "w' = upd_stats (\<lambda>s. s\<lparr>ps_prewarmed_pages := fetch_add (ps_prewarmed_pages s) n\<rparr>)
      (upd_stats (\<lambda>s. s\<lparr>ps_free_pages := fetch_add (ps_free_pages s) n\<rparr>)
      (upd_stats (\<lambda>s. s\<lparr>ps_allocations_from_heap := fetch_add (ps_allocations_from_heap s) n\<rparr>) w1))"
    using loop assms(2) r by (simp add: prewarm_def)
  have inv': "pool_inv (Some pp') w' (a\<lparr>a_local := ys @ a_local a\<rparr>) U"
    using inv1 by (simp add: pool_inv_def w'eq pp')
  have len': "length ys = unat n" using len r by simp
  from allocate_many_local [OF inv', of "unat n"] len' have
    "\<exists>pp2 w2. allocate_many (unat n) pp' w' = Some (Inr ys, pp2, w2)
       \<and> ps_allocations_from_heap (sh_stats (w_shared w2)) = ps_allocations_from_heap (sh_stats (w_shared w'))"
    by auto
  with inv' len' st keep show ?thesis
    by (intro exI [of _ ys]) (auto simp: w'eq free_count_ok_def fetch_add_def)
qed

theorem prewarm_serves_next_allocations_witness:
  "\<exists>pp w pp2 w2 ys. prewarm 2 demo_pool demo_world = Some (Inr (), pp, w) \<and> length ys = 2
     \<and> allocate_many 2 pp w = Some (Inr ys, pp2, w2)"
proof -
  have "\<exists>pp w. prewarm 2 demo_pool demo_world = Some (Inr (), pp, w)"
    by (simp add: prewarm_def prewarm_loop_two get_shared_def demo_pool_def demo_world_def
        page_pool_new_def heap_source_new_eq isize_max_def with_source_def heap_vtable_def ptr_size_def
        heap_allocate_def alloc_zeroed_def placeable_def first_fit_alloc_def empty_world_def
        first_fit_def candidates_def upt_rec default_prefault_def ptr_write_def aligned_to_def Let_def)
  then obtain pp w where "prewarm 2 demo_pool demo_world = Some (Inr (), pp, w)" by blast
  with prewarm_serves_next_allocations [OF demo_inv(1) this] show ?thesis by fastforce
qed

text \<open>C40: \<open>prewarm\<close> counts its pages only after the loop. When the source fails on the way (an
  \<open>MmapSource\<close> panics), the pages committed so far are on the local list and will be handed out, but
  no counter has moved: \<open>free_pages\<close> is too small by exactly their number.\<close>

theorem prewarm_failure_undercounts:
  assumes "pool_inv (Some pp) w a U" and "prewarm n pp w = Some (Inl e, pp', w')"
  shows "\<exists>ys. length ys < unat n \<and> pool_inv (Some pp') w' (a\<lparr>a_local := ys @ a_local a\<rparr>) U
    \<and> sh_stats (w_shared w') = sh_stats (w_shared w)"
proof -
  obtain r pp1 w1 ys where loop: "prewarm_loop (unat n) pp w = Some (r, pp1, w1)"
    and inv1: "pool_inv (Some pp1) w1 (a\<lparr>a_local := ys @ a_local a\<rparr>) U"
    and st: "sh_stats (w_shared w1) = sh_stats (w_shared w)"
    and len: "case r of Inl e \<Rightarrow> length ys < unat n | Inr _ \<Rightarrow> length ys = unat n"
    using prewarm_loop_ok [OF assms(1), of "unat n"] by auto
  from loop assms(2) have "r = Inl e" and "pp' = pp1" and "w' = w1"
    by (auto simp: prewarm_def Let_def split: sum.splits)
  with inv1 st len show ?thesis by auto
qed

theorem prewarm_failure_undercounts_witness:
  "\<exists>pp w e pp2 w2. prewarm 2 demo_pool tiny_world = Some (Inl e, pp, w)
     \<and> sh_stats (w_shared w) = sh_stats (w_shared tiny_world)
     \<and> allocate_raw_page pp w = Some (Inr 4096, pp2, w2)
     \<and> unat (ps_free_pages (sh_stats (w_shared w2))) = 2 ^ 64 - 1"
proof -
  have "\<exists>pp w e pp2 w2. prewarm 2 demo_pool tiny_world = Some (Inl e, pp, w)
     \<and> allocate_raw_page pp w = Some (Inr 4096, pp2, w2)
     \<and> unat (ps_free_pages (sh_stats (w_shared w2))) = 2 ^ 64 - 1"
    by (simp add: prewarm_def prewarm_loop_two get_shared_def demo_pool_def tiny_world_def
        with_source_def mmap_vtable_def mmap_allocate_def mmap_prefault_def tiny_os_def linux_os_def
        ptr_size_def empty_world_def prefault_loop.simps os_page_size_def mem_write_def map_failed_def
        isize_max_def ptr_write_def aligned_to_def allocate_raw_page_def pop_local_def ptr_read_def
        fetch_add_def fetch_sub_def pool_stats_default_def Let_def upd_stats_def)
  then obtain pp w e where "prewarm 2 demo_pool tiny_world = Some (Inl e, pp, w)"
    and "\<exists>pp2 w2. allocate_raw_page pp w = Some (Inr 4096, pp2, w2)
      \<and> unat (ps_free_pages (sh_stats (w_shared w2))) = 2 ^ 64 - 1" by blast
  with prewarm_failure_undercounts [OF tiny_inv(1) this(1)] show ?thesis by blast
qed

text \<open>\<open>local_free_pages\<close> ends and counts the local list, which it does not change; pages on the
  return queue are not counted.\<close>

theorem local_free_pages_counts:
  assumes "pool_inv (Some pp) w a U"
  shows "local_free_pages pp w = Some (of_nat (length (a_local a)))"
  using assms chain.count_loop_rep [of "w_heap w" "pp_local_head pp" "a_local a" 0]
  by (simp add: local_free_pages_def pool_inv_def)

text \<open>Dropping a pool none of whose pages is out releases every free buffer to the source, those of
  the local list and those of the return queue, and nothing else; the shared part is gone.\<close>

theorem page_pool_drop_releases_all:
  assumes "pool_inv (Some pp) w a {#}" and "w_strong w = 1"
  shows "\<exists>w'. page_pool_drop pp w = Some w' \<and> w_strong w' = 0
     \<and> w_heap w' = (\<lambda>x. if x \<in># a_free a then None else w_heap w x) \<and> w_tenants w' = w_tenants w"
proof -
  from page_pool_drop_local [OF assms(1)] obtain w1 where
    drop: "page_pool_drop pp w = drop_shared w1" and inv: "pool_inv None w1 (a\<lparr>a_local := []\<rparr>) {#}"
    and one: "w_strong w1 = 1" and fr: "pool_frame w w1"
    and h1: "w_heap w1 = (\<lambda>x. if x \<in> set (a_local a) then None else w_heap w x)"
    using assms(2) by auto
  from drop_shared_last [OF inv one] obtain w' where
    "drop_shared w1 = Some w'" "w_strong w' = 0" "pool_frame w1 w'"
    "w_heap w' = (\<lambda>x. if x \<in> set (a_return a) then None else w_heap w1 x)" by auto
  with drop h1 fr show ?thesis by (auto simp: pool_frame_def a_free_def fun_eq_iff)
qed

text \<open>Dropping a pool while pages are out releases the local list only: the pages that are out stay
  live and unchanged, the return queue keeps accepting them, and the shared part survives until the
  last of them is gone.\<close>

theorem page_pool_drop_keeps_pages_out:
  assumes "pool_inv (Some pp) w a U" and "1 < w_strong w"
  shows "\<exists>w'. page_pool_drop pp w = Some w' \<and> pool_inv None w' (a\<lparr>a_local := []\<rparr>) U
     \<and> w_strong w' = w_strong w - 1
     \<and> w_heap w' = (\<lambda>x. if x \<in> set (a_local a) then None else w_heap w x)"
proof -
  from page_pool_drop_local [OF assms(1)] obtain w1 where
    drop: "page_pool_drop pp w = drop_shared w1" and inv: "pool_inv None w1 (a\<lparr>a_local := []\<rparr>) U"
    and st: "w_strong w1 = w_strong w"
    and h1: "w_heap w1 = (\<lambda>x. if x \<in> set (a_local a) then None else w_heap w x)" by auto
  from drop_shared_not_last [OF inv] assms(2) st drop h1 show ?thesis by simp
qed

end
