(* ===== verification/Pool_Ownership.thy ===== *)
theory Pool_Ownership
  imports Page_Pool
begin

text \<open>
  Ownership of a pool's memory over its whole life, shared by the page layer (\<open>src/page.rs\<close>) and the
  chunk layer (\<open>src/chunk.rs\<close>). Both hold buffers of the pool together with a clone of
  \<open>Arc<PoolShared>\<close> and give them back the same way: \<open>push_return\<close>, then the drop of the clone.

  \<open>pool_owned h0 pp k w a U\<close> extends the invariant of the pool: the strong count is the number of
  owners (the pool itself, one per buffer that is out, and \<open>k\<close> clones handed to metrics scrapers by
  \<open>PagePool::shared\<close>), and memory is that of \<open>h0\<close>, the memory before the pool, plus exactly the
  buffers of the pool. \<open>pool_closed h0 w\<close> is the end: no owner is left and memory is \<open>h0\<close> again.
\<close>

section \<open>Definitions\<close>

text \<open>What happens when the owner of a buffer gives it up: the end of \<open>Drop for PageBuilder\<close>,
  \<open>Drop for PageInner\<close> and \<open>Drop for PackedPage\<close>, with the drop of the \<open>Arc<PoolShared>\<close> field.\<close>

definition give_back :: "addr \<Rightarrow> 'z pool_world_scheme \<Rightarrow> 'z pool_world_scheme option" where
  "give_back buf w = do { w \<leftarrow> push_return buf w; drop_shared w }"

definition pool_count :: "page_pool option \<Rightarrow> nat" where
  "pool_count pp = (case pp of None \<Rightarrow> 0 | Some _ \<Rightarrow> 1)"

definition pool_owned :: "heap \<Rightarrow> page_pool option \<Rightarrow> nat \<Rightarrow> 'z pool_world_scheme \<Rightarrow> apool
    \<Rightarrow> addr multiset \<Rightarrow> bool" where
  "pool_owned h0 pp k w a U \<longleftrightarrow>
     pool_inv pp w a U \<and> w_strong w = pool_count pp + size U + k \<and>
     (\<forall>x. x \<notin># a_free a + U \<longrightarrow> w_heap w x = h0 x) \<and>
     (\<forall>x. x \<in># a_free a + U \<longrightarrow> h0 x = None)"

definition pool_closed :: "heap \<Rightarrow> 'z pool_world_scheme \<Rightarrow> bool" where
  "pool_closed h0 w \<longleftrightarrow> w_strong w = 0 \<and> w_heap w = h0"

text \<open>The two together: what is true from the creation of the pool to the drop of its last owner.\<close>

definition pool_life :: "heap \<Rightarrow> page_pool option \<Rightarrow> nat \<Rightarrow> 'z pool_world_scheme \<Rightarrow> addr multiset \<Rightarrow> bool" where
  "pool_life h0 pp k w U \<longleftrightarrow>
     (if pp = None \<and> U = {#} \<and> k = 0 then pool_closed h0 w else \<exists>a. pool_owned h0 pp k w a U)"

section \<open>Lemmas\<close>

lemma pool_count_simps [simp]: "pool_count None = 0" "pool_count (Some pp) = 1"
  by (simp_all add: pool_count_def)

lemma pool_owned_inv: "pool_owned h0 pp k w a U \<Longrightarrow> pool_inv pp w a U"
  by (simp add: pool_owned_def)

lemma pool_owned_shared: "pool_owned h0 pp k w a U \<Longrightarrow> get_shared w = Some (w_shared w)"
  by (blast dest: pool_owned_inv pool_inv_strong)

lemma pool_owned_strong: "pool_owned h0 pp k w a U \<Longrightarrow> w_strong w = pool_count pp + size U + k"
  by (simp add: pool_owned_def)

lemma pool_owned_outside: "pool_owned h0 pp k w a U \<Longrightarrow> x \<notin># a_free a + U \<Longrightarrow> w_heap w x = h0 x"
  by (simp add: pool_owned_def)

lemma pool_owned_inside: "pool_owned h0 pp k w a U \<Longrightarrow> x \<in># a_free a + U \<Longrightarrow> h0 x = None"
  unfolding pool_owned_def by blast

lemma pool_owned_buffer:
  "pool_owned h0 pp k w a U \<Longrightarrow> x \<in># U \<Longrightarrow> buffer_ok (w_heap w) (unat (sh_page_size (w_shared w))) (sh_source (w_shared w)) x"
  by (simp add: pool_owned_def pool_inv_def)

lemma pool_owned_once:
  assumes "pool_owned h0 pp k w a (add_mset x U)"
  shows "x \<notin># U" and "x \<notin># a_free a"
proof -
  have "count (a_free a + add_mset x U) x \<le> 1"
    using assms unfolding pool_owned_def pool_inv_def by blast
  then show "x \<notin># U" and "x \<notin># a_free a" by (simp_all add: not_in_iff)
qed

lemma pool_ownedI:
  assumes "pool_inv pp w a U" and "w_strong w = pool_count pp + size U + k"
    and "\<And>x. x \<notin># a_free a + U \<Longrightarrow> w_heap w x = h0 x" and "\<And>x. x \<in># a_free a + U \<Longrightarrow> h0 x = None"
  shows "pool_owned h0 pp k w a U"
  using assms unfolding pool_owned_def by blast

lemma pool_owned_cong:
  assumes "pool_owned h0 pp k w a U" and "w_heap w' = w_heap w" and "w_shared w' = w_shared w"
    and "w_strong w' = w_strong w"
  shows "pool_owned h0 pp k w' a U"
proof (rule pool_ownedI)
  have "0 < w_strong w" using pool_owned_inv [OF assms(1)] by (simp add: pool_inv_def)
  then show "pool_inv pp w' a U"
    using pool_inv_cong [OF pool_owned_inv [OF assms(1)] assms(2,3)] assms(4) by simp
qed (use assms in \<open>auto simp: pool_owned_def\<close>)

lemma pool_owned_tenant [simp]:
  "pool_owned h0 pp k (upd_tenant t f w) a U = pool_owned h0 pp k w a U"
  by (auto intro: pool_owned_cong)

text \<open>A write to a buffer that is out.\<close>

lemma pool_owned_write:
  assumes "pool_owned h0 pp k w a U" and "x \<in># U"
    and "length bs = unat (sh_page_size (w_shared w))"
  shows "pool_owned h0 pp k (w\<lparr>w_heap := (w_heap w)(x \<mapsto> bs)\<rparr>) a U"
proof (rule pool_ownedI)
  obtain U' where U: "U = add_mset x U'" using assms(2) by (blast dest: multi_member_split)
  note once = pool_owned_once [OF assms(1) [unfolded U]]
  show "pool_inv pp (w\<lparr>w_heap := (w_heap w)(x \<mapsto> bs)\<rparr>) a U"
  proof (rule pool_inv_heap [OF pool_owned_inv [OF assms(1)]])
    show "((w_heap w)(x \<mapsto> bs)) y = w_heap w y" if "y \<in># a_free a" for y using that once(2) by auto
    show "buffer_ok ((w_heap w)(x \<mapsto> bs)) (unat (sh_page_size (w_shared w))) (sh_source (w_shared w)) y" if "y \<in># U" for y
      using pool_owned_buffer [OF assms(1) that] assms(3) by (rule buffer_ok_write)
  qed
next
  fix y assume "y \<notin># a_free a + U"
  with assms(2) have "y \<noteq> x" by auto
  with pool_owned_outside [OF assms(1) \<open>y \<notin># a_free a + U\<close>]
  show "w_heap (w\<lparr>w_heap := (w_heap w)(x \<mapsto> bs)\<rparr>) y = h0 y" by simp
qed (use assms(1) in \<open>auto simp: pool_owned_def\<close>)

text \<open>Taking a buffer.\<close>

lemma allocate_raw_page_owned:
  assumes own: "pool_owned h0 (Some pp) k w a U"
  shows "\<exists>r pp' w'. allocate_raw_page pp w = Some (r, pp', w') \<and> pool_frame w w' \<and>
    (case r of
       Inl e \<Rightarrow> pool_owned h0 (Some pp') k w' a U \<and> w_heap w' = w_heap w
     | Inr x \<Rightarrow> \<exists>a'. pool_owned h0 (Some pp') k w' a' (add_mset x U)
         \<and> (\<forall>y. y \<noteq> x \<longrightarrow> w_heap w' y = w_heap w y))"
proof (cases "a_take a")
  case None
  from allocate_raw_page_fresh [OF pool_owned_inv [OF own] None] obtain r w' where
    al: "allocate_raw_page pp w = Some (r, pp, w')" "pool_frame w w'"
    and res: "case r of
          Inl e \<Rightarrow> pool_inv (Some pp) w' a U \<and> w_heap w' = w_heap w \<and> w_strong w' = w_strong w
        | Inr x \<Rightarrow> pool_inv (Some pp) w' a (add_mset x U) \<and> w_heap w x = None
            \<and> w_heap w' = (w_heap w)(x \<mapsto> replicate (unat (sh_page_size (w_shared w))) 0)
            \<and> w_strong w' = Suc (w_strong w)" by blast
  show ?thesis
  proof (cases r)
    case (Inl e)
    with res own have "pool_owned h0 (Some pp) k w' a U"
      by (intro pool_ownedI) (auto simp: pool_owned_def)
    with al res Inl show ?thesis by simp
  next
    case (Inr x)
    with res own have x: "x \<notin># a_free a + U" by (auto dest: pool_inv_fresh [OF pool_owned_inv])
    have "pool_owned h0 (Some pp) k w' a (add_mset x U)"
      using res own Inr x pool_owned_outside [OF own x]
      by (intro pool_ownedI) (auto simp: pool_owned_def)
    with al res Inr show ?thesis by (auto intro!: exI [of _ a])
  qed
next
  case (Some xa)
  then obtain x a' where take: "a_take a = Some (x, a')" by (cases xa) auto
  note free = a_take_free [OF take]
  from allocate_raw_page_take [OF pool_owned_inv [OF own] take] obtain pp' w' where
    al: "allocate_raw_page pp w = Some (Inr x, pp', w')" "pool_frame w w'"
      "pool_inv (Some pp') w' a' (add_mset x U)" "w_heap w' = w_heap w" "w_strong w' = Suc (w_strong w)"
    by blast
  have "pool_owned h0 (Some pp') k w' a' (add_mset x U)"
    using al own free
    by (intro pool_ownedI) (auto simp: pool_owned_def)
  with al show ?thesis by auto
qed

text \<open>Giving up one strong reference: the shared part stays, or it was the last one.\<close>

lemma drop_shared_owned:
  assumes inv: "pool_inv pp w a U" and strong: "w_strong w = Suc (pool_count pp + size U + k)"
    and out: "\<And>x. x \<notin># a_free a + U \<Longrightarrow> w_heap w x = h0 x"
    and inside: "\<And>x. x \<in># a_free a + U \<Longrightarrow> h0 x = None"
  shows "\<exists>w'. drop_shared w = Some w' \<and> pool_frame w w' \<and>
    (if pp = None \<and> U = {#} \<and> k = 0 then pool_closed h0 w'
     else pool_owned h0 pp k w' a U \<and> w_heap w' = w_heap w)"
proof (cases "pp = None \<and> U = {#} \<and> k = 0")
  case True
  with strong have "w_strong w = 1" by simp
  from drop_shared_last [OF inv this] obtain w' where w': "drop_shared w = Some w'" "w_strong w' = 0"
    "w_heap w' = (\<lambda>x. if x \<in> set (a_return a) then None else w_heap w x)" "pool_frame w w'" by blast
  have "a_local a = []" using inv True by (simp add: pool_inv_def)
  then have "w_heap w' x = h0 x" for x
    using out [of x] inside [of x] True w'(3) by (auto simp: a_free_def)
  with w' True show ?thesis by (auto simp: pool_closed_def)
next
  case False
  with strong have "1 < w_strong w" by (cases pp) (auto simp: nonempty_has_size)
  note d = drop_shared_not_last [OF inv this]
  have "pool_owned h0 pp k (w\<lparr>w_strong := w_strong w - 1\<rparr>) a U"
    using d(2) strong out inside by (intro pool_ownedI) auto
  with d(1) False show ?thesis by (auto simp: pool_frame_def)
qed

lemma give_back_owned:
  assumes own: "pool_owned h0 pp k w a (add_mset x U)"
  shows "\<exists>w'. give_back x w = Some w' \<and> pool_frame w w' \<and>
    (if pp = None \<and> U = {#} \<and> k = 0 then pool_closed h0 w'
     else pool_owned h0 pp k w' (a_give x a) U \<and> (\<forall>y. y \<noteq> x \<longrightarrow> w_heap w' y = w_heap w y))"
proof -
  from push_return_ok [OF pool_owned_inv [OF own]] obtain w1 where
    w1: "push_return x w = Some w1" "pool_inv pp w1 (a_give x a) U" "pool_frame w w1"
      "w_strong w1 = w_strong w" and h1: "\<forall>y. y \<noteq> x \<longrightarrow> w_heap w1 y = w_heap w y" by blast
  have same: "a_free (a_give x a) + U = a_free a + add_mset x U" by (simp add: a_free_def a_give_def)
  have "\<exists>w'. drop_shared w1 = Some w' \<and> pool_frame w1 w' \<and>
    (if pp = None \<and> U = {#} \<and> k = 0 then pool_closed h0 w'
     else pool_owned h0 pp k w' (a_give x a) U \<and> w_heap w' = w_heap w1)"
  proof (rule drop_shared_owned [OF w1(2)])
    show "w_strong w1 = Suc (pool_count pp + size U + k)"
      using w1(4) pool_owned_strong [OF own] by simp
    show "w_heap w1 y = h0 y" if "y \<notin># a_free (a_give x a) + U" for y
      using that h1 pool_owned_outside [OF own, of y] unfolding same by auto
    show "h0 y = None" if "y \<in># a_free (a_give x a) + U" for y
      using that pool_owned_inside [OF own] unfolding same by blast
  qed
  with w1 h1 show ?thesis
    by (auto simp: give_back_def intro: pool_frame_trans split: if_splits)
qed

text \<open>A metrics scraper clones the shared handle, and drops its clone.\<close>

lemma clone_shared_owned:
  assumes "pool_owned h0 pp k w a U"
  shows "pool_owned h0 pp (Suc k) (clone_shared w) a U"
  using assms by (auto simp: pool_owned_def intro: pool_inv_cong)

lemma drop_shared_scraper:
  assumes "pool_owned h0 pp (Suc k) w a U"
  shows "\<exists>w'. drop_shared w = Some w' \<and> pool_frame w w' \<and>
    (if pp = None \<and> U = {#} \<and> k = 0 then pool_closed h0 w'
     else pool_owned h0 pp k w' a U \<and> w_heap w' = w_heap w)"
  by (rule drop_shared_owned [OF pool_owned_inv [OF assms]])
    (use assms pool_owned_outside [OF assms] in \<open>auto simp: pool_owned_def\<close>)

text \<open>The owner's side: prewarming and dropping the pool.\<close>

lemma prewarm_owned:
  assumes own: "pool_owned h0 (Some pp) k w a U"
  shows "\<exists>r pp' w' a'. prewarm n pp w = Some (r, pp', w') \<and> pool_owned h0 (Some pp') k w' a' U
    \<and> pool_frame w w' \<and> (\<forall>x. x \<in># U \<longrightarrow> w_heap w' x = w_heap w x)"
proof -
  obtain r pp1 w1 ys where loop: "prewarm_loop (unat n) pp w = Some (r, pp1, w1)"
    and inv1: "pool_inv (Some pp1) w1 (a\<lparr>a_local := ys @ a_local a\<rparr>) U"
    and fr: "pool_frame w w1" and st: "w_strong w1 = w_strong w"
    and keep: "\<forall>x. x \<notin> set ys \<longrightarrow> w_heap w1 x = w_heap w x" "\<forall>x \<in> set ys. w_heap w x = None"
    using prewarm_loop_ok [OF pool_owned_inv [OF own], of "unat n"] by auto
  have new: "x \<notin># a_free a + U" if "x \<in> set ys" for x
    using keep(2) that pool_inv_fresh [OF pool_owned_inv [OF own]] by blast
  have own1: "pool_owned h0 (Some pp1) k w1 (a\<lparr>a_local := ys @ a_local a\<rparr>) U"
  proof (rule pool_ownedI [OF inv1])
    show "w_strong w1 = pool_count (Some pp1) + size U + k" using st pool_owned_strong [OF own] by simp
    show "w_heap w1 x = h0 x" if "x \<notin># a_free (a\<lparr>a_local := ys @ a_local a\<rparr>) + U" for x
      using that keep(1) pool_owned_outside [OF own, of x] by (auto simp: a_free_def)
    show "h0 x = None" if x: "x \<in># a_free (a\<lparr>a_local := ys @ a_local a\<rparr>) + U" for x
    proof (cases "x \<in> set ys")
      case True
      then show ?thesis using new keep(2) pool_owned_outside [OF own, of x] by auto
    next
      case False
      with x own show ?thesis by (auto simp: pool_owned_def a_free_def)
    qed
  qed
  have out: "\<forall>x. x \<in># U \<longrightarrow> w_heap w1 x = w_heap w x" using keep(1) new by auto
  show ?thesis
  proof (cases r)
    case (Inl e)
    with loop own1 fr out show ?thesis by (auto simp: prewarm_def intro!: exI [of _ "a\<lparr>a_local := ys @ a_local a\<rparr>"])
  next
    case (Inr u)
    have "pool_owned h0 (Some pp1) k (upd_stats f w1) (a\<lparr>a_local := ys @ a_local a\<rparr>) U"
      if "\<And>s. ps_pages_in_use (f s) = ps_pages_in_use s" for f
      using own1 that by (simp add: pool_owned_def pool_inv_def)
    with loop Inr own1 fr out show ?thesis
      by (auto simp: prewarm_def pool_frame_def pool_owned_def pool_inv_def Let_def
          intro!: exI [of _ "a\<lparr>a_local := ys @ a_local a\<rparr>"])
  qed
qed

lemma page_pool_drop_owned:
  assumes own: "pool_owned h0 (Some pp) k w a U"
  shows "\<exists>w'. page_pool_drop pp w = Some w' \<and> pool_frame w w' \<and>
    (if U = {#} \<and> k = 0 then pool_closed h0 w'
     else pool_owned h0 None k w' (a\<lparr>a_local := []\<rparr>) U \<and> (\<forall>x. x \<in># U \<longrightarrow> w_heap w' x = w_heap w x))"
proof -
  from page_pool_drop_local [OF pool_owned_inv [OF own]] obtain w1 where
    drop: "page_pool_drop pp w = drop_shared w1" and inv: "pool_inv None w1 (a\<lparr>a_local := []\<rparr>) U"
    and fr: "pool_frame w w1" and st: "w_strong w1 = w_strong w"
    and h1: "w_heap w1 = (\<lambda>x. if x \<in> set (a_local a) then None else w_heap w x)" by blast
  have apart: "x \<notin> set (a_local a)" if "x \<in># U" for x
  proof -
    have "count (a_free a + U) x \<le> 1" using pool_owned_inv [OF own] unfolding pool_inv_def by blast
    from count_le_one_apart [OF this that] show ?thesis by (simp add: a_free_def)
  qed
  have "\<exists>w'. drop_shared w1 = Some w' \<and> pool_frame w1 w' \<and>
    (if None = (None :: page_pool option) \<and> U = {#} \<and> k = 0 then pool_closed h0 w'
     else pool_owned h0 None k w' (a\<lparr>a_local := []\<rparr>) U \<and> w_heap w' = w_heap w1)"
  proof (rule drop_shared_owned [OF inv])
    show "w_strong w1 = Suc (pool_count None + size U + k)" using st pool_owned_strong [OF own] by simp
    show "w_heap w1 x = h0 x" if "x \<notin># a_free (a\<lparr>a_local := []\<rparr>) + U" for x
      using that h1 pool_owned_outside [OF own, of x] own by (auto simp: a_free_def pool_owned_def)
    show "h0 x = None" if "x \<in># a_free (a\<lparr>a_local := []\<rparr>) + U" for x
      using that own by (auto simp: a_free_def pool_owned_def)
  qed
  with drop fr apart h1 show ?thesis by (auto intro: pool_frame_trans split: if_splits)
qed

lemma with_source_owned:
  assumes "page_source_contract src" and "with_source src w = (Inr pp, w')"
  shows "pool_owned (w_heap w) (Some pp) 0 w' \<lparr>a_local = [], a_return = []\<rparr> {#}"
  using with_source_inv [OF assms] by (intro pool_ownedI) (auto simp: a_free_def)

section \<open>The whole life of a pool\<close>

text \<open>The facts above without the abstract pool: what the layers that hold buffers use.\<close>

lemma pool_life_some: "pool_life h0 (Some pp) k w U \<longleftrightarrow> (\<exists>a. pool_owned h0 (Some pp) k w a U)"
  by (simp add: pool_life_def)

lemma pool_life_out: "x \<in># U \<Longrightarrow> pool_life h0 pp k w U \<longleftrightarrow> (\<exists>a. pool_owned h0 pp k w a U)"
  by (auto simp: pool_life_def)

lemma pool_life_scraped: "pool_life h0 pp (Suc k) w U \<longleftrightarrow> (\<exists>a. pool_owned h0 pp (Suc k) w a U)"
  by (simp add: pool_life_def)

lemma pool_life_new:
  assumes "page_source_contract src" and "with_source src w = (Inr pp, w')"
  shows "pool_life (w_heap w) (Some pp) 0 w' {#}"
  using with_source_owned [OF assms] by (auto simp: pool_life_some)

lemma pool_life_end: "pool_life h0 None 0 w {#} \<Longrightarrow> w_strong w = 0 \<and> w_heap w = h0"
  by (simp add: pool_life_def pool_closed_def)

lemma pool_life_shared:
  "pool_life h0 pp k w U \<Longrightarrow> pp \<noteq> None \<or> U \<noteq> {#} \<Longrightarrow> get_shared w = Some (w_shared w)"
  by (auto simp: pool_life_def dest: pool_owned_shared)

lemma pool_life_buffer:
  "pool_life h0 pp k w U \<Longrightarrow> x \<in># U \<Longrightarrow> buffer_ok (w_heap w) (unat (sh_page_size (w_shared w))) (sh_source (w_shared w)) x"
  by (auto simp: pool_life_out dest: pool_owned_buffer)

lemma pool_life_once: "pool_life h0 pp k w (add_mset x U) \<Longrightarrow> x \<notin># U"
  by (auto simp: pool_life_def dest: pool_owned_once)

lemma pool_life_cong:
  assumes "w_heap w' = w_heap w" and "w_shared w' = w_shared w" and "w_strong w' = w_strong w"
  shows "pool_life h0 pp k w' U = pool_life h0 pp k w U"
proof -
  have "pool_owned h0 pp k w' a U = pool_owned h0 pp k w a U" for a
    using assms pool_owned_cong [of h0 pp k w a U w'] pool_owned_cong [of h0 pp k w' a U w] by auto
  with assms show ?thesis by (simp add: pool_life_def pool_closed_def)
qed

lemma pool_life_tenant [simp]: "pool_life h0 pp k (upd_tenant t f w) U = pool_life h0 pp k w U"
  by (rule pool_life_cong) simp_all

lemma pool_life_write:
  assumes "pool_life h0 pp k w U" and "x \<in># U" and "length bs = unat (sh_page_size (w_shared w))"
  shows "pool_life h0 pp k (w\<lparr>w_heap := (w_heap w)(x \<mapsto> bs)\<rparr>) U"
  using assms by (auto simp: pool_life_out intro: pool_owned_write)

lemma pool_life_take:
  assumes "pool_life h0 (Some pp) k w U"
  shows "\<exists>r pp' w'. allocate_raw_page pp w = Some (r, pp', w') \<and> pool_frame w w' \<and>
    (case r of
       Inl e \<Rightarrow> pool_life h0 (Some pp') k w' U \<and> w_heap w' = w_heap w
     | Inr x \<Rightarrow> pool_life h0 (Some pp') k w' (add_mset x U)
         \<and> (\<forall>y. y \<noteq> x \<longrightarrow> w_heap w' y = w_heap w y))"
proof -
  from assms obtain a where "pool_owned h0 (Some pp) k w a U" by (auto simp: pool_life_some)
  from allocate_raw_page_owned [OF this] obtain r pp' w' where
    al: "allocate_raw_page pp w = Some (r, pp', w')" "pool_frame w w'"
    and res: "case r of
       Inl e \<Rightarrow> pool_owned h0 (Some pp') k w' a U \<and> w_heap w' = w_heap w
     | Inr x \<Rightarrow> \<exists>a'. pool_owned h0 (Some pp') k w' a' (add_mset x U)
         \<and> (\<forall>y. y \<noteq> x \<longrightarrow> w_heap w' y = w_heap w y)" by blast
  from al res show ?thesis by (cases r) (auto simp: pool_life_some)
qed

lemma pool_life_give:
  assumes "pool_life h0 pp k w (add_mset x U)"
  shows "\<exists>w'. give_back x w = Some w' \<and> pool_frame w w' \<and> pool_life h0 pp k w' U
    \<and> (\<forall>y. y \<in># U \<longrightarrow> w_heap w' y = w_heap w y)"
proof -
  from assms obtain a where own: "pool_owned h0 pp k w a (add_mset x U)" by (auto simp: pool_life_def)
  from give_back_owned [OF own] pool_owned_once(1) [OF own] show ?thesis
    by (auto simp: pool_life_def split: if_splits)
qed

lemma pool_life_scrape: "pool_life h0 (Some pp) k w U \<Longrightarrow> pool_life h0 (Some pp) (Suc k) (clone_shared w) U"
  by (auto simp: pool_life_some intro: clone_shared_owned)

lemma pool_life_unscrape:
  assumes "pool_life h0 pp (Suc k) w U"
  shows "\<exists>w'. drop_shared w = Some w' \<and> pool_frame w w' \<and> pool_life h0 pp k w' U
    \<and> (\<forall>y. y \<in># U \<longrightarrow> w_heap w' y = w_heap w y)"
proof -
  from assms obtain a where "pool_owned h0 pp (Suc k) w a U" by (auto simp: pool_life_scraped)
  from drop_shared_scraper [OF this] show ?thesis by (auto simp: pool_life_def split: if_splits)
qed

lemma pool_life_prewarm:
  assumes "pool_life h0 (Some pp) k w U"
  shows "\<exists>r pp' w'. prewarm n pp w = Some (r, pp', w') \<and> pool_frame w w' \<and> pool_life h0 (Some pp') k w' U
    \<and> (\<forall>y. y \<in># U \<longrightarrow> w_heap w' y = w_heap w y)"
proof -
  from assms obtain a where "pool_owned h0 (Some pp) k w a U" by (auto simp: pool_life_some)
  from prewarm_owned [OF this, of n] show ?thesis by (fastforce simp: pool_life_some)
qed

lemma pool_life_drop:
  assumes "pool_life h0 (Some pp) k w U"
  shows "\<exists>w'. page_pool_drop pp w = Some w' \<and> pool_frame w w' \<and> pool_life h0 None k w' U
    \<and> (\<forall>y. y \<in># U \<longrightarrow> w_heap w' y = w_heap w y)"
proof -
  from assms obtain a where "pool_owned h0 (Some pp) k w a U" by (auto simp: pool_life_some)
  from page_pool_drop_owned [OF this] show ?thesis by (auto simp: pool_life_def split: if_splits)
qed

text \<open>Memory outside the pool may change freely, as long as it leaves the pool's buffers alone.\<close>

lemma pool_owned_elsewhere:
  assumes own: "pool_owned h0 pp k w a U" and x: "x \<notin># a_free a + U"
  shows "pool_owned (h0(x := v)) pp k (w\<lparr>w_heap := (w_heap w)(x := v)\<rparr>) a U"
proof (rule pool_ownedI)
  show "pool_inv pp (w\<lparr>w_heap := (w_heap w)(x := v)\<rparr>) a U"
  proof (rule pool_inv_heap [OF pool_owned_inv [OF own]])
    show "((w_heap w)(x := v)) y = w_heap w y" if "y \<in># a_free a" for y using that x by auto
    show "buffer_ok ((w_heap w)(x := v)) (unat (sh_page_size (w_shared w))) (sh_source (w_shared w)) y" if "y \<in># U" for y
      using that x pool_owned_buffer [OF own that] by (cases "y = x") (auto simp: buffer_ok_upd_other)
  qed
qed (use own x in \<open>auto simp: pool_owned_def\<close>)

lemma pool_life_elsewhere:
  assumes "pool_life h0 pp k w U" and "w_heap w x = None \<or> h0 x \<noteq> None"
  shows "pool_life (h0(x := v)) pp k (w\<lparr>w_heap := (w_heap w)(x := v)\<rparr>) U"
proof (cases "pp = None \<and> U = {#} \<and> k = 0")
  case True
  with assms(1) show ?thesis by (simp add: pool_life_def pool_closed_def)
next
  case False
  with assms(1) obtain a where own: "pool_owned h0 pp k w a U" by (auto simp: pool_life_def)
  have "x \<notin># a_free a + U"
    using assms(2) pool_inv_fresh [OF pool_owned_inv [OF own], of x] pool_owned_inside [OF own, of x]
    by argo
  from pool_owned_elsewhere [OF own this] False show ?thesis by (auto simp: pool_life_def)
qed

lemma pool_life_elsewhere_live:
  assumes "pool_life h0 pp k w U" and "h0 x \<noteq> None"
  shows "w_heap w x = h0 x" and "x \<notin># U"
proof -
  have "w_heap w x = h0 x \<and> x \<notin># U"
  proof (cases "pp = None \<and> U = {#} \<and> k = 0")
    case True
    with assms(1) show ?thesis by (simp add: pool_life_def pool_closed_def)
  next
    case False
    with assms(1) obtain a where own: "pool_owned h0 pp k w a U" by (auto simp: pool_life_def)
    have x: "x \<notin># a_free a + U" using assms(2) pool_owned_inside [OF own, of x] by argo
    with pool_owned_outside [OF own x] show ?thesis by simp
  qed
  then show "w_heap w x = h0 x" and "x \<notin># U" by auto
qed

end
