(* ===== verification/Builders.thy ===== *)
theory Builders
  imports Prelude
begin

text \<open>
  The contract that the two writable handles of the crate share, \<open>PageBuilder\<close> (\<open>src/page.rs\<close>) and
  \<open>ChunkBuilder\<close> (\<open>src/chunk.rs\<close>): bytes are appended until the capacity is reached, an append that
  does not fit is refused as a whole and changes nothing. The locale \<open>byte_builder\<close> states it; a
  client that writes a record as a sequence of pieces is proved correct once, for both.
\<close>

text \<open>A client that appends pieces one after the other and stops at the first refusal; \<open>app\<close> is the
  append operation of the handle.\<close>

fun append_all :: "(u8 list \<Rightarrow> 'b \<Rightarrow> 'w \<Rightarrow> ((panic + ('e + unit)) \<times> 'b \<times> 'w) option)
    \<Rightarrow> u8 list list \<Rightarrow> 'b \<Rightarrow> 'w \<Rightarrow> (u8 list list \<times> 'b \<times> 'w) option" where
  "append_all app [] b w = Some ([], b, w)"
| "append_all app (d # ds) b w = do {
     (r, b, w) \<leftarrow> app d b w;
     (case r of Inr (Inr _) \<Rightarrow> append_all app ds b w | _ \<Rightarrow> Some (d # ds, b, w))
   }"

text \<open>The pieces that fit, from the front.\<close>

fun fitting :: "nat \<Rightarrow> u8 list list \<Rightarrow> u8 list list" where
  "fitting room [] = []"
| "fitting room (d # ds) = (if length d \<le> room then d # fitting (room - length d) ds else [])"

locale byte_builder =
  fixes live :: "'b \<Rightarrow> 'w \<Rightarrow> bool"
    and cap :: "'b \<Rightarrow> 'w \<Rightarrow> nat"
    and contents :: "'b \<Rightarrow> 'w \<Rightarrow> u8 list option"
    and app :: "u8 list \<Rightarrow> 'b \<Rightarrow> 'w \<Rightarrow> ((panic + ('e + unit)) \<times> 'b \<times> 'w) option"
  assumes contents_live: "live b w \<Longrightarrow> \<exists>xs. contents b w = Some xs \<and> length xs \<le> cap b w"
    and append_fits: "live b w \<Longrightarrow> contents b w = Some xs \<Longrightarrow> length xs + length d \<le> cap b w \<Longrightarrow>
      \<exists>b' w'. app d b w = Some (Inr (Inr ()), b', w') \<and> live b' w' \<and> cap b' w' = cap b w
        \<and> contents b' w' = Some (xs @ d)"
    and append_full: "live b w \<Longrightarrow> contents b w = Some xs \<Longrightarrow> length d \<le> isize_max \<Longrightarrow>
      cap b w < length xs + length d \<Longrightarrow> \<exists>e. app d b w = Some (Inr (Inl e), b, w)"
begin

lemma append_all_fitting:
  assumes "live b w" and "contents b w = Some xs" and "\<forall>d \<in> set ds. length d \<le> isize_max"
  shows "\<exists>b' w'. append_all app ds b w = Some (drop (length (fitting (cap b w - length xs) ds)) ds, b', w')
    \<and> live b' w' \<and> cap b' w' = cap b w
    \<and> contents b' w' = Some (xs @ concat (fitting (cap b w - length xs) ds))"
  using assms
proof (induction ds arbitrary: b w xs)
  case (Cons d ds)
  from contents_live [OF Cons.prems(1)] Cons.prems(2) have le: "length xs \<le> cap b w" by simp
  show ?case
  proof (cases "length xs + length d \<le> cap b w")
    case True
    from append_fits [OF Cons.prems(1,2) True] obtain b1 w1 where
      one: "app d b w = Some (Inr (Inr ()), b1, w1)" "live b1 w1" "cap b1 w1 = cap b w"
        "contents b1 w1 = Some (xs @ d)" by blast
    have room: "cap b w - length xs - length d = cap b1 w1 - length (xs @ d)" using one(3) by simp
    from True have d: "length d \<le> cap b w - length xs" by simp
    from Cons.IH [OF one(2,4)] Cons.prems(3) one(1,3) d room show ?thesis by auto
  next
    case False
    with le have d: "\<not> length d \<le> cap b w - length xs" by simp
    from append_full [OF Cons.prems(1,2), of d] False Cons.prems(3) obtain e where
      "app d b w = Some (Inr (Inl e), b, w)" by auto
    with Cons.prems d show ?thesis by simp
  qed
qed simp

end

end
