(* ===== verification/Pages.thy ===== *)
theory Pages
  imports Pool_Ownership Builders
begin

text \<open>
  \<open>src/page.rs\<close> and the operations of \<open>src/pool.rs\<close> that hand out pages. A \<open>PageBuilder\<close> owns its
  buffer; a \<open>Page\<close> is a counted reference to a \<open>PageInner\<close>, here an index into the table \<open>w_pages\<close>,
  whose entries are the inner value and its strong count (zero once dropped). Each handle also holds
  one strong reference to the pool's shared part. A panic inside a client's closure unwinds: the
  builder is dropped on the way out.
\<close>

section \<open>State\<close>

record page_full =
  pf_capacity :: usize
  pf_len :: usize
  pf_attempted :: usize

record page_builder =
  pb_buf :: "addr option"
  pb_len :: usize
  pb_tenant :: nat

record page_inner =
  pi_buf :: "addr option"
  pi_capacity :: usize
  pi_len :: usize
  pi_tenant :: nat

record page_world = pool_world +
  w_pages :: "(page_inner \<times> nat) list"

type_synonym page = nat

section \<open>PageBuilder\<close>

definition page_builder_new :: "addr \<Rightarrow> nat \<Rightarrow> page_builder" where
  "page_builder_new buf tenant = \<lparr>pb_buf = Some buf, pb_len = 0, pb_tenant = tenant\<rparr>"

definition page_builder_capacity :: "'z pool_world_scheme \<Rightarrow> usize option" where
  "page_builder_capacity w = do { sh \<leftarrow> get_shared w; Some (sh_page_size sh) }"

definition page_builder_is_empty :: "page_builder \<Rightarrow> bool" where
  "page_builder_is_empty b = (pb_len b = 0)"

definition page_builder_remaining :: "page_builder \<Rightarrow> 'z pool_world_scheme \<Rightarrow> usize option" where
  "page_builder_remaining b w = do { cap \<leftarrow> page_builder_capacity w; Some (cap - pb_len b) }"

definition page_builder_as_slice :: "page_builder \<Rightarrow> 'z pool_world_scheme \<Rightarrow> (panic + u8 list) option" where
  "page_builder_as_slice b w =
     (case pb_buf b of
        None \<Rightarrow> Some (Inl ExpectFailed)
      | Some buf \<Rightarrow> do { xs \<leftarrow> mem_read (w_heap w) buf 0 (unat (pb_len b)); Some (Inr xs) })"

text \<open>The slice over the whole buffer; making it is defined when the range is live memory.\<close>

definition page_builder_as_mut_slice :: "page_builder \<Rightarrow> 'z pool_world_scheme \<Rightarrow> (panic + slice_mut) option" where
  "page_builder_as_mut_slice b w =
     (case pb_buf b of
        None \<Rightarrow> Some (Inl ExpectFailed)
      | Some buf \<Rightarrow> do {
          cap \<leftarrow> page_builder_capacity w;
          _ \<leftarrow> mem_read (w_heap w) buf 0 (unat cap);
          Some (Inr \<lparr>sl_base = buf, sl_off = 0, sl_len = unat cap\<rparr>)
        })"

definition page_builder_set_len :: "usize \<Rightarrow> page_builder \<Rightarrow> 'z pool_world_scheme
    \<Rightarrow> ((panic + unit) \<times> page_builder) option" where
  "page_builder_set_len len b w = do {
     cap \<leftarrow> page_builder_capacity w;
     if \<not> len \<le> cap then Some (Inl AssertFailed, b) else Some (Inr (), b\<lparr>pb_len := len\<rparr>)
   }"

definition page_builder_append :: "u8 list \<Rightarrow> page_builder \<Rightarrow> 'z pool_world_scheme
    \<Rightarrow> ((panic + (page_full + unit)) \<times> page_builder \<times> 'z pool_world_scheme) option" where
  "page_builder_append data b w = do {
     let data_len = of_nat (length data);
     cap \<leftarrow> page_builder_capacity w;
     if pb_len b + data_len > cap
     then Some (Inr (Inl \<lparr>pf_capacity = cap, pf_len = pb_len b, pf_attempted = data_len\<rparr>), b, w)
     else (case pb_buf b of
         None \<Rightarrow> Some (Inl ExpectFailed, b, w)
       | Some buf \<Rightarrow> do {
           h \<leftarrow> mem_write (w_heap w) buf (unat (pb_len b)) data;
           Some (Inr (Inr ()), b\<lparr>pb_len := pb_len b + data_len\<rparr>, w\<lparr>w_heap := h\<rparr>)
         })
   }"

text \<open>\<open>Drop for PageBuilder\<close>, followed by the drop of its field \<open>shared\<close>.\<close>

definition page_builder_drop :: "page_builder \<Rightarrow> 'z pool_world_scheme \<Rightarrow> 'z pool_world_scheme option" where
  "page_builder_drop b w = do {
     w \<leftarrow> (case pb_buf b of
         None \<Rightarrow> Some w
       | Some buf \<Rightarrow> do {
           capacity \<leftarrow> page_builder_capacity w;
           let w = upd_tenant (pb_tenant b) (record_release capacity) w;
           push_return buf w
         });
     drop_shared w
   }"

text \<open>\<open>seal\<close> consumes the builder: at its end the builder, now without a buffer, is dropped.\<close>

definition page_builder_seal :: "page_builder \<Rightarrow> page_world \<Rightarrow> ((panic + page) \<times> page_world) option" where
  "page_builder_seal b w =
     (case pb_buf b of
        None \<Rightarrow> do { w \<leftarrow> page_builder_drop b w; Some (Inl ExpectFailed, w) }
      | Some buf \<Rightarrow> do {
          let b = b\<lparr>pb_buf := None\<rparr>;
          cap \<leftarrow> page_builder_capacity w;
          let w = clone_shared w;
          let inner = \<lparr>pi_buf = Some buf, pi_capacity = cap, pi_len = pb_len b, pi_tenant = pb_tenant b\<rparr>;
          let page = length (w_pages w);
          let w = w\<lparr>w_pages := w_pages w @ [(inner, 1)]\<rparr>;
          w \<leftarrow> page_builder_drop b w;
          Some (Inr page, w)
        })"

section \<open>Page\<close>

definition get_page :: "page \<Rightarrow> page_world \<Rightarrow> (page_inner \<times> nat) option" where
  "get_page p w = get_cell p (w_pages w)"

definition page_len :: "page \<Rightarrow> page_world \<Rightarrow> usize option" where
  "page_len p w = do { (inner, n) \<leftarrow> get_page p w; Some (pi_len inner) }"

definition page_is_empty :: "page \<Rightarrow> page_world \<Rightarrow> bool option" where
  "page_is_empty p w = do { (inner, n) \<leftarrow> get_page p w; Some (pi_len inner = 0) }"

definition page_capacity :: "page \<Rightarrow> page_world \<Rightarrow> usize option" where
  "page_capacity p w = do { (inner, n) \<leftarrow> get_page p w; Some (pi_capacity inner) }"

definition page_as_slice :: "page \<Rightarrow> page_world \<Rightarrow> (panic + u8 list) option" where
  "page_as_slice p w = do {
     (inner, n) \<leftarrow> get_page p w;
     (case pi_buf inner of
        None \<Rightarrow> Some (Inl ExpectFailed)
      | Some buf \<Rightarrow> do { xs \<leftarrow> mem_read (w_heap w) buf 0 (unat (pi_len inner)); Some (Inr xs) })
   }"

definition page_ref_count :: "page \<Rightarrow> page_world \<Rightarrow> nat option" where
  "page_ref_count p w = do { (inner, n) \<leftarrow> get_page p w; Some n }"

definition page_clone :: "page \<Rightarrow> page_world \<Rightarrow> (page \<times> page_world) option" where
  "page_clone p w = do {
     (inner, n) \<leftarrow> get_page p w;
     Some (p, w\<lparr>w_pages := (w_pages w)[p := (inner, Suc n)]\<rparr>)
   }"

text \<open>\<open>Drop for PageInner\<close>, followed by the drop of its field \<open>shared\<close>.\<close>

definition page_inner_drop :: "page_inner \<Rightarrow> 'z pool_world_scheme \<Rightarrow> 'z pool_world_scheme option" where
  "page_inner_drop inner w = do {
     w \<leftarrow> (case pi_buf inner of
         None \<Rightarrow> Some w
       | Some buf \<Rightarrow> do {
           let w = upd_tenant (pi_tenant inner) (record_release (pi_capacity inner)) w;
           push_return buf w
         });
     drop_shared w
   }"

definition page_drop :: "page \<Rightarrow> page_world \<Rightarrow> page_world option" where
  "page_drop p w = do {
     (inner, n) \<leftarrow> get_page p w;
     let w = w\<lparr>w_pages := (w_pages w)[p := (inner, n - 1)]\<rparr>;
     if n = 1 then page_inner_drop inner w else Some w
   }"

section \<open>Allocation\<close>

definition page_allocate :: "tenant \<Rightarrow> page_pool \<Rightarrow> 'z pool_world_scheme
    \<Rightarrow> ((panic + page_builder) \<times> page_pool \<times> 'z pool_world_scheme) option" where
  "page_allocate tenant pp w = do {
     (r, pp, w) \<leftarrow> allocate_raw_page pp w;
     (case r of
        Inl e \<Rightarrow> Some (Inl e, pp, w)
      | Inr buf \<Rightarrow> do {
          sh \<leftarrow> get_shared w;
          let w = upd_tenant (tenant_cell tenant) (record_allocate (sh_page_size sh)) w;
          Some (Inr (page_builder_new buf (tenant_cell tenant)), pp, w)
        })
   }"

text \<open>The three helpers differ in how they fill the new builder. Each filling step is one definition;
  its result is a panic or the builder with its length set.\<close>

definition page_fill_from :: "u8 list \<Rightarrow> page_builder \<Rightarrow> 'z pool_world_scheme
    \<Rightarrow> ((panic + unit) \<times> page_builder \<times> 'z pool_world_scheme) option" where
  "page_fill_from data b w =
     (if data = [] then Some (Inr (), b, w)
      else do {
        s \<leftarrow> page_builder_as_mut_slice b w;
        (case s of
           Inl e \<Rightarrow> Some (Inl e, b, w)
         | Inr s \<Rightarrow> (case slice_range s 0 (length data) of
               Inl e \<Rightarrow> Some (Inl e, b, w)
             | Inr s \<Rightarrow> do {
                 (r, h) \<leftarrow> copy_from_slice s data (w_heap w);
                 let w = w\<lparr>w_heap := h\<rparr>;
                 (case r of
                    Inl e \<Rightarrow> Some (Inl e, b, w)
                  | Inr _ \<Rightarrow> do {
                      (r, b) \<leftarrow> page_builder_set_len (of_nat (length data)) b w;
                      Some (r, b, w)
                    })
               }))
      })"

definition page_run_init :: "'r init \<Rightarrow> page_builder \<Rightarrow> 'z pool_world_scheme
    \<Rightarrow> ((panic + 'r) \<times> 'z pool_world_scheme) option" where
  "page_run_init f b w = do {
     s \<leftarrow> page_builder_as_mut_slice b w;
     (case s of
        Inl e \<Rightarrow> Some (Inl e, w)
      | Inr s \<Rightarrow> do { (r, h) \<leftarrow> run_init f s (w_heap w); Some (r, w\<lparr>w_heap := h\<rparr>) })
   }"

definition page_fill_with :: "unit init \<Rightarrow> page_builder \<Rightarrow> 'z pool_world_scheme
    \<Rightarrow> ((panic + unit) \<times> page_builder \<times> 'z pool_world_scheme) option" where
  "page_fill_with f b w = do {
     (r, w) \<leftarrow> page_run_init f b w;
     (case r of
        Inl e \<Rightarrow> Some (Inl e, b, w)
      | Inr _ \<Rightarrow> do {
          cap \<leftarrow> page_builder_capacity w;
          (r, b) \<leftarrow> page_builder_set_len cap b w;
          Some (r, b, w)
        })
   }"

definition page_fill_with_len :: "usize init \<Rightarrow> page_builder \<Rightarrow> 'z pool_world_scheme
    \<Rightarrow> ((panic + unit) \<times> page_builder \<times> 'z pool_world_scheme) option" where
  "page_fill_with_len f b w = do {
     (r, w) \<leftarrow> page_run_init f b w;
     (case r of
        Inl e \<Rightarrow> Some (Inl e, b, w)
      | Inr len \<Rightarrow> do { (r, b) \<leftarrow> page_builder_set_len len b w; Some (r, b, w) })
   }"

text \<open>Allocate, fill, and then seal, or, when filling panicked, drop the builder while unwinding.\<close>

definition page_alloc_fill :: "(page_builder \<Rightarrow> page_world \<Rightarrow> ((panic + unit) \<times> page_builder \<times> page_world) option)
    \<Rightarrow> tenant \<Rightarrow> page_pool \<Rightarrow> page_world \<Rightarrow> ((panic + page) \<times> page_pool \<times> page_world) option" where
  "page_alloc_fill fill tenant pp w = do {
     (r, pp, w) \<leftarrow> page_allocate tenant pp w;
     (case r of
        Inl e \<Rightarrow> Some (Inl e, pp, w)
      | Inr b \<Rightarrow> do {
          (r, b, w) \<leftarrow> fill b w;
          (case r of
             Inl e \<Rightarrow> do { w \<leftarrow> page_builder_drop b w; Some (Inl e, pp, w) }
           | Inr _ \<Rightarrow> do { (r, w) \<leftarrow> page_builder_seal b w; Some (r, pp, w) })
        })
   }"

definition page_alloc_from :: "tenant \<Rightarrow> u8 list \<Rightarrow> page_pool \<Rightarrow> page_world
    \<Rightarrow> ((panic + page) \<times> page_pool \<times> page_world) option" where
  "page_alloc_from tenant data pp w = do {
     sh \<leftarrow> get_shared w;
     if \<not> of_nat (length data) \<le> sh_page_size sh then Some (Inl AssertFailed, pp, w)
     else page_alloc_fill (page_fill_from data) tenant pp w
   }"

definition page_alloc_with :: "tenant \<Rightarrow> unit init \<Rightarrow> page_pool \<Rightarrow> page_world
    \<Rightarrow> ((panic + page) \<times> page_pool \<times> page_world) option" where
  "page_alloc_with tenant f pp w = page_alloc_fill (page_fill_with f) tenant pp w"

definition page_alloc_with_len :: "tenant \<Rightarrow> usize init \<Rightarrow> page_pool \<Rightarrow> page_world
    \<Rightarrow> ((panic + page) \<times> page_pool \<times> page_world) option" where
  "page_alloc_with_len tenant f pp w = page_alloc_fill (page_fill_with_len f) tenant pp w"

section \<open>The invariant\<close>

text \<open>A handle holds a buffer for a tenant. \<open>B\<close> are the builders that are alive; the pages that are
  alive are those of the table with a strong count.\<close>

type_synonym hold = "addr \<times> nat"

definition builder_hold :: "page_builder \<Rightarrow> hold" where
  "builder_hold b = (the (pb_buf b), pb_tenant b)"

definition inner_hold :: "page_inner \<Rightarrow> hold" where
  "inner_hold i = (the (pi_buf i), pi_tenant i)"

definition page_holds :: "page_world \<Rightarrow> page_builder multiset \<Rightarrow> hold multiset" where
  "page_holds w B = image_mset builder_hold B + image_mset inner_hold (live_cells (w_pages w))"

abbreviation page_buffers :: "page_world \<Rightarrow> page_builder multiset \<Rightarrow> addr multiset" where
  "page_buffers w B \<equiv> image_mset fst (page_holds w B)"

definition builder_ok :: "usize \<Rightarrow> page_builder \<Rightarrow> bool" where
  "builder_ok sz b \<longleftrightarrow> pb_buf b \<noteq> None \<and> pb_len b \<le> sz"

definition inner_ok :: "usize \<Rightarrow> page_inner \<Rightarrow> bool" where
  "inner_ok sz i \<longleftrightarrow> pi_buf i \<noteq> None \<and> pi_capacity i = sz \<and> pi_len i \<le> sz"

text \<open>A tenant is charged one page per handle, on top of \<open>base\<close>, what it used before the pool.\<close>

definition charged :: "stats_table \<Rightarrow> u64 \<Rightarrow> stats_table \<Rightarrow> hold multiset \<Rightarrow> bool" where
  "charged base sz tab H \<longleftrightarrow> (\<forall>t.
     t_pages_in_use (tab t) = t_pages_in_use (base t) + of_nat (count (image_mset snd H) t) \<and>
     t_bytes_in_use (tab t) = t_bytes_in_use (base t) + sz * of_nat (count (image_mset snd H) t))"

definition page_inv :: "heap \<Rightarrow> stats_table \<Rightarrow> page_pool option \<Rightarrow> nat \<Rightarrow> page_world
    \<Rightarrow> page_builder multiset \<Rightarrow> bool" where
  "page_inv h0 base pp k w B \<longleftrightarrow>
     pool_life h0 pp k w (page_buffers w B) \<and>
     charged base (sh_page_size (w_shared w)) (w_tenants w) (page_holds w B) \<and>
     (\<forall>b \<in># B. builder_ok (sh_page_size (w_shared w)) b) \<and>
     (\<forall>i \<in># live_cells (w_pages w). inner_ok (sh_page_size (w_shared w)) i)"

text \<open>What an operation leaves alone: the page size, and the bytes of the buffers \<open>X\<close>.\<close>

definition keeps :: "addr multiset \<Rightarrow> page_world \<Rightarrow> page_world \<Rightarrow> bool" where
  "keeps X w w' \<longleftrightarrow> sh_page_size (w_shared w') = sh_page_size (w_shared w)
     \<and> (\<forall>x. x \<in># X \<longrightarrow> w_heap w' x = w_heap w x)"

section \<open>Lemmas\<close>

lemma pool_frame_pages: "pool_frame w w' \<Longrightarrow> w_pages w' = w_pages w"
  by (cases w, cases w') (simp add: pool_frame_def)

lemma page_world_simps [simp]:
  "w_pages (upd_tenant t f w) = w_pages w" "w_pages (clone_shared w) = w_pages w"
  by (simp_all add: upd_tenant_def clone_shared_def)

lemma holds_add [simp]: "page_holds w (add_mset b B) = add_mset (builder_hold b) (page_holds w B)"
  by (simp add: page_holds_def)

lemma holds_cong: "w_pages w' = w_pages w \<Longrightarrow> page_holds w' B = page_holds w B"
  by (simp add: page_holds_def)

lemma holds_upd [simp]:
  "page_holds (upd_tenant t f w) B = page_holds w B" "page_holds (clone_shared w) B = page_holds w B"
  "page_holds (w\<lparr>w_heap := h\<rparr>) B = page_holds w B"
  by (simp_all add: page_holds_def)

lemma get_page_Some:
  "get_page p w = Some (i, n) \<longleftrightarrow> p < length (w_pages w) \<and> w_pages w ! p = (i, n) \<and> n \<noteq> 0"
  by (simp add: get_page_def get_cell_Some)

lemma get_page_live: "get_page p w = Some (i, n) \<Longrightarrow> i \<in># live_cells (w_pages w)"
  unfolding get_page_def by (rule get_cell_live)

text \<open>The tenants' side of one more and one less hold.\<close>

lemma charged_allocate:
  "charged base sz tab H \<Longrightarrow>
   charged base sz (tab(t := record_allocate sz (tab t))) (add_mset (x, t) H)"
  by (auto simp: charged_def record_allocate_def fetch_add_def Let_def algebra_simps)

lemma charged_release:
  "charged base sz tab (add_mset (x, t) H) \<Longrightarrow>
   charged base sz (tab(t := record_release sz (tab t))) H"
  by (auto simp: charged_def record_release_def fetch_sub_def Let_def algebra_simps)

lemma page_inv_life: "page_inv h0 base pp k w B \<Longrightarrow> pool_life h0 pp k w (page_buffers w B)"
  by (simp add: page_inv_def)

lemma page_inv_shared:
  "page_inv h0 base (Some pp) k w B \<Longrightarrow> get_shared w = Some (w_shared w)"
  by (auto simp: page_inv_def dest: pool_life_shared)

lemma page_inv_builder:
  assumes "page_inv h0 base pp k w (add_mset b B)"
  obtains buf bs where "pb_buf b = Some buf" and "w_heap w buf = Some bs"
    and "length bs = unat (sh_page_size (w_shared w))" and "pb_len b \<le> sh_page_size (w_shared w)"
    and "get_shared w = Some (w_shared w)" and "buf \<notin># page_buffers w B"
    and "unat (sh_page_size (w_shared w)) \<le> isize_max" and "builder_hold b = (buf, pb_tenant b)"
proof -
  from assms obtain buf where buf: "pb_buf b = Some buf" "pb_len b \<le> sh_page_size (w_shared w)"
    by (auto simp: page_inv_def builder_ok_def)
  then have h: "builder_hold b = (buf, pb_tenant b)" by (simp add: builder_hold_def)
  with assms have life: "pool_life h0 pp k w (add_mset buf (page_buffers w B))"
    by (simp add: page_inv_def)
  from pool_life_buffer [OF life, of buf] obtain bs where "w_heap w buf = Some bs"
    "length bs = unat (sh_page_size (w_shared w))" "unat (sh_page_size (w_shared w)) \<le> isize_max"
    by (auto elim: buffer_okE)
  with buf h pool_life_once [OF life] pool_life_shared [OF life] show thesis by (intro that) auto
qed

subsection \<open>Allocating and releasing a builder\<close>

lemma page_allocate_inv:
  assumes inv: "page_inv h0 base (Some pp) k w B"
  shows "\<exists>r pp' w'. page_allocate t pp w = Some (r, pp', w') \<and> w_pages w' = w_pages w
    \<and> keeps (page_buffers w B) w w' \<and>
    (case r of
       Inl e \<Rightarrow> page_inv h0 base (Some pp') k w' B \<and> w_tenants w' = w_tenants w
     | Inr b \<Rightarrow> page_inv h0 base (Some pp') k w' (add_mset b B) \<and> pb_len b = 0
         \<and> pb_tenant b = tenant_cell t
         \<and> w_tenants w' = (w_tenants w)(tenant_cell t :=
             record_allocate (sh_page_size (w_shared w)) (w_tenants w (tenant_cell t))))"
proof -
  from pool_life_take [OF page_inv_life [OF inv]] obtain r pp' w1 where
    al: "allocate_raw_page pp w = Some (r, pp', w1)" "pool_frame w w1"
    and res: "case r of
       Inl e \<Rightarrow> pool_life h0 (Some pp') k w1 (page_buffers w B) \<and> w_heap w1 = w_heap w
     | Inr x \<Rightarrow> pool_life h0 (Some pp') k w1 (add_mset x (page_buffers w B))
         \<and> (\<forall>y. y \<noteq> x \<longrightarrow> w_heap w1 y = w_heap w y)" by blast
  have pages: "w_pages w1 = w_pages w" by (rule pool_frame_pages [OF al(2)])
  note holds = holds_cong [OF pages]
  show ?thesis
  proof (cases r)
    case (Inl e)
    with al res pages inv show ?thesis
      by (auto simp: page_allocate_def page_inv_def holds keeps_def pool_frame_def)
  next
    case (Inr x)
    let ?w = "upd_tenant (tenant_cell t) (record_allocate (sh_page_size (w_shared w1))) w1"
    from Inr res have life: "pool_life h0 (Some pp') k w1 (add_mset x (page_buffers w B))" by simp
    have gs: "get_shared w1 = Some (w_shared w1)" using pool_life_shared [OF life] by simp
    have x: "x \<notin># page_buffers w B" using life by (rule pool_life_once)
    have "page_inv h0 base (Some pp') k ?w (add_mset (page_builder_new x (tenant_cell t)) B)"
      using inv life pages al(2) charged_allocate [of base "sh_page_size (w_shared w)" "w_tenants w"]
      by (auto simp: page_inv_def holds page_builder_new_def builder_hold_def
          builder_ok_def pool_frame_def)
    moreover have "keeps (page_buffers w B) w ?w"
      using Inr res x al(2) by (auto simp: keeps_def pool_frame_def)
    ultimately show ?thesis
      using al Inr gs pages by (simp add: page_allocate_def page_builder_new_def pool_frame_def)
  qed
qed

lemma page_allocate_cases:
  assumes "page_inv h0 base (Some pp) k w B"
  obtains (failed) e pp' w' where "page_allocate t pp w = Some (Inl e, pp', w')"
      and "page_inv h0 base (Some pp') k w' B" and "w_pages w' = w_pages w"
      and "keeps (page_buffers w B) w w'" and "w_tenants w' = w_tenants w"
    | (built) b pp' w' where "page_allocate t pp w = Some (Inr b, pp', w')"
      and "page_inv h0 base (Some pp') k w' (add_mset b B)" and "w_pages w' = w_pages w"
      and "keeps (page_buffers w B) w w'" and "pb_len b = 0" and "pb_tenant b = tenant_cell t"
      and "w_tenants w' = (w_tenants w)(tenant_cell t :=
             record_allocate (sh_page_size (w_shared w)) (w_tenants w (tenant_cell t)))"
proof -
  from page_allocate_inv [OF assms, of t] obtain r pp' w' where
    "page_allocate t pp w = Some (r, pp', w')" "w_pages w' = w_pages w" "keeps (page_buffers w B) w w'"
    "case r of
       Inl e \<Rightarrow> page_inv h0 base (Some pp') k w' B \<and> w_tenants w' = w_tenants w
     | Inr b \<Rightarrow> page_inv h0 base (Some pp') k w' (add_mset b B) \<and> pb_len b = 0
         \<and> pb_tenant b = tenant_cell t
         \<and> w_tenants w' = (w_tenants w)(tenant_cell t :=
             record_allocate (sh_page_size (w_shared w)) (w_tenants w (tenant_cell t)))" by blast
  then show thesis by (cases r) (auto intro: failed built)
qed

lemma page_builder_drop_inv:
  assumes inv: "page_inv h0 base pp k w (add_mset b B)"
  shows "\<exists>w'. page_builder_drop b w = Some w' \<and> page_inv h0 base pp k w' B \<and> w_pages w' = w_pages w
    \<and> keeps (page_buffers w B) w w'
    \<and> w_tenants w' = (w_tenants w)(pb_tenant b :=
        record_release (sh_page_size (w_shared w)) (w_tenants w (pb_tenant b)))"
proof -
  from inv obtain buf where b: "pb_buf b = Some buf" "get_shared w = Some (w_shared w)"
    "builder_hold b = (buf, pb_tenant b)" by (elim page_inv_builder)
  let ?w = "upd_tenant (pb_tenant b) (record_release (sh_page_size (w_shared w))) w"
  have "pool_life h0 pp k ?w (add_mset buf (page_buffers w B))"
    using inv b(3) by (simp add: page_inv_def)
  from pool_life_give [OF this] obtain w' where
    w': "give_back buf ?w = Some w'" "pool_frame ?w w'" "pool_life h0 pp k w' (page_buffers w B)"
    and h': "\<forall>y. y \<in># page_buffers w B \<longrightarrow> w_heap w' y = w_heap w y" by auto
  have pages: "w_pages w' = w_pages w" using pool_frame_pages [OF w'(2)] by simp
  have "page_builder_drop b w = Some w'"
    using b w'(1) by (simp add: page_builder_drop_def page_builder_capacity_def give_back_def)
  moreover have "page_inv h0 base pp k w' B"
    using inv w' b(3) charged_release [of base "sh_page_size (w_shared w)" "w_tenants w" buf "pb_tenant b"]
    by (auto simp: page_inv_def holds_cong [OF pages] pages pool_frame_def)
  ultimately show ?thesis using pages w'(2) h' by (auto simp: keeps_def pool_frame_def)
qed

subsection \<open>Writing through a builder\<close>

lemma builder_write_inv:
  assumes inv: "page_inv h0 base pp k w (add_mset b B)" and buf: "pb_buf b = Some buf"
    and bs: "length bs = unat (sh_page_size (w_shared w))"
    and b': "pb_buf b' = pb_buf b" "pb_tenant b' = pb_tenant b" "pb_len b' \<le> sh_page_size (w_shared w)"
  shows "page_inv h0 base pp k (w\<lparr>w_heap := (w_heap w)(buf \<mapsto> bs)\<rparr>) (add_mset b' B)"
    and "keeps (page_buffers w B) w (w\<lparr>w_heap := (w_heap w)(buf \<mapsto> bs)\<rparr>)"
proof -
  have hold: "builder_hold b = (buf, pb_tenant b)" "builder_hold b' = (buf, pb_tenant b)"
    using buf b' by (simp_all add: builder_hold_def)
  have "pool_life h0 pp k (w\<lparr>w_heap := (w_heap w)(buf \<mapsto> bs)\<rparr>) (page_buffers w (add_mset b B))"
    by (rule pool_life_write [OF page_inv_life [OF inv] _ bs]) (simp add: hold)
  then show "page_inv h0 base pp k (w\<lparr>w_heap := (w_heap w)(buf \<mapsto> bs)\<rparr>) (add_mset b' B)"
    using inv b' buf by (auto simp: page_inv_def hold builder_ok_def)
  from inv show "keeps (page_buffers w B) w (w\<lparr>w_heap := (w_heap w)(buf \<mapsto> bs)\<rparr>)"
    using buf by (elim page_inv_builder) (auto simp: keeps_def)
qed

lemma page_builder_set_len_inv:
  assumes inv: "page_inv h0 base pp k w (add_mset b B)"
  shows "\<exists>r b'. page_builder_set_len len b w = Some (r, b') \<and> page_inv h0 base pp k w (add_mset b' B)
    \<and> pb_buf b' = pb_buf b \<and> pb_tenant b' = pb_tenant b
    \<and> (r = Inr () \<and> len \<le> sh_page_size (w_shared w) \<and> b' = b\<lparr>pb_len := len\<rparr>
       \<or> r = Inl AssertFailed \<and> \<not> len \<le> sh_page_size (w_shared w) \<and> b' = b)"
proof -
  from inv obtain buf where b: "pb_buf b = Some buf" "get_shared w = Some (w_shared w)"
    by (elim page_inv_builder)
  have hold: "builder_hold (b\<lparr>pb_len := len\<rparr>) = builder_hold b" by (simp add: builder_hold_def)
  show ?thesis
    using inv b by (auto simp: page_builder_set_len_def page_builder_capacity_def page_inv_def
        builder_ok_def hold)
qed

lemma builder_length_add:
  assumes "l \<le> sz" and "unat sz \<le> isize_max" and "n \<le> isize_max"
  shows "unat (l + of_nat n :: usize) = unat l + n" and "l + of_nat n > sz \<longleftrightarrow> unat sz < unat l + n"
proof -
  have "unat l \<le> isize_max" using assms(1,2) by (simp add: word_le_nat_alt)
  moreover have n: "unat (of_nat n :: usize) = n" using assms(3) by (simp add: unat_of_nat isize_max_def)
  ultimately show eq: "unat (l + of_nat n :: usize) = unat l + n"
    using assms(3) by (subst unat_add_usize) (simp_all add: isize_max_def)
  then show "l + of_nat n > sz \<longleftrightarrow> unat sz < unat l + n" by (simp add: word_less_nat_alt)
qed

lemma unat_of_nat_slice: "n \<le> isize_max \<Longrightarrow> unat (of_nat n :: usize) = n"
  by (simp add: unat_of_nat isize_max_def)

text \<open>Both branches of \<open>append\<close>.\<close>

lemma page_builder_append_inv:
  assumes inv: "page_inv h0 base pp k w (add_mset b B)" and data: "length data \<le> isize_max"
    and old: "page_builder_as_slice b w = Some (Inr xs)"
  shows "if unat (pb_len b) + length data \<le> unat (sh_page_size (w_shared w))
    then \<exists>b' w'. page_builder_append data b w = Some (Inr (Inr ()), b', w')
      \<and> page_inv h0 base pp k w' (add_mset b' B) \<and> w_pages w' = w_pages w \<and> w_tenants w' = w_tenants w
      \<and> keeps (page_buffers w B) w w' \<and> pb_tenant b' = pb_tenant b
      \<and> page_builder_as_slice b' w' = Some (Inr (xs @ data))
    else page_builder_append data b w = Some (Inr (Inl \<lparr>pf_capacity = sh_page_size (w_shared w),
      pf_len = pb_len b, pf_attempted = of_nat (length data)\<rparr>), b, w)"
proof -
  let ?sz = "sh_page_size (w_shared w)" and ?l = "unat (pb_len b)"
  from inv obtain buf bs where b: "pb_buf b = Some buf" "w_heap w buf = Some bs" "length bs = unat ?sz"
    "pb_len b \<le> ?sz" "get_shared w = Some (w_shared w)" "unat ?sz \<le> isize_max"
    by (elim page_inv_builder)
  note len = builder_length_add [OF b(4,6) data]
  have gt: "(pb_len b + of_nat (length data) > ?sz) = (\<not> ?l + length data \<le> unat ?sz)"
    using len(2) by (simp add: not_le)
  show ?thesis
  proof (cases "?l + length data \<le> unat ?sz")
    case False
    then show ?thesis using gt b
      by (simp add: page_builder_append_def page_builder_capacity_def del: word_less_nat_alt)
  next
    case True
    let ?bs = "take ?l bs @ data @ drop (?l + length data) bs"
    let ?b = "b\<lparr>pb_len := pb_len b + of_nat (length data)\<rparr>"
      and ?w = "w\<lparr>w_heap := (w_heap w)(buf \<mapsto> ?bs)\<rparr>"
    have wr: "mem_write (w_heap w) buf ?l data = Some ((w_heap w)(buf \<mapsto> ?bs))"
      using b True by (simp add: mem_write_def)
    have lbs: "length ?bs = unat ?sz" using True b(3) by simp
    have "pb_len ?b \<le> ?sz" using True len(1) by (simp add: word_le_nat_alt)
    note new = builder_write_inv [OF inv b(1) lbs _ _ this, simplified]
    have app: "page_builder_append data b w = Some (Inr (Inr ()), ?b, ?w)"
      using gt True b wr by (simp add: page_builder_append_def page_builder_capacity_def)
    have "xs = take ?l bs" using old b by (auto simp: page_builder_as_slice_def mem_read_def bind_eq_Some_conv split: if_splits)
    then have "page_builder_as_slice ?b ?w = Some (Inr (xs @ data))"
      using b True len(1) lbs
      by (simp add: page_builder_as_slice_def mem_read_def min_absorb1)
    with app new True show ?thesis by (auto simp: keeps_def)
  qed
qed

lemma page_as_mut_slice_eq:
  assumes "page_inv h0 base pp k w (add_mset b B)"
  obtains buf bs where "pb_buf b = Some buf" and "w_heap w buf = Some bs"
    and "length bs = unat (sh_page_size (w_shared w))"
    and "page_builder_as_mut_slice b w
       = Some (Inr \<lparr>sl_base = buf, sl_off = 0, sl_len = unat (sh_page_size (w_shared w))\<rparr>)"
  using assms
  by (elim page_inv_builder) (auto simp: page_builder_as_mut_slice_def page_builder_capacity_def mem_read_def)

text \<open>What the filling steps share: they keep the builder and its tenant, and write to its buffer only.\<close>

definition fill_ok :: "(page_builder \<Rightarrow> page_world \<Rightarrow> ((panic + unit) \<times> page_builder \<times> page_world) option) \<Rightarrow> bool" where
  "fill_ok fill \<longleftrightarrow> (\<forall>h0 base pp k w b B. page_inv h0 base pp k w (add_mset b B) \<longrightarrow>
     (\<exists>r b' w'. fill b w = Some (r, b', w') \<and> page_inv h0 base pp k w' (add_mset b' B)
        \<and> pb_tenant b' = pb_tenant b \<and> w_pages w' = w_pages w \<and> w_tenants w' = w_tenants w
        \<and> keeps (page_buffers w B) w w'))"

lemma page_fill_from_result:
  assumes inv: "page_inv h0 base pp k w (add_mset b B)"
    and data: "length data \<le> unat (sh_page_size (w_shared w))"
  shows "\<exists>b' w'. page_fill_from data b w = Some (Inr (), b', w') \<and> page_inv h0 base pp k w' (add_mset b' B)
      \<and> pb_tenant b' = pb_tenant b \<and> w_pages w' = w_pages w \<and> w_tenants w' = w_tenants w
      \<and> keeps (page_buffers w B) w w' \<and> (pb_len b = 0 \<longrightarrow> page_builder_as_slice b' w' = Some (Inr data))"
proof -
  from inv obtain buf bs where b: "pb_buf b = Some buf" "w_heap w buf = Some bs"
    "length bs = unat (sh_page_size (w_shared w))" "get_shared w = Some (w_shared w)"
    "unat (sh_page_size (w_shared w)) \<le> isize_max"
    by (elim page_inv_builder)
  from inv b have slice: "page_builder_as_mut_slice b w
      = Some (Inr \<lparr>sl_base = buf, sl_off = 0, sl_len = unat (sh_page_size (w_shared w))\<rparr>)"
    by (simp add: page_builder_as_mut_slice_def page_builder_capacity_def mem_read_def)
  have len: "unat (of_nat (length data) :: usize) = length data"
    using data b(5) by (intro unat_of_nat_slice) simp
  show ?thesis
  proof (cases "data = []")
    case True
    with inv b show ?thesis
      by (auto simp: page_fill_from_def keeps_def page_builder_as_slice_def mem_read_def)
  next
    case False
    let ?bs = "data @ drop (length data) bs" and ?b = "b\<lparr>pb_len := of_nat (length data)\<rparr>"
    let ?w = "w\<lparr>w_heap := (w_heap w)(buf \<mapsto> ?bs)\<rparr>"
    have lbs: "length ?bs = unat (sh_page_size (w_shared w))" using b(3) data by simp
    have le: "of_nat (length data) \<le> sh_page_size (w_shared w)" using data len by (simp add: word_le_nat_alt)
    note new = builder_write_inv [OF inv b(1) lbs, of ?b, simplified, OF le]
    have "page_fill_from data b w = Some (Inr (), ?b, ?w)"
      using False slice data b le
      by (simp add: page_fill_from_def slice_range_def copy_from_slice_def slice_write_def mem_write_def
          page_builder_set_len_def page_builder_capacity_def get_shared_def split: if_splits)
    moreover have "page_builder_as_slice ?b ?w = Some (Inr data)"
      using b len data by (simp add: page_builder_as_slice_def mem_read_def)
    ultimately show ?thesis using new by auto
  qed
qed

lemma page_run_init_result:
  assumes inv: "page_inv h0 base pp k w (add_mset b B)" and f: "keeps_length f"
  shows "\<exists>buf bs. pb_buf b = Some buf \<and> w_heap w buf = Some bs
    \<and> page_run_init f b w = Some (case snd (f bs) of None \<Rightarrow> Inl CallbackPanicked | Some v \<Rightarrow> Inr v,
        w\<lparr>w_heap := (w_heap w)(buf \<mapsto> fst (f bs))\<rparr>)
    \<and> page_inv h0 base pp k (w\<lparr>w_heap := (w_heap w)(buf \<mapsto> fst (f bs))\<rparr>) (add_mset b B)
    \<and> keeps (page_buffers w B) w (w\<lparr>w_heap := (w_heap w)(buf \<mapsto> fst (f bs))\<rparr>)"
proof -
  from inv obtain buf bs where b: "pb_buf b = Some buf" "w_heap w buf = Some bs"
    "length bs = unat (sh_page_size (w_shared w))" "pb_len b \<le> sh_page_size (w_shared w)"
    "get_shared w = Some (w_shared w)"
    by (elim page_inv_builder)
  from f have lbs: "length (fst (f bs)) = unat (sh_page_size (w_shared w))"
    using b(3) by (simp add: keeps_length_def)
  note new = builder_write_inv [OF inv b(1) lbs, of b, simplified, OF b(4)]
  have "page_run_init f b w = Some (case snd (f bs) of None \<Rightarrow> Inl CallbackPanicked | Some v \<Rightarrow> Inr v,
        w\<lparr>w_heap := (w_heap w)(buf \<mapsto> fst (f bs))\<rparr>)"
    using b lbs f by (simp add: page_run_init_def page_builder_as_mut_slice_def page_builder_capacity_def
        mem_read_def run_init_eq)
  with b new show ?thesis by blast
qed

lemma fill_ok_with_len:
  assumes "keeps_length f"
  shows "fill_ok (page_fill_with_len f)"
  unfolding fill_ok_def
proof (intro allI impI)
  fix h0 base pp k w b B assume inv: "page_inv h0 base pp k w (add_mset b B)"
  from page_run_init_result [OF inv assms] obtain r w1 where
    run: "page_run_init f b w = Some (r, w1)" "page_inv h0 base pp k w1 (add_mset b B)"
      "keeps (page_buffers w B) w w1" "w_pages w1 = w_pages w" "w_tenants w1 = w_tenants w" by fastforce
  show "\<exists>r b' w'. page_fill_with_len f b w = Some (r, b', w') \<and> page_inv h0 base pp k w' (add_mset b' B)
      \<and> pb_tenant b' = pb_tenant b \<and> w_pages w' = w_pages w \<and> w_tenants w' = w_tenants w
      \<and> keeps (page_buffers w B) w w'"
  proof (cases r)
    case (Inl e)
    with run show ?thesis by (auto simp: page_fill_with_len_def)
  next
    case (Inr len)
    with run page_builder_set_len_inv [OF run(2), of len] show ?thesis
      by (auto simp: page_fill_with_len_def)
  qed
qed

lemma page_fill_with_len_result:
  assumes inv: "page_inv h0 base pp k w (add_mset b B)" and f: "keeps_length f"
  shows "\<exists>bs r b' w'. length bs = unat (sh_page_size (w_shared w))
    \<and> page_fill_with_len f b w = Some (r, b', w') \<and> page_inv h0 base pp k w' (add_mset b' B)
    \<and> w_pages w' = w_pages w
    \<and> (case snd (f bs) of
         None \<Rightarrow> r = Inl CallbackPanicked
       | Some len \<Rightarrow> if unat len \<le> length bs
           then r = Inr () \<and> page_builder_as_slice b' w' = Some (Inr (take (unat len) (fst (f bs))))
           else r = Inl AssertFailed)"
proof -
  from page_run_init_result [OF inv f] obtain buf bs where
    b: "pb_buf b = Some buf" "w_heap w buf = Some bs"
      "page_run_init f b w = Some (case snd (f bs) of None \<Rightarrow> Inl CallbackPanicked | Some v \<Rightarrow> Inr v,
        w\<lparr>w_heap := (w_heap w)(buf \<mapsto> fst (f bs))\<rparr>)"
    and inv1: "page_inv h0 base pp k (w\<lparr>w_heap := (w_heap w)(buf \<mapsto> fst (f bs))\<rparr>) (add_mset b B)"
    by blast
  let ?w = "w\<lparr>w_heap := (w_heap w)(buf \<mapsto> fst (f bs))\<rparr>"
  from inv b(1,2) have lbs: "length bs = unat (sh_page_size (w_shared w))"
    by (elim page_inv_builder) simp
  have sl: "page_builder_as_slice (b\<lparr>pb_len := len\<rparr>) ?w = Some (Inr (take (unat len) (fst (f bs))))"
    if "unat len \<le> length bs" for len
    using b(1) that f by (simp add: page_builder_as_slice_def mem_read_def keeps_length_def)
  show ?thesis
  proof (cases "snd (f bs)")
    case None
    with b(3) inv1 lbs show ?thesis by (auto simp: page_fill_with_len_def)
  next
    case (Some len)
    from page_builder_set_len_inv [OF inv1, of len] obtain r b' where
      "page_builder_set_len len b ?w = Some (r, b')" "page_inv h0 base pp k ?w (add_mset b' B)"
      "r = Inr () \<and> len \<le> sh_page_size (w_shared w) \<and> b' = b\<lparr>pb_len := len\<rparr>
       \<or> r = Inl AssertFailed \<and> \<not> len \<le> sh_page_size (w_shared w)" by auto
    moreover have "page_fill_with_len f b w = Some (r, b', ?w)"
      using b(3) Some calculation(1) by (simp add: page_fill_with_len_def)
    ultimately show ?thesis using lbs Some sl [of len]
      by (intro exI [of _ bs] exI [of _ r] exI [of _ b'] exI [of _ ?w]) (auto simp: word_le_nat_alt)
  qed
qed

text \<open>\<open>alloc_with\<close> is \<open>alloc_with_len\<close> with the capacity as the length.\<close>

lemma fill_with_as_len:
  assumes inv: "page_inv h0 base pp k w (add_mset b B)" and f: "keeps_length f"
  shows "page_fill_with f b w
    = page_fill_with_len (\<lambda>bs. (fst (f bs), map_option (\<lambda>_. sh_page_size (w_shared w)) (snd (f bs)))) b w"
proof -
  let ?g = "\<lambda>bs. (fst (f bs), map_option (\<lambda>_. sh_page_size (w_shared w)) (snd (f bs)))"
  from f have g: "keeps_length ?g" by (simp add: keeps_length_def)
  from inv have gs: "get_shared w = Some (w_shared w)" by (elim page_inv_builder)
  then have gs': "get_shared (w\<lparr>w_heap := h\<rparr>) = Some (w_shared w)" for h
    by (simp add: get_shared_def split: if_splits)
  from page_run_init_result [OF inv f] page_run_init_result [OF inv g] show ?thesis
    by (auto simp: page_fill_with_def page_fill_with_len_def page_builder_capacity_def gs'
        split: option.splits)
qed

lemma fill_ok_with:
  assumes "keeps_length f"
  shows "fill_ok (page_fill_with f)"
  unfolding fill_ok_def
proof (intro allI impI)
  fix h0 base pp k w b B assume inv: "page_inv h0 base pp k w (add_mset b B)"
  have "fill_ok (page_fill_with_len
      (\<lambda>bs. (fst (f bs), map_option (\<lambda>_. sh_page_size (w_shared w)) (snd (f bs)))))"
    by (rule fill_ok_with_len) (use assms in \<open>simp add: keeps_length_def\<close>)
  with inv show "\<exists>r b' w'. page_fill_with f b w = Some (r, b', w') \<and> page_inv h0 base pp k w' (add_mset b' B)
      \<and> pb_tenant b' = pb_tenant b \<and> w_pages w' = w_pages w \<and> w_tenants w' = w_tenants w
      \<and> keeps (page_buffers w B) w w'"
    unfolding fill_ok_def fill_with_as_len [OF inv assms] by blast
qed

subsection \<open>Sealing, cloning and dropping a page\<close>

text \<open>\<open>seal\<close> moves the buffer and the charge from the builder to the new page; the page shows what
  the builder showed.\<close>

lemma page_builder_seal_inv:
  assumes inv: "page_inv h0 base pp k w (add_mset b B)"
  shows "\<exists>w'. page_builder_seal b w = Some (Inr (length (w_pages w)), w') \<and> page_inv h0 base pp k w' B
    \<and> w_tenants w' = w_tenants w \<and> w_heap w' = w_heap w \<and> w_shared w' = w_shared w
    \<and> w_pages w' = w_pages w @ [(\<lparr>pi_buf = pb_buf b, pi_capacity = sh_page_size (w_shared w),
          pi_len = pb_len b, pi_tenant = pb_tenant b\<rparr>, 1)]
    \<and> page_as_slice (length (w_pages w)) w' = page_builder_as_slice b w"
proof -
  from inv obtain buf where b: "pb_buf b = Some buf" "pb_len b \<le> sh_page_size (w_shared w)"
    "get_shared w = Some (w_shared w)"
    by (elim page_inv_builder)
  let ?i = "\<lparr>pi_buf = Some buf, pi_capacity = sh_page_size (w_shared w), pi_len = pb_len b,
      pi_tenant = pb_tenant b\<rparr>"
  let ?w = "w\<lparr>w_pages := w_pages w @ [(?i, 1)]\<rparr>"
  have st: "0 < w_strong w" using b(3) by (simp add: get_shared_def split: if_splits)
  have "drop_shared ((clone_shared w)\<lparr>w_pages := ps\<rparr>) = Some (w\<lparr>w_pages := ps\<rparr>)" for ps
    using st by (simp add: drop_shared_def get_shared_def clone_shared_def)
  then have seal: "page_builder_seal b w = Some (Inr (length (w_pages w)), ?w)"
    using b by (simp add: page_builder_seal_def page_builder_capacity_def page_builder_drop_def)
  have hold: "inner_hold ?i = builder_hold b" using b(1) by (simp add: inner_hold_def builder_hold_def)
  have holds: "page_holds ?w B = page_holds w (add_mset b B)"
    by (simp add: page_holds_def hold)
  have "pool_life h0 pp k ?w (page_buffers w (add_mset b B))
      = pool_life h0 pp k w (page_buffers w (add_mset b B))"
    by (rule pool_life_cong) simp_all
  then have "page_inv h0 base pp k ?w B"
    using inv b(2) holds by (auto simp: page_inv_def inner_ok_def)
  moreover have "page_as_slice (length (w_pages w)) ?w = page_builder_as_slice b w"
    using b(1) by (simp add: page_as_slice_def page_builder_as_slice_def get_page_def get_cell_def)
  ultimately show ?thesis using seal b(1) by simp
qed

lemma page_clone_inv:
  assumes inv: "page_inv h0 base pp k w B" and p: "get_page p w = Some (i, n)"
  shows "page_clone p w = Some (p, w\<lparr>w_pages := (w_pages w)[p := (i, Suc n)]\<rparr>)
    \<and> page_inv h0 base pp k (w\<lparr>w_pages := (w_pages w)[p := (i, Suc n)]\<rparr>) B"
proof -
  from p have q: "p < length (w_pages w)" "w_pages w ! p = (i, n)" "n \<noteq> 0" by (simp_all add: get_page_Some)
  from live_cells_split [OF q] obtain L where "live_cells (w_pages w) = add_mset i L"
    "live_cells ((w_pages w)[p := (i, Suc n)]) = add_mset i L" by (metis nat.distinct(1))
  then have same: "live_cells ((w_pages w)[p := (i, Suc n)]) = live_cells (w_pages w)" by simp
  then have "page_holds (w\<lparr>w_pages := (w_pages w)[p := (i, Suc n)]\<rparr>) B = page_holds w B"
    by (simp add: page_holds_def)
  moreover have "pool_life h0 pp k (w\<lparr>w_pages := (w_pages w)[p := (i, Suc n)]\<rparr>) U = pool_life h0 pp k w U" for U
    by (rule pool_life_cong) simp_all
  ultimately show ?thesis using inv p same by (simp add: page_inv_def page_clone_def)
qed

text \<open>Dropping a handle: the last one gives the buffer back and releases the charge.\<close>

lemma page_drop_inv:
  assumes inv: "page_inv h0 base pp k w B" and p: "get_page p w = Some (i, n)"
  shows "\<exists>w'. page_drop p w = Some w' \<and> page_inv h0 base pp k w' B
    \<and> w_pages w' = (w_pages w)[p := (i, n - 1)] \<and> keeps (page_buffers w' B) w w'
    \<and> w_tenants w' = (if n = 1 then (w_tenants w)(pi_tenant i :=
        record_release (pi_capacity i) (w_tenants w (pi_tenant i))) else w_tenants w)"
proof -
  from p have q: "p < length (w_pages w)" "w_pages w ! p = (i, n)" "n \<noteq> 0" by (simp_all add: get_page_Some)
  from live_cells_split [OF q] obtain L where L: "live_cells (w_pages w) = add_mset i L"
    "\<And>m. live_cells ((w_pages w)[p := (i, m)]) = (if m = 0 then L else add_mset i L)" by metis
  let ?w = "w\<lparr>w_pages := (w_pages w)[p := (i, n - 1)]\<rparr>"
  have life: "pool_life h0 pp k ?w U = pool_life h0 pp k w U" for U
    by (rule pool_life_cong) simp_all
  show ?thesis
  proof (cases "n = 1")
    case False
    with q(3) have same: "live_cells (w_pages ?w) = live_cells (w_pages w)" by (simp add: L)
    then have "page_holds ?w B = page_holds w B" by (simp add: page_holds_def)
    with inv p q False same life show ?thesis by (simp add: page_inv_def page_drop_def keeps_def)
  next
    case True
    have ok: "inner_ok (sh_page_size (w_shared w)) i" using inv L(1) by (simp add: page_inv_def)
    then obtain buf where buf: "pi_buf i = Some buf" "pi_capacity i = sh_page_size (w_shared w)"
      by (auto simp: inner_ok_def)
    then have hold: "inner_hold i = (buf, pi_tenant i)" by (simp add: inner_hold_def)
    have holds: "page_holds w B = add_mset (inner_hold i) (page_holds ?w B)"
      using L True by (simp add: page_holds_def)
    let ?u = "upd_tenant (pi_tenant i) (record_release (pi_capacity i)) ?w"
    have "pool_life h0 pp k ?u (add_mset buf (page_buffers ?w B))"
      using inv life holds hold by (simp add: page_inv_def)
    from pool_life_give [OF this] obtain w' where
      w': "give_back buf ?u = Some w'" "pool_frame ?u w'" "pool_life h0 pp k w' (page_buffers ?w B)"
      and h': "\<forall>y. y \<in># page_buffers ?w B \<longrightarrow> w_heap w' y = w_heap w y" by auto
    have pages: "w_pages w' = w_pages ?w" using pool_frame_pages [OF w'(2)] by simp
    have "page_drop p w = Some w'"
      using p True buf(1) w'(1) by (simp add: page_drop_def page_inner_drop_def give_back_def)
    moreover have "page_inv h0 base pp k w' B"
    proof -
      have "live_cells (w_pages w') = L" using pages True by (simp add: L(2))
      then show ?thesis
        using inv w' holds hold buf(2) L(1)
          charged_release [of base "sh_page_size (w_shared w)" "w_tenants w" buf "pi_tenant i"]
        by (auto simp: page_inv_def holds_cong [OF pages] pool_frame_def)
    qed
    ultimately show ?thesis
      using pages w'(2) h' True by (simp add: keeps_def pool_frame_def holds_cong [OF pages])
  qed
qed

subsection \<open>The owner's operations\<close>

lemma page_inv_pool_step:
  assumes "page_inv h0 base pp k w B" and "pool_frame w w'"
    and "pool_life h0 pp' k' w' (page_buffers w B)"
  shows "page_inv h0 base pp' k' w' B"
  using assms pool_frame_pages [OF assms(2)]
  by (simp add: page_inv_def holds_cong [of w' w] pool_frame_def)

lemma page_prewarm_inv:
  assumes inv: "page_inv h0 base (Some pp) k w B"
  shows "\<exists>r pp' w'. prewarm n pp w = Some (r, pp', w') \<and> page_inv h0 base (Some pp') k w' B
    \<and> w_pages w' = w_pages w \<and> keeps (page_buffers w B) w w'"
proof -
  from pool_life_prewarm [OF page_inv_life [OF inv], of n] obtain r pp' w' where
    p: "prewarm n pp w = Some (r, pp', w')" "pool_frame w w'" "pool_life h0 (Some pp') k w' (page_buffers w B)"
      "\<forall>y. y \<in># page_buffers w B \<longrightarrow> w_heap w' y = w_heap w y" by blast
  from page_inv_pool_step [OF inv p(2,3)] p pool_frame_pages [OF p(2)] show ?thesis
    by (auto simp: keeps_def pool_frame_def)
qed

lemma page_pool_drop_inv:
  assumes inv: "page_inv h0 base (Some pp) k w B"
  shows "\<exists>w'. page_pool_drop pp w = Some w' \<and> page_inv h0 base None k w' B
    \<and> w_pages w' = w_pages w \<and> keeps (page_buffers w B) w w'"
proof -
  from pool_life_drop [OF page_inv_life [OF inv]] obtain w' where
    p: "page_pool_drop pp w = Some w'" "pool_frame w w'" "pool_life h0 None k w' (page_buffers w B)"
      "\<forall>y. y \<in># page_buffers w B \<longrightarrow> w_heap w' y = w_heap w y" by blast
  from page_inv_pool_step [OF inv p(2,3)] p pool_frame_pages [OF p(2)] show ?thesis
    by (auto simp: keeps_def pool_frame_def)
qed

lemma page_scrape_inv:
  assumes inv: "page_inv h0 base (Some pp) k w B"
  shows "page_inv h0 base (Some pp) (Suc k) (clone_shared w) B"
proof (rule page_inv_pool_step [OF inv])
  show "pool_frame w (clone_shared w)" by (simp add: pool_frame_def)
  show "pool_life h0 (Some pp) (Suc k) (clone_shared w) (page_buffers w B)"
    using page_inv_life [OF inv] by (rule pool_life_scrape)
qed

lemma page_unscrape_inv:
  assumes inv: "page_inv h0 base pp (Suc k) w B"
  shows "\<exists>w'. drop_shared w = Some w' \<and> page_inv h0 base pp k w' B
    \<and> w_pages w' = w_pages w \<and> keeps (page_buffers w B) w w'"
proof -
  from pool_life_unscrape [OF page_inv_life [OF inv]] obtain w' where
    p: "drop_shared w = Some w'" "pool_frame w w'" "pool_life h0 pp k w' (page_buffers w B)"
      "\<forall>y. y \<in># page_buffers w B \<longrightarrow> w_heap w' y = w_heap w y" by blast
  from page_inv_pool_step [OF inv p(2,3)] p pool_frame_pages [OF p(2)] show ?thesis
    by (auto simp: keeps_def pool_frame_def)
qed

subsection \<open>Allocate, fill, seal\<close>

lemma fill_ok_from: "fill_ok (page_fill_from data)"
  unfolding fill_ok_def
proof (intro allI impI)
  fix h0 base pp k w b B assume inv: "page_inv h0 base pp k w (add_mset b B)"
  show "\<exists>r b' w'. page_fill_from data b w = Some (r, b', w') \<and> page_inv h0 base pp k w' (add_mset b' B)
      \<and> pb_tenant b' = pb_tenant b \<and> w_pages w' = w_pages w \<and> w_tenants w' = w_tenants w
      \<and> keeps (page_buffers w B) w w'"
  proof (cases "length data \<le> unat (sh_page_size (w_shared w))")
    case True
    from page_fill_from_result [OF inv True] show ?thesis by blast
  next
    case False
    then have "data \<noteq> []" by auto
    moreover from inv obtain buf where "page_builder_as_mut_slice b w
        = Some (Inr \<lparr>sl_base = buf, sl_off = 0, sl_len = unat (sh_page_size (w_shared w))\<rparr>)"
      by (elim page_as_mut_slice_eq)
    ultimately show ?thesis using False inv by (simp add: page_fill_from_def slice_range_def keeps_def)
  qed
qed

lemma keeps_trans: "keeps X w1 w2 \<Longrightarrow> keeps X w2 w3 \<Longrightarrow> keeps X w1 w3"
  by (simp add: keeps_def)

text \<open>Whatever the filling step does, the helper ends in one of two ways: the new page is in the
  table, or the panic has been passed on with the new buffer back in the pool. No other buffer has
  been touched. \<open>new_page\<close> gives more when the filling step is known to succeed.\<close>

lemma page_alloc_fill_inv:
  assumes inv: "page_inv h0 base (Some pp) k w B" and fill: "fill_ok fill"
  shows "\<exists>r pp' w'. page_alloc_fill fill t pp w = Some (r, pp', w') \<and> page_inv h0 base (Some pp') k w' B
    \<and> keeps (page_buffers w B) w w'
    \<and> (case r of
         Inl e \<Rightarrow> w_pages w' = w_pages w
       | Inr p \<Rightarrow> p = length (w_pages w) \<and> (\<exists>i. w_pages w' = w_pages w @ [(i, 1)]))"
proof -
  from inv show ?thesis
  proof (cases rule: page_allocate_cases [where t = t])
    case (failed e pp' w1)
    then show ?thesis by (simp add: page_alloc_fill_def)
  next
    case (built b pp' w1)
    note al = built(1,3,4) and inv1 = built(2)
    have buf1: "page_buffers w1 B = page_buffers w B" by (simp add: holds_cong [OF al(2)])
    from fill inv1 obtain r2 b2 w2 where
      f: "fill b w1 = Some (r2, b2, w2)" "page_inv h0 base (Some pp') k w2 (add_mset b2 B)"
        "w_pages w2 = w_pages w" "keeps (page_buffers w B) w1 w2"
      unfolding fill_ok_def by (metis al(2) buf1)
    have buf2: "page_buffers w2 B = page_buffers w B" by (simp add: holds_cong [OF f(3)])
    note upto = keeps_trans [OF al(3) f(4)]
    show ?thesis
    proof (cases r2)
      case (Inl e)
      from page_builder_drop_inv [OF f(2)] obtain w3 where "page_builder_drop b2 w2 = Some w3"
        "page_inv h0 base (Some pp') k w3 B" "w_pages w3 = w_pages w" "keeps (page_buffers w B) w2 w3"
        by (auto simp: buf2 f(3))
      with al f Inl show ?thesis by (auto simp: page_alloc_fill_def intro: keeps_trans [OF upto])
    next
      case r2: (Inr u)
      from page_builder_seal_inv [OF f(2)] obtain w3 i where
        "page_builder_seal b2 w2 = Some (Inr (length (w_pages w)), w3)" "page_inv h0 base (Some pp') k w3 B"
        "w_heap w3 = w_heap w2" "w_shared w3 = w_shared w2" "w_pages w3 = w_pages w @ [(i, 1)]"
        by (auto simp: f(3))
      with al f r2 upto show ?thesis by (auto simp: page_alloc_fill_def keeps_def)
    qed
  qed
qed

text \<open>The counters when every holder is known.\<close>

lemma page_inv_pages_in_use:
  "page_inv h0 base (Some pp) k w B \<Longrightarrow>
   ps_pages_in_use (sh_stats (w_shared w)) = of_nat (size (page_holds w B))"
  by (auto simp: page_inv_def pool_life_some pool_owned_def pool_inv_def)

text \<open>The same holds after the drop of the pool, as long as anyone has a reference to the shared part.\<close>

lemma page_inv_readable:
  assumes "page_inv h0 base pp k w B" and "pp \<noteq> None \<or> page_holds w B \<noteq> {#} \<or> k \<noteq> 0"
  shows "get_shared w = Some (w_shared w) \<and> ps_pages_in_use (sh_stats (w_shared w)) = of_nat (size (page_holds w B))"
proof -
  from assms obtain a where own: "pool_owned h0 pp k w a (page_buffers w B)" by (auto simp: page_inv_def pool_life_def)
  from pool_owned_shared [OF own] pool_owned_inv [OF own] show ?thesis by (simp add: pool_inv_def)
qed

lemma page_inv_in_use:
  assumes "page_inv h0 base pp k w B" and "page_inv h0 base pp' k' w' B" and "w_pages w' = w_pages w"
    and "sh_page_size (w_shared w') = sh_page_size (w_shared w)"
  shows "t_bytes_in_use (w_tenants w' t) = t_bytes_in_use (w_tenants w t)"
    and "t_pages_in_use (w_tenants w' t) = t_pages_in_use (w_tenants w t)"
  using assms by (simp_all add: page_inv_def charged_def holds_cong [OF assms(3)])

lemma page_inv_new:
  assumes "page_source_contract src" and "with_source src w = (Inr pp, w')"
    and "live_cells (w_pages w) = {#}"
  shows "page_inv (w_heap w) (w_tenants w) (Some pp) 0 w' {#}"
proof -
  have "w_pages w' = w_pages w" using assms(2)
    by (auto simp: with_source_def Let_def split: if_splits)
  moreover have "w_tenants w' = w_tenants w" using with_source_inv(5) [OF assms(1,2)] .
  ultimately show ?thesis
    using pool_life_new [OF assms(1,2)] assms(3) by (simp add: page_inv_def page_holds_def charged_def)
qed

text \<open>The filled page.\<close>

lemma page_alloc_fill_sealed:
  assumes "page_allocate t pp w = Some (Inr b, pp', w1)" and "w_pages w1 = w_pages w"
    and "fill b w1 = Some (Inr (), b2, w2)" and "w_pages w2 = w_pages w1"
    and inv: "page_inv h0 base (Some pp') k w2 (add_mset b2 B)"
  shows "\<exists>w'. page_alloc_fill fill t pp w = Some (Inr (length (w_pages w)), pp', w')
    \<and> page_inv h0 base (Some pp') k w' B \<and> w_heap w' = w_heap w2 \<and> w_shared w' = w_shared w2
    \<and> w_tenants w' = w_tenants w2
    \<and> page_as_slice (length (w_pages w)) w' = page_builder_as_slice b2 w2
    \<and> page_len (length (w_pages w)) w' = Some (pb_len b2)
    \<and> page_capacity (length (w_pages w)) w' = Some (sh_page_size (w_shared w2))
    \<and> page_ref_count (length (w_pages w)) w' = Some 1"
proof -
  have len: "length (w_pages w2) = length (w_pages w)" by (simp add: assms(2,4))
  from page_builder_seal_inv [OF inv] obtain w' where
    seal: "page_builder_seal b2 w2 = Some (Inr (length (w_pages w)), w')"
      "page_inv h0 base (Some pp') k w' B" "w_tenants w' = w_tenants w2" "w_heap w' = w_heap w2"
      "w_shared w' = w_shared w2"
      "page_as_slice (length (w_pages w)) w' = page_builder_as_slice b2 w2"
    and pages: "w_pages w' = w_pages w2 @ [(\<lparr>pi_buf = pb_buf b2, pi_capacity = sh_page_size (w_shared w2),
          pi_len = pb_len b2, pi_tenant = pb_tenant b2\<rparr>, 1)]"
    unfolding len by blast
  have "get_page (length (w_pages w)) w' = Some (\<lparr>pi_buf = pb_buf b2,
      pi_capacity = sh_page_size (w_shared w2), pi_len = pb_len b2, pi_tenant = pb_tenant b2\<rparr>, 1)"
    unfolding get_page_def get_cell_def pages by (simp add: nth_append len)
  with seal show ?thesis
    by (intro exI [of _ w']) (simp add: page_alloc_fill_def assms(1,3) page_len_def page_capacity_def
        page_ref_count_def)
qed

subsection \<open>PageBuilder as a byte builder\<close>

definition page_contents :: "page_builder \<Rightarrow> 'z pool_world_scheme \<Rightarrow> u8 list option" where
  "page_contents b w = (case page_builder_as_slice b w of Some (Inr xs) \<Rightarrow> Some xs | _ \<Rightarrow> None)"

lemma page_contents_live:
  assumes "page_inv h0 base pp k w (add_mset b B)"
  obtains xs where "page_builder_as_slice b w = Some (Inr xs)" and "page_contents b w = Some xs"
    and "length xs = unat (pb_len b)" and "unat (pb_len b) \<le> unat (sh_page_size (w_shared w))"
proof -
  from assms obtain buf bs where b: "pb_buf b = Some buf" "w_heap w buf = Some bs"
    "length bs = unat (sh_page_size (w_shared w))" and le: "pb_len b \<le> sh_page_size (w_shared w)"
    by (elim page_inv_builder)
  from le have le': "unat (pb_len b) \<le> unat (sh_page_size (w_shared w))" by (simp add: word_le_nat_alt)
  show thesis
  proof (rule that)
    show sl: "page_builder_as_slice b w = Some (Inr (take (unat (pb_len b)) bs))"
      using b le' by (simp add: page_builder_as_slice_def mem_read_def)
    show "page_contents b w = Some (take (unat (pb_len b)) bs)" by (simp add: page_contents_def sl)
  qed (use b le' in simp_all)
qed

lemma keeps_size: "keeps X w w' \<Longrightarrow> sh_page_size (w_shared w') = sh_page_size (w_shared w)"
  by (simp add: keeps_def)

interpretation pages: byte_builder
  "\<lambda>b w. page_inv h0 base pp k w (add_mset b B)"
  "\<lambda>b w. unat (sh_page_size (w_shared w))" page_contents page_builder_append
  for h0 base pp k B
proof
  fix b and w :: page_world assume live: "page_inv h0 base pp k w (add_mset b B)"
  then show "\<exists>xs. page_contents b w = Some xs \<and> length xs \<le> unat (sh_page_size (w_shared w))"
    by (elim page_contents_live) auto
  fix xs d :: "u8 list" assume xs: "page_contents b w = Some xs"
  from live xs have sl: "page_builder_as_slice b w = Some (Inr xs)" and len: "length xs = unat (pb_len b)"
    by (elim page_contents_live; simp)+
  {
    assume fits: "length xs + length d \<le> unat (sh_page_size (w_shared w))"
    have "unat (sh_page_size (w_shared w)) \<le> isize_max" using live by (elim page_inv_builder)
    with fits have "length d \<le> isize_max" by simp
    from page_builder_append_inv [OF live this sl] fits len
    show "\<exists>b' w'. page_builder_append d b w = Some (Inr (Inr ()), b', w')
        \<and> page_inv h0 base pp k w' (add_mset b' B)
        \<and> unat (sh_page_size (w_shared w')) = unat (sh_page_size (w_shared w))
        \<and> page_contents b' w' = Some (xs @ d)"
      by (fastforce simp: page_contents_def dest: keeps_size)
  }
  {
    assume "length d \<le> isize_max" and "unat (sh_page_size (w_shared w)) < length xs + length d"
    with page_builder_append_inv [OF live _ sl, of d] len
    show "\<exists>e. page_builder_append d b w = Some (Inr (Inl e), b, w)" by auto
  }
qed

end
