(* ===== verification/Page_Handles.thy ===== *)
theory Page_Handles
  imports Pages
begin

text \<open>
  The properties of the operations of \<open>src/page.rs\<close> and of the allocation helpers of \<open>src/pool.rs\<close>,
  one call at a time, in any state that satisfies \<open>page_inv\<close>.
\<close>

section \<open>A concrete pool\<close>

text \<open>A pool of 16-byte pages in an empty memory, and a tenant.\<close>

definition page_start :: page_world where
  "page_start = \<lparr>w_heap = Map.empty, w_tenants = (\<lambda>_. tenant_stats_default),
     w_shared = w_shared empty_world, w_strong = 0, w_pages = []\<rparr>"

definition page_demo :: page_world where
  "page_demo = snd (page_pool_new first_fit_alloc 16 page_start)"

definition demo_tenant :: tenant where
  "demo_tenant = \<lparr>tenant_id = TenantId ''t'', tenant_cell = 0\<rparr>"

text \<open>A closure that panics after a write.\<close>

definition demo_panic :: "usize init" where
  "demo_panic bs = (if bs = [] then [] else 1 # tl bs, None)"

lemma page_demo_eq: "page_pool_new first_fit_alloc 16 page_start = (Inr demo_pool, page_demo)"
  by (simp add: page_demo_def demo_pool_def page_pool_new_def heap_source_new_eq isize_max_def
      with_source_def heap_vtable_def ptr_size_def)

lemma page_demo_inv: "page_inv Map.empty (\<lambda>_. tenant_stats_default) (Some demo_pool) 0 page_demo {#}"
proof -
  let ?s = "\<lparr>hs_page_size = 16, hs_layout = \<lparr>l_size = 16, l_align = 8\<rparr>\<rparr>"
  have "with_source (heap_vtable first_fit_alloc ?s) page_start = (Inr demo_pool, page_demo)"
    using page_demo_eq by (simp add: page_pool_new_def heap_source_new_eq isize_max_def)
  from page_inv_new [OF heap_src.page_source_contract_axioms this] show ?thesis
    by (simp add: page_start_def live_cells_def)
qed

lemma page_demo_size: "sh_page_size (w_shared page_demo) = 16"
  by (simp add: page_demo_def page_pool_new_def heap_source_new_eq isize_max_def with_source_def
      heap_vtable_def ptr_size_def)

lemma page_demo_pages: "w_pages page_demo = []"
  by (simp add: page_demo_def page_pool_new_def heap_source_new_eq isize_max_def with_source_def
      heap_vtable_def ptr_size_def page_start_def)

lemma page_demo_raw: "\<exists>w'. allocate_raw_page demo_pool page_demo = Some (Inr 4096, demo_pool, w')"
  by (simp add: allocate_raw_page_def pop_local_def drain_return_queue_def allocate_fresh_def
      get_shared_def demo_pool_def page_demo_def page_pool_new_def heap_source_new_eq isize_max_def
      with_source_def heap_vtable_def ptr_size_def heap_allocate_def alloc_zeroed_def placeable_def
      first_fit_alloc_def page_start_def first_fit_empty aligned_to_def Let_def)

text \<open>The first builder of the concrete pool.\<close>

lemma page_demo_builder:
  obtains w :: page_world and b where "page_allocate demo_tenant demo_pool page_demo = Some (Inr b, demo_pool, w)"
    and "page_inv Map.empty (\<lambda>_. tenant_stats_default) (Some demo_pool) 0 w {#b#}"
    and "pb_len b = 0" and "sh_page_size (w_shared w) = 16" and "w_pages w = []"
    and "page_builder_as_slice b w = Some (Inr [])"
proof -
  from page_demo_raw obtain w' where raw: "allocate_raw_page demo_pool page_demo = Some (Inr 4096, demo_pool, w')"
    by blast
  from page_demo_inv show thesis
  proof (cases rule: page_allocate_cases [where t = demo_tenant])
    case (failed e pp' w1)
    with raw show ?thesis by (auto simp: page_allocate_def bind_eq_Some_conv)
  next
    case (built b pp' w1)
    have pp: "pp' = demo_pool" using built(1) raw by (auto simp: page_allocate_def bind_eq_Some_conv)
    from page_contents_live [OF built(2)] built(5) have "page_builder_as_slice b w1 = Some (Inr [])" by auto
    with built show ?thesis by (intro that) (auto simp: pp page_demo_size page_demo_pages keeps_def)
  qed
qed

section \<open>Properties\<close>

text \<open>\<open>PageBuilder::append\<close>. When the bytes fit, they are added to the end of the contents and no
  byte of any other handle's page changes; when they do not, the call reports the capacity, the
  length and the number of bytes attempted, and changes nothing.\<close>

theorem page_append_exact:
  assumes "page_inv h0 base pp k w (add_mset b B)" and "length data \<le> isize_max"
    and "page_builder_as_slice b w = Some (Inr xs)"
  shows "if unat (pb_len b) + length data \<le> unat (sh_page_size (w_shared w))
    then \<exists>b' w'. page_builder_append data b w = Some (Inr (Inr ()), b', w')
      \<and> page_inv h0 base pp k w' (add_mset b' B)
      \<and> page_builder_as_slice b' w' = Some (Inr (xs @ data))
      \<and> keeps (page_buffers w B) w w'
    else page_builder_append data b w = Some (Inr (Inl \<lparr>pf_capacity = sh_page_size (w_shared w),
      pf_len = pb_len b, pf_attempted = of_nat (length data)\<rparr>), b, w)"
  using page_builder_append_inv [OF assms] by (auto split: if_splits)

text \<open>A record written to a page piece by piece: the pieces that fit are stored in order, without
  a gap, and writing stops at the first one that does not fit, which is left out as a whole.\<close>

theorem page_append_pieces:
  assumes "page_inv h0 base pp k w (add_mset b B)" and "page_contents b w = Some xs"
    and "\<forall>d \<in> set ds. length d \<le> isize_max"
  shows "\<exists>b' w'. append_all page_builder_append ds b w
      = Some (drop (length (fitting (unat (sh_page_size (w_shared w)) - length xs) ds)) ds, b', w')
    \<and> page_inv h0 base pp k w' (add_mset b' B)
    \<and> page_contents b' w' = Some (xs @ concat (fitting (unat (sh_page_size (w_shared w)) - length xs) ds))"
  using pages.append_all_fitting [OF assms] by blast

text \<open>\<open>PageBuilder::set_len\<close> panics exactly when the length exceeds the page, and then leaves the
  builder as it was.\<close>

theorem page_set_len_exact:
  assumes "page_inv h0 base pp k w (add_mset b B)"
  shows "page_builder_set_len len b w = Some (if unat len \<le> unat (sh_page_size (w_shared w))
      then (Inr (), b\<lparr>pb_len := len\<rparr>) else (Inl AssertFailed, b))"
  using page_builder_set_len_inv [OF assms, of len] by (auto simp: word_le_nat_alt)

lemma page_alloc_from_result:
  assumes inv: "page_inv h0 base (Some pp) k w B" and data: "length data \<le> isize_max"
  shows "if unat (sh_page_size (w_shared w)) < length data
    then page_alloc_from t data pp w = Some (Inl AssertFailed, pp, w)
    else \<exists>r pp' w'. page_alloc_from t data pp w = Some (r, pp', w') \<and> page_inv h0 base (Some pp') k w' B
      \<and> keeps (page_buffers w B) w w'
      \<and> (case r of
           Inl e \<Rightarrow> page_allocate t pp w = Some (Inl e, pp', w') \<and> w_pages w' = w_pages w
             \<and> w_tenants w' = w_tenants w
         | Inr p \<Rightarrow> p = length (w_pages w) \<and> page_as_slice p w' = Some (Inr data)
             \<and> page_capacity p w' = Some (sh_page_size (w_shared w)) \<and> page_ref_count p w' = Some 1)"
proof -
  have gs: "get_shared w = Some (w_shared w)" using inv by (rule page_inv_shared)
  have le: "of_nat (length data) \<le> sh_page_size (w_shared w)
      \<longleftrightarrow> length data \<le> unat (sh_page_size (w_shared w))"
    using unat_of_nat_slice [OF data] by (simp add: word_le_nat_alt)
  show ?thesis
  proof (cases "length data \<le> unat (sh_page_size (w_shared w))")
    case False
    then show ?thesis using gs le by (simp add: page_alloc_from_def)
  next
    case True
    then have eq: "page_alloc_from t data pp w = page_alloc_fill (page_fill_from data) t pp w"
      using gs le by (simp add: page_alloc_from_def)
    from inv show ?thesis
    proof (cases rule: page_allocate_cases [where t = t])
      case (failed e pp' w1)
      with True eq show ?thesis by (simp add: page_alloc_fill_def)
    next
      case (built b pp' w1)
      note size1 = keeps_size [OF built(4)] and buf1 = holds_cong [OF built(3)]
      from page_fill_from_result [OF built(2), of data] True size1 built(3,5) obtain b2 w2 where
        f: "page_fill_from data b w1 = Some (Inr (), b2, w2)"
          "page_inv h0 base (Some pp') k w2 (add_mset b2 B)" "w_pages w2 = w_pages w1"
          "keeps (page_buffers w B) w1 w2" "page_builder_as_slice b2 w2 = Some (Inr data)"
        by (auto simp: buf1)
      from page_alloc_fill_sealed [where fill = "page_fill_from data", OF built(1,3) f(1,3,2)] obtain w' where
        w': "page_alloc_from t data pp w = Some (Inr (length (w_pages w)), pp', w')"
          "page_inv h0 base (Some pp') k w' B" "w_heap w' = w_heap w2" "w_shared w' = w_shared w2"
          "page_as_slice (length (w_pages w)) w' = Some (Inr data)"
          "page_capacity (length (w_pages w)) w' = Some (sh_page_size (w_shared w2))"
          "page_ref_count (length (w_pages w)) w' = Some 1"
        unfolding eq f(5) by blast
      have kw2: "keeps (page_buffers w B) w w2" by (rule keeps_trans [OF built(4) f(4)])
      then have kw: "keeps (page_buffers w B) w w'" using w'(3,4) by (simp add: keeps_def)
      have "page_capacity (length (w_pages w)) w' = Some (sh_page_size (w_shared w))"
        using w'(6) keeps_size [OF kw2] by simp
      with True w' kw show ?thesis by simp
    qed
  qed
qed

lemma page_demo_page:
  "\<exists>pp' w'. page_alloc_from demo_tenant [1, 2, 3] demo_pool page_demo = Some (Inr 0, pp', w')"
proof -
  obtain w b where b: "page_allocate demo_tenant demo_pool page_demo = Some (Inr b, demo_pool, w)"
    "page_inv Map.empty (\<lambda>_. tenant_stats_default) (Some demo_pool) 0 w {#b#}"
    "sh_page_size (w_shared w) = 16" by (rule page_demo_builder)
  from page_fill_from_result [OF b(2), of "[1, 2, 3]"] b(3) obtain b2 w2 where
    f: "page_fill_from [1, 2, 3] b w = Some (Inr (), b2, w2)"
      "page_inv Map.empty (\<lambda>_. tenant_stats_default) (Some demo_pool) 0 w2 {#b2#}" by auto
  from page_builder_seal_inv [OF f(2)] obtain p w3 where "page_builder_seal b2 w2 = Some (Inr p, w3)" by auto
  with b f have "\<exists>p pp' w'. page_alloc_from demo_tenant [1, 2, 3] demo_pool page_demo = Some (Inr p, pp', w')"
    using page_inv_shared [OF page_demo_inv]
    by (simp add: page_alloc_from_def page_alloc_fill_def page_demo_size)
  with page_alloc_from_result [OF page_demo_inv, of "[1, 2, 3]" demo_tenant] show ?thesis
    by (auto simp: isize_max_def page_demo_size page_demo_pages)
qed

text \<open>C32: \<open>PagePool::alloc_from\<close> is a round trip: data longer than a page is refused before anything is
  allocated; otherwise, unless the source fails, the call returns a new page with one handle that
  shows exactly the bytes given, and no byte of any other page or builder changes.\<close>

theorem page_alloc_from_round_trip:
  assumes inv: "page_inv h0 base (Some pp) k w B" and data: "length data \<le> isize_max"
  shows "if unat (sh_page_size (w_shared w)) < length data
    then page_alloc_from t data pp w = Some (Inl AssertFailed, pp, w)
    else \<exists>r pp' w'. page_alloc_from t data pp w = Some (r, pp', w') \<and> page_inv h0 base (Some pp') k w' B
      \<and> keeps (page_buffers w B) w w'
      \<and> (case r of
           Inl e \<Rightarrow> page_allocate t pp w = Some (Inl e, pp', w') \<and> w_pages w' = w_pages w
             \<and> w_tenants w' = w_tenants w
         | Inr p \<Rightarrow> p = length (w_pages w) \<and> page_as_slice p w' = Some (Inr data)
             \<and> page_capacity p w' = Some (sh_page_size (w_shared w)) \<and> page_ref_count p w' = Some 1)"
  using assms by (rule page_alloc_from_result)

theorem page_alloc_from_round_trip_witness:
  "\<exists>pp' w'. page_alloc_from demo_tenant [1, 2, 3] demo_pool page_demo = Some (Inr 0, pp', w')
     \<and> page_as_slice 0 w' = Some (Inr [1, 2, 3])"
  using page_alloc_from_round_trip [OF page_demo_inv, of "[1, 2, 3]" demo_tenant] page_demo_page
  by (auto simp: isize_max_def page_demo_size)

lemma page_alloc_with_len_result:
  assumes inv: "page_inv h0 base (Some pp) k w B" and f: "keeps_length f"
    and a: "page_alloc_with_len t f pp w = Some (r, pp', w')"
  shows "case r of
      Inr p \<Rightarrow> (\<exists>bs len. length bs = unat (sh_page_size (w_shared w)) \<and> snd (f bs) = Some len
        \<and> unat len \<le> length bs \<and> page_as_slice p w' = Some (Inr (take (unat len) (fst (f bs)))))
    | Inl e \<Rightarrow> page_allocate t pp w = Some (Inl e, pp', w')
        \<or> (\<exists>bs. length bs = unat (sh_page_size (w_shared w))
             \<and> (case snd (f bs) of None \<Rightarrow> e = CallbackPanicked
                 | Some len \<Rightarrow> unat (sh_page_size (w_shared w)) < unat len \<and> e = AssertFailed))"
  using inv
proof (cases rule: page_allocate_cases [where t = t])
  case (failed e pp1 w1)
  with a show ?thesis by (auto simp: page_alloc_with_len_def page_alloc_fill_def)
next
  case (built b pp1 w1)
  from page_fill_with_len_result [OF built(2) f] obtain bs r2 b2 w2 where
    lbs: "length bs = unat (sh_page_size (w_shared w))"
    and fill: "page_fill_with_len f b w1 = Some (r2, b2, w2)"
    and inv2: "page_inv h0 base (Some pp1) k w2 (add_mset b2 B)" and p2: "w_pages w2 = w_pages w1"
    and ok: "case snd (f bs) of None \<Rightarrow> r2 = Inl CallbackPanicked
       | Some len \<Rightarrow> if unat len \<le> length bs
           then r2 = Inr () \<and> page_builder_as_slice b2 w2 = Some (Inr (take (unat len) (fst (f bs))))
           else r2 = Inl AssertFailed"
    using keeps_size [OF built(4)] by auto
  show ?thesis
  proof (cases r2)
    case (Inl e2)
    with a built(1) fill have "r = Inl e2" by (auto simp: page_alloc_with_len_def page_alloc_fill_def bind_eq_Some_conv)
    with Inl ok lbs show ?thesis
      by (auto intro!: exI [of _ bs] split: option.splits if_splits)
  next
    case (Inr u)
    from page_alloc_fill_sealed [where fill = "page_fill_with_len f", OF built(1,3) _ p2 inv2] fill Inr a
    have "r = Inr (length (w_pages w))" "page_as_slice (length (w_pages w)) w' = page_builder_as_slice b2 w2"
      by (auto simp: page_alloc_with_len_def)
    with ok Inr lbs show ?thesis by (auto split: option.splits if_splits)
  qed
qed

text \<open>\<open>PagePool::alloc_with_len\<close> on every branch, with \<open>bs\<close> the bytes the buffer held. A closure
  that panics, or one that returns a length beyond the page, ends in that panic with the buffer back
  in the pool: the same handles are live, and the tenants' bytes and pages in use and the pool's
  pages in use are what they were. Otherwise the new page shows the bytes the closure left, cut to
  the length it returned.\<close>

theorem page_alloc_with_len_outcomes:
  assumes inv: "page_inv h0 base (Some pp) k w B" and f: "keeps_length f"
  shows "\<exists>r pp' w'. page_alloc_with_len t f pp w = Some (r, pp', w') \<and> page_inv h0 base (Some pp') k w' B
    \<and> keeps (page_buffers w B) w w'
    \<and> (case r of
         Inr p \<Rightarrow> (\<exists>bs len. length bs = unat (sh_page_size (w_shared w)) \<and> snd (f bs) = Some len
           \<and> unat len \<le> length bs \<and> p = length (w_pages w)
           \<and> page_as_slice p w' = Some (Inr (take (unat len) (fst (f bs)))))
       | Inl e \<Rightarrow> w_pages w' = w_pages w
           \<and> ps_pages_in_use (sh_stats (w_shared w')) = ps_pages_in_use (sh_stats (w_shared w))
           \<and> (\<forall>u. t_bytes_in_use (w_tenants w' u) = t_bytes_in_use (w_tenants w u)
                 \<and> t_pages_in_use (w_tenants w' u) = t_pages_in_use (w_tenants w u))
           \<and> (page_allocate t pp w = Some (Inl e, pp', w')
              \<or> (\<exists>bs. length bs = unat (sh_page_size (w_shared w))
                   \<and> (case snd (f bs) of None \<Rightarrow> e = CallbackPanicked
                       | Some len \<Rightarrow> unat (sh_page_size (w_shared w)) < unat len \<and> e = AssertFailed))))"
proof -
  from page_alloc_fill_inv [OF inv fill_ok_with_len [OF f], of t] obtain r pp' w' where
    a: "page_alloc_with_len t f pp w = Some (r, pp', w')" "page_inv h0 base (Some pp') k w' B"
      "keeps (page_buffers w B) w w'"
    and pages: "case r of Inl e \<Rightarrow> w_pages w' = w_pages w
       | Inr p \<Rightarrow> p = length (w_pages w) \<and> (\<exists>i. w_pages w' = w_pages w @ [(i, 1)])"
    by (auto simp: page_alloc_with_len_def)
  note page_alloc_with_len_result [OF inv f a(1)]
  moreover have "ps_pages_in_use (sh_stats (w_shared w')) = ps_pages_in_use (sh_stats (w_shared w))"
    if same: "w_pages w' = w_pages w"
    using page_inv_pages_in_use [OF a(2)] page_inv_pages_in_use [OF inv] by (simp add: holds_cong [OF same])
  ultimately show ?thesis
    using a pages page_inv_in_use [OF inv a(2) _ keeps_size [OF a(3)]] by (cases r) auto
qed

text \<open>\<open>PagePool::alloc_with\<close> behaves as \<open>alloc_with_len\<close> with a closure that does the same and
  returns the page size.\<close>

theorem page_alloc_with_is_full_length:
  assumes inv: "page_inv h0 base (Some pp) k w B" and f: "keeps_length f"
  shows "page_alloc_with t f pp w = page_alloc_with_len t
    (\<lambda>bs. (fst (f bs), map_option (\<lambda>_. sh_page_size (w_shared w)) (snd (f bs)))) pp w"
  using inv
proof (cases rule: page_allocate_cases [where t = t])
  case (failed e pp' w1)
  then show ?thesis by (simp add: page_alloc_with_def page_alloc_with_len_def page_alloc_fill_def)
next
  case (built b pp' w1)
  from fill_with_as_len [OF built(2) f] built(1) keeps_size [OF built(4)] show ?thesis
    by (simp add: page_alloc_with_def page_alloc_with_len_def page_alloc_fill_def)
qed

text \<open>\<open>PageBuilder::seal\<close> publishes exactly what was built: the page shows the builder's contents,
  has the capacity of a page and one handle, takes over the builder's buffer and its tenant's charge,
  and neither memory nor any counter changes.\<close>

theorem page_seal_publishes:
  assumes "page_inv h0 base pp k w (add_mset b B)"
  shows "\<exists>p w'. page_builder_seal b w = Some (Inr p, w') \<and> page_inv h0 base pp k w' B
    \<and> page_as_slice p w' = page_builder_as_slice b w \<and> page_len p w' = Some (pb_len b)
    \<and> page_capacity p w' = Some (sh_page_size (w_shared w)) \<and> page_ref_count p w' = Some 1
    \<and> page_holds w' B = page_holds w (add_mset b B)
    \<and> w_heap w' = w_heap w \<and> w_tenants w' = w_tenants w \<and> w_shared w' = w_shared w"
proof -
  from page_builder_seal_inv [OF assms] obtain w' where
    seal: "page_builder_seal b w = Some (Inr (length (w_pages w)), w')" "page_inv h0 base pp k w' B"
      "w_tenants w' = w_tenants w" "w_heap w' = w_heap w" "w_shared w' = w_shared w"
      "page_as_slice (length (w_pages w)) w' = page_builder_as_slice b w"
    and pages: "w_pages w' = w_pages w @ [(\<lparr>pi_buf = pb_buf b, pi_capacity = sh_page_size (w_shared w),
          pi_len = pb_len b, pi_tenant = pb_tenant b\<rparr>, 1)]" by blast
  have "get_page (length (w_pages w)) w' = Some (\<lparr>pi_buf = pb_buf b, pi_capacity = sh_page_size (w_shared w),
          pi_len = pb_len b, pi_tenant = pb_tenant b\<rparr>, 1)"
    unfolding get_page_def get_cell_def pages by simp
  moreover have "page_holds w' B = page_holds w (add_mset b B)"
    unfolding page_holds_def pages by (simp add: inner_hold_def builder_hold_def)
  ultimately show ?thesis using seal
    by (intro exI [of _ "length (w_pages w)"] exI [of _ w'])
      (simp add: page_len_def page_capacity_def page_ref_count_def)
qed

text \<open>Dropping a handle of a page with several handles only lowers the count. Dropping the last one
  makes the page inaccessible, gives its buffer back and takes one page and its capacity off the
  tenant's counters; no byte of a page or builder that is still live changes.\<close>

theorem page_drop_last_gives_back:
  assumes inv: "page_inv h0 base pp k w B" and p: "page_ref_count p w = Some n"
  shows "\<exists>w' buf t. page_drop p w = Some w' \<and> page_inv h0 base pp k w' B
    \<and> keeps (page_buffers w' B) w w'
    \<and> (if n = 1
       then page_ref_count p w' = None \<and> page_holds w B = add_mset (buf, t) (page_holds w' B)
         \<and> t_pages_in_use (w_tenants w' t) = t_pages_in_use (w_tenants w t) - 1
         \<and> t_bytes_in_use (w_tenants w' t) = t_bytes_in_use (w_tenants w t) - sh_page_size (w_shared w)
       else page_ref_count p w' = Some (n - 1) \<and> page_holds w' B = page_holds w B
         \<and> w_tenants w' = w_tenants w)"
proof -
  from p obtain i where i: "get_page p w = Some (i, n)"
    by (auto simp: page_ref_count_def bind_eq_Some_conv)
  then have q: "p < length (w_pages w)" "w_pages w ! p = (i, n)" "n \<noteq> 0" by (simp_all add: get_page_Some)
  from live_cells_split [OF q] obtain L where L: "live_cells (w_pages w) = add_mset i L"
    "\<And>m. live_cells ((w_pages w)[p := (i, m)]) = (if m = 0 then L else add_mset i L)" by metis
  from page_drop_inv [OF inv i] obtain w' where
    w': "page_drop p w = Some w'" "page_inv h0 base pp k w' B" "keeps (page_buffers w' B) w w'"
    and pages: "w_pages w' = (w_pages w)[p := (i, n - 1)]"
    and ten: "w_tenants w' = (if n = 1 then (w_tenants w)(pi_tenant i :=
        record_release (pi_capacity i) (w_tenants w (pi_tenant i))) else w_tenants w)" by blast
  have rc: "page_ref_count p w' = (if n = 1 then None else Some (n - 1))"
    using q by (simp add: page_ref_count_def get_page_def get_cell_def pages)
  have cap: "pi_capacity i = sh_page_size (w_shared w)"
    using inv L(1) by (simp add: page_inv_def inner_ok_def)
  have holds: "page_holds w B = (if n = 1 then add_mset (inner_hold i) (page_holds w' B) else page_holds w' B)"
    using q(3) by (auto simp: page_holds_def pages L)
  show ?thesis
  proof (cases "n = 1")
    case True
    with w' rc holds ten cap show ?thesis
      by (intro exI [of _ w'] exI [of _ "fst (inner_hold i)"] exI [of _ "pi_tenant i"])
        (auto simp: inner_hold_def record_release_def fetch_sub_def Let_def)
  next
    case False
    with w' rc holds ten show ?thesis by auto
  qed
qed

end
