(* ===== verification/Client_Runs.thy ===== *)
theory Client_Runs
  imports Main
begin

text \<open>
  Programs that use a component as a client: a sequence of calls, each allowed by what the client
  holds at that moment. \<open>exec\<close> runs one call, \<open>None\<close> where the call has no defined result. The locale
  \<open>safe_client\<close> says what a component has to show of one call; its lemmas carry this to all runs.
\<close>

inductive run :: "('c \<Rightarrow> 's \<Rightarrow> bool) \<Rightarrow> ('c \<Rightarrow> 's \<Rightarrow> 's option) \<Rightarrow> 's \<Rightarrow> 'c list \<Rightarrow> 's \<Rightarrow> bool"
  for allowed :: "'c \<Rightarrow> 's \<Rightarrow> bool" and exec :: "'c \<Rightarrow> 's \<Rightarrow> 's option" where
  run_none: "run allowed exec s [] s"
| run_more: "run allowed exec s cs s' \<Longrightarrow> allowed c s' \<Longrightarrow> exec c s' = Some s'' \<Longrightarrow>
    run allowed exec s (cs @ [c]) s''"

inductive_cases run_moreE: "run allowed exec s (cs @ [c]) s''"

lemma run_single: "allowed c s \<Longrightarrow> exec c s = Some s' \<Longrightarrow> run allowed exec s [c] s'"
  using run_more [OF run_none] by force

text \<open>The same, computed: a run is a sequence of allowed calls all of which are defined.\<close>

fun exec_all :: "('c \<Rightarrow> 's \<Rightarrow> bool) \<Rightarrow> ('c \<Rightarrow> 's \<Rightarrow> 's option) \<Rightarrow> 's \<Rightarrow> 'c list \<Rightarrow> 's option" where
  "exec_all allowed exec s [] = Some s"
| "exec_all allowed exec s (c # cs) =
     (if allowed c s then Option.bind (exec c s) (\<lambda>s. exec_all allowed exec s cs) else None)"

lemma exec_all_append:
  "exec_all allowed exec s (cs @ ds) = Option.bind (exec_all allowed exec s cs) (\<lambda>s. exec_all allowed exec s ds)"
  by (induction cs arbitrary: s) (auto split: Option.bind_splits)

lemma run_eq_exec_all: "run allowed exec s cs s' \<longleftrightarrow> exec_all allowed exec s cs = Some s'"
proof
  show "exec_all allowed exec s cs = Some s'" if "run allowed exec s cs s'"
    using that by (induction rule: run.induct) (auto simp: exec_all_append)
  show "run allowed exec s cs s'" if "exec_all allowed exec s cs = Some s'"
    using that
  proof (induction cs arbitrary: s' rule: rev_induct)
    case Nil
    then show ?case by (simp add: run_none)
  next
    case (snoc c cs)
    then show ?case by (auto simp: exec_all_append bind_eq_Some_conv intro: run_more split: if_splits)
  qed
qed

lemma run_append: "run allowed exec s cs s' \<Longrightarrow> run allowed exec s' ds s'' \<Longrightarrow> run allowed exec s (cs @ ds) s''"
  by (simp add: run_eq_exec_all exec_all_append)

text \<open>A property of states that holds whenever a measure is zero, and that a run can approach, can be reached.\<close>

lemma run_reaches:
  fixes m :: "'s \<Rightarrow> nat"
  assumes "P s" and step: "\<And>s. P s \<Longrightarrow> m s \<noteq> 0 \<Longrightarrow> \<exists>cs s'. run allowed exec s cs s' \<and> P s' \<and> m s' < m s"
  shows "\<exists>cs s'. run allowed exec s cs s' \<and> P s' \<and> m s' = 0"
  using assms(1)
proof (induction "m s" arbitrary: s rule: less_induct)
  case less
  show ?case
  proof (cases "m s = 0")
    case True
    with less.prems show ?thesis by (blast intro: run_none)
  next
    case False
    from step [OF less.prems this] obtain cs s' where s': "run allowed exec s cs s'" "P s'" "m s' < m s" by blast
    from less.hyps [OF s'(3,2)] obtain ds s'' where "run allowed exec s' ds s''" "P s''" "m s'' = 0" by blast
    with run_append [OF s'(1)] show ?thesis by blast
  qed
qed

locale safe_client =
  fixes allowed :: "'c \<Rightarrow> 's \<Rightarrow> bool"
    and exec :: "'c \<Rightarrow> 's \<Rightarrow> 's option"
    and inv :: "'s \<Rightarrow> bool"
    and stable :: "'s \<Rightarrow> 's \<Rightarrow> bool"
  assumes call_defined: "inv s \<Longrightarrow> allowed c s \<Longrightarrow> \<exists>s'. exec c s = Some s' \<and> inv s' \<and> stable s s'"
    and stable_refl: "stable s s"
    and stable_trans: "stable s s' \<Longrightarrow> stable s' s'' \<Longrightarrow> stable s s''"
begin

lemma call_inv: "inv s \<Longrightarrow> allowed c s \<Longrightarrow> exec c s = Some s' \<Longrightarrow> inv s' \<and> stable s s'"
  using call_defined by fastforce

lemma run_inv:
  assumes "run allowed exec s cs s'" and "inv s"
  shows "inv s' \<and> stable s s'"
  using assms
proof (induction rule: run.induct)
  case (run_none s)
  then show ?case by (simp add: stable_refl)
next
  case (run_more s cs s' c s'')
  then show ?case by (blast dest: call_inv intro: stable_trans)
qed

lemma run_safe: "run allowed exec s cs s' \<Longrightarrow> inv s \<Longrightarrow> allowed c s' \<Longrightarrow> \<exists>s''. exec c s' = Some s''"
  using run_inv call_defined by blast

end

end
