(* ===== verification/Page_System.thy ===== *)
theory Page_System
  imports Page_Handles Client_Runs
begin

text \<open>
  Whole programs over a page pool: an owner that allocates, prewarms and drops the pool, holders of
  builders and pages, and metrics scrapers that hold a clone of the shared part, in any order. A call
  is allowed when Rust's ownership rules let the client make it: it holds the pool, the builder or a
  handle of the page. No other condition is assumed. The properties hold in every state that any such
  program can reach, for every page source that keeps its contract.
\<close>

section \<open>Programs\<close>

record page_sys =
  s_pool :: "page_pool option"
  s_scrapers :: nat
  s_builders :: "page_builder list"
  s_world :: page_world

datatype page_cmd =
    Allocate tenant
  | AllocFrom tenant "u8 list"
  | AllocWith tenant "unit init"
  | AllocWithLen tenant "usize init"
  | ReadBuilder nat
  | Append nat "u8 list"
  | SetLen nat usize
  | FillSlice nat "unit init"
  | Seal nat
  | DropBuilder nat
  | ReadPage page
  | ClonePage page
  | DropPage page
  | Prewarm usize
  | DropPool
  | CloneShared
  | DropShared

fun page_allowed :: "page_cmd \<Rightarrow> page_sys \<Rightarrow> bool" where
  "page_allowed (Allocate t) s = (s_pool s \<noteq> None)"
| "page_allowed (AllocFrom t data) s = (s_pool s \<noteq> None \<and> length data \<le> isize_max)"
| "page_allowed (AllocWith t f) s = (s_pool s \<noteq> None \<and> keeps_length f)"
| "page_allowed (AllocWithLen t f) s = (s_pool s \<noteq> None \<and> keeps_length f)"
| "page_allowed (ReadBuilder i) s = (i < length (s_builders s))"
| "page_allowed (Append i data) s = (i < length (s_builders s) \<and> length data \<le> isize_max)"
| "page_allowed (SetLen i len) s = (i < length (s_builders s))"
| "page_allowed (FillSlice i f) s = (i < length (s_builders s) \<and> keeps_length f)"
| "page_allowed (Seal i) s = (i < length (s_builders s))"
| "page_allowed (DropBuilder i) s = (i < length (s_builders s))"
| "page_allowed (ReadPage p) s = (get_page p (s_world s) \<noteq> None)"
| "page_allowed (ClonePage p) s = (get_page p (s_world s) \<noteq> None)"
| "page_allowed (DropPage p) s = (get_page p (s_world s) \<noteq> None)"
| "page_allowed (Prewarm n) s = (s_pool s \<noteq> None)"
| "page_allowed DropPool s = (s_pool s \<noteq> None)"
| "page_allowed CloneShared s = (s_pool s \<noteq> None)"
| "page_allowed DropShared s = (s_scrapers s \<noteq> 0)"

text \<open>A helper returns a page or panics; the client goes on in both cases.\<close>

definition after_alloc :: "page_sys \<Rightarrow> ((panic + page) \<times> page_pool \<times> page_world) option \<Rightarrow> page_sys option" where
  "after_alloc s res = do { (r, pp, w) \<leftarrow> res; Some (s\<lparr>s_pool := Some pp, s_world := w\<rparr>) }"

fun page_exec :: "page_cmd \<Rightarrow> page_sys \<Rightarrow> page_sys option" where
  "page_exec (Allocate t) s = do {
     pp \<leftarrow> s_pool s;
     (r, pp, w) \<leftarrow> page_allocate t pp (s_world s);
     Some (s\<lparr>s_pool := Some pp, s_world := w,
       s_builders := (case r of Inl e \<Rightarrow> s_builders s | Inr b \<Rightarrow> b # s_builders s)\<rparr>)
   }"
| "page_exec (AllocFrom t data) s = do { pp \<leftarrow> s_pool s; after_alloc s (page_alloc_from t data pp (s_world s)) }"
| "page_exec (AllocWith t f) s = do { pp \<leftarrow> s_pool s; after_alloc s (page_alloc_with t f pp (s_world s)) }"
| "page_exec (AllocWithLen t f) s = do { pp \<leftarrow> s_pool s; after_alloc s (page_alloc_with_len t f pp (s_world s)) }"
| "page_exec (ReadBuilder i) s = do { _ \<leftarrow> page_builder_as_slice (s_builders s ! i) (s_world s); Some s }"
| "page_exec (Append i data) s = do {
     (r, b, w) \<leftarrow> page_builder_append data (s_builders s ! i) (s_world s);
     Some (s\<lparr>s_builders := (s_builders s)[i := b], s_world := w\<rparr>)
   }"
| "page_exec (SetLen i len) s = do {
     (r, b) \<leftarrow> page_builder_set_len len (s_builders s ! i) (s_world s);
     Some (s\<lparr>s_builders := (s_builders s)[i := b]\<rparr>)
   }"
| "page_exec (FillSlice i f) s = do {
     (r, w) \<leftarrow> page_run_init f (s_builders s ! i) (s_world s);
     Some (s\<lparr>s_world := w\<rparr>)
   }"
| "page_exec (Seal i) s = do {
     (r, w) \<leftarrow> page_builder_seal (s_builders s ! i) (s_world s);
     Some (s\<lparr>s_builders := remove_nth i (s_builders s), s_world := w\<rparr>)
   }"
| "page_exec (DropBuilder i) s = do {
     w \<leftarrow> page_builder_drop (s_builders s ! i) (s_world s);
     Some (s\<lparr>s_builders := remove_nth i (s_builders s), s_world := w\<rparr>)
   }"
| "page_exec (ReadPage p) s = do { _ \<leftarrow> page_as_slice p (s_world s); Some s }"
| "page_exec (ClonePage p) s = do { (q, w) \<leftarrow> page_clone p (s_world s); Some (s\<lparr>s_world := w\<rparr>) }"
| "page_exec (DropPage p) s = do { w \<leftarrow> page_drop p (s_world s); Some (s\<lparr>s_world := w\<rparr>) }"
| "page_exec (Prewarm n) s = do {
     pp \<leftarrow> s_pool s;
     (r, pp, w) \<leftarrow> prewarm n pp (s_world s);
     Some (s\<lparr>s_pool := Some pp, s_world := w\<rparr>)
   }"
| "page_exec DropPool s = do {
     pp \<leftarrow> s_pool s;
     w \<leftarrow> page_pool_drop pp (s_world s);
     Some (s\<lparr>s_pool := None, s_world := w\<rparr>)
   }"
| "page_exec CloneShared s =
     Some (s\<lparr>s_scrapers := Suc (s_scrapers s), s_world := clone_shared (s_world s)\<rparr>)"
| "page_exec DropShared s = do {
     w \<leftarrow> drop_shared (s_world s);
     Some (s\<lparr>s_scrapers := s_scrapers s - 1, s_world := w\<rparr>)
   }"

abbreviation page_program :: "page_sys \<Rightarrow> page_cmd list \<Rightarrow> page_sys \<Rightarrow> bool" where
  "page_program \<equiv> run page_allowed page_exec"

text \<open>A program starts with a new pool over a source, in a state \<open>w\<close> without pages.\<close>

definition page_sys_start :: "page_pool \<Rightarrow> page_world \<Rightarrow> page_sys" where
  "page_sys_start pp w = \<lparr>s_pool = Some pp, s_scrapers = 0, s_builders = [], s_world = w\<rparr>"

section \<open>The invariant of a program\<close>

definition page_sys_inv :: "heap \<Rightarrow> stats_table \<Rightarrow> page_sys \<Rightarrow> bool" where
  "page_sys_inv h0 base s = page_inv h0 base (s_pool s) (s_scrapers s) (s_world s) (mset (s_builders s))"

text \<open>What every call leaves of the pages: no page that is gone comes back, and a page that is still
  live shows the same bytes.\<close>

definition pages_stable :: "page_world \<Rightarrow> page_world \<Rightarrow> bool" where
  "pages_stable w w' \<longleftrightarrow> (\<forall>p < length (w_pages w). p < length (w_pages w')
     \<and> (get_page p w' \<noteq> None \<longrightarrow> get_page p w \<noteq> None \<and> page_as_slice p w' = page_as_slice p w
          \<and> page_len p w' = page_len p w \<and> page_capacity p w' = page_capacity p w))"

section \<open>Lemmas\<close>

lemma page_as_slice_cong:
  assumes "get_page p w = Some (i, n)" and "get_page p w' = Some (i, n')" and "pi_buf i = Some buf"
    and "w_heap w' buf = w_heap w buf"
  shows "page_as_slice p w' = page_as_slice p w" and "page_len p w' = page_len p w"
    and "page_capacity p w' = page_capacity p w"
  using assms by (simp_all add: page_as_slice_def page_len_def page_capacity_def mem_read_def)

definition pages_filled :: "page_world \<Rightarrow> bool" where
  "pages_filled w \<longleftrightarrow> (\<forall>i. i \<in># live_cells (w_pages w) \<longrightarrow> pi_buf i \<noteq> None)"

lemma page_inv_filled: "page_inv h0 base pp k w B \<Longrightarrow> pages_filled w"
  by (auto simp: pages_filled_def page_inv_def inner_ok_def)

text \<open>\<open>X\<close> are buffers that keep their bytes; every page that is live before and after is among them.\<close>

lemma pages_stableI:
  assumes cells: "pages_filled w" and len: "length (w_pages w) \<le> length (w_pages w')"
    and ent: "\<And>p. p < length (w_pages w) \<Longrightarrow> fst (w_pages w' ! p) = fst (w_pages w ! p)
       \<and> (snd (w_pages w ! p) = 0 \<longrightarrow> snd (w_pages w' ! p) = 0)"
    and keep: "keeps X w w'"
    and X: "\<And>i. i \<in># live_cells (w_pages w) \<Longrightarrow> i \<in># live_cells (w_pages w') \<Longrightarrow> fst (inner_hold i) \<in># X"
  shows "pages_stable w w'"
  unfolding pages_stable_def
proof (intro allI impI conjI)
  fix p assume p: "p < length (w_pages w)"
  then show "p < length (w_pages w')" using len by simp
  assume live: "get_page p w' \<noteq> None"
  then obtain i n' where g': "get_page p w' = Some (i, n')" by auto
  then have "snd (w_pages w ! p) \<noteq> 0" using ent [OF p] by (auto simp: get_page_Some)
  with ent [OF p] g' p obtain n where g: "get_page p w = Some (i, n)"
    by (cases "w_pages w ! p") (auto simp: get_page_def get_cell_def split: if_splits)
  have "i \<in># live_cells (w_pages w)" "i \<in># live_cells (w_pages w')"
    using g g' by (auto dest: get_page_live)
  with X have X: "fst (inner_hold i) \<in># X" by blast
  from cells \<open>i \<in># live_cells (w_pages w)\<close> obtain buf where buf: "pi_buf i = Some buf" by (auto simp: pages_filled_def)
  with X keep have "w_heap w' buf = w_heap w buf" by (simp add: inner_hold_def keeps_def)
  note same = page_as_slice_cong [OF g g' buf this]
  from g show "get_page p w \<noteq> None" by simp
  from same show "page_as_slice p w' = page_as_slice p w" and "page_len p w' = page_len p w"
    and "page_capacity p w' = page_capacity p w" by auto
qed

lemma live_inner_buffer: "i \<in># live_cells (w_pages w) \<Longrightarrow> fst (inner_hold i) \<in># page_buffers w B"
  by (auto simp: page_holds_def)

text \<open>Calls that leave the table alone, and calls that add a page at its end.\<close>

lemma pages_stable_append:
  assumes inv: "pages_filled w" and "w_pages w' = w_pages w @ ps" and "keeps (page_buffers w C) w w'"
  shows "pages_stable w w'"
proof (rule pages_stableI [OF inv _ _ assms(3)])
  show "fst (inner_hold i) \<in># page_buffers w C" if "i \<in># live_cells (w_pages w)" for i
    using that by (rule live_inner_buffer)
qed (use assms(2) in \<open>auto simp: nth_append\<close>)

lemma pages_stable_same:
  assumes "pages_filled w" and "w_pages w' = w_pages w" and "keeps (page_buffers w C) w w'"
  shows "pages_stable w w'"
  by (rule pages_stable_append [OF assms(1) _ assms(3), of "[]"]) (simp add: assms(2))

lemma keeps_refl [simp]: "keeps X w w"
  by (simp add: keeps_def)

lemma pages_stable_update:
  assumes inv: "pages_filled w" and g: "get_page p w = Some (i, n)"
    and w': "w_pages w' = (w_pages w)[p := (i, m)]" and keep: "keeps (page_buffers w' C) w w'"
  shows "pages_stable w w'"
proof (rule pages_stableI [OF inv _ _ keep])
  show "fst (inner_hold j) \<in># page_buffers w' C" if "j \<in># live_cells (w_pages w')" for j
    using that by (rule live_inner_buffer)
  show "fst (w_pages w' ! q) = fst (w_pages w ! q) \<and> (snd (w_pages w ! q) = 0 \<longrightarrow> snd (w_pages w' ! q) = 0)"
    if "q < length (w_pages w)" for q
    using that g by (cases "q = p") (auto simp: w' get_page_Some)
qed (simp add: w')

lemma pages_stable_refl: "pages_stable w w"
  by (simp add: pages_stable_def)

lemma pages_stable_trans: "pages_stable w1 w2 \<Longrightarrow> pages_stable w2 w3 \<Longrightarrow> pages_stable w1 w3"
  unfolding pages_stable_def by metis

text \<open>A builder that the client holds, and the state with this builder changed or gone.\<close>

lemma page_sys_inv_builder:
  assumes "page_sys_inv h0 base s" and "i < length (s_builders s)"
  shows "page_inv h0 base (s_pool s) (s_scrapers s) (s_world s)
      (add_mset (s_builders s ! i) (mset (remove_nth i (s_builders s))))"
  using assms by (simp add: page_sys_inv_def mset_remove_nth [symmetric])

definition call_ok :: "heap \<Rightarrow> stats_table \<Rightarrow> page_cmd \<Rightarrow> page_sys \<Rightarrow> bool" where
  "call_ok h0 base c s \<longleftrightarrow>
     (\<exists>s'. page_exec c s = Some s' \<and> page_sys_inv h0 base s' \<and> pages_stable (s_world s) (s_world s'))"

lemma call_allocate:
  assumes "page_sys_inv h0 base s" and "s_pool s = Some pp"
  shows "call_ok h0 base (Allocate t) s"
proof -
  have inv: "page_inv h0 base (Some pp) (s_scrapers s) (s_world s) (mset (s_builders s))"
    using assms by (simp add: page_sys_inv_def)
  then show ?thesis
  proof (cases rule: page_allocate_cases [where t = t])
    case (failed e pp' w')
    with assms(2) pages_stable_same [OF page_inv_filled [OF inv] failed(3,4)] show ?thesis
      by (simp add: call_ok_def page_sys_inv_def)
  next
    case (built b pp' w')
    with assms(2) pages_stable_same [OF page_inv_filled [OF inv] built(3,4)] show ?thesis
      by (simp add: call_ok_def page_sys_inv_def)
  qed
qed

text \<open>The helpers: \<open>res\<close> is the call, which ends as \<open>page_alloc_fill_inv\<close> says.\<close>

lemma after_alloc_ok:
  assumes inv: "page_sys_inv h0 base s"
    and "\<exists>r pp' w'. res = Some (r, pp', w')
      \<and> page_inv h0 base (Some pp') (s_scrapers s) w' (mset (s_builders s))
      \<and> keeps (page_buffers (s_world s) (mset (s_builders s))) (s_world s) w'
      \<and> (case r of Inl e \<Rightarrow> w_pages w' = w_pages (s_world s)
         | Inr p \<Rightarrow> p = length (w_pages (s_world s)) \<and> (\<exists>i. w_pages w' = w_pages (s_world s) @ [(i, 1)]))"
  shows "\<exists>s'. after_alloc s res = Some s' \<and> page_sys_inv h0 base s' \<and> pages_stable (s_world s) (s_world s')"
proof -
  from assms(2) obtain r pp' w' ps where
    r: "res = Some (r, pp', w')" "page_inv h0 base (Some pp') (s_scrapers s) w' (mset (s_builders s))"
      "keeps (page_buffers (s_world s) (mset (s_builders s))) (s_world s) w'"
      "w_pages w' = w_pages (s_world s) @ ps"
    by (auto split: sum.splits) (metis append_Nil2 sum.exhaust)+
  from pages_stable_append [OF page_inv_filled [OF inv [unfolded page_sys_inv_def]] r(4,3)] r(1,2) show ?thesis
    by (simp add: after_alloc_def page_sys_inv_def)
qed

lemma call_helpers:
  assumes sys: "page_sys_inv h0 base s" and pool: "s_pool s = Some pp"
  shows "call_ok h0 base (AllocFrom t data) s"
    and "keeps_length f \<Longrightarrow> call_ok h0 base (AllocWith t f) s"
    and "keeps_length g \<Longrightarrow> call_ok h0 base (AllocWithLen t g) s"
proof -
  have inv: "page_inv h0 base (Some pp) (s_scrapers s) (s_world s) (mset (s_builders s))"
    using assms by (simp add: page_sys_inv_def)
  note fill = page_alloc_fill_inv [OF inv, of _ t] and gs = page_inv_shared [OF inv]
  show "call_ok h0 base (AllocFrom t data) s"
  proof (cases "of_nat (length data) \<le> sh_page_size (w_shared (s_world s))")
    case True
    then show ?thesis
      using after_alloc_ok [OF sys fill [OF fill_ok_from]] gs pool by (simp add: call_ok_def page_alloc_from_def)
  next
    case False
    then show ?thesis using sys gs pool
      by (simp add: call_ok_def page_alloc_from_def after_alloc_def page_sys_inv_def pages_stable_refl)
  qed
  show "call_ok h0 base (AllocWith t f) s" if "keeps_length f"
    using after_alloc_ok [OF sys fill [OF fill_ok_with [OF that]]] pool
    by (simp add: call_ok_def page_alloc_with_def)
  show "call_ok h0 base (AllocWithLen t g) s" if "keeps_length g"
    using after_alloc_ok [OF sys fill [OF fill_ok_with_len [OF that]]] pool
    by (simp add: call_ok_def page_alloc_with_len_def)
qed

lemma call_write_builder:
  assumes sys: "page_sys_inv h0 base s" and i: "i < length (s_builders s)"
  shows "call_ok h0 base (ReadBuilder i) s" and "length data \<le> isize_max \<Longrightarrow> call_ok h0 base (Append i data) s"
    and "call_ok h0 base (SetLen i len) s" and "keeps_length f \<Longrightarrow> call_ok h0 base (FillSlice i f) s"
proof -
  let ?b = "s_builders s ! i" and ?B = "mset (remove_nth i (s_builders s))" and ?w = "s_world s"
  note inv = page_sys_inv_builder [OF sys i]
  from inv obtain xs where xs: "page_builder_as_slice ?b ?w = Some (Inr xs)" by (elim page_contents_live)
  then show "call_ok h0 base (ReadBuilder i) s" using sys by (simp add: call_ok_def pages_stable_refl)
  show "call_ok h0 base (Append i data) s" if data: "length data \<le> isize_max"
  proof (cases "unat (pb_len ?b) + length data \<le> unat (sh_page_size (w_shared ?w))")
    case True
    with page_builder_append_inv [OF inv data xs] obtain b' w' where
      a: "page_builder_append data ?b ?w = Some (Inr (Inr ()), b', w')"
        "page_inv h0 base (s_pool s) (s_scrapers s) w' (add_mset b' ?B)" "w_pages w' = w_pages ?w"
        "keeps (page_buffers ?w ?B) ?w w'" by auto
    from pages_stable_same [OF page_inv_filled [OF inv] a(3,4)] a(1,2) i show ?thesis
      by (simp add: call_ok_def page_sys_inv_def mset_update_nth)
  next
    case False
    with page_builder_append_inv [OF inv data xs] sys show ?thesis
      by (simp add: call_ok_def pages_stable_refl)
  qed
  from page_builder_set_len_inv [OF inv, of len] obtain r b' where
    "page_builder_set_len len ?b ?w = Some (r, b')"
    "page_inv h0 base (s_pool s) (s_scrapers s) ?w (add_mset b' ?B)" by blast
  with i show "call_ok h0 base (SetLen i len) s"
    by (simp add: call_ok_def page_sys_inv_def mset_update_nth pages_stable_refl)
  show "call_ok h0 base (FillSlice i f) s" if f: "keeps_length f"
  proof -
    from page_run_init_result [OF inv f] obtain r w' where
      a: "page_run_init f ?b ?w = Some (r, w')"
        "page_inv h0 base (s_pool s) (s_scrapers s) w' (add_mset ?b ?B)" "w_pages w' = w_pages ?w"
        "keeps (page_buffers ?w ?B) ?w w'" by fastforce
    from pages_stable_same [OF page_inv_filled [OF inv] a(3,4)] a(1,2) i show ?thesis
      by (simp add: call_ok_def page_sys_inv_def mset_remove_nth [symmetric])
  qed
qed

lemma call_end_builder:
  assumes sys: "page_sys_inv h0 base s" and i: "i < length (s_builders s)"
  shows "call_ok h0 base (Seal i) s" and "call_ok h0 base (DropBuilder i) s"
proof -
  let ?b = "s_builders s ! i" and ?B = "mset (remove_nth i (s_builders s))" and ?w = "s_world s"
  note inv = page_sys_inv_builder [OF sys i]
  from page_builder_seal_inv [OF inv] obtain w' e where
    a: "page_builder_seal ?b ?w = Some (Inr (length (w_pages ?w)), w')"
      "page_inv h0 base (s_pool s) (s_scrapers s) w' ?B" "w_pages w' = w_pages ?w @ [e]"
      "keeps (page_buffers ?w ?B) ?w w'" by (fastforce simp: keeps_def)
  from pages_stable_append [OF page_inv_filled [OF inv] a(3,4)] a(1,2) show "call_ok h0 base (Seal i) s"
    by (simp add: call_ok_def page_sys_inv_def)
  from page_builder_drop_inv [OF inv] obtain w' where
    d: "page_builder_drop ?b ?w = Some w'" "page_inv h0 base (s_pool s) (s_scrapers s) w' ?B"
      "w_pages w' = w_pages ?w" "keeps (page_buffers ?w ?B) ?w w'" by blast
  from pages_stable_same [OF page_inv_filled [OF inv] d(3,4)] d(1,2) show "call_ok h0 base (DropBuilder i) s"
    by (simp add: call_ok_def page_sys_inv_def)
qed

lemma call_page:
  assumes sys: "page_sys_inv h0 base s" and g: "get_page p (s_world s) = Some (i, n)"
  shows "call_ok h0 base (ReadPage p) s" and "call_ok h0 base (ClonePage p) s"
    and "call_ok h0 base (DropPage p) s"
proof -
  let ?w = "s_world s"
  have inv: "page_inv h0 base (s_pool s) (s_scrapers s) ?w (mset (s_builders s))"
    using sys by (simp add: page_sys_inv_def)
  have live: "i \<in># live_cells (w_pages ?w)" using g by (rule get_page_live)
  with inv obtain buf where buf: "pi_buf i = Some buf" "pi_len i \<le> sh_page_size (w_shared ?w)"
    by (auto simp: page_inv_def inner_ok_def)
  have "buf \<in># page_buffers ?w (mset (s_builders s))"
    using live_inner_buffer [OF live, of "mset (s_builders s)"] buf(1) by (simp add: inner_hold_def)
  from pool_life_buffer [OF page_inv_life [OF inv] this] buf g
  show "call_ok h0 base (ReadPage p) s"
    by (elim buffer_okE) (use sys in \<open>simp add: call_ok_def page_as_slice_def mem_read_def
        word_le_nat_alt pages_stable_refl\<close>)
  have "keeps (page_buffers (?w\<lparr>w_pages := (w_pages ?w)[p := (i, Suc n)]\<rparr>) {#}) ?w
      (?w\<lparr>w_pages := (w_pages ?w)[p := (i, Suc n)]\<rparr>)" by (simp add: keeps_def)
  from pages_stable_update [OF page_inv_filled [OF inv] g _ this, of "Suc n"] page_clone_inv [OF inv g]
  show "call_ok h0 base (ClonePage p) s" by (simp add: call_ok_def page_sys_inv_def)
  from page_drop_inv [OF inv g] obtain w' where
    d: "page_drop p ?w = Some w'" "page_inv h0 base (s_pool s) (s_scrapers s) w' (mset (s_builders s))"
      "w_pages w' = (w_pages ?w)[p := (i, n - 1)]" "keeps (page_buffers w' (mset (s_builders s))) ?w w'"
    by blast
  from pages_stable_update [OF page_inv_filled [OF inv] g d(3,4)] d(1,2) show "call_ok h0 base (DropPage p) s"
    by (simp add: call_ok_def page_sys_inv_def)
qed

lemma call_owner:
  assumes sys: "page_sys_inv h0 base s" and pool: "s_pool s = Some pp"
  shows "call_ok h0 base (Prewarm n) s" and "call_ok h0 base DropPool s" and "call_ok h0 base CloneShared s"
proof -
  let ?w = "s_world s" and ?B = "mset (s_builders s)"
  have inv: "page_inv h0 base (Some pp) (s_scrapers s) ?w ?B" using assms by (simp add: page_sys_inv_def)
  from page_prewarm_inv [OF inv, of n] obtain r pp' w' where
    a: "prewarm n pp ?w = Some (r, pp', w')" "page_inv h0 base (Some pp') (s_scrapers s) w' ?B"
      "w_pages w' = w_pages ?w" "keeps (page_buffers ?w ?B) ?w w'" by blast
  from pages_stable_same [OF page_inv_filled [OF inv] a(3,4)] a(1,2) pool show "call_ok h0 base (Prewarm n) s"
    by (simp add: call_ok_def page_sys_inv_def)
  from page_pool_drop_inv [OF inv] obtain w' where
    d: "page_pool_drop pp ?w = Some w'" "page_inv h0 base None (s_scrapers s) w' ?B"
      "w_pages w' = w_pages ?w" "keeps (page_buffers ?w ?B) ?w w'" by blast
  from pages_stable_same [OF page_inv_filled [OF inv] d(3,4)] d(1,2) pool show "call_ok h0 base DropPool s"
    by (simp add: call_ok_def page_sys_inv_def)
  have "pages_stable ?w (clone_shared ?w)"
    by (rule pages_stable_same [OF page_inv_filled [OF inv], where C = "{#}"]) (simp_all add: keeps_def)
  with page_scrape_inv [OF inv] pool show "call_ok h0 base CloneShared s"
    by (simp add: call_ok_def page_sys_inv_def)
qed

lemma call_scraper:
  assumes sys: "page_sys_inv h0 base s" and k: "s_scrapers s \<noteq> 0"
  shows "call_ok h0 base DropShared s"
proof -
  from k obtain k' where k': "s_scrapers s = Suc k'" by (cases "s_scrapers s") auto
  have inv: "page_inv h0 base (s_pool s) (Suc k') (s_world s) (mset (s_builders s))"
    using sys k' by (simp add: page_sys_inv_def)
  from page_unscrape_inv [OF inv] obtain w' where
    d: "drop_shared (s_world s) = Some w'" "page_inv h0 base (s_pool s) k' w' (mset (s_builders s))"
      "w_pages w' = w_pages (s_world s)"
      "keeps (page_buffers (s_world s) (mset (s_builders s))) (s_world s) w'" by blast
  from pages_stable_same [OF page_inv_filled [OF inv] d(3,4)] d(1,2) k' show ?thesis
    by (simp add: call_ok_def page_sys_inv_def)
qed

lemma page_call_ok:
  assumes "page_sys_inv h0 base s" and "page_allowed c s"
  shows "call_ok h0 base c s"
  using assms
  by (cases c) (auto intro: call_allocate call_helpers call_write_builder call_end_builder call_page
      call_owner call_scraper)

interpretation page_client: safe_client page_allowed page_exec "page_sys_inv h0 base"
    "\<lambda>s s'. pages_stable (s_world s) (s_world s')" for h0 base
proof
  show "\<exists>s'. page_exec c s = Some s' \<and> page_sys_inv h0 base s' \<and> pages_stable (s_world s) (s_world s')"
    if "page_sys_inv h0 base s" and "page_allowed c s" for c s
    using page_call_ok [OF that] by (simp add: call_ok_def)
qed (rule pages_stable_refl, erule (1) pages_stable_trans)

lemma page_sys_start_inv:
  assumes "page_source_contract src" and "with_source src w = (Inr pp, w')" and "w_pages w = []"
  shows "page_sys_inv (w_heap w) (w_tenants w) (page_sys_start pp w')"
  using page_inv_new [OF assms(1,2)] assms(3)
  by (simp add: page_sys_inv_def page_sys_start_def live_cells_def)

section \<open>A concrete program\<close>

abbreviation demo_source :: page_source where
  "demo_source \<equiv> heap_vtable first_fit_alloc \<lparr>hs_page_size = 16, hs_layout = \<lparr>l_size = 16, l_align = 8\<rparr>\<rparr>"

lemma demo_start:
  "page_source_contract demo_source" "with_source demo_source page_start = (Inr demo_pool, page_demo)"
  "w_pages page_start = []" "w_heap page_start = Map.empty"
  "page_sys_inv Map.empty (\<lambda>_. tenant_stats_default) (page_sys_start demo_pool page_demo)"
proof -
  show "page_source_contract demo_source" by (rule heap_src.page_source_contract_axioms)
  show "with_source demo_source page_start = (Inr demo_pool, page_demo)"
    using page_demo_eq by (simp add: page_pool_new_def heap_source_new_eq isize_max_def)
  show "w_pages page_start = []" "w_heap page_start = Map.empty" by (simp_all add: page_start_def)
  show "page_sys_inv Map.empty (\<lambda>_. tenant_stats_default) (page_sys_start demo_pool page_demo)"
    using page_demo_inv by (simp add: page_sys_inv_def page_sys_start_def)
qed

text \<open>The pool is dropped while a page is out.\<close>

lemma demo_program:
  obtains s where "page_program (page_sys_start demo_pool page_demo) [AllocFrom demo_tenant [1, 2, 3], DropPool] s"
    and "s_pool s = None" and "s_builders s = []" and "s_scrapers s = 0"
    and "page_as_slice 0 (s_world s) = Some (Inr [1, 2, 3])" and "length (w_pages (s_world s)) = 1"
    and "page_ref_count 0 (s_world s) = Some 1"
proof -
  let ?s0 = "page_sys_start demo_pool page_demo"
  from page_demo_page obtain pp1 w1 where
    al: "page_alloc_from demo_tenant [1, 2, 3] demo_pool page_demo = Some (Inr 0, pp1, w1)" by blast
  have ip: "page_inv Map.empty (\<lambda>_. tenant_stats_default) (Some pp1) 0 w1 {#}"
    and rc: "page_as_slice 0 w1 = Some (Inr [1, 2, 3])" "page_ref_count 0 w1 = Some 1"
    using al page_alloc_from_result [OF page_demo_inv, of "[1, 2, 3]" demo_tenant]
    by (auto simp: isize_max_def page_demo_size)
  have len1: "length (w_pages w1) = 1"
    using page_alloc_fill_inv [OF page_demo_inv fill_ok_from [of "[1, 2, 3]"], of demo_tenant] al
      page_inv_shared [OF page_demo_inv]
    by (auto simp: page_alloc_from_def page_demo_pages page_demo_size)
  from page_pool_drop_inv [OF ip] obtain w2 where
    d: "page_pool_drop pp1 w1 = Some w2" "w_pages w2 = w_pages w1" "keeps (page_buffers w1 {#}) w1 w2" by blast
  have "get_page 0 w2 \<noteq> None" using rc(2) d(2) by (auto simp: page_ref_count_def get_page_def get_cell_def bind_eq_Some_conv split: if_splits)
  with pages_stable_same [OF page_inv_filled [OF ip] d(2,3)] len1 rc d(2) have
    w2: "page_as_slice 0 w2 = Some (Inr [1, 2, 3])" "page_ref_count 0 w2 = Some 1"
    by (auto simp: pages_stable_def page_ref_count_def get_page_def get_cell_def split: if_splits)
  let ?s1 = "?s0\<lparr>s_pool := Some pp1, s_world := w1\<rparr>" and ?s2 = "?s0\<lparr>s_pool := None, s_world := w2\<rparr>"
  have "page_program ?s0 [AllocFrom demo_tenant [1, 2, 3]] ?s1"
    by (rule run_single) (use al in \<open>simp_all add: page_sys_start_def after_alloc_def isize_max_def\<close>)
  from run_more [OF this, of DropPool ?s2] d(1) have
    "page_program ?s0 [AllocFrom demo_tenant [1, 2, 3], DropPool] ?s2" by simp
  with w2 len1 d(2) show thesis by (intro that [of ?s2]) (simp_all add: page_sys_start_def)
qed

section \<open>Properties\<close>

text \<open>C1: Memory safety. In every state a program over a page pool can reach, every call that Rust's
  ownership rules allow has a defined result: no access to memory that is not live, no write outside
  a buffer, no buffer released twice, and no use of the shared part after its release. This holds
  for any order of calls, with pages and builders that outlive the pool.\<close>

theorem page_programs_safe:
  assumes "page_source_contract src" and "with_source src w = (Inr pp, w')" and "w_pages w = []"
    and "page_program (page_sys_start pp w') cs s" and "page_allowed c s"
  shows "\<exists>s'. page_exec c s = Some s'"
  using page_client.run_safe [OF assms(4) page_sys_start_inv [OF assms(1-3)] assms(5)] .

theorem page_programs_safe_witness:
  "\<exists>s s'. page_program (page_sys_start demo_pool page_demo) [AllocFrom demo_tenant [1, 2, 3], DropPool] s
     \<and> page_exec (DropPage 0) s = Some s'"
proof -
  obtain s where s: "page_program (page_sys_start demo_pool page_demo) [AllocFrom demo_tenant [1, 2, 3], DropPool] s"
    "page_ref_count 0 (s_world s) = Some 1" by (rule demo_program)
  then have "page_allowed (DropPage 0) s" by (auto simp: page_ref_count_def bind_eq_Some_conv)
  from page_programs_safe [OF demo_start(1-3) s(1) this] s(1) show ?thesis by blast
qed

text \<open>C2: Nothing leaks. When the pool, every builder, every page handle and every scraper's clone
  have been dropped, in whatever order, memory is what it was before the pool was made and each
  tenant's bytes and pages in use are what they were.\<close>

theorem page_programs_leak_free:
  assumes "page_source_contract src" and "with_source src w = (Inr pp, w')" and "w_pages w = []"
    and "page_program (page_sys_start pp w') cs s"
    and "s_pool s = None" and "s_builders s = []" and "s_scrapers s = 0"
    and "live_cells (w_pages (s_world s)) = {#}"
  shows "w_heap (s_world s) = w_heap w \<and> w_strong (s_world s) = 0
    \<and> (\<forall>t. t_bytes_in_use (w_tenants (s_world s) t) = t_bytes_in_use (w_tenants w t)
         \<and> t_pages_in_use (w_tenants (s_world s) t) = t_pages_in_use (w_tenants w t))"
proof -
  have "page_sys_inv (w_heap w) (w_tenants w) s"
    using page_client.run_inv [OF assms(4) page_sys_start_inv [OF assms(1-3)]] by blast
  then have inv: "page_inv (w_heap w) (w_tenants w) None 0 (s_world s) {#}"
    using assms(5-7) by (simp add: page_sys_inv_def)
  have none: "page_holds (s_world s) {#} = {#}" using assms(8) by (simp add: page_holds_def)
  from inv none have "pool_life (w_heap w) None 0 (s_world s) {#}"
    and "charged (w_tenants w) (sh_page_size (w_shared (s_world s))) (w_tenants (s_world s)) {#}"
    by (simp_all add: page_inv_def)
  then show ?thesis by (auto simp: charged_def dest: pool_life_end)
qed

theorem page_programs_leak_free_witness:
  "\<exists>s. page_program (page_sys_start demo_pool page_demo)
       [AllocFrom demo_tenant [1, 2, 3], DropPool, DropPage 0] s
     \<and> w_heap (s_world s) = Map.empty \<and> w_strong (s_world s) = 0"
proof -
  obtain s where s: "page_program (page_sys_start demo_pool page_demo) [AllocFrom demo_tenant [1, 2, 3], DropPool] s"
    "s_pool s = None" "s_builders s = []" "s_scrapers s = 0" "page_ref_count 0 (s_world s) = Some 1"
    "length (w_pages (s_world s)) = 1" by (rule demo_program)
  from s(5) obtain i where g: "get_page 0 (s_world s) = Some (i, 1)"
    by (auto simp: page_ref_count_def bind_eq_Some_conv)
  have inv: "page_inv Map.empty (\<lambda>_. tenant_stats_default) None 0 (s_world s) {#}"
    using page_client.run_inv [OF s(1) demo_start(5)] s(2-4) by (simp add: page_sys_inv_def)
  from page_drop_inv [OF inv g] obtain w where
    w: "page_drop 0 (s_world s) = Some w" "w_pages w = (w_pages (s_world s))[0 := (i, 0)]" by auto
  have "page_program (page_sys_start demo_pool page_demo)
      ([AllocFrom demo_tenant [1, 2, 3], DropPool] @ [DropPage 0]) (s\<lparr>s_world := w\<rparr>)"
    by (rule run_more [OF s(1)]) (use g w in simp_all)
  moreover have "live_cells (w_pages w) = {#}"
    using w(2) s(6) by (cases "w_pages (s_world s)") (simp_all add: live_cells_def)
  ultimately show ?thesis
    using page_programs_leak_free [OF demo_start(1-3), of _ "s\<lparr>s_world := w\<rparr>"] s(2-4) demo_start(4)
    by fastforce
qed

text \<open>C3: A sealed page is immutable. Whatever a program does between two moments at which a page has a
  handle, the page shows the same bytes, the same length and the same capacity at both, although its
  pool may have been dropped and buffers may have been recycled in between.\<close>

theorem sealed_pages_immutable:
  assumes "page_source_contract src" and "with_source src w = (Inr pp, w')" and "w_pages w = []"
    and "page_program (page_sys_start pp w') cs s1" and "page_program s1 ds s2"
    and "get_page p (s_world s1) \<noteq> None" and "get_page p (s_world s2) \<noteq> None"
  shows "page_as_slice p (s_world s2) = page_as_slice p (s_world s1)
    \<and> page_len p (s_world s2) = page_len p (s_world s1)
    \<and> page_capacity p (s_world s2) = page_capacity p (s_world s1)"
proof -
  have inv1: "page_sys_inv (w_heap w) (w_tenants w) s1"
    using page_client.run_inv [OF assms(4) page_sys_start_inv [OF assms(1-3)]] by blast
  have "pages_stable (s_world s1) (s_world s2)"
    using page_client.run_inv [OF assms(5) inv1] by blast
  moreover have "p < length (w_pages (s_world s1))" using assms(6) by (auto simp: get_page_def get_cell_def split: if_splits)
  ultimately show ?thesis using assms(7) by (simp add: pages_stable_def)
qed

theorem sealed_pages_immutable_witness:
  "\<exists>s s2. page_program s [ReadPage 0, ClonePage 0] s2 \<and> page_as_slice 0 (s_world s2) = Some (Inr [1, 2, 3])"
proof -
  obtain s where s: "page_program (page_sys_start demo_pool page_demo) [AllocFrom demo_tenant [1, 2, 3], DropPool] s"
    "page_as_slice 0 (s_world s) = Some (Inr [1, 2, 3])" "page_ref_count 0 (s_world s) = Some 1"
    "length (w_pages (s_world s)) = 1" by (rule demo_program)
  from s(3) obtain i where g: "get_page 0 (s_world s) = Some (i, 1)"
    by (auto simp: page_ref_count_def bind_eq_Some_conv)
  let ?w = "(s_world s)\<lparr>w_pages := (w_pages (s_world s))[0 := (i, 2)]\<rparr>"
  have "page_program s [ReadPage 0] s" by (rule run_single) (use g s(2) in simp_all)
  from run_more [OF this, of "ClonePage 0" "s\<lparr>s_world := ?w\<rparr>"] g
  have two: "page_program s [ReadPage 0, ClonePage 0] (s\<lparr>s_world := ?w\<rparr>)"
    by (simp add: page_clone_def numeral_2_eq_2)
  moreover have "get_page 0 ?w \<noteq> None" using s(4) by (simp add: get_page_def get_cell_def)
  ultimately show ?thesis
    using sealed_pages_immutable [OF demo_start(1-3) s(1) two, of 0] g s(2)
    by (intro exI [of _ s] exI [of _ "s\<lparr>s_world := ?w\<rparr>"]) simp
qed

text \<open>C4: Accounting. In every reachable state each tenant is charged, on top of what it used before, one page and one
  page size for each of its live builders and pages; and as long as anyone can read them, that is while the pool, a
  builder, a page or a scraper's clone is left, the counters of the pool show as many pages in use as there are live
  builders and pages, also after the pool itself has been dropped.\<close>

theorem page_accounting_exact:
  assumes "page_source_contract src" and "with_source src w = (Inr pp, w')" and "w_pages w = []"
    and "page_program (page_sys_start pp w') cs s"
  shows "(s_pool s \<noteq> None \<or> s_builders s \<noteq> [] \<or> live_cells (w_pages (s_world s)) \<noteq> {#} \<or> s_scrapers s \<noteq> 0 \<longrightarrow>
        get_shared (s_world s) \<noteq> None \<and> ps_pages_in_use (sh_stats (w_shared (s_world s)))
          = of_nat (length (s_builders s) + size (live_cells (w_pages (s_world s)))))
    \<and> t_pages_in_use (w_tenants (s_world s) t) = t_pages_in_use (w_tenants w t)
      + of_nat (size {#h \<in># page_holds (s_world s) (mset (s_builders s)). snd h = t#})
    \<and> t_bytes_in_use (w_tenants (s_world s) t) = t_bytes_in_use (w_tenants w t)
      + sh_page_size (w_shared (s_world s))
        * of_nat (size {#h \<in># page_holds (s_world s) (mset (s_builders s)). snd h = t#})"
proof -
  have "page_sys_inv (w_heap w) (w_tenants w) s"
    using page_client.run_inv [OF assms(4) page_sys_start_inv [OF assms(1-3)]] by blast
  then have inv: "page_inv (w_heap w) (w_tenants w) (s_pool s) (s_scrapers s) (s_world s) (mset (s_builders s))"
    by (simp add: page_sys_inv_def)
  have "count (image_mset snd H) t = size {#h \<in># H. snd h = t#}" for H :: "hold multiset"
    by (induction H) auto
  with page_inv_readable [OF inv] inv show ?thesis by (auto simp: page_inv_def charged_def page_holds_def)
qed

theorem page_accounting_exact_witness:
  "\<exists>s. page_program (page_sys_start demo_pool page_demo) [AllocFrom demo_tenant [1, 2, 3], DropPool] s \<and> s_pool s = None
     \<and> ps_pages_in_use (sh_stats (w_shared (s_world s))) = 1"
proof -
  obtain s where s: "page_program (page_sys_start demo_pool page_demo) [AllocFrom demo_tenant [1, 2, 3], DropPool] s"
    "page_ref_count 0 (s_world s) = Some 1" "length (w_pages (s_world s)) = 1" "s_pool s = None" "s_builders s = []" by (rule demo_program)
  from s(2,3) have "size (live_cells (w_pages (s_world s))) = 1"
    by (cases "w_pages (s_world s)") (auto simp: page_ref_count_def get_page_def get_cell_def live_cells_def bind_eq_Some_conv split: if_splits)
  moreover from this have "live_cells (w_pages (s_world s)) \<noteq> {#}" by auto
  ultimately show ?thesis using page_accounting_exact [OF demo_start(1-3) s(1), of 0] s by (intro exI [of _ s]) simp
qed

text \<open>C23: Well-formed handles. In every state a program can reach, each live builder and each live page holds a
  buffer of its own: an aligned live block of exactly the page size that no other handle holds. The length
  of a builder is within the page size, the capacity of a page is the page size and its length within it.
  This is what the unsafe blocks that build slices rely on.\<close>

theorem page_handles_well_formed:
  assumes "page_source_contract src" and "with_source src w = (Inr pp, w')" and "w_pages w = []"
    and "page_program (page_sys_start pp w') cs s"
  defines "W \<equiv> s_world s" and "sz \<equiv> sh_page_size (w_shared (s_world s))"
  shows "(\<forall>b \<in> set (s_builders s). \<exists>buf. pb_buf b = Some buf \<and> buffer_ok (w_heap W) (unat sz) (sh_source (w_shared W)) buf \<and> pb_len b \<le> sz)
    \<and> (\<forall>p i n. get_page p W = Some (i, n) \<longrightarrow> (\<exists>buf. pi_buf i = Some buf \<and> buffer_ok (w_heap W) (unat sz) (sh_source (w_shared W)) buf
         \<and> pi_capacity i = sz \<and> pi_len i \<le> sz))
    \<and> (\<forall>x. count (image_mset (the \<circ> pb_buf) (mset (s_builders s)) + image_mset (the \<circ> pi_buf) (live_cells (w_pages W))) x \<le> 1)"
proof (intro conjI allI impI ballI)
  have "page_sys_inv (w_heap w) (w_tenants w) s"
    using page_client.run_inv [OF assms(4) page_sys_start_inv [OF assms(1-3)]] by blast
  then have inv: "page_inv (w_heap w) (w_tenants w) (s_pool s) (s_scrapers s) W (mset (s_builders s))"
    by (simp add: page_sys_inv_def W_def)
  note life = page_inv_life [OF inv]
  have bufs: "page_buffers W (mset (s_builders s))
      = image_mset (the \<circ> pb_buf) (mset (s_builders s)) + image_mset (the \<circ> pi_buf) (live_cells (w_pages W))"
    by (simp add: page_holds_def builder_hold_def inner_hold_def multiset.map_comp comp_def)
  have ok: "buffer_ok (w_heap W) (unat sz) (sh_source (w_shared W)) x" if "x \<in># page_buffers W (mset (s_builders s))" for x
    using pool_life_buffer [OF life that] by (simp add: W_def sz_def)
  show "\<exists>buf. pb_buf b = Some buf \<and> buffer_ok (w_heap W) (unat sz) (sh_source (w_shared W)) buf \<and> pb_len b \<le> sz" if "b \<in> set (s_builders s)" for b
  proof -
    have "builder_ok sz b" using inv that by (simp add: page_inv_def W_def sz_def)
    then obtain buf where "pb_buf b = Some buf" "pb_len b \<le> sz" by (auto simp: builder_ok_def)
    moreover from this(1) have "buf \<in># page_buffers W (mset (s_builders s))" unfolding bufs using that by force
    ultimately show ?thesis using ok by blast
  qed
  show "\<exists>buf. pi_buf i = Some buf \<and> buffer_ok (w_heap W) (unat sz) (sh_source (w_shared W)) buf \<and> pi_capacity i = sz \<and> pi_len i \<le> sz"
    if "get_page p W = Some (i, n)" for p i n
  proof -
    note live = get_page_live [OF that]
    then have "inner_ok sz i" using inv by (simp add: page_inv_def W_def sz_def)
    then obtain buf where "pi_buf i = Some buf" "pi_capacity i = sz \<and> pi_len i \<le> sz" by (auto simp: inner_ok_def)
    moreover from this(1) have "buf \<in># page_buffers W (mset (s_builders s))" unfolding bufs using live by force
    ultimately show ?thesis using ok by blast
  qed
  show "count (image_mset (the \<circ> pb_buf) (mset (s_builders s)) + image_mset (the \<circ> pi_buf) (live_cells (w_pages W))) x \<le> 1" for x
  proof (cases "x \<in># page_buffers W (mset (s_builders s))")
    case True
    then obtain U where U: "page_buffers W (mset (s_builders s)) = add_mset x U" by (rule mset_add)
    from pool_life_once [OF life [unfolded U]] show ?thesis unfolding bufs [symmetric] U by (simp add: not_in_iff)
  next
    case False
    then have "count (page_buffers W (mset (s_builders s))) x = 0" by (rule not_in_iff [THEN iffD1])
    then show ?thesis unfolding bufs by simp
  qed
qed

theorem page_handles_well_formed_witness:
  "\<exists>s i n buf. page_program (page_sys_start demo_pool page_demo) [AllocFrom demo_tenant [1, 2, 3], DropPool] s
     \<and> get_page 0 (s_world s) = Some (i, n) \<and> pi_buf i = Some buf \<and> pi_len i \<le> pi_capacity i"
proof -
  obtain s where s: "page_program (page_sys_start demo_pool page_demo) [AllocFrom demo_tenant [1, 2, 3], DropPool] s"
    "page_ref_count 0 (s_world s) = Some 1" by (rule demo_program)
  then obtain i n where g: "get_page 0 (s_world s) = Some (i, n)" by (auto simp: page_ref_count_def bind_eq_Some_conv)
  from page_handles_well_formed [OF demo_start(1-3) s(1)] g obtain buf where
    "pi_buf i = Some buf \<and> pi_capacity i = sh_page_size (w_shared (s_world s)) \<and> pi_len i \<le> sh_page_size (w_shared (s_world s))" by blast
  with s(1) g show ?thesis by auto
qed

end
