(* ===== verification/Return_Queue.thy ===== *)
theory Return_Queue
  imports Page_Pool Client_Runs
begin

text \<open>
  The return queue of \<open>src/pool.rs\<close> under concurrency. Any number of threads run
  \<open>PoolShared::push_return\<close> while the owner drains the queue and pops its local list; each step of the
  machine is one access to shared memory, and \<open>compare_exchange_weak\<close> may fail spuriously. The machine
  runs on the state of the sequential model; memory is sequentially consistent.
\<close>

section \<open>The machine\<close>

text \<open>Where a thread stands in \<open>push_return(raw)\<close>; \<open>head\<close> is the value it loaded.\<close>

datatype push_pc =
    LoadHead addr
  | WriteNext addr addr
  | CasHead addr addr
  | SubInUse
  | AddFree
  | Returned

fun push_step :: "bool \<Rightarrow> push_pc \<Rightarrow> 'z pool_world_scheme \<Rightarrow> (push_pc \<times> 'z pool_world_scheme) option" where
  "push_step spurious (LoadHead raw) w = do {
     sh \<leftarrow> get_shared w;
     Some (WriteNext raw (sh_return_head sh), w)
   }"
| "push_step spurious (WriteNext raw head) w = do {
     h \<leftarrow> ptr_write (w_heap w) raw head;
     Some (CasHead raw head, w\<lparr>w_heap := h\<rparr>)
   }"
| "push_step spurious (CasHead raw head) w = do {
     sh \<leftarrow> get_shared w;
     Some (if sh_return_head sh = head \<and> \<not> spurious then (SubInUse, set_return_head raw w) else (LoadHead raw, w))
   }"
| "push_step spurious SubInUse w = do {
     _ \<leftarrow> get_shared w;
     Some (AddFree, upd_stats (\<lambda>s. s\<lparr>ps_pages_in_use := fetch_sub (ps_pages_in_use s) 1\<rparr>) w)
   }"
| "push_step spurious AddFree w = do {
     _ \<leftarrow> get_shared w;
     Some (Returned, upd_stats (\<lambda>s. s\<lparr>ps_free_pages := fetch_add (ps_free_pages s) 1\<rparr>) w)
   }"
| "push_step spurious Returned w = Some (Returned, w)"

text \<open>Where the owner stands in \<open>allocate_raw_page\<close>: \<open>OwnerGot\<close> holds the value it swapped out of the
  queue, \<open>OwnerCount\<close>, \<open>OwnerUse\<close> and \<open>OwnerTake\<close> the buffer it is going to return. The field \<open>local_head\<close> is the owner's
  own and goes along with the access to shared memory before or after it.\<close>

datatype owner_pc =
    OwnerIdle
  | OwnerGot addr
  | OwnerPop
  | OwnerCount addr
  | OwnerFresh
  | OwnerAlloc
  | OwnerUse addr
  | OwnerTake addr
  | OwnerPanicked panic

fun owner_step :: "owner_pc \<Rightarrow> page_pool \<Rightarrow> 'z pool_world_scheme
    \<Rightarrow> (owner_pc \<times> page_pool \<times> 'z pool_world_scheme) option" where
  "owner_step OwnerIdle pp w =
     (if pp_local_head pp \<noteq> 0 then Some (OwnerPop, pp, w)
      else do { sh \<leftarrow> get_shared w; Some (OwnerGot (sh_return_head sh), pp, set_return_head 0 w) })"
| "owner_step (OwnerGot head) pp w =
     (if head = 0 then Some (OwnerFresh, pp, w)
      else do {
        _ \<leftarrow> get_shared w;
        Some (OwnerPop, pp\<lparr>pp_local_head := head\<rparr>,
          upd_stats (\<lambda>s. s\<lparr>ps_return_queue_drains := fetch_add (ps_return_queue_drains s) 1\<rparr>) w)
      })"
| "owner_step OwnerPop pp w = do {
     next \<leftarrow> ptr_read (w_heap w) (pp_local_head pp);
     Some (OwnerCount (pp_local_head pp), pp\<lparr>pp_local_head := next\<rparr>, w)
   }"
| "owner_step (OwnerCount buf) pp w = do {
     _ \<leftarrow> get_shared w;
     Some (OwnerUse buf, pp, upd_stats (\<lambda>s. s\<lparr>ps_free_pages := fetch_sub (ps_free_pages s) 1\<rparr>) w)
   }"
| "owner_step OwnerFresh pp w = do {
     _ \<leftarrow> get_shared w;
     Some (OwnerAlloc, pp,
       upd_stats (\<lambda>s. s\<lparr>ps_allocations_from_heap := fetch_add (ps_allocations_from_heap s) 1\<rparr>) w)
   }"
| "owner_step OwnerAlloc pp w = do {
     sh \<leftarrow> get_shared w;
     (case src_allocate (sh_source sh) (w_heap w) of
        (Inl e, h) \<Rightarrow> Some (OwnerPanicked e, pp, w\<lparr>w_heap := h\<rparr>)
      | (Inr buf, h) \<Rightarrow> Some (OwnerUse buf, pp, w\<lparr>w_heap := h\<rparr>))
   }"
| "owner_step (OwnerUse buf) pp w = do {
     _ \<leftarrow> get_shared w;
     Some (OwnerTake buf, pp, upd_stats (\<lambda>s. s\<lparr>ps_pages_in_use := fetch_add (ps_pages_in_use s) 1\<rparr>) w)
   }"
| "owner_step (OwnerTake buf) pp w = do {
     _ \<leftarrow> get_shared w;
     Some (OwnerIdle, pp, clone_shared w)
   }"
| "owner_step (OwnerPanicked e) pp w = Some (OwnerPanicked e, pp, w)"

text \<open>\<open>rq_out\<close> are the buffers that pages hold; dropping the last handle of a page starts a thread.\<close>

record 'z rq_state =
  rq_world :: "'z pool_world_scheme"
  rq_pool :: page_pool
  rq_owner :: owner_pc
  rq_out :: "addr list"
  rq_threads :: "push_pc list"

datatype rq_event = Pusher nat bool | Owner | DropLast nat

fun rq_allowed :: "rq_event \<Rightarrow> 'z rq_state \<Rightarrow> bool" where
  "rq_allowed (Pusher i spurious) s = (i < length (rq_threads s))"
| "rq_allowed Owner s = True"
| "rq_allowed (DropLast i) s = (i < length (rq_out s))"

fun rq_step :: "rq_event \<Rightarrow> 'z rq_state \<Rightarrow> 'z rq_state option" where
  "rq_step (Pusher i spurious) s = do {
     (pc, w) \<leftarrow> push_step spurious (rq_threads s ! i) (rq_world s);
     Some (s\<lparr>rq_threads := (rq_threads s)[i := pc], rq_world := w\<rparr>)
   }"
| "rq_step Owner s = do {
     (pc, pp, w) \<leftarrow> owner_step (rq_owner s) (rq_pool s) (rq_world s);
     Some (s\<lparr>rq_owner := pc, rq_pool := pp, rq_world := w,
       rq_out := (case rq_owner s of OwnerTake buf \<Rightarrow> buf # rq_out s | _ \<Rightarrow> rq_out s)\<rparr>)
   }"
| "rq_step (DropLast i) s =
     Some (s\<lparr>rq_out := remove_nth i (rq_out s), rq_threads := rq_threads s @ [LoadHead (rq_out s ! i)]\<rparr>)"

abbreviation rq_run :: "'z rq_state \<Rightarrow> rq_event list \<Rightarrow> 'z rq_state \<Rightarrow> bool" where
  "rq_run \<equiv> run rq_allowed rq_step"

text \<open>The abstract queue: a successful compare-exchange puts the buffer in front, the owner's swap takes
  everything, and the owner pops its own list. No other step has an effect.\<close>

fun queue_effect :: "rq_event \<Rightarrow> 'z rq_state \<Rightarrow> addr list \<times> addr list \<Rightarrow> addr list \<times> addr list" where
  "queue_effect (Pusher i spurious) s (xs, ys) =
     (case rq_threads s ! i of
        CasHead raw head \<Rightarrow>
          if sh_return_head (w_shared (rq_world s)) = head \<and> \<not> spurious then (raw # xs, ys) else (xs, ys)
      | _ \<Rightarrow> (xs, ys))"
| "queue_effect Owner s (xs, ys) =
     (case rq_owner s of
        OwnerIdle \<Rightarrow> if pp_local_head (rq_pool s) = 0 then ([], xs) else (xs, ys)
      | OwnerPop \<Rightarrow> (xs, tl ys)
      | _ \<Rightarrow> (xs, ys))"
| "queue_effect (DropLast i) s (xs, ys) = (xs, ys)"

text \<open>One thread, or the owner, running alone and without spurious failures.\<close>

fun push_alone :: "nat \<Rightarrow> push_pc \<Rightarrow> 'z pool_world_scheme \<Rightarrow> (push_pc \<times> 'z pool_world_scheme) option" where
  "push_alone 0 pc w = Some (pc, w)"
| "push_alone (Suc n) pc w = do { (pc, w) \<leftarrow> push_step False pc w; push_alone n pc w }"

fun owner_call :: "nat \<Rightarrow> owner_pc \<Rightarrow> page_pool \<Rightarrow> 'z pool_world_scheme
    \<Rightarrow> ((panic + addr) \<times> page_pool \<times> 'z pool_world_scheme) option" where
  "owner_call 0 pc pp w = None"
| "owner_call (Suc n) pc pp w = do {
     (pc', pp', w') \<leftarrow> owner_step pc pp w;
     (case pc of
        OwnerTake buf \<Rightarrow> Some (Inr buf, pp', w')
      | OwnerPanicked e \<Rightarrow> Some (Inl e, pp', w')
      | _ \<Rightarrow> owner_call n pc' pp' w')
   }"

section \<open>The invariant\<close>

text \<open>The buffer a thread or the owner holds alone.\<close>

fun pc_buffer :: "push_pc \<Rightarrow> addr multiset" where
  "pc_buffer (LoadHead raw) = {#raw#}"
| "pc_buffer (WriteNext raw head) = {#raw#}"
| "pc_buffer (CasHead raw head) = {#raw#}"
| "pc_buffer _ = {#}"

fun owner_buffer :: "owner_pc \<Rightarrow> addr multiset" where
  "owner_buffer (OwnerCount buf) = {#buf#}"
| "owner_buffer (OwnerUse buf) = {#buf#}"
| "owner_buffer (OwnerTake buf) = {#buf#}"
| "owner_buffer _ = {#}"

text \<open>What a thread still counts as in use, and what it has queued and not yet counted as free; likewise the
  buffer that the owner has popped and still counts as free.\<close>

fun pc_in_use :: "push_pc \<Rightarrow> nat" where
  "pc_in_use AddFree = 0"
| "pc_in_use Returned = 0"
| "pc_in_use _ = 1"

fun pc_uncounted :: "push_pc \<Rightarrow> nat" where
  "pc_uncounted SubInUse = 1"
| "pc_uncounted AddFree = 1"
| "pc_uncounted _ = 0"

fun owner_free :: "owner_pc \<Rightarrow> nat" where
  "owner_free (OwnerCount buf) = 1"
| "owner_free _ = 0"

text \<open>The buffer that the owner has counted as in use and not yet handed out.\<close>

fun owner_used :: "owner_pc \<Rightarrow> nat" where
  "owner_used (OwnerTake buf) = 1"
| "owner_used _ = 0"

text \<open>The list the owner works on: the one it swapped out, or its local list.\<close>

fun owner_head :: "owner_pc \<Rightarrow> page_pool \<Rightarrow> addr" where
  "owner_head (OwnerGot head) pp = head"
| "owner_head _ pp = pp_local_head pp"

fun owner_ok :: "owner_pc \<Rightarrow> page_pool \<Rightarrow> bool" where
  "owner_ok (OwnerGot head) pp = (pp_local_head pp = 0)"
| "owner_ok OwnerPop pp = (pp_local_head pp \<noteq> 0)"
| "owner_ok _ pp = True"

text \<open>A thread before its compare-exchange has stored the value it loaded.\<close>

fun pc_ok :: "heap \<Rightarrow> push_pc \<Rightarrow> bool" where
  "pc_ok h (CasHead raw head) = (ptr_read h raw = Some head)"
| "pc_ok h _ = True"

text \<open>All buffers: the queue \<open>xs\<close>, the owner's list \<open>ys\<close>, what the owner holds, what pages hold, what threads
  are returning.\<close>

definition rq_buffers :: "'z rq_state \<Rightarrow> addr list \<Rightarrow> addr list \<Rightarrow> addr multiset" where
  "rq_buffers s xs ys = mset xs + mset ys + owner_buffer (rq_owner s) + mset (rq_out s)
     + tally pc_buffer (rq_threads s)"

text \<open>The two counters, up to the updates still to come; \<open>d\<close> is what \<open>free_pages\<close> is off by otherwise (nothing,
  unless a \<open>prewarm\<close> has failed or the pool has been dropped).\<close>

definition rq_counters :: "u64 \<Rightarrow> 'z rq_state \<Rightarrow> nat \<Rightarrow> bool" where
  "rq_counters d s free \<longleftrightarrow>
     ps_pages_in_use (sh_stats (w_shared (rq_world s)))
       = of_nat (length (rq_out s) + tally pc_in_use (rq_threads s) + owner_used (rq_owner s)) \<and>
     ps_free_pages (sh_stats (w_shared (rq_world s))) + of_nat (tally pc_uncounted (rq_threads s))
       = of_nat (free + owner_free (rq_owner s)) + d"

abbreviation rq_source :: "'z rq_state \<Rightarrow> page_source" where
  "rq_source s \<equiv> sh_source (w_shared (rq_world s))"

abbreviation rq_size :: "'z rq_state \<Rightarrow> nat" where
  "rq_size s \<equiv> unat (sh_page_size (w_shared (rq_world s)))"

definition rq_inv :: "u64 \<Rightarrow> 'z rq_state \<Rightarrow> addr list \<Rightarrow> addr list \<Rightarrow> bool" where
  "rq_inv d s xs ys \<longleftrightarrow>
     page_source_contract (sh_source (w_shared (rq_world s))) \<and>
     src_page_size (sh_source (w_shared (rq_world s))) = sh_page_size (w_shared (rq_world s)) \<and>
     8 \<le> rq_size s \<and> 0 < w_strong (rq_world s) \<and> owner_ok (rq_owner s) (rq_pool s) \<and>
     chain (w_heap (rq_world s)) (sh_return_head (w_shared (rq_world s))) xs \<and>
     chain (w_heap (rq_world s)) (owner_head (rq_owner s) (rq_pool s)) ys \<and>
     (\<forall>x. count (rq_buffers s xs ys) x \<le> 1) \<and>
     (\<forall>x. x \<in># rq_buffers s xs ys \<longrightarrow> buffer_ok (w_heap (rq_world s)) (rq_size s) (rq_source s) x) \<and>
     (\<forall>pc. pc \<in> set (rq_threads s) \<longrightarrow> pc_ok (w_heap (rq_world s)) pc) \<and>
     rq_counters d s (length xs + length ys)"

section \<open>Lemmas\<close>

lemma rq_invD:
  assumes "rq_inv d s xs ys"
  shows "get_shared (rq_world s) = Some (w_shared (rq_world s))"
    and "x \<in># rq_buffers s xs ys \<Longrightarrow> buffer_ok (w_heap (rq_world s)) (rq_size s) (rq_source s) x"
    and "8 \<le> rq_size s" and "count (rq_buffers s xs ys) x \<le> 1"
    and "owner_ok (rq_owner s) (rq_pool s)"
    and "pc \<in> set (rq_threads s) \<Longrightarrow> pc_ok (w_heap (rq_world s)) pc"
    and "chain (w_heap (rq_world s)) (sh_return_head (w_shared (rq_world s))) xs"
    and "chain (w_heap (rq_world s)) (owner_head (rq_owner s) (rq_pool s)) ys"
    and "rq_counters d s (length xs + length ys)"
  using assms by (auto simp: rq_inv_def get_shared_def)

text \<open>A step that leaves memory alone keeps the invariant if it moves buffers between places and keeps the
  counters in step.\<close>

lemma rq_inv_quiet:
  assumes inv: "rq_inv d s xs ys"
    and "w_heap (rq_world s') = w_heap (rq_world s)"
    and "sh_source (w_shared (rq_world s')) = sh_source (w_shared (rq_world s))"
    and "sh_page_size (w_shared (rq_world s')) = sh_page_size (w_shared (rq_world s))"
    and "0 < w_strong (rq_world s')"
    and "owner_ok (rq_owner s') (rq_pool s')"
    and "chain (w_heap (rq_world s)) (sh_return_head (w_shared (rq_world s'))) xs'"
    and "chain (w_heap (rq_world s)) (owner_head (rq_owner s') (rq_pool s')) ys'"
    and "rq_buffers s' xs' ys' = rq_buffers s xs ys"
    and "\<And>pc. pc \<in> set (rq_threads s') \<Longrightarrow> pc_ok (w_heap (rq_world s)) pc"
    and "rq_counters d s' (length xs' + length ys')"
  shows "rq_inv d s' xs' ys'"
  using assms unfolding rq_inv_def by auto

text \<open>Memory may change where no list and no thread looks, as long as every buffer stays one.\<close>

lemma rq_inv_heap:
  assumes inv: "rq_inv d s xs ys"
    and same: "\<And>x. x \<in># mset xs + mset ys + tally pc_buffer (rq_threads s) \<Longrightarrow> h x = w_heap (rq_world s) x"
    and ok: "\<And>x. x \<in># rq_buffers s xs ys \<Longrightarrow> buffer_ok h (rq_size s) (rq_source s) x"
  shows "rq_inv d (s\<lparr>rq_world := (rq_world s)\<lparr>w_heap := h\<rparr>\<rparr>) xs ys"
proof -
  have "chain h p zs" if "chain (w_heap (rq_world s)) p zs" and "set zs \<subseteq> set xs \<union> set ys" for p zs
    by (rule chain_frame [OF _ that(1)]) (use that(2) same in auto)
  moreover have "pc_ok h q" if "q \<in> set (rq_threads s)" for q
    using rq_invD(6) [OF inv that] same tally_mem [OF that, of _ pc_buffer] by (cases q) (auto simp: ptr_read_def)
  ultimately show ?thesis
    using inv ok by (auto simp: rq_inv_def rq_buffers_def rq_counters_def)
qed

text \<open>A step of one thread that leaves memory and the queue alone.\<close>

lemma rq_inv_thread:
  assumes inv: "rq_inv d s xs ys" and i: "i < length (rq_threads s)"
    and w: "w_heap w = w_heap (rq_world s)" "sh_source (w_shared w) = sh_source (w_shared (rq_world s))"
      "sh_page_size (w_shared w) = sh_page_size (w_shared (rq_world s))" "w_strong w = w_strong (rq_world s)"
      "sh_return_head (w_shared w) = sh_return_head (w_shared (rq_world s))"
    and b: "pc_buffer pc = pc_buffer (rq_threads s ! i)" and ok: "pc_ok (w_heap w) pc"
    and c: "rq_counters d (s\<lparr>rq_threads := (rq_threads s)[i := pc], rq_world := w\<rparr>) (length xs + length ys)"
  shows "rq_inv d (s\<lparr>rq_threads := (rq_threads s)[i := pc], rq_world := w\<rparr>) xs ys"
proof (rule rq_inv_quiet [OF inv])
  fix q assume "q \<in> set (rq_threads (s\<lparr>rq_threads := (rq_threads s)[i := pc], rq_world := w\<rparr>))"
  then have "q = pc \<or> q \<in> set (rq_threads s)"
    using set_update_nth [OF i] set_remove_nth_subset by fastforce
  then show "pc_ok (w_heap (rq_world s)) q" using ok rq_invD(6) [OF inv] w(1) by auto
qed (use inv w b tally_update [OF i, of pc_buffer] c in \<open>auto simp: rq_inv_def rq_buffers_def\<close>)

lemma rq_counters_thread:
  assumes "rq_counters d s n" and "i < length (rq_threads s)"
    and "sh_stats (w_shared w) = sh_stats (w_shared (rq_world s))"
    and "pc_in_use pc = pc_in_use (rq_threads s ! i)" and "pc_uncounted pc = pc_uncounted (rq_threads s ! i)"
  shows "rq_counters d (s\<lparr>rq_threads := (rq_threads s)[i := pc], rq_world := w\<rparr>) n"
  using assms tally_update [OF assms(2), of pc_in_use] tally_update [OF assms(2), of pc_uncounted]
  by (simp add: rq_counters_def)

text \<open>The store of \<open>push_return\<close>: the buffer is the thread's own, so no list and no other thread sees it.\<close>

lemma rq_write:
  assumes inv: "rq_inv d s xs ys" and i: "i < length (rq_threads s)"
    and pc: "rq_threads s ! i = WriteNext raw head"
  shows "\<exists>s'. rq_step (Pusher i spurious) s = Some s' \<and> rq_inv d s' xs ys \<and> rq_buffers s' xs ys = rq_buffers s xs ys"
proof -
  let ?w = "rq_world s" and ?R = "remove_nth i (rq_threads s)" and ?n = "rq_size s"
  let ?O = "mset xs + mset ys + owner_buffer (rq_owner s) + mset (rq_out s) + tally pc_buffer ?R"
  note pen = tally_update [OF i, of pc_buffer]
  from pen(1) pc have K: "rq_buffers s xs ys = add_mset raw ?O" by (simp add: rq_buffers_def)
  have once: "raw \<notin># ?O" using rq_invD(4) [OF inv, of raw] unfolding K by (simp add: not_in_iff)
  have "raw \<in># rq_buffers s xs ys" by (simp add: K)
  from buffer_ok_ptr_write [OF rq_invD(2) [OF inv this] rq_invD(3) [OF inv], of head] obtain bs where
    bs: "w_heap ?w raw = Some bs" "length bs = ?n"
      "ptr_write (w_heap ?w) raw head = Some ((w_heap ?w)(raw \<mapsto> ptr_to_bytes head @ drop 8 bs))" by blast
  let ?h = "(w_heap ?w)(raw \<mapsto> ptr_to_bytes head @ drop 8 bs)"
  let ?s = "s\<lparr>rq_threads := (rq_threads s)[i := CasHead raw head], rq_world := ?w\<lparr>w_heap := ?h\<rparr>\<rparr>"
  have len: "length (ptr_to_bytes head @ drop 8 bs) = ?n" using bs(2) rq_invD(3) [OF inv] by simp
  have same: "rq_buffers ?s xs ys = rq_buffers s xs ys" using pen pc by (simp add: rq_buffers_def)
  have ch: "chain ?h p zs" if "chain (w_heap ?w) p zs" "raw \<notin> set zs" for p zs
    by (rule chain_frame [OF _ that(1)]) (use that(2) in auto)
  have pcs: "pc_ok ?h q" if "q \<in> set ((rq_threads s)[i := CasHead raw head])" for q
  proof (cases "q = CasHead raw head")
    case True
    then show ?thesis using ptr_read_write [OF bs(3)] by simp
  next
    case False
    with that have q: "q \<in> set ?R" using set_update_nth [OF i] by auto
    then have "q \<in> set (rq_threads s)" by (rule subsetD [OF set_remove_nth_subset])
    then have ok: "pc_ok (w_heap ?w) q" by (rule rq_invD(6) [OF inv])
    have "raw \<notin># pc_buffer q" using once tally_mem [OF q, of raw pc_buffer] by auto
    with ok show ?thesis by (cases q) (auto simp: ptr_read_other)
  qed
  have cnt: "rq_counters d ?s (length xs + length ys)"
    by (rule rq_counters_thread [OF rq_invD(9) [OF inv] i]) (simp_all add: pc)
  have buf: "buffer_ok ?h ?n (rq_source s) x" if "x \<in># rq_buffers s xs ys" for x
    by (rule buffer_ok_write [OF rq_invD(2) [OF inv that] len])
  have "rq_inv d ?s xs ys"
    unfolding rq_inv_def same
  proof (intro conjI allI impI)
    show "chain (w_heap (rq_world ?s)) (sh_return_head (w_shared (rq_world ?s))) xs"
      using ch [OF rq_invD(7) [OF inv]] once by simp
    show "chain (w_heap (rq_world ?s)) (owner_head (rq_owner ?s) (rq_pool ?s)) ys"
      using ch [OF rq_invD(8) [OF inv]] once by simp
    show "rq_counters d ?s (length xs + length ys)" by (fact cnt)
    show "pc_ok (w_heap (rq_world ?s)) q" if "q \<in> set (rq_threads ?s)" for q using pcs that by simp
    show "buffer_ok (w_heap (rq_world ?s)) (rq_size ?s) (rq_source ?s) x" if "x \<in># rq_buffers s xs ys" for x
      using buf [OF that] by simp
  qed (use inv in \<open>simp_all add: rq_inv_def\<close>)
  with same pc bs(3) show ?thesis by (intro exI [of _ ?s]) simp
qed

text \<open>The compare-exchange: on success the buffer is the new front of the queue, whatever happened since the
  load.\<close>

lemma rq_cas:
  assumes inv: "rq_inv d s xs ys" and i: "i < length (rq_threads s)"
    and pc: "rq_threads s ! i = CasHead raw head"
    and hit: "sh_return_head (w_shared (rq_world s)) = head"
  shows "\<exists>s'. rq_step (Pusher i False) s = Some s' \<and> rq_inv d s' (raw # xs) ys
    \<and> rq_buffers s' (raw # xs) ys = rq_buffers s xs ys"
proof -
  let ?w = "rq_world s"
  let ?s = "s\<lparr>rq_threads := (rq_threads s)[i := SubInUse], rq_world := set_return_head raw ?w\<rparr>"
  note pen = tally_update [OF i, of pc_buffer]
  have "CasHead raw head \<in> set (rq_threads s)" using pc i by (metis nth_mem)
  from rq_invD(6) [OF inv this] have rd: "ptr_read (w_heap ?w) raw = Some head" by simp
  have "raw \<in># rq_buffers s xs ys" using pen(1) pc by (simp add: rq_buffers_def)
  then have nz: "raw \<noteq> 0" using rq_invD(2) [OF inv] by (auto simp: buffer_ok_def)
  have same: "rq_buffers ?s (raw # xs) ys = rq_buffers s xs ys" using pen pc by (simp add: rq_buffers_def)
  have "rq_inv d ?s (raw # xs) ys"
  proof (rule rq_inv_quiet [OF inv])
    show "chain (w_heap ?w) (sh_return_head (w_shared (rq_world ?s))) (raw # xs)"
      using rq_invD(7) [OF inv] hit rd nz by simp
    show "rq_counters d ?s (length (raw # xs) + length ys)"
      using rq_invD(9) [OF inv] pc tally_update [OF i, of pc_in_use] tally_update [OF i, of pc_uncounted]
      by (simp add: rq_counters_def)
  next
    fix q assume "q \<in> set (rq_threads ?s)"
    then have "q = SubInUse \<or> q \<in> set (rq_threads s)"
      using set_update_nth [OF i] set_remove_nth_subset by fastforce
    then show "pc_ok (w_heap ?w) q" using rq_invD(6) [OF inv] by auto
  qed (use inv same in \<open>auto simp: rq_inv_def\<close>)
  with same pc hit rq_invD(1) [OF inv] show ?thesis by (intro exI [of _ ?s]) simp
qed

text \<open>What every step has to show: it is defined, it loses no buffer and adds none but a new one, and its
  effect on the two lists is the abstract one.\<close>

definition rq_grows :: "heap \<Rightarrow> addr multiset \<Rightarrow> addr multiset \<Rightarrow> bool" where
  "rq_grows h K K' \<longleftrightarrow> (\<exists>N. K' = K + N \<and> (\<forall>x. x \<in># N \<longrightarrow> h x = None))"

lemma rq_grows_refl [simp]: "rq_grows h K K"
  by (simp add: rq_grows_def)

lemma rq_grows_mem: "rq_grows h K K' \<Longrightarrow> x \<in># K \<Longrightarrow> x \<in># K'"
  by (auto simp: rq_grows_def)

lemma rq_growsD: "rq_grows h K K' \<Longrightarrow> K \<subseteq># K' \<and> (\<forall>x. x \<in># K' \<longrightarrow> x \<in># K \<or> h x = None)"
  by (auto simp: rq_grows_def)

definition rq_good :: "u64 \<Rightarrow> rq_event \<Rightarrow> 'z rq_state \<Rightarrow> addr list \<Rightarrow> addr list \<Rightarrow> bool" where
  "rq_good d e s xs ys \<longleftrightarrow>
     (\<exists>s' xs' ys'. rq_step e s = Some s' \<and> queue_effect e s (xs, ys) = (xs', ys') \<and> rq_inv d s' xs' ys'
        \<and> rq_grows (w_heap (rq_world s)) (rq_buffers s xs ys) (rq_buffers s' xs' ys'))"

lemma rq_goodI:
  "rq_step e s = Some s' \<Longrightarrow> queue_effect e s (xs, ys) = (xs', ys') \<Longrightarrow> rq_inv d s' xs' ys' \<Longrightarrow>
   rq_grows (w_heap (rq_world s)) (rq_buffers s xs ys) (rq_buffers s' xs' ys') \<Longrightarrow> rq_good d e s xs ys"
  by (auto simp: rq_good_def)

lemma rq_thread_good:
  assumes inv: "rq_inv d s xs ys" and i: "i < length (rq_threads s)"
    and st: "push_step spurious (rq_threads s ! i) (rq_world s) = Some (pc, w)"
    and eff: "queue_effect (Pusher i spurious) s (xs, ys) = (xs, ys)"
    and b: "pc_buffer pc = pc_buffer (rq_threads s ! i)"
    and inv': "rq_inv d (s\<lparr>rq_threads := (rq_threads s)[i := pc], rq_world := w\<rparr>) xs ys"
  shows "rq_good d (Pusher i spurious) s xs ys"
  using st eff inv' tally_update [OF i, of pc_buffer] b by (intro rq_goodI) (auto simp: rq_buffers_def)

lemma rq_pusher:
  assumes inv: "rq_inv d s xs ys" and i: "i < length (rq_threads s)"
  shows "rq_good d (Pusher i spurious) s xs ys"
proof -
  note cnt = rq_invD(9) [OF inv] and gs = rq_invD(1) [OF inv]
  note tot = tally_update [OF i, of pc_in_use] tally_update [OF i, of pc_uncounted]
  note quiet = rq_inv_thread [OF inv i] and good = rq_thread_good [OF inv i]
  note same = rq_counters_thread [OF cnt i]
  show ?thesis
  proof (cases "rq_threads s ! i")
    case (LoadHead raw)
    then show ?thesis using gs by (intro good) (auto intro!: quiet same)
  next
    case (WriteNext raw head)
    with rq_write [OF inv i WriteNext, of spurious] show ?thesis by (auto simp: rq_good_def)
  next
    case (CasHead raw head)
    show ?thesis
    proof (cases "sh_return_head (w_shared (rq_world s)) = head \<and> \<not> spurious")
      case True
      with rq_cas [OF inv i CasHead] CasHead show ?thesis by (auto simp: rq_good_def)
    next
      case False
      with CasHead gs show ?thesis by (intro good [where pc = "LoadHead raw"]) (auto intro!: quiet same)
    qed
  next
    case SubInUse
    then show ?thesis using cnt tot gs
      by (intro good [where pc = AddFree]) (auto intro!: quiet simp: rq_counters_def fetch_sub_def)
  next
    case AddFree
    then show ?thesis using cnt tot gs
      by (intro good [where pc = Returned]) (auto intro!: quiet simp: rq_counters_def fetch_add_def algebra_simps)
  next
    case Returned
    then show ?thesis by (intro good) (auto intro!: quiet same)
  qed
qed

lemma rq_drop_last:
  assumes inv: "rq_inv d s xs ys" and i: "i < length (rq_out s)"
  shows "rq_good d (DropLast i) s xs ys"
proof (rule rq_goodI)
  let ?s = "s\<lparr>rq_out := remove_nth i (rq_out s), rq_threads := rq_threads s @ [LoadHead (rq_out s ! i)]\<rparr>"
  show "rq_step (DropLast i) s = Some ?s" "queue_effect (DropLast i) s (xs, ys) = (xs, ys)" by simp_all
  have same: "rq_buffers ?s xs ys = rq_buffers s xs ys"
    using mset_remove_nth [OF i] by (simp add: rq_buffers_def)
  then show "rq_grows (w_heap (rq_world s)) (rq_buffers s xs ys) (rq_buffers ?s xs ys)" by simp
  have "length (rq_out s) = Suc (length (remove_nth i (rq_out s)))"
    using arg_cong [OF mset_remove_nth [OF i], of size] by simp
  then have "rq_counters d ?s (length xs + length ys)"
    using rq_invD(9) [OF inv] by (simp add: rq_counters_def)
  with same inv show "rq_inv d ?s xs ys" by (intro rq_inv_quiet [OF inv]) (auto simp: rq_inv_def)
qed

text \<open>A step of the owner that leaves memory alone.\<close>

lemma rq_owner_good:
  assumes inv: "rq_inv d s xs ys"
    and st: "owner_step (rq_owner s) (rq_pool s) (rq_world s) = Some (pc, pp, w)"
    and out: "out = (case rq_owner s of OwnerTake buf \<Rightarrow> buf # rq_out s | _ \<Rightarrow> rq_out s)"
    and eff: "queue_effect Owner s (xs, ys) = (xs', ys')"
    and w: "w_heap w = w_heap (rq_world s)" "sh_source (w_shared w) = sh_source (w_shared (rq_world s))"
      "sh_page_size (w_shared w) = sh_page_size (w_shared (rq_world s))" "w_strong (rq_world s) \<le> w_strong w"
    and own: "owner_ok pc pp" "chain (w_heap w) (owner_head pc pp) ys'"
    and q: "chain (w_heap w) (sh_return_head (w_shared w)) xs'"
    and b: "mset xs' + mset ys' + owner_buffer pc + mset out = mset xs + mset ys + owner_buffer (rq_owner s) + mset (rq_out s)"
    and c: "rq_counters d (s\<lparr>rq_owner := pc, rq_pool := pp, rq_world := w, rq_out := out\<rparr>) (length xs' + length ys')"
  shows "rq_good d Owner s xs ys"
proof (rule rq_goodI [OF _ eff])
  let ?s = "s\<lparr>rq_owner := pc, rq_pool := pp, rq_world := w, rq_out := out\<rparr>"
  show "rq_step Owner s = Some ?s" using st out by simp
  have same: "rq_buffers ?s xs' ys' = rq_buffers s xs ys" using b by (simp add: rq_buffers_def)
  then show "rq_grows (w_heap (rq_world s)) (rq_buffers s xs ys) (rq_buffers ?s xs' ys')" by simp
  have "0 < w_strong (rq_world s)" using inv by (simp add: rq_inv_def)
  with same w own q c rq_invD(6) [OF inv] show "rq_inv d ?s xs' ys'" by (intro rq_inv_quiet [OF inv]) auto
qed

lemma owner_alloc_cases:
  assumes "owner_step OwnerAlloc pp w = Some (pc', pp', w')"
  obtains (fails) e h where "src_allocate (sh_source (w_shared w)) (w_heap w) = (Inl e, h)" "pc' = OwnerPanicked e" "pp' = pp" "w' = w\<lparr>w_heap := h\<rparr>"
    | (gets) buf h where "src_allocate (sh_source (w_shared w)) (w_heap w) = (Inr buf, h)" "pc' = OwnerUse buf" "pp' = pp" "w' = w\<lparr>w_heap := h\<rparr>"
proof -
  obtain r h where al: "src_allocate (sh_source (w_shared w)) (w_heap w) = (r, h)" by fastforce
  from assms have "get_shared w = Some (w_shared w)" by (auto simp: bind_eq_Some_conv get_shared_def split: if_splits)
  with al assms show thesis by (cases r) (auto intro: that)
qed

text \<open>The source hands the owner a new buffer.\<close>

lemma rq_owner_alloc:
  assumes inv: "rq_inv d s xs ys" and pc: "rq_owner s = OwnerAlloc"
    and al: "src_allocate (sh_source (w_shared (rq_world s))) (w_heap (rq_world s)) = (Inr buf, h)"
  shows "rq_good d Owner s xs ys"
proof (rule rq_goodI)
  let ?w = "rq_world s" and ?n = "rq_size s"
  let ?s = "s\<lparr>rq_owner := OwnerUse buf, rq_world := ?w\<lparr>w_heap := h\<rparr>\<rparr>"
  have src: "page_source_contract (sh_source (w_shared ?w))" using inv by (simp add: rq_inv_def)
  note ok = page_source_contract.allocate_buffer_ok [OF src al]
  have ps: "src_page_size (sh_source (w_shared ?w)) = sh_page_size (w_shared ?w)" using inv by (simp add: rq_inv_def)
  show "rq_step Owner s = Some ?s" using pc al rq_invD(1) [OF inv] by simp
  show "queue_effect Owner s (xs, ys) = (xs, ys)" using pc by simp
  have more: "rq_buffers ?s xs ys = add_mset buf (rq_buffers s xs ys)" using pc by (simp add: rq_buffers_def)
  then show "rq_grows (w_heap ?w) (rq_buffers s xs ys) (rq_buffers ?s xs ys)" using ok(2) by (simp add: rq_grows_def)
  have old: "h x = w_heap ?w x" "x \<noteq> buf" if "x \<in># rq_buffers s xs ys" for x
  proof -
    show "x \<noteq> buf" using rq_invD(2) [OF inv that] ok(2) by (auto simp: buffer_ok_def)
    then show "h x = w_heap ?w x" by (rule ok(3))
  qed
  have ch: "chain h p zs" if "chain (w_heap ?w) p zs" "set zs \<subseteq> set_mset (rq_buffers s xs ys)" for p zs
    by (rule chain_frame [OF _ that(1)]) (use that(2) old in auto)
  show "rq_inv d ?s xs ys"
    unfolding rq_inv_def more
  proof (intro conjI allI impI)
    show "chain (w_heap (rq_world ?s)) (sh_return_head (w_shared (rq_world ?s))) xs"
      using ch [OF rq_invD(7) [OF inv]] by (auto simp: rq_buffers_def)
    show "chain (w_heap (rq_world ?s)) (owner_head (rq_owner ?s) (rq_pool ?s)) ys"
      using ch [OF rq_invD(8) [OF inv]] pc by (auto simp: rq_buffers_def)
    show "rq_counters d ?s (length xs + length ys)"
      using rq_invD(9) [OF inv] pc by (simp add: rq_counters_def)
    show "count (add_mset buf (rq_buffers s xs ys)) x \<le> 1" for x
      using rq_invD(4) [OF inv, of x] old(2) [of buf] by (cases "x = buf") (auto simp: not_in_iff [symmetric])
    show "buffer_ok (w_heap (rq_world ?s)) (rq_size ?s) (rq_source ?s) x" if "x \<in># add_mset buf (rq_buffers s xs ys)" for x
      using that ok(1) ps rq_invD(2) [OF inv] old(1) buffer_ok_cong [of h x "w_heap ?w"] by auto
    show "pc_ok (w_heap (rq_world ?s)) q" if q: "q \<in> set (rq_threads ?s)" for q
      using rq_invD(6) [OF inv, of q] q old(1) tally_mem [of q "rq_threads s" _ pc_buffer]
      by (cases q) (auto simp: ptr_read_def rq_buffers_def)
  qed (use inv in \<open>simp_all add: rq_inv_def\<close>)
qed

lemma rq_owner_source:
  assumes inv: "rq_inv d s xs ys" and pc: "rq_owner s = OwnerAlloc"
  shows "rq_good d Owner s xs ys"
proof -
  obtain r h where al: "src_allocate (sh_source (w_shared (rq_world s))) (w_heap (rq_world s)) = (r, h)" by fastforce
  show ?thesis
  proof (cases r)
    case (Inl e)
    have "page_source_contract (sh_source (w_shared (rq_world s)))" using inv by (simp add: rq_inv_def)
    from page_source_contract.allocate_fail [OF this] al Inl have "h = w_heap (rq_world s)" by simp
    with pc al Inl rq_invD(1,5,7-9) [OF inv] show ?thesis by (intro rq_owner_good [OF inv]) (auto simp: rq_counters_def)
  next
    case (Inr buf)
    with rq_owner_alloc [OF inv pc] al show ?thesis by simp
  qed
qed

text \<open>The owner looks at its local list, and swaps the queue out if that is empty.\<close>

lemma rq_owner_idle:
  assumes inv: "rq_inv d s xs ys" and pc: "rq_owner s = OwnerIdle"
  shows "rq_good d Owner s xs ys"
proof (cases "pp_local_head (rq_pool s) = 0")
  case True
  with pc rq_invD(8) [OF inv] have "ys = []" by (simp add: chain_null)
  with True pc rq_invD(1,7,9) [OF inv] show ?thesis
    by (intro rq_owner_good [OF inv, where xs' = "[]" and w = "set_return_head 0 (rq_world s)" and ys' = xs])
      (auto simp: rq_counters_def)
next
  case False
  with pc rq_invD(7-9) [OF inv] show ?thesis by (intro rq_owner_good [OF inv]) (auto simp: rq_counters_def)
qed

lemma rq_owner_step:
  assumes inv: "rq_inv d s xs ys"
  shows "rq_good d Owner s xs ys"
proof -
  note cnt = rq_invD(9) [OF inv] and own = rq_invD(5,8) [OF inv] and q = rq_invD(1,7) [OF inv] and good = rq_owner_good [OF inv]
  show ?thesis
  proof (cases "rq_owner s")
    case OwnerIdle
    show ?thesis by (rule rq_owner_idle [OF inv OwnerIdle])
  next
    case (OwnerGot head)
    with own q cnt show ?thesis
      by (cases "head = 0") (auto simp: rq_counters_def intro!: good)
  next
    case OwnerPop
    with own have nz: "pp_local_head (rq_pool s) \<noteq> 0" by simp
    with own OwnerPop obtain p zs where ys: "ys = pp_local_head (rq_pool s) # zs"
      "ptr_read (w_heap (rq_world s)) (pp_local_head (rq_pool s)) = Some p" "chain (w_heap (rq_world s)) p zs"
      by (auto simp: chain_head)
    with OwnerPop q cnt show ?thesis by (intro good) (auto simp: rq_counters_def)
  next
    case (OwnerCount buf)
    let ?w = "upd_stats (\<lambda>s. s\<lparr>ps_free_pages := fetch_sub (ps_free_pages s) 1\<rparr>) (rq_world s)"
    from OwnerCount own q cnt show ?thesis
      by (intro good [where w = ?w]) (auto simp: rq_counters_def fetch_sub_def algebra_simps)
  next
    case OwnerFresh
    let ?w = "upd_stats (\<lambda>s. s\<lparr>ps_allocations_from_heap := fetch_add (ps_allocations_from_heap s) 1\<rparr>) (rq_world s)"
    from OwnerFresh own q cnt show ?thesis by (intro good [where w = ?w]) (auto simp: rq_counters_def)
  next
    case OwnerAlloc
    show ?thesis by (rule rq_owner_source [OF inv OwnerAlloc])
  next
    case (OwnerUse buf)
    let ?w = "upd_stats (\<lambda>s. s\<lparr>ps_pages_in_use := fetch_add (ps_pages_in_use s) 1\<rparr>) (rq_world s)"
    from OwnerUse own q cnt show ?thesis
      by (intro good [where w = ?w]) (auto simp: rq_counters_def fetch_add_def)
  next
    case (OwnerTake buf)
    from OwnerTake own q cnt show ?thesis
      by (intro good [where w = "clone_shared (rq_world s)"]) (auto simp: rq_counters_def)
  next
    case (OwnerPanicked e)
    with own q cnt show ?thesis by (intro good) (auto simp: rq_counters_def)
  qed
qed

subsection \<open>All runs\<close>

definition rq_start :: "page_pool \<Rightarrow> 'z pool_world_scheme \<Rightarrow> addr list \<Rightarrow> 'z rq_state" where
  "rq_start pp w us = \<lparr>rq_world = w, rq_pool = pp, rq_owner = OwnerIdle, rq_out = us, rq_threads = []\<rparr>"

definition rq_keeps :: "addr multiset \<Rightarrow> 'z rq_state \<Rightarrow> bool" where
  "rq_keeps K s \<longleftrightarrow> (\<exists>xs ys. rq_inv 0 s xs ys \<and> K \<subseteq># rq_buffers s xs ys)"

lemma rq_start_keeps:
  assumes "pool_inv (Some pp) w a (mset us)" and "free_count_ok w a"
  shows "rq_keeps (a_free a + mset us) (rq_start pp w us)"
proof -
  have "rq_inv 0 (rq_start pp w us) (a_return a) (a_local a)"
    using assms
    by (auto simp: rq_inv_def pool_inv_def rq_start_def rq_buffers_def rq_counters_def free_count_ok_def a_free_def ac_simps)
  moreover have "a_free a + mset us \<subseteq># rq_buffers (rq_start pp w us) (a_return a) (a_local a)"
    by (simp add: rq_start_def rq_buffers_def a_free_def ac_simps)
  ultimately show ?thesis by (auto simp: rq_keeps_def)
qed

lemma rq_step_good: "rq_inv d s xs ys \<Longrightarrow> rq_allowed e s \<Longrightarrow> rq_good d e s xs ys"
  by (cases e) (auto intro: rq_pusher rq_owner_step rq_drop_last)

lemma rq_step_keeps:
  assumes "rq_keeps K s" and "rq_allowed e s"
  shows "\<exists>s'. rq_step e s = Some s' \<and> rq_keeps K s' \<and> True"
proof -
  from assms obtain xs ys where "rq_inv 0 s xs ys" and K: "K \<subseteq># rq_buffers s xs ys" by (auto simp: rq_keeps_def)
  with assms have "rq_good 0 e s xs ys" by (auto intro: rq_step_good)
  then obtain s' xs' ys' where "rq_step e s = Some s'" "rq_inv 0 s' xs' ys'"
    "rq_buffers s xs ys \<subseteq># rq_buffers s' xs' ys'" by (auto simp: rq_good_def dest: rq_growsD)
  with K show ?thesis by (auto simp: rq_keeps_def intro: subset_mset.order_trans)
qed

interpretation return_queue: safe_client rq_allowed rq_step "rq_keeps K" "\<lambda>_ _. True" for K
  by unfold_locales (auto dest: rq_step_keeps)

lemma rq_run_keeps:
  assumes "pool_inv (Some pp) w a (mset us)" and "free_count_ok w a" and "rq_run (rq_start pp w us) es s"
  shows "rq_keeps (a_free a + mset us) s"
  using return_queue.run_inv [OF assms(3) rq_start_keeps [OF assms(1,2)]] by blast

lemma push_alone_returned [simp]: "push_alone n Returned w = Some (Returned, w)"
  by (induction n) auto

lemma push_alone_add:
  "push_alone (m + n) pc w = do { (pc, w) \<leftarrow> push_alone m pc w; push_alone n pc w }"
  by (induction m arbitrary: pc w) (auto split: Option.bind_split)

lemma push_loop_eq: "push_alone 5 (LoadHead raw) w = map_option (Pair Returned) (push_return raw w)"
  by (cases "get_shared w"; cases "ptr_write (w_heap w) raw (sh_return_head (w_shared w))")
    (auto simp: eval_nat_numeral push_return_def get_shared_def split: if_splits)

lemma owner_call_eq:
  assumes "0 < w_strong w"
  shows "owner_call 6 OwnerIdle pp w = allocate_raw_page pp w"
proof -
  have gs: "get_shared v = Some (w_shared v)" if "w_strong v = w_strong w" for v :: "'a pool_world_scheme"
    using that assms by (simp add: get_shared_def)
  show ?thesis
    by (cases "pp_local_head pp = 0"; cases "sh_return_head (w_shared w) = 0")
      (auto simp: eval_nat_numeral allocate_raw_page_def pop_local_def drain_return_queue_def allocate_fresh_def gs Let_def
        split: Option.bind_split prod.split sum.split)
qed

lemma push_alone_load:
  assumes "get_shared w = Some (w_shared w)" and "ptr_write (w_heap w) raw (sh_return_head (w_shared w)) = Some h"
  shows "\<exists>w'. push_alone (5 + n) (LoadHead raw) w = Some (Returned, w')"
  unfolding push_alone_add push_loop_eq using assms by (simp add: push_return_def)

lemma push_alone_cas:
  assumes "get_shared w = Some (w_shared w)" and "ptr_write (w_heap w) raw (sh_return_head (w_shared w)) = Some h"
  shows "\<exists>w'. push_alone (6 + n) (CasHead raw head) w = Some (Returned, w')"
proof (cases "sh_return_head (w_shared w) = head")
  case True
  then show ?thesis using assms by (simp add: eval_nat_numeral get_shared_def split: if_splits)
next
  case False
  then have "push_alone (6 + n) (CasHead raw head) w = push_alone (5 + n) (LoadHead raw) w"
    using assms(1) by (simp add: eval_nat_numeral)
  then show ?thesis using push_alone_load [OF assms, of n] by simp
qed

lemma ptr_write_again: "ptr_write h a v = Some h' \<Longrightarrow> \<exists>h''. ptr_write h' a u = Some h''"
  by (auto simp: ptr_write_def split: option.splits if_splits)

text \<open>A concrete start: one page is out, and its last handle is dropped.\<close>

lemma rq_demo:
  obtains w :: pool_world where "pool_inv (Some demo_pool) w \<lparr>a_local = [], a_return = []\<rparr> (mset [4096])"
    and "free_count_ok w \<lparr>a_local = [], a_return = []\<rparr>"
    and "rq_run (rq_start demo_pool w [4096]) [DropLast 0] (rq_start demo_pool w []\<lparr>rq_threads := [LoadHead 4096]\<rparr>)"
proof -
  have "rq_run (rq_start demo_pool w [4096]) [DropLast 0] (rq_start demo_pool w []\<lparr>rq_threads := [LoadHead 4096]\<rparr>)" for w :: pool_world
    by (simp add: run_eq_exec_all rq_start_def remove_nth_def)
  with demo_first_page that show thesis by auto
qed

lemma rq_demo_chains:
  assumes "pool_inv (Some pp) w a U"
  shows "chain (w_heap (rq_world (rq_start pp w us))) (sh_return_head (w_shared (rq_world (rq_start pp w us)))) (a_return a)"
    and "chain (w_heap (rq_world (rq_start pp w us)))
      (owner_head (rq_owner (rq_start pp w us)) (rq_pool (rq_start pp w us))) (a_local a)"
  using assms by (simp_all add: pool_inv_def rq_start_def)

section \<open>Properties\<close>

text \<open>C17: No interleaving of returning threads with the owner loses or duplicates a buffer. Start from a
  pool in a consistent state with the buffers \<open>us\<close> held by pages, and let threads return them, through any
  number of failed compare-exchanges, while the owner allocates. At every moment the queue and the owner's
  list are well-formed, every buffer is in exactly one place, all the buffers there were are still there, and
  the next step of every thread and of the owner is defined.\<close>

theorem return_queue_conserves:
  assumes "pool_inv (Some pp) w a (mset us)" and "free_count_ok w a" and "rq_run (rq_start pp w us) es s"
  shows "\<exists>xs ys. chain (w_heap (rq_world s)) (sh_return_head (w_shared (rq_world s))) xs
    \<and> chain (w_heap (rq_world s)) (owner_head (rq_owner s) (rq_pool s)) ys
    \<and> (\<forall>x. count (rq_buffers s xs ys) x \<le> 1)
    \<and> a_free a + mset us \<subseteq># rq_buffers s xs ys
    \<and> (\<forall>e. rq_allowed e s \<longrightarrow> (\<exists>s'. rq_step e s = Some s'))"
proof -
  have "rq_keeps (a_free a + mset us) s" by (rule rq_run_keeps [OF assms])
  moreover from this have "\<forall>e. rq_allowed e s \<longrightarrow> (\<exists>s'. rq_step e s = Some s')"
    using return_queue.call_defined by blast
  ultimately show ?thesis by (auto simp: rq_keeps_def rq_inv_def)
qed

theorem return_queue_conserves_witness:
  "\<exists>(w :: pool_world) s s'. rq_run (rq_start demo_pool w [4096]) [DropLast 0] s \<and> rq_step (Pusher 0 True) s = Some s'"
proof -
  obtain w :: pool_world where
    w: "pool_inv (Some demo_pool) w \<lparr>a_local = [], a_return = []\<rparr> (mset [4096])"
      "free_count_ok w \<lparr>a_local = [], a_return = []\<rparr>"
    and run: "rq_run (rq_start demo_pool w [4096]) [DropLast 0] (rq_start demo_pool w []\<lparr>rq_threads := [LoadHead 4096]\<rparr>)"
    by (rule rq_demo)
  have "rq_allowed (Pusher 0 True) (rq_start demo_pool w []\<lparr>rq_threads := [LoadHead 4096]\<rparr>)" by simp
  with return_queue_conserves [OF w run] run show ?thesis by blast
qed

text \<open>C18: The queue is linearizable. In every reachable state each step changes the abstract queue as
  \<open>queue_effect\<close> says: the successful compare-exchange is the point at which a returned buffer becomes the
  front of the queue, whatever other threads did since the head was loaded, the owner's swap takes the whole
  queue, and no other step has an effect.\<close>

theorem return_queue_linearizable:
  assumes "pool_inv (Some pp) w a (mset us)" and "free_count_ok w a" and "rq_run (rq_start pp w us) es s"
    and "rq_allowed e s"
    and "chain (w_heap (rq_world s)) (sh_return_head (w_shared (rq_world s))) xs"
    and "chain (w_heap (rq_world s)) (owner_head (rq_owner s) (rq_pool s)) ys"
  shows "\<exists>s' xs' ys'. rq_step e s = Some s' \<and> queue_effect e s (xs, ys) = (xs', ys')
    \<and> chain (w_heap (rq_world s')) (sh_return_head (w_shared (rq_world s'))) xs'
    \<and> chain (w_heap (rq_world s')) (owner_head (rq_owner s') (rq_pool s')) ys'"
proof -
  from rq_run_keeps [OF assms(1-3)] obtain xs0 ys0 where inv: "rq_inv 0 s xs0 ys0" by (auto simp: rq_keeps_def)
  have "xs0 = xs" "ys0 = ys"
    using chain.rep_unique [OF rq_invD(7) [OF inv] assms(5)] chain.rep_unique [OF rq_invD(8) [OF inv] assms(6)] by auto
  with rq_step_good [OF inv assms(4)] show ?thesis by (auto simp: rq_good_def rq_inv_def)
qed

theorem return_queue_linearizable_witness:
  "\<exists>(w :: pool_world) s'. rq_step Owner (rq_start demo_pool w [4096]) = Some s'
     \<and> chain (w_heap (rq_world s')) (owner_head (rq_owner s') (rq_pool s')) []"
proof -
  obtain w :: pool_world where
    w: "pool_inv (Some demo_pool) w \<lparr>a_local = [], a_return = []\<rparr> (mset [4096])"
      "free_count_ok w \<lparr>a_local = [], a_return = []\<rparr>" by (rule rq_demo) blast
  have "rq_allowed Owner (rq_start demo_pool w [4096])" by simp
  from return_queue_linearizable [OF w run_none this rq_demo_chains [OF w(1)]] show ?thesis
    by (auto simp: rq_start_def demo_pool_def)
qed

text \<open>The compare-exchange loop of \<open>push_return\<close> is obstruction-free: from wherever a thread stands in
  it, in any reachable state, even with a head it loaded long ago, seven steps without interference complete the
  return.\<close>

theorem push_return_obstruction_free:
  assumes "pool_inv (Some pp) w a (mset us)" and "free_count_ok w a" and "rq_run (rq_start pp w us) es s"
    and "i < length (rq_threads s)"
  shows "\<exists>w'. push_alone 7 (rq_threads s ! i) (rq_world s) = Some (Returned, w')"
proof -
  from rq_run_keeps [OF assms(1-3)] obtain xs ys where inv: "rq_inv 0 s xs ys" by (auto simp: rq_keeps_def)
  note gs = rq_invD(1) [OF inv]
  have mem: "raw \<in># rq_buffers s xs ys" if "raw \<in># pc_buffer (rq_threads s ! i)" for raw
    using tally_mem [of _ _ raw pc_buffer, OF nth_mem [OF assms(4)] that] by (simp add: rq_buffers_def)
  have wr: "\<exists>h. ptr_write (w_heap (rq_world s)) raw v = Some h" if "raw \<in># pc_buffer (rq_threads s ! i)" for raw v
    using buffer_ok_ptr_write [OF rq_invD(2) [OF inv mem [OF that]] rq_invD(3) [OF inv]] by metis
  show ?thesis
  proof (cases "rq_threads s ! i")
    case (LoadHead raw)
    then obtain h where "ptr_write (w_heap (rq_world s)) raw (sh_return_head (w_shared (rq_world s))) = Some h"
      using wr by fastforce
    from push_alone_load [OF gs this, of 2] LoadHead show ?thesis by simp
  next
    case (WriteNext raw head)
    then obtain h where h: "ptr_write (w_heap (rq_world s)) raw head = Some h" using wr by fastforce
    let ?w = "rq_world s\<lparr>w_heap := h\<rparr>"
    from ptr_write_again [OF h] obtain h' where
      h': "ptr_write (w_heap ?w) raw (sh_return_head (w_shared ?w)) = Some h'" by auto
    have "get_shared ?w = Some (w_shared ?w)" using gs by (simp add: get_shared_def split: if_splits)
    from push_alone_cas [OF this h', of 0 head] show ?thesis
      using WriteNext h by (simp add: eval_nat_numeral)
  next
    case (CasHead raw head)
    then obtain h where "ptr_write (w_heap (rq_world s)) raw (sh_return_head (w_shared (rq_world s))) = Some h"
      using wr by fastforce
    from push_alone_cas [OF gs this, of 1 head] CasHead show ?thesis by simp
  qed (use gs in \<open>simp_all add: eval_nat_numeral get_shared_def split: if_splits\<close>)
qed

text \<open>Without interference the loop is the atomic \<open>push_return\<close> that the sequential model uses, in every
  world, including those where it is undefined; and the owner's steps, which hold a reference to the shared
  part, are \<open>allocate_raw_page\<close>.\<close>

theorem push_return_loop_eq:
  "push_alone 5 (LoadHead raw) w = map_option (Pair Returned) (push_return raw w)
   \<and> (0 < w_strong v \<longrightarrow> owner_call 6 OwnerIdle pp v = allocate_raw_page pp v)"
  using push_loop_eq owner_call_eq by blast

text \<open>What the counters mean under concurrency. In every reachable state \<open>pages_in_use\<close> counts the pages
  held and the returns that have not reached their decrement, and \<open>free_pages\<close> lags behind the two lists by the
  increments still to come; once every thread has returned and the owner is idle, both are exact.\<close>

theorem return_queue_counters:
  assumes "pool_inv (Some pp) w a (mset us)" and "free_count_ok w a" and "rq_run (rq_start pp w us) es s"
    and "chain (w_heap (rq_world s)) (sh_return_head (w_shared (rq_world s))) xs"
    and "chain (w_heap (rq_world s)) (owner_head (rq_owner s) (rq_pool s)) ys"
  shows "rq_counters 0 s (length xs + length ys)
    \<and> (set (rq_threads s) \<subseteq> {Returned} \<and> rq_owner s = OwnerIdle \<longrightarrow>
        ps_pages_in_use (sh_stats (w_shared (rq_world s))) = of_nat (length (rq_out s))
        \<and> ps_free_pages (sh_stats (w_shared (rq_world s))) = of_nat (length xs + length ys))"
proof -
  from rq_run_keeps [OF assms(1-3)] obtain xs0 ys0 where inv: "rq_inv 0 s xs0 ys0" by (auto simp: rq_keeps_def)
  have "xs0 = xs" "ys0 = ys"
    using chain.rep_unique [OF rq_invD(7) [OF inv] assms(4)] chain.rep_unique [OF rq_invD(8) [OF inv] assms(5)] by auto
  then have cnt: "rq_counters 0 s (length xs + length ys)" using rq_invD(9) [OF inv] by simp
  have "tally pc_in_use ts = 0 \<and> tally pc_uncounted ts = 0" if "set ts \<subseteq> {Returned}" for ts
    using that by (induction ts) auto
  with cnt show ?thesis by (auto simp: rq_counters_def)
qed

text \<open>C39: \<open>free_pages\<close> can be read as \<open>2 ^ 64 - 1\<close>: a thread publishes a buffer and is stopped before its
  \<open>fetch_add\<close>, the owner drains and pops that buffer, and its \<open>fetch_sub\<close> takes the counter below zero.\<close>

theorem free_pages_transient_wrap:
  assumes "pool_inv (Some pp) w \<lparr>a_local = [], a_return = []\<rparr> {#buf#}"
    and "free_count_ok w \<lparr>a_local = [], a_return = []\<rparr>"
  shows "\<exists>s. rq_run (rq_start pp w [buf])
      [DropLast 0, Pusher 0 False, Pusher 0 False, Pusher 0 False, Owner, Owner, Owner, Owner] s
    \<and> unat (ps_free_pages (sh_stats (w_shared (rq_world s)))) = 2 ^ 64 - 1"
proof -
  have ok: "buffer_ok (w_heap w) (unat (sh_page_size (w_shared w))) (sh_source (w_shared w)) buf" "8 \<le> unat (sh_page_size (w_shared w))"
    and head: "pp_local_head pp = 0" "sh_return_head (w_shared w) = 0" and gs: "0 < w_strong w"
    using assms(1) by (auto simp: pool_inv_def)
  from buffer_ok_ptr_write [OF ok] obtain h where h: "ptr_write (w_heap w) buf 0 = Some h" by metis
  have "buf \<noteq> 0" using ok by (simp add: buffer_ok_def)
  moreover have "ps_free_pages (sh_stats (w_shared w)) = 0" using assms(2) by (simp add: free_count_ok_def)
  ultimately show ?thesis using h ptr_read_write [OF h] head gs
    by (simp add: run_eq_exec_all rq_start_def remove_nth_def get_shared_def set_return_head_def upd_stats_def
        fetch_sub_def unsigned_minus_1_eq_mask mask_eq_exp_minus_1)
qed

theorem free_pages_transient_wrap_witness:
  "\<exists>(w :: pool_world) s. rq_run (rq_start demo_pool w [4096])
      [DropLast 0, Pusher 0 False, Pusher 0 False, Pusher 0 False, Owner, Owner, Owner, Owner] s
    \<and> unat (ps_free_pages (sh_stats (w_shared (rq_world s)))) = 2 ^ 64 - 1"
proof -
  obtain w :: pool_world where
    "pool_inv (Some demo_pool) w \<lparr>a_local = [], a_return = []\<rparr> {#4096#}"
      "free_count_ok w \<lparr>a_local = [], a_return = []\<rparr>" by (rule rq_demo) auto
  from free_pages_transient_wrap [OF this] show ?thesis by blast
qed

end
