(* ===== verification/Pool_Threads.thy ===== *)
theory Pool_Threads
  imports Pages Return_Queue
begin

text \<open>
  A pool under concurrency over its whole life, for the page layer and the chunk layer alike. Threads that drop
  the last handle of a buffer run the steps of \<open>push_return\<close>, the decrement of the count of \<open>Arc<PoolShared>\<close> and,
  for the last owner, \<open>Drop for PoolShared\<close>; the owner of the pool takes buffers and at some time drops the pool.
  Every step is one access to shared memory, and memory is sequentially consistent. The one exception is
  \<open>Drop for PoolShared\<close>, whose loop over the return queue is a single step (\<open>FreeShared\<close>, \<open>PoolFree\<close>): it takes
  \<open>&mut self\<close>, and the thread in it had the last reference, so that no other thread can see the loop half done.

  \<open>conc_life\<close> is to these steps what \<open>pool_life\<close> is to the sequential operations: the buffers \<open>U\<close> are out, memory
  outside the buffers of the pool is \<open>h\<close>, and the strong count is the number of owners.
\<close>

section \<open>Threads that drop a handle\<close>

text \<open>Where a thread stands in \<open>Drop for PageBuilder\<close> or \<open>Drop for PageInner\<close>, and then in the drop of the
  field \<open>shared\<close>.\<close>

datatype drop_pc =
    SubBytes addr nat usize
  | SubPages addr nat
  | Pushing push_pc
  | DecShared
  | FreeShared
  | Dropped

text \<open>\<open>buf.take()\<close>: a handle without a buffer only drops its field \<open>shared\<close>.\<close>

fun drop_begin :: "addr option \<Rightarrow> nat \<Rightarrow> usize \<Rightarrow> drop_pc" where
  "drop_begin None t cap = DecShared"
| "drop_begin (Some buf) t cap = SubBytes buf t cap"

definition dec_shared :: "'z pool_world_scheme \<Rightarrow> (bool \<times> 'z pool_world_scheme) option" where
  "dec_shared w = do {
     _ \<leftarrow> get_shared w;
     let w = w\<lparr>w_strong := w_strong w - 1\<rparr>;
     Some (w_strong w = 0, w)
   }"

fun drop_step :: "bool \<Rightarrow> drop_pc \<Rightarrow> 'z pool_world_scheme \<Rightarrow> (drop_pc \<times> 'z pool_world_scheme) option" where
  "drop_step spurious (SubBytes buf t cap) w =
     Some (SubPages buf t, upd_tenant t (\<lambda>s. s\<lparr>t_bytes_in_use := fetch_sub (t_bytes_in_use s) cap\<rparr>) w)"
| "drop_step spurious (SubPages buf t) w =
     Some (Pushing (LoadHead buf), upd_tenant t (\<lambda>s. s\<lparr>t_pages_in_use := fetch_sub (t_pages_in_use s) 1\<rparr>) w)"
| "drop_step spurious (Pushing pc) w = do {
     (pc, w) \<leftarrow> push_step spurious pc w;
     Some (if pc = Returned then DecShared else Pushing pc, w)
   }"
| "drop_step spurious DecShared w = do {
     (last, w) \<leftarrow> dec_shared w;
     Some (if last then FreeShared else Dropped, w)
   }"
| "drop_step spurious FreeShared w = do { w \<leftarrow> pool_shared_drop w; Some (Dropped, w) }"
| "drop_step spurious Dropped w = Some (Dropped, w)"

section \<open>The owner\<close>

text \<open>Where the owner stands: in \<open>allocate\<close> before and after it has its buffer (the second part is
  \<open>record_allocate\<close>), or in \<open>Drop for PagePool\<close>.\<close>

datatype pool_pc =
    PoolIdle
  | PoolAlloc tenant owner_pc
  | PoolRecord tenant addr alloc_pc
  | PoolWalk
  | PoolDec
  | PoolFree
  | PoolGone

fun pool_step :: "pool_pc \<Rightarrow> page_pool \<Rightarrow> 'z pool_world_scheme
    \<Rightarrow> (pool_pc \<times> page_builder option \<times> page_pool \<times> 'z pool_world_scheme) option" where
  "pool_step PoolIdle pp w = Some (PoolIdle, None, pp, w)"
| "pool_step (PoolAlloc t pc) pp w =
     (case pc of
        OwnerPanicked e \<Rightarrow> Some (PoolIdle, None, pp, w)
      | _ \<Rightarrow> do {
          (pc', pp, w) \<leftarrow> owner_step pc pp w;
          Some (case pc of OwnerTake buf \<Rightarrow> PoolRecord t buf AddTotal | _ \<Rightarrow> PoolAlloc t pc', None, pp, w)
        })"
| "pool_step (PoolRecord t buf pc) pp w = do {
     sh \<leftarrow> get_shared w;
     if pc = Finished then Some (PoolIdle, Some (page_builder_new buf (tenant_cell t)), pp, w)
     else let (pc', ts) = alloc_step (sh_page_size sh) pc (w_tenants w (tenant_cell t))
          in Some (PoolRecord t buf pc', None, pp, upd_tenant (tenant_cell t) (\<lambda>_. ts) w)
   }"
| "pool_step PoolWalk pp w =
     (if pp_local_head pp = 0 then Some (PoolDec, None, pp, w)
      else do {
        sh \<leftarrow> get_shared w;
        next \<leftarrow> ptr_read (w_heap w) (pp_local_head pp);
        h \<leftarrow> src_release (sh_source sh) (pp_local_head pp) (w_heap w);
        Some (PoolWalk, None, pp\<lparr>pp_local_head := next\<rparr>, w\<lparr>w_heap := h\<rparr>)
      })"
| "pool_step PoolDec pp w = do {
     (last, w) \<leftarrow> dec_shared w;
     Some (if last then PoolFree else PoolGone, None, pp, w)
   }"
| "pool_step PoolFree pp w = do { w \<leftarrow> pool_shared_drop w; Some (PoolGone, None, pp, w) }"
| "pool_step PoolGone pp w = Some (PoolGone, None, pp, w)"

section \<open>The invariant\<close>

text \<open>References to the shared part that do not come with a buffer that is out, and who has to free the shared
  part.\<close>

fun give_refs :: "drop_pc \<Rightarrow> nat" where
  "give_refs (Pushing pc) = 1"
| "give_refs DecShared = 1"
| "give_refs _ = 0"

fun thread_frees :: "drop_pc \<Rightarrow> nat" where
  "thread_frees FreeShared = 1"
| "thread_frees _ = 0"

fun own_refs :: "pool_pc \<Rightarrow> nat" where
  "own_refs PoolFree = 0"
| "own_refs PoolGone = 0"
| "own_refs _ = 1"

fun pool_frees :: "pool_pc \<Rightarrow> nat" where
  "pool_frees PoolFree = 1"
| "pool_frees _ = 0"

definition conc_refs :: "pool_pc \<Rightarrow> nat \<Rightarrow> drop_pc list \<Rightarrow> addr multiset \<Rightarrow> nat" where
  "conc_refs pc k ts U = size U + tally give_refs ts + own_refs pc + k"

definition conc_frees :: "pool_pc \<Rightarrow> drop_pc list \<Rightarrow> nat" where
  "conc_frees pc ts = tally thread_frees ts + pool_frees pc"

text \<open>The threads and the owner as the return queue sees them.\<close>

fun pusher_of :: "drop_pc \<Rightarrow> push_pc" where
  "pusher_of (Pushing pc) = pc"
| "pusher_of _ = Returned"

fun owner_of :: "pool_pc \<Rightarrow> owner_pc" where
  "owner_of (PoolAlloc t pc) = pc"
| "owner_of _ = OwnerIdle"

definition conc_rq :: "page_pool \<Rightarrow> pool_pc \<Rightarrow> drop_pc list \<Rightarrow> 'z pool_world_scheme \<Rightarrow> addr list \<Rightarrow> 'z rq_state" where
  "conc_rq pp pc ts w out = \<lparr>rq_world = w, rq_pool = pp, rq_owner = owner_of pc, rq_out = out,
     rq_threads = map pusher_of ts\<rparr>"

text \<open>While the shared part exists: the queue and the local list hold \<open>xs\<close> and \<open>ys\<close>, and memory is \<open>h\<close>
  plus the buffers. Once it is gone, memory is \<open>h\<close>, or one thread is about to make it so.\<close>

definition conc_live :: "page_pool \<Rightarrow> pool_pc \<Rightarrow> drop_pc list \<Rightarrow> heap \<Rightarrow> 'z pool_world_scheme \<Rightarrow> addr multiset
    \<Rightarrow> u64 \<Rightarrow> addr list \<Rightarrow> addr list \<Rightarrow> addr list \<Rightarrow> bool" where
  "conc_live pp pc ts h w U d out xs ys \<longleftrightarrow>
     rq_inv d (conc_rq pp pc ts w out) xs ys \<and> mset out = U \<and> conc_frees pc ts = 0 \<and>
     (\<forall>x. x \<notin># rq_buffers (conc_rq pp pc ts w out) xs ys \<longrightarrow> w_heap w x = h x) \<and>
     (\<forall>x. x \<in># rq_buffers (conc_rq pp pc ts w out) xs ys \<longrightarrow> h x = None) \<and>
     (pc = PoolDec \<or> pc = PoolGone \<longrightarrow> pp_local_head pp = 0)"

definition queue_left :: "heap \<Rightarrow> 'z pool_world_scheme \<Rightarrow> bool" where
  "queue_left h w \<longleftrightarrow>
     page_source_contract (sh_source (w_shared w)) \<and>
     (\<exists>xs. chain (w_heap w) (sh_return_head (w_shared w)) xs
       \<and> (\<forall>x \<in> set xs. buffer_ok (w_heap w) (unat (src_page_size (sh_source (w_shared w)))) (sh_source (w_shared w)) x)
       \<and> (\<forall>x. h x = (if x \<in> set xs then None else w_heap w x)))"

definition conc_life :: "page_pool \<Rightarrow> pool_pc \<Rightarrow> nat \<Rightarrow> drop_pc list \<Rightarrow> heap \<Rightarrow> 'z pool_world_scheme
    \<Rightarrow> addr multiset \<Rightarrow> bool" where
  "conc_life pp pc k ts h w U \<longleftrightarrow> w_strong w = conc_refs pc k ts U \<and>
     (if conc_refs pc k ts U = 0
      then conc_frees pc ts = 0 \<and> w_heap w = h \<or> conc_frees pc ts = 1 \<and> queue_left h w
      else \<exists>d out xs ys. conc_live pp pc ts h w U d out xs ys)"

section \<open>Lemmas\<close>

text \<open>What a step of a returning thread and of the owner leaves alone.\<close>

lemma push_step_frame:
  assumes "push_step spurious pc w = Some (pc', w')"
  shows "pool_frame w w'" and "w_strong w' = w_strong w" and "x \<notin># pc_buffer pc \<Longrightarrow> w_heap w' x = w_heap w x"
proof -
  show "pool_frame w w'" using assms
    by (cases pc) (auto simp: bind_eq_Some_conv pool_frame_def split: if_splits)
  show "w_strong w' = w_strong w" using assms
    by (cases pc) (auto simp: bind_eq_Some_conv split: if_splits)
  show "w_heap w' x = w_heap w x" if "x \<notin># pc_buffer pc" using assms that
    by (cases pc) (auto simp: bind_eq_Some_conv ptr_write_Some_iff split: if_splits)
qed

lemma owner_step_frame:
  assumes "owner_step pc pp w = Some (pc', pp', w')" and "page_source_contract (sh_source (w_shared w))"
  shows "pool_frame w w'" and "w_strong w' = w_strong w + (case pc of OwnerTake buf \<Rightarrow> 1 | _ \<Rightarrow> 0)"
    and "w_heap w' x \<noteq> w_heap w x \<Longrightarrow> w_heap w x = None \<and> pc' = OwnerUse x"
proof -
  note fresh = page_source_contract.allocate_buffer_ok [OF assms(2)] page_source_contract.allocate_fail [OF assms(2)]
  have "pool_frame w w' \<and> w_strong w' = w_strong w + (case pc of OwnerTake buf \<Rightarrow> 1 | _ \<Rightarrow> 0)
    \<and> (w_heap w' x \<noteq> w_heap w x \<longrightarrow> w_heap w x = None \<and> pc' = OwnerUse x)"
  proof (cases "pc = OwnerAlloc")
    case True
    from assms(1) [unfolded True] show ?thesis
    proof (cases rule: owner_alloc_cases)
      case (gets buf h)
      with fresh(2) [OF gets(1)] fresh(3) [OF gets(1), of x] True show ?thesis by (auto simp: pool_frame_def)
    qed (use fresh(4) True in \<open>auto simp: pool_frame_def\<close>)
  next
    case False
    with assms(1) show ?thesis by (cases pc) (auto simp: bind_eq_Some_conv pool_frame_def split: if_splits)
  qed
  then show "pool_frame w w'" and "w_strong w' = w_strong w + (case pc of OwnerTake buf \<Rightarrow> 1 | _ \<Rightarrow> 0)"
    and "w_heap w' x \<noteq> w_heap w x \<Longrightarrow> w_heap w x = None \<and> pc' = OwnerUse x" by blast+
qed

lemma tally_map [simp]: "tally f (map g ts) = tally (\<lambda>t. f (g t)) ts"
  by (simp add: tally_def comp_def)

lemma tally_same: "i < length ts \<Longrightarrow> f q = f (ts ! i) \<Longrightarrow> tally f (ts[i := q]) = tally f ts"
  using tally_update(1) [of i ts f] tally_update(2) [of i ts f q] by simp

lemma tally_zero: "tally f ts = (0 :: nat) \<Longrightarrow> pc \<in> set ts \<Longrightarrow> f pc = 0"
  by (induction ts) auto

abbreviation thread_buffers :: "drop_pc list \<Rightarrow> addr multiset" where
  "thread_buffers ts \<equiv> tally (\<lambda>pc. pc_buffer (pusher_of pc)) ts"

abbreviation thread_in_use :: "drop_pc list \<Rightarrow> nat" where
  "thread_in_use ts \<equiv> tally (\<lambda>pc. pc_in_use (pusher_of pc)) ts"

abbreviation thread_uncounted :: "drop_pc list \<Rightarrow> nat" where
  "thread_uncounted ts \<equiv> tally (\<lambda>pc. pc_uncounted (pusher_of pc)) ts"

lemma pusher_same:
  assumes "i < length ts" and "pusher_of q = pusher_of (ts ! i)"
  shows "thread_buffers (ts[i := q]) = thread_buffers ts" "thread_in_use (ts[i := q]) = thread_in_use ts"
    "thread_uncounted (ts[i := q]) = thread_uncounted ts"
  using assms by (auto intro!: tally_same)

lemma conc_rq_simps [simp]:
  "rq_world (conc_rq pp pc ts w out) = w" "rq_pool (conc_rq pp pc ts w out) = pp" "rq_owner (conc_rq pp pc ts w out) = owner_of pc"
  "rq_out (conc_rq pp pc ts w out) = out" "rq_threads (conc_rq pp pc ts w out) = map pusher_of ts"
  by (simp_all add: conc_rq_def)

lemma conc_buffers: "rq_buffers (conc_rq pp pc ts w out) xs ys
    = mset xs + mset ys + owner_buffer (owner_of pc) + mset out + thread_buffers ts"
  by (simp add: rq_buffers_def)

lemma conc_lifeD:
  assumes "conc_life pp pc k ts h w U"
  shows "w_strong w = conc_refs pc k ts U" and "conc_refs pc k ts U \<noteq> 0 \<Longrightarrow> get_shared w = Some (w_shared w)"
  using assms by (simp_all add: conc_life_def get_shared_def)

lemma conc_life_live:
  assumes "conc_life pp pc k ts h w U" and "conc_refs pc k ts U \<noteq> 0"
  obtains d out xs ys where "conc_live pp pc ts h w U d out xs ys"
  using assms by (auto simp: conc_life_def)

lemma conc_lifeI:
  assumes "w_strong w = conc_refs pc k ts U" and "conc_refs pc k ts U \<noteq> 0" and "conc_live pp pc ts h w U d out xs ys"
  shows "conc_life pp pc k ts h w U"
  using assms by (auto simp: conc_life_def)

lemma conc_liveD:
  assumes "conc_live pp pc ts h w U d out xs ys"
  shows "rq_inv d (conc_rq pp pc ts w out) xs ys" and "mset out = U" and "conc_frees pc ts = 0"
    and "x \<in># U \<Longrightarrow> buffer_ok (w_heap w) (unat (sh_page_size (w_shared w))) (sh_source (w_shared w)) x"
    and "x \<in># U \<Longrightarrow> x \<notin># mset xs + mset ys + owner_buffer (owner_of pc) + thread_buffers ts"
    and "count U x \<le> 1" and "x \<notin># rq_buffers (conc_rq pp pc ts w out) xs ys \<Longrightarrow> w_heap w x = h x"
    and "x \<in># rq_buffers (conc_rq pp pc ts w out) xs ys \<Longrightarrow> h x = None"
    and "q \<in> set ts \<Longrightarrow> pc_ok (w_heap w) (pusher_of q)"
proof -
  show inv: "rq_inv d (conc_rq pp pc ts w out) xs ys" and out: "mset out = U" and "conc_frees pc ts = 0"
    using assms by (simp_all add: conc_live_def)
  have B: "rq_buffers (conc_rq pp pc ts w out) xs ys
      = mset xs + mset ys + owner_buffer (owner_of pc) + thread_buffers ts + U" using out by (simp add: conc_buffers ac_simps)
  note once = rq_invD(4) [OF inv, unfolded B]
  show "buffer_ok (w_heap w) (unat (sh_page_size (w_shared w))) (sh_source (w_shared w)) x" if "x \<in># U"
    using rq_invD(2) [OF inv, of x] that by (simp add: B)
  show "x \<notin># mset xs + mset ys + owner_buffer (owner_of pc) + thread_buffers ts" if "x \<in># U"
    using once [of x] that by (intro count_le_one_apart [where B = U]) simp_all
  show "count U x \<le> 1" using once [of x] by simp
  show "x \<notin># rq_buffers (conc_rq pp pc ts w out) xs ys \<Longrightarrow> w_heap w x = h x"
    and "x \<in># rq_buffers (conc_rq pp pc ts w out) xs ys \<Longrightarrow> h x = None" using assms unfolding conc_live_def by blast+
  show "q \<in> set ts \<Longrightarrow> pc_ok (w_heap w) (pusher_of q)" using rq_invD(6) [OF inv] by simp
qed

text \<open>Nobody holds a reference: no buffer is out and no thread is at work.\<close>

lemma conc_refs_0: "conc_refs pc k ts U = 0 \<longleftrightarrow> U = {#} \<and> tally give_refs ts = 0 \<and> own_refs pc = 0 \<and> k = 0"
  by (auto simp: conc_refs_def)

lemma no_give_refs:
  assumes "tally give_refs ts = 0"
  shows "thread_buffers ts = {#}" "thread_in_use ts = 0" "thread_uncounted ts = 0"
proof -
  have "pusher_of pc = Returned" if "pc \<in> set ts" for pc using tally_zero [OF assms that] by (cases pc) auto
  then show "thread_buffers ts = {#}" "thread_in_use ts = 0" "thread_uncounted ts = 0" by (induction ts) auto
qed

lemma conc_life_cong:
  assumes "w_heap w' = w_heap w" and "w_shared w' = w_shared w" and "w_strong w' = w_strong w"
  shows "conc_life pp pc k ts h w' U = conc_life pp pc k ts h w U"
proof -
  have "rq_inv d (conc_rq pp pc ts w' out) xs ys = rq_inv d (conc_rq pp pc ts w out) xs ys" for d out xs ys
    by (simp add: rq_inv_def rq_counters_def conc_buffers assms)
  then have "conc_live pp pc ts h w' U d out xs ys = conc_live pp pc ts h w U d out xs ys" for d out xs ys
    by (simp add: conc_live_def conc_buffers assms)
  then have "(\<exists>d out xs ys. conc_live pp pc ts h w' U d out xs ys) = (\<exists>d out xs ys. conc_live pp pc ts h w U d out xs ys)"
    by blast
  then show ?thesis by (simp add: conc_life_def queue_left_def assms)
qed

text \<open>A step that moves buffers and references between owners, and leaves memory and the lists alone.\<close>

lemma conc_quiet:
  assumes life: "conc_life pp pc k ts h w U" and nz: "conc_refs pc k ts U \<noteq> 0" "conc_refs pc' k' ts' U' \<noteq> 0"
    and w: "w_heap w' = w_heap w" "w_shared w' = w_shared w" "w_strong w' + conc_refs pc k ts U = w_strong w + conc_refs pc' k' ts' U'"
    and own: "owner_of pc' = owner_of pc \<or> owner_of pc' = OwnerIdle \<and> (\<exists>e. owner_of pc = OwnerPanicked e)"
      "conc_frees pc' ts' = conc_frees pc ts"
      "pc' = PoolDec \<or> pc' = PoolGone \<Longrightarrow> pc = PoolDec \<or> pc = PoolGone \<or> pp_local_head pp = 0"
    and b: "U' + thread_buffers ts' = U + thread_buffers ts"
    and c: "size U' + thread_in_use ts' = size U + thread_in_use ts" "thread_uncounted ts' = thread_uncounted ts"
    and ok: "\<And>q. q \<in> set ts' \<Longrightarrow> q \<in> set ts \<or> pc_ok (w_heap w) (pusher_of q)"
  shows "conc_life pp pc' k' ts' h w' U'"
proof -
  from life nz(1) obtain d out xs ys where live: "conc_live pp pc ts h w U d out xs ys" by (rule conc_life_live)
  note L = conc_liveD [OF live]
  obtain out' where out': "mset out' = U'" by (metis ex_mset)
  have len: "length out' = size U'" "length out = size U"
    using arg_cong [OF out', of size] arg_cong [OF L(2), of size] by simp_all
  have o: "owner_buffer (owner_of pc') = owner_buffer (owner_of pc)" "owner_used (owner_of pc') = owner_used (owner_of pc)" "owner_free (owner_of pc') = owner_free (owner_of pc)"
    "owner_head (owner_of pc') pp = owner_head (owner_of pc) pp" "owner_ok (owner_of pc') pp = owner_ok (owner_of pc) pp"
    using own(1) by auto
  have same: "rq_buffers (conc_rq pp pc' ts' w' out') xs ys = rq_buffers (conc_rq pp pc ts w out) xs ys"
    using b L(2) out' by (simp add: conc_buffers o ac_simps)
  have strong: "w_strong w' = conc_refs pc' k' ts' U'" using w(3) conc_lifeD(1) [OF life] by simp
  have "rq_inv d (conc_rq pp pc' ts' w' out') xs ys"
  proof (rule rq_inv_quiet [OF L(1)])
    show "rq_counters d (conc_rq pp pc' ts' w' out') (length xs + length ys)"
      using rq_invD(9) [OF L(1)] c len w(2) by (simp add: rq_counters_def o flip: of_nat_add)
    show "pc_ok (w_heap (rq_world (conc_rq pp pc ts w out))) q" if "q \<in> set (rq_threads (conc_rq pp pc' ts' w' out'))" for q
      using that ok L(9) by auto
  qed (use rq_invD(5,7,8) [OF L(1)] w strong nz(2) o same in simp_all)
  then have "conc_live pp pc' ts' h w' U' d out' xs ys"
    using live out' own w(1) by (auto simp: conc_live_def same)
  with strong nz(2) show ?thesis by (rule conc_lifeI)
qed

text \<open>Special cases: the owner is elsewhere in its code, a thread that has nothing to return comes or goes, and the
  holder of a buffer starts to return it.\<close>

lemma conc_owner:
  assumes "conc_life pp pc k ts h w U" and "own_refs pc = 1" and "own_refs pc' = 1"
    and "owner_of pc' = owner_of pc \<or> owner_of pc' = OwnerIdle \<and> (\<exists>e. owner_of pc = OwnerPanicked e)"
    and "pc' = PoolDec \<Longrightarrow> pp_local_head pp = 0"
  shows "conc_life pp pc' k ts h w U"
proof (rule conc_quiet [OF assms(1)])
  have "pool_frees pc = 0" "pool_frees pc' = 0" using assms(2,3) by (cases pc, simp_all) (cases pc', simp_all)
  then show "conc_frees pc' ts = conc_frees pc ts" by (simp add: conc_frees_def)
qed (use assms(2-5) in \<open>auto simp: conc_refs_def\<close>)

definition idle_pc :: "drop_pc \<Rightarrow> bool" where
  "idle_pc pc \<longleftrightarrow> pusher_of pc = Returned \<and> give_refs pc = 0 \<and> thread_frees pc = 0"

lemma idle_pc_simps [simp]:
  "idle_pc (SubBytes buf t cap)" "idle_pc (SubPages buf t)" "idle_pc Dropped" "\<not> idle_pc DecShared" "\<not> idle_pc FreeShared"
  "\<not> idle_pc (Pushing q)"
  by (simp_all add: idle_pc_def)

lemma conc_life_threads:
  assumes "thread_buffers ts' = thread_buffers ts" and "thread_in_use ts' = thread_in_use ts"
    and "thread_uncounted ts' = thread_uncounted ts" and "tally give_refs ts' = tally give_refs ts"
    and "tally thread_frees ts' = tally thread_frees ts" and "\<And>q. q \<in> set ts' \<Longrightarrow> q \<in> set ts \<or> pusher_of q = Returned"
    and "conc_life pp pc k ts h w U"
  shows "conc_life pp pc k ts' h w U"
proof (cases "conc_refs pc k ts U = 0")
  case True
  with assms(4,5,7) show ?thesis by (simp add: conc_life_def conc_refs_def conc_frees_def)
next
  case False
  show ?thesis
    by (rule conc_quiet [OF assms(7) False])
      (use assms(1-6) False in \<open>fastforce simp: conc_refs_def conc_frees_def\<close>)+
qed

lemma conc_thread_idle:
  assumes "i < length ts" and "idle_pc (ts ! i)" and "idle_pc q" and "conc_life pp pc k ts h w U"
  shows "conc_life pp pc k (ts[i := q]) h w U"
  using assms(2,3) set_update_subset_insert [of ts i q]
  by (intro conc_life_threads [OF _ _ _ _ _ _ assms(4)] tally_same [OF assms(1)]) (auto simp: idle_pc_def)

lemma conc_thread_new:
  assumes "conc_life pp pc k ts h w U" and "idle_pc q"
  shows "conc_life pp pc k (ts @ [q]) h w U"
  using assms(2) by (intro conc_life_threads [OF _ _ _ _ _ _ assms(1)]) (auto simp: idle_pc_def)

lemma conc_give:
  assumes life: "conc_life pp pc k ts h w (add_mset buf U)" and i: "i < length ts" and idle: "idle_pc (ts ! i)"
  shows "conc_life pp pc k (ts[i := Pushing (LoadHead buf)]) h w U"
proof (rule conc_quiet [OF life])
  let ?ts = "ts[i := Pushing (LoadHead buf)]"
  have idle': "pusher_of (ts ! i) = Returned" "give_refs (ts ! i) = 0" "thread_frees (ts ! i) = 0" using idle by (simp_all add: idle_pc_def)
  note t = tally_update [OF i, of "\<lambda>pc. pc_buffer (pusher_of pc)"] tally_update [OF i, of "\<lambda>pc. pc_in_use (pusher_of pc)"]
    tally_update [OF i, of "\<lambda>pc. pc_uncounted (pusher_of pc)"] tally_update [OF i, of give_refs] tally_update [OF i, of thread_frees]
  show "U + thread_buffers ?ts = add_mset buf U + thread_buffers ts" using t(1,2) idle' by simp
  show "size U + thread_in_use ?ts = size (add_mset buf U) + thread_in_use ts" using t(3,4) idle' by simp
  show "thread_uncounted ?ts = thread_uncounted ts" using t(5,6) idle' by simp
  show "conc_frees pc ?ts = conc_frees pc ts" using t(9,10) idle' by (simp add: conc_frees_def)
  show "conc_refs pc k ?ts U \<noteq> 0" using t(8) by (simp add: conc_refs_def)
  show "w_strong w + conc_refs pc k ts (add_mset buf U) = w_strong w + conc_refs pc k ?ts U"
    using t(7,8) idle' by (simp add: conc_refs_def)
  show "q \<in> set ts \<or> pc_ok (w_heap w) (pusher_of q)" if "q \<in> set ?ts" for q
    using that set_update_subset_insert [of ts i "Pushing (LoadHead buf)"] by auto
qed (auto simp: conc_refs_def)

subsection \<open>Steps of a returning thread\<close>

lemma conc_push:
  assumes life: "conc_life pp own k ts h w U" and i: "i < length ts" and pc: "ts ! i = Pushing q" 
  shows "\<exists>pc w'. drop_step spurious (Pushing q) w = Some (pc, w') \<and> conc_life pp own k (ts[i := pc]) h w' U
    \<and> pool_frame w w' \<and> (\<forall>y. y \<in># U \<longrightarrow> w_heap w' y = w_heap w y) \<and> (pc = DecShared \<or> (\<exists>q'. pc = Pushing q' \<and> q' \<noteq> Returned))"
proof -
  note tu = tally_update [OF i]
  have nz: "conc_refs own k ts U \<noteq> 0" using tu(1) [of give_refs] pc by (simp add: conc_refs_def)
  with life obtain d out xs ys where live: "conc_live pp own ts h w U d out xs ys" by (rule conc_life_live)
  note L = conc_liveD [OF live]
  let ?s = "conc_rq pp own ts w out"
  have i': "i < length (rq_threads ?s)" using i by simp
  from rq_pusher [OF L(1) i', of spurious] i pc obtain q' w' xs' ys' where
    st: "push_step spurious q w = Some (q', w')"
    and rq: "rq_inv d (?s\<lparr>rq_threads := (map pusher_of ts)[i := q'], rq_world := w'\<rparr>) xs' ys'"
      "rq_grows (w_heap w) (rq_buffers ?s xs ys) (rq_buffers (?s\<lparr>rq_threads := (map pusher_of ts)[i := q'], rq_world := w'\<rparr>) xs' ys')"
    by (auto simp: rq_good_def bind_eq_Some_conv)
  note fr = push_step_frame [OF st]
  let ?pc = "if q' = Returned then DecShared else Pushing q'"
  have eq: "?s\<lparr>rq_threads := (map pusher_of ts)[i := q'], rq_world := w'\<rparr> = conc_rq pp own (ts[i := ?pc]) w' out"
    by (simp add: conc_rq_def map_update)
  note rq' = rq [unfolded eq] and g = rq_growsD [OF rq(2) [unfolded eq]]
  have mine: "x \<in># thread_buffers ts" if "x \<in># pc_buffer q" for x
    using that tally_mem [OF nth_mem [OF i], of x "\<lambda>pc. pc_buffer (pusher_of pc)"] pc by simp
  have "conc_live pp own (ts[i := ?pc]) h w' U d out xs' ys'"
    unfolding conc_live_def
  proof (intro conjI allI impI)
    show "rq_inv d (conc_rq pp own (ts[i := ?pc]) w' out) xs' ys'" by (rule rq'(1))
    show "conc_frees own (ts[i := ?pc]) = 0" using L(3) tu [of thread_frees] pc by (simp add: conc_frees_def)
    fix x
    show "w_heap w' x = h x" if x: "x \<notin># rq_buffers (conc_rq pp own (ts[i := ?pc]) w' out) xs' ys'"
    proof -
      have x': "x \<notin># rq_buffers ?s xs ys" using x rq_grows_mem [OF rq'(2)] by blast
      with mine have "x \<notin># pc_buffer q" by (auto simp: conc_buffers)
      with fr(3) L(7) [OF x'] show ?thesis by simp
    qed
    show "h x = None" if "x \<in># rq_buffers (conc_rq pp own (ts[i := ?pc]) w' out) xs' ys'"
      using that g L(7,8) by metis
  qed (use live in \<open>auto simp: conc_live_def\<close>)
  moreover have "conc_refs own k (ts[i := ?pc]) U = conc_refs own k ts U"
    using tu [of give_refs] pc by (simp add: conc_refs_def)
  ultimately have "conc_life pp own k (ts[i := ?pc]) h w' U"
    using nz fr(2) conc_lifeD(1) [OF life] by (intro conc_lifeI) simp_all
  moreover have "w_heap w' y = w_heap w y" if "y \<in># U" for y using L(5) [OF that] mine fr(3) [of y] by auto
  ultimately show ?thesis using st fr(1) by auto
qed

text \<open>The end of the shared part: the last reference is dropped when the only buffers left are queued.\<close>

lemma queue_left_drop:
  assumes "queue_left h w"
  shows "\<exists>w'. pool_shared_drop w = Some w' \<and> w_heap w' = h \<and> pool_frame w w' \<and> w_strong w' = w_strong w"
proof -
  from assms obtain xs where src: "page_source_contract (sh_source (w_shared w))"
    and xs: "chain (w_heap w) (sh_return_head (w_shared w)) xs"
      "\<forall>x \<in> set xs. buffer_ok (w_heap w) (unat (src_page_size (sh_source (w_shared w)))) (sh_source (w_shared w)) x"
    and h: "h = (\<lambda>x. if x \<in> set xs then None else w_heap w x)" by (auto simp: queue_left_def)
  from page_source_contract.release_loop_chain [OF src xs] show ?thesis
    by (simp add: pool_shared_drop_def set_return_head_def pool_frame_def h)
qed

lemma conc_last_ref:
  assumes live: "conc_live pp pc ts h w {#} d out xs ys" and "thread_buffers ts = {#}" and own: "pc = PoolDec \<or> pc = PoolGone"
  shows "queue_left h (w\<lparr>w_strong := 0\<rparr>)"
proof -
  note L = conc_liveD [OF live]
  have "pp_local_head pp = 0" using live own by (auto simp: conc_live_def)
  with rq_invD(8) [OF L(1)] own have ys: "ys = []" by (auto simp: chain_null)
  have bufs: "rq_buffers (conc_rq pp pc ts w out) xs ys = mset xs"
    using assms(2) own L(2) by (auto simp: conc_buffers ys)
  have "h x = (if x \<in> set xs then None else w_heap w x)" for x using L(7,8) [of x] bufs by auto
  moreover have "buffer_ok (w_heap w) (unat (sh_page_size (w_shared w))) (sh_source (w_shared w)) x" if "x \<in> set xs" for x
    using rq_invD(2) [OF L(1), of x] that by (simp add: bufs)
  ultimately show ?thesis using rq_invD(7) [OF L(1)] L(1) by (auto simp: queue_left_def rq_inv_def)
qed

text \<open>Dropping a reference to the shared part, in a thread or in the owner: \<open>ts'\<close> and \<open>pc'\<close> have one reference less,
  and the last one has to free the shared part.\<close>

lemma conc_dec:
  assumes life: "conc_life pp pc k ts h w U" and refs: "conc_refs pc k ts U = Suc (conc_refs pc' k ts' U)"
    and frees: "conc_frees pc' ts' = conc_frees pc ts + (if conc_refs pc' k ts' U = 0 then 1 else 0)"
    and own: "owner_of pc' = owner_of pc" "own_refs pc' = 0 \<Longrightarrow> pc = PoolDec \<or> pc = PoolGone \<or> pc = PoolFree" "pc' = PoolDec \<Longrightarrow> pc = PoolDec"
    and t: "thread_buffers ts' = thread_buffers ts" "thread_in_use ts' = thread_in_use ts"
      "thread_uncounted ts' = thread_uncounted ts" "\<And>q. q \<in> set ts' \<Longrightarrow> q \<in> set ts \<or> pusher_of q = Returned"
  shows "dec_shared w = Some (conc_refs pc' k ts' U = 0, w\<lparr>w_strong := w_strong w - 1\<rparr>)"
    and "conc_life pp pc' k ts' h (w\<lparr>w_strong := w_strong w - 1\<rparr>) U"
proof -
  have strong: "w_strong w = conc_refs pc k ts U" using life by (rule conc_lifeD)
  with refs show "dec_shared w = Some (conc_refs pc' k ts' U = 0, w\<lparr>w_strong := w_strong w - 1\<rparr>)"
    by (simp add: dec_shared_def get_shared_def)
  show "conc_life pp pc' k ts' h (w\<lparr>w_strong := w_strong w - 1\<rparr>) U"
  proof (cases "conc_refs pc' k ts' U = 0")
    case False
    have gone: "pc = PoolDec \<or> pc = PoolGone \<or> pp_local_head pp = 0" if "pc' = PoolDec \<or> pc' = PoolGone"
      using that own life refs by (auto simp: conc_life_def conc_live_def conc_frees_def)
    show ?thesis
      by (rule conc_quiet [OF life]) (use refs frees False strong own t gone in \<open>fastforce+\<close>)
  next
    case True
    then have U: "U = {#}" "tally give_refs ts' = 0" "own_refs pc' = 0" by (simp_all add: conc_refs_0)
    from life refs obtain d out xs ys where live: "conc_live pp pc ts h w U d out xs ys" by (auto simp: conc_life_def)
    note L = conc_liveD [OF live]
    have "pc \<noteq> PoolFree" using L(3) by (auto simp: conc_frees_def)
    with own(2) U(3) have pc: "pc = PoolDec \<or> pc = PoolGone" by blast
    have "thread_buffers ts = {#}" using no_give_refs [OF U(2)] t(1) by simp
    from conc_last_ref [OF live [unfolded U(1)] this pc] have "queue_left h (w\<lparr>w_strong := w_strong w - 1\<rparr>)"
      using strong refs True by simp
    with True strong refs frees L(3) show ?thesis by (simp add: conc_life_def)
  qed
qed

lemma conc_thread:
  assumes life: "conc_life pp own k ts h w U" and i: "i < length ts" and pc: "ts ! i = pc0" "\<And>q. pc0 = Pushing q \<Longrightarrow> q \<noteq> Returned"
    and not: "\<And>buf t cap. pc0 \<noteq> SubBytes buf t cap" "\<And>buf t. pc0 \<noteq> SubPages buf t"
  shows "\<exists>pc w'. drop_step spurious pc0 w = Some (pc, w') \<and> conc_life pp own k (ts[i := pc]) h w' U
    \<and> pool_frame w w' \<and> (\<forall>y. y \<in># U \<longrightarrow> w_heap w' y = w_heap w y)
    \<and> pc \<in> {DecShared, FreeShared, Dropped} \<union> {Pushing q | q. q \<noteq> Returned}"
proof (cases pc0)
  case (Pushing q)
  from conc_push [OF life i pc(1) [unfolded Pushing], of spurious] obtain pc w' where
    "drop_step spurious (Pushing q) w = Some (pc, w')" "conc_life pp own k (ts[i := pc]) h w' U" "pool_frame w w'"
    "\<forall>y. y \<in># U \<longrightarrow> w_heap w' y = w_heap w y" "pc = DecShared \<or> (\<exists>q'. pc = Pushing q' \<and> q' \<noteq> Returned)" by blast
  then show ?thesis unfolding Pushing by (intro exI [of _ pc] exI [of _ w']) (auto simp del: drop_step.simps)
next
  case DecShared
  note tu = tally_update [OF i]
  define r where "r = conc_refs own k (ts[i := Dropped]) U"
  have refs: "conc_refs own k ts U = Suc r" "conc_refs own k (ts[i := q]) U = r" if "q = FreeShared \<or> q = Dropped" for q
    using tu [of give_refs] pc(1) DecShared that by (auto simp: conc_refs_def r_def)
  let ?q = "if r = 0 then FreeShared else Dropped"
  have q: "?q = FreeShared \<or> ?q = Dropped" by simp
  have own: "own = PoolDec \<or> own = PoolGone \<or> own = PoolFree" if "own_refs own = 0" using that by (cases own) auto
  have "pusher_of ?q = pusher_of (ts ! i)" using pc(1) DecShared by simp
  have new: "p \<in> set ts \<or> pusher_of p = Returned" if "p \<in> set (ts[i := ?q])" for p
    using that set_update_subset_insert [of ts i ?q] by (auto split: if_splits)
  note same = pusher_same [OF i \<open>pusher_of ?q = pusher_of (ts ! i)\<close>] and tf = tally_update [OF i, of thread_frees]
  have "dec_shared w = Some (conc_refs own k (ts[i := ?q]) U = 0, w\<lparr>w_strong := w_strong w - 1\<rparr>)"
    "conc_life pp own k (ts[i := ?q]) h (w\<lparr>w_strong := w_strong w - 1\<rparr>) U"
    using conc_dec [OF life _ _ refl own _ same new] refs [OF q] pc(1) DecShared tf by (simp_all add: conc_frees_def)
  then show ?thesis unfolding DecShared refs(2) [OF q] by (auto simp: pool_frame_def)
next
  case FreeShared
  have tf: "tally thread_frees ts = Suc (tally thread_frees (ts[i := Dropped]))"
    "tally give_refs (ts[i := Dropped]) = tally give_refs ts"
    using tally_update [OF i, of thread_frees] tally_update [OF i, of give_refs] pc(1) FreeShared by simp_all
  then have z: "conc_refs own k ts U = 0" using life by (auto simp: conc_life_def conc_live_def conc_frees_def split: if_splits)
  with life tf have "queue_left h w" and one: "tally thread_frees (ts[i := Dropped]) + pool_frees own = 0"
    by (auto simp: conc_life_def conc_frees_def)
  from queue_left_drop [OF this(1)] obtain w' where w': "pool_shared_drop w = Some w'" "w_heap w' = h" "pool_frame w w'"
    "w_strong w' = w_strong w" by blast
  with life z one tf(2) have "conc_life pp own k (ts[i := Dropped]) h w' U"
    by (simp add: conc_life_def conc_frees_def conc_refs_def)
  with w' z show ?thesis unfolding FreeShared by (auto simp: conc_refs_0)
next
  case Dropped
  with pc(1) have "ts[i := Dropped] = ts" by (metis list_update_id)
  with life show ?thesis unfolding Dropped by simp
qed (use not in auto)

subsection \<open>Steps of the owner\<close>

lemma conc_alloc:
  assumes life: "conc_life pp (PoolAlloc t q) k ts h w U"
  shows "\<exists>q' pp' w'. owner_step q pp w = Some (q', pp', w') \<and> pool_frame w w'
    \<and> conc_life pp' (PoolAlloc t q') k ts h w' (owner_buffer (case q of OwnerTake buf \<Rightarrow> q | _ \<Rightarrow> OwnerIdle) + U)
    \<and> (\<forall>y. y \<in># U \<longrightarrow> w_heap w' y = w_heap w y) \<and> ((\<exists>buf. q = OwnerTake buf) \<longrightarrow> q' = OwnerIdle \<and> w_heap w' = w_heap w)"
proof -
  let ?pc = "PoolAlloc t q"
  have nz: "conc_refs ?pc k ts U \<noteq> 0" by (simp add: conc_refs_def)
  with life obtain d out xs ys where live: "conc_live pp ?pc ts h w U d out xs ys" by (rule conc_life_live)
  note L = conc_liveD [OF live]
  let ?s = "conc_rq pp ?pc ts w out"
  have src: "page_source_contract (sh_source (w_shared w))" using L(1) by (simp add: rq_inv_def)
  let ?B = "owner_buffer (case q of OwnerTake buf \<Rightarrow> q | _ \<Rightarrow> OwnerIdle)"
  define out' where "out' = (case q of OwnerTake buf \<Rightarrow> buf # out | _ \<Rightarrow> out)"
  from rq_owner_step [OF L(1)] obtain q' pp' w' xs' ys' where
    st: "owner_step q pp w = Some (q', pp', w')"
    and rq: "rq_inv d (?s\<lparr>rq_owner := q', rq_pool := pp', rq_world := w', rq_out := out'\<rparr>) xs' ys'"
      "rq_grows (w_heap w) (rq_buffers ?s xs ys)
        (rq_buffers (?s\<lparr>rq_owner := q', rq_pool := pp', rq_world := w', rq_out := out'\<rparr>) xs' ys')"
    by (auto simp: rq_good_def bind_eq_Some_conv out'_def simp del: owner_step.simps cong: owner_pc.case_cong)
  note fr = owner_step_frame [OF st src]
  have eq: "?s\<lparr>rq_owner := q', rq_pool := pp', rq_world := w', rq_out := out'\<rparr> = conc_rq pp' (PoolAlloc t q') ts w' out'"
    by (simp add: conc_rq_def)
  note rq' = rq [unfolded eq] and g = rq_growsD [OF rq(2) [unfolded eq]]
  have out: "mset out' = ?B + U" using L(2) by (cases q) (simp_all add: out'_def)
  have take: "q' = OwnerIdle \<and> w_heap w' = w_heap w" if "q = OwnerTake buf" for buf
    using st that by (auto simp: bind_eq_Some_conv)
  have "conc_live pp' (PoolAlloc t q') ts h w' (?B + U) d out' xs' ys'"
    unfolding conc_live_def
  proof (intro conjI allI impI)
    show "rq_inv d (conc_rq pp' (PoolAlloc t q') ts w' out') xs' ys'" by (rule rq'(1))
    fix x
    show "w_heap w' x = h x" if x: "x \<notin># rq_buffers (conc_rq pp' (PoolAlloc t q') ts w' out') xs' ys'"
    proof -
      have x': "x \<notin># rq_buffers ?s xs ys" using x rq_grows_mem [OF rq'(2)] by blast
      have "q' \<noteq> OwnerUse x" using x by (auto simp: conc_buffers)
      with fr(3) [of x] L(7) [OF x'] show ?thesis by metis
    qed
    show "h x = None" if "x \<in># rq_buffers (conc_rq pp' (PoolAlloc t q') ts w' out') xs' ys'"
      using that g L(7,8) by metis
  qed (use live out in \<open>auto simp: conc_live_def conc_frees_def\<close>)
  moreover have "w_strong w' = conc_refs (PoolAlloc t q') k ts (?B + U)"
    using fr(2) conc_lifeD(1) [OF life] by (cases q) (simp_all add: conc_refs_def)
  ultimately have "conc_life pp' (PoolAlloc t q') k ts h w' (?B + U)"
    by (intro conc_lifeI) (simp_all add: conc_refs_def)
  moreover have "w_heap w' y = w_heap w y" if "y \<in># U" for y
    using fr(3) [of y] L(4) [OF that] by (metis buffer_okE option.distinct(1))
  ultimately show ?thesis using st fr(1) take by blast
qed

text \<open>\<open>Drop for PagePool\<close> releases the first buffer of the local list; \<open>free_pages\<close> keeps counting it.\<close>

lemma rq_release:
  assumes inv: "rq_inv d s xs (x # ys)" and idle: "rq_owner s = OwnerIdle"
    and rd: "ptr_read (w_heap (rq_world s)) x = Some p"
  shows "rq_inv (d + 1) (s\<lparr>rq_pool := (rq_pool s)\<lparr>pp_local_head := p\<rparr>,
      rq_world := (rq_world s)\<lparr>w_heap := (w_heap (rq_world s))(x := None)\<rparr>\<rparr>) xs ys"
proof -
  let ?h = "(w_heap (rq_world s))(x := None)"
  let ?s = "s\<lparr>rq_pool := (rq_pool s)\<lparr>pp_local_head := p\<rparr>, rq_world := (rq_world s)\<lparr>w_heap := ?h\<rparr>\<rparr>"
  have B: "rq_buffers s xs (x # ys) = add_mset x (rq_buffers ?s xs ys)" by (simp add: rq_buffers_def)
  then have x: "x \<notin># rq_buffers ?s xs ys" using rq_invD(4) [OF inv, of x] by (simp add: not_in_iff)
  have frame: "chain ?h q zs" if "chain (w_heap (rq_world s)) q zs" and "x \<notin> set zs" for q zs
    by (rule chain_frame [OF _ that(1)]) (use that(2) in auto)
  have pcs: "pc_ok ?h q" if "q \<in> set (rq_threads s)" for q
    using rq_invD(6) [OF inv that] x tally_mem [OF that, of x pc_buffer]
    by (cases q) (auto simp: ptr_read_def rq_buffers_def)
  have "chain (w_heap (rq_world s)) p ys" using rq_invD(8) [OF inv] idle rd by simp
  then have ys: "chain ?h p ys" using x by (intro frame) (auto simp: rq_buffers_def)
  have xs: "chain ?h (sh_return_head (w_shared (rq_world s))) xs"
    using rq_invD(7) [OF inv] x by (intro frame) (auto simp: rq_buffers_def)
  have cnt: "rq_counters (d + 1) ?s (length xs + length ys)"
    using rq_invD(9) [OF inv] by (simp add: rq_counters_def algebra_simps)
  have ok: "buffer_ok ?h (rq_size s) (rq_source s) y" if "y \<in># rq_buffers ?s xs ys" for y
    using rq_invD(2) [OF inv, of y] that x B by (auto simp: buffer_ok_def)
  have once: "count (rq_buffers ?s xs ys) y \<le> 1" for y
    using rq_invD(4) [OF inv, of y] unfolding B by (auto split: if_splits)
  show ?thesis using inv xs ys cnt ok once pcs idle by (simp add: rq_inv_def)
qed

lemma conc_walk_release:
  assumes life: "conc_life pp PoolWalk k ts h w U" and nz: "pp_local_head pp \<noteq> 0"
  obtains p where "ptr_read (w_heap w) (pp_local_head pp) = Some p"
    and "pool_step PoolWalk pp w = Some (PoolWalk, None, pp\<lparr>pp_local_head := p\<rparr>,
      w\<lparr>w_heap := (w_heap w)(pp_local_head pp := None)\<rparr>)"
    and "conc_life (pp\<lparr>pp_local_head := p\<rparr>) PoolWalk k ts h (w\<lparr>w_heap := (w_heap w)(pp_local_head pp := None)\<rparr>) U"
    and "pp_local_head pp \<notin># U"
proof -
  have refs: "conc_refs PoolWalk k ts U \<noteq> 0" by (simp add: conc_refs_def)
  with life obtain d out xs ys where live: "conc_live pp PoolWalk ts h w U d out xs ys" by (rule conc_life_live)
  note L = conc_liveD [OF live]
  let ?x = "pp_local_head pp" and ?s = "conc_rq pp PoolWalk ts w out"
  from rq_invD(8) [OF L(1)] nz obtain p zs where ys: "ys = ?x # zs" and rd: "ptr_read (w_heap w) ?x = Some p"
    by (auto simp: chain_head)
  let ?w = "w\<lparr>w_heap := (w_heap w)(?x := None)\<rparr>" and ?pp = "pp\<lparr>pp_local_head := p\<rparr>"
  have src: "page_source_contract (sh_source (w_shared w))" "src_page_size (sh_source (w_shared w)) = sh_page_size (w_shared w)"
    using L(1) by (simp_all add: rq_inv_def)
  have "buffer_ok (w_heap w) (unat (sh_page_size (w_shared w))) (sh_source (w_shared w)) ?x"
    using rq_invD(2) [OF L(1), of ?x] by (simp add: conc_buffers ys)
  then have "src_release (sh_source (w_shared w)) ?x (w_heap w) = Some (w_heap ?w)"
    using page_source_contract.release_ok [OF src(1)] src(2) by (auto elim: buffer_okE)
  with rd nz conc_lifeD(2) [OF life refs] have st: "pool_step PoolWalk pp w = Some (PoolWalk, None, ?pp, ?w)" by simp
  have B: "rq_buffers ?s xs ys = add_mset ?x (rq_buffers (conc_rq ?pp PoolWalk ts ?w out) xs zs)"
    by (simp add: ys conc_buffers)
  have "rq_inv (d + 1) (conc_rq ?pp PoolWalk ts ?w out) xs zs"
    using rq_release [OF L(1) [unfolded ys], of p] rd by (simp add: conc_rq_def)
  then have "conc_live ?pp PoolWalk ts h ?w U (d + 1) out xs zs"
    using L(2,3,7,8) B unfolding conc_live_def by auto
  then have "conc_life ?pp PoolWalk k ts h ?w U" using conc_lifeD(1) [OF life] refs by (intro conc_lifeI) simp_all
  moreover have "?x \<notin># U" using L(5) [of ?x] by (auto simp: ys)
  ultimately show thesis using rd st that by blast
qed

text \<open>The walk ends: each step takes the head of the list away.\<close>

lemma conc_walk_chain:
  assumes life: "conc_life pp PoolWalk k ts h w U"
  shows "\<exists>ys. chain (w_heap w) (pp_local_head pp) ys"
    and "chain (w_heap w) (pp_local_head pp) ys \<Longrightarrow> pool_step PoolWalk pp w = Some (pc, b, pp', w') \<Longrightarrow>
      (case ys of [] \<Rightarrow> pc = PoolDec | y # zs \<Rightarrow> pc = PoolWalk \<and> chain (w_heap w') (pp_local_head pp') zs)"
proof -
  have "conc_refs PoolWalk k ts U \<noteq> 0" by (simp add: conc_refs_def)
  with life obtain d out xs us where live: "conc_live pp PoolWalk ts h w U d out xs us" by (rule conc_life_live)
  from rq_invD(8) [OF conc_liveD(1) [OF live]] show "\<exists>ys. chain (w_heap w) (pp_local_head pp) ys" by auto
  assume ch: "chain (w_heap w) (pp_local_head pp) ys" and st: "pool_step PoolWalk pp w = Some (pc, b, pp', w')"
  show "case ys of [] \<Rightarrow> pc = PoolDec | y # zs \<Rightarrow> pc = PoolWalk \<and> chain (w_heap w') (pp_local_head pp') zs"
  proof (cases ys)
    case Nil
    with ch st show ?thesis by simp
  next
    case (Cons x zs)
    then have x: "pp_local_head pp = x" "x \<noteq> 0" using ch by auto
    from x have nz: "pp_local_head pp \<noteq> 0" by simp
    from life nz obtain p where p: "ptr_read (w_heap w) (pp_local_head pp) = Some p"
      "pool_step PoolWalk pp w = Some (PoolWalk, None, pp\<lparr>pp_local_head := p\<rparr>,
        w\<lparr>w_heap := (w_heap w)(pp_local_head pp := None)\<rparr>)" by (rule conc_walk_release)
    note p = p [unfolded x(1)]
    have "chain (w_heap w) p zs" using ch Cons p(1) x by simp
    have tl: "x \<notin> set zs" using chain.rep_distinct [OF ch] by (simp add: Cons)
    have "chain ((w_heap w)(x := None)) p zs" by (rule chain_frame [OF _ \<open>chain (w_heap w) p zs\<close>]) (use tl in auto)
    with p(2) st Cons show ?thesis by auto
  qed
qed

lemma conc_walk:
  assumes life: "conc_life pp PoolWalk k ts h w U"
  shows "\<exists>pc pp' w'. pool_step PoolWalk pp w = Some (pc, None, pp', w') \<and> pool_frame w w' \<and> conc_life pp' pc k ts h w' U
    \<and> (\<forall>y. y \<in># U \<longrightarrow> w_heap w' y = w_heap w y) \<and> (pc = PoolWalk \<or> pc = PoolDec)"
proof (cases "pp_local_head pp = 0")
  case True
  then have "conc_life pp PoolDec k ts h w U" by (intro conc_owner [OF life]) simp_all
  with True show ?thesis by simp
next
  case False
  from life False obtain p where st: "pool_step PoolWalk pp w = Some (PoolWalk, None, pp\<lparr>pp_local_head := p\<rparr>,
      w\<lparr>w_heap := (w_heap w)(pp_local_head pp := None)\<rparr>)"
    and "conc_life (pp\<lparr>pp_local_head := p\<rparr>) PoolWalk k ts h (w\<lparr>w_heap := (w_heap w)(pp_local_head pp := None)\<rparr>) U"
    "pp_local_head pp \<notin># U" by (rule conc_walk_release)
  then show ?thesis unfolding st by (auto simp: pool_frame_def)
qed

lemma conc_close:
  assumes life: "conc_life pp pc k ts h w U" and pc: "pc \<in> {PoolIdle, PoolWalk, PoolDec, PoolFree, PoolGone}"
  shows "\<exists>pc' pp' w'. pool_step pc pp w = Some (pc', None, pp', w') \<and> pool_frame w w' \<and> conc_life pp' pc' k ts h w' U
    \<and> (\<forall>y. y \<in># U \<longrightarrow> w_heap w' y = w_heap w y) \<and> (pc' = PoolIdle \<longleftrightarrow> pc = PoolIdle)
    \<and> pc' \<in> {PoolIdle, PoolWalk, PoolDec, PoolFree, PoolGone}"
proof -
  consider "pc = PoolIdle \<or> pc = PoolGone" | "pc = PoolWalk" | "pc = PoolDec" | "pc = PoolFree" using pc by blast
  then show ?thesis
  proof cases
    case 1
    with life show ?thesis by auto
  next
    case 2
    from conc_walk [OF life [unfolded 2]] show ?thesis unfolding 2 by blast
  next
    case 3
    define r where "r = conc_refs PoolGone k ts U"
    have refs: "conc_refs pc k ts U = Suc r" "conc_refs q k ts U = r" if "q = PoolFree \<or> q = PoolGone" for q
      using that 3 by (auto simp: conc_refs_def r_def)
    let ?q = "if r = 0 then PoolFree else PoolGone"
    have q: "?q = PoolFree \<or> ?q = PoolGone" by simp
    have "dec_shared w = Some (conc_refs ?q k ts U = 0, w\<lparr>w_strong := w_strong w - 1\<rparr>)"
      "conc_life pp ?q k ts h (w\<lparr>w_strong := w_strong w - 1\<rparr>) U"
      by (rule conc_dec [OF life]; use refs [OF q] 3 in \<open>auto simp: conc_frees_def\<close>)+
    then show ?thesis unfolding 3 refs(2) [OF q] by (auto simp: pool_frame_def)
  next
    case 4
    have z: "conc_refs pc k ts U = 0" using life 4 by (auto simp: conc_life_def conc_live_def conc_frees_def split: if_splits)
    with life 4 have "queue_left h w" and one: "tally thread_frees ts = 0" by (auto simp: conc_life_def conc_frees_def)
    from queue_left_drop [OF this(1)] obtain w' where w': "pool_shared_drop w = Some w'" "w_heap w' = h" "pool_frame w w'"
      "w_strong w' = w_strong w" by blast
    with life z one 4 have "conc_life pp PoolGone k ts h w' U" by (simp add: conc_life_def conc_frees_def conc_refs_def)
    with w' z 4 show ?thesis by (auto simp: conc_refs_0)
  qed
qed

lemma conc_drop_start:
  "conc_life pp PoolIdle k ts h w U \<Longrightarrow> conc_life pp PoolWalk k ts h w U"
  by (erule conc_owner) simp_all

text \<open>Metrics scrapers clone and drop the shared part.\<close>

lemma conc_scrape:
  assumes "conc_life pp pc k ts h w U" and "conc_refs pc k ts U \<noteq> 0"
  shows "conc_life pp pc (Suc k) ts h (clone_shared w) U"
  by (rule conc_quiet [OF assms(1,2)]) (auto simp: conc_refs_def)

lemma conc_unscrape:
  assumes "conc_life pp pc (Suc k) ts h w U"
  shows "conc_life pp pc k (ts @ [DecShared]) h w U"
  by (rule conc_quiet [OF assms]) (auto simp: conc_refs_def conc_frees_def)

subsection \<open>Memory\<close>

lemma conc_life_buffer:
  "conc_life pp pc k ts h w U \<Longrightarrow> x \<in># U \<Longrightarrow> buffer_ok (w_heap w) (unat (sh_page_size (w_shared w))) (sh_source (w_shared w)) x"
  by (auto simp: conc_life_def conc_refs_0 split: if_splits dest: conc_liveD(4))

lemma conc_life_once: "conc_life pp pc k ts h w U \<Longrightarrow> count U x \<le> 1"
  by (auto simp: conc_life_def conc_refs_0 split: if_splits dest: conc_liveD(6))

lemma conc_life_rest:
  assumes "conc_life pp pc k ts h w U" and "h x \<noteq> None"
  shows "w_heap w x = h x \<and> x \<notin># U"
proof (cases "conc_refs pc k ts U = 0")
  case True
  have "w_heap w x = h x" if "queue_left h w" using that assms(2) unfolding queue_left_def
    by (metis (full_types))
  with True assms(1) show ?thesis by (auto simp: conc_life_def conc_refs_0)
next
  case False
  with assms(1) obtain d out xs ys where live: "conc_live pp pc ts h w U d out xs ys" by (rule conc_life_live)
  note L = conc_liveD [OF live]
  have "x \<notin># rq_buffers (conc_rq pp pc ts w out) xs ys" 
    using L(8) [of x] assms(2) by auto
  moreover from this have "x \<notin># U" by (simp add: conc_buffers flip: L(2))
  ultimately show ?thesis using L(7) by blast
qed

lemma conc_life_heap:
  assumes live: "conc_live pp pc ts h w U d out xs ys"
    and same: "\<And>x. x \<in># mset xs + mset ys + thread_buffers ts \<Longrightarrow> g x = w_heap w x"
    and ok: "\<And>x. x \<in># rq_buffers (conc_rq pp pc ts w out) xs ys \<Longrightarrow> buffer_ok g (unat (sh_page_size (w_shared w))) (sh_source (w_shared w)) x \<and> h' x = None"
    and out: "\<And>x. x \<notin># rq_buffers (conc_rq pp pc ts w out) xs ys \<Longrightarrow> g x = h' x"
  shows "conc_live pp pc ts h' (w\<lparr>w_heap := g\<rparr>) U d out xs ys"
proof -
  note L = conc_liveD [OF live]
  have eq: "conc_rq pp pc ts (w\<lparr>w_heap := g\<rparr>) out
      = (conc_rq pp pc ts w out)\<lparr>rq_world := (rq_world (conc_rq pp pc ts w out))\<lparr>w_heap := g\<rparr>\<rparr>" by (simp add: conc_rq_def)
  have "rq_inv d (conc_rq pp pc ts (w\<lparr>w_heap := g\<rparr>) out) xs ys"
    unfolding eq by (rule rq_inv_heap [OF L(1)]) (use same ok in auto)
  then show ?thesis using live ok out by (simp add: conc_live_def conc_buffers)
qed

lemma conc_life_elsewhere:
  assumes life: "conc_life pp pc k ts h w U" and x: "w_heap w x = None \<or> h x \<noteq> None"
  shows "conc_life pp pc k ts (h(x := v)) (w\<lparr>w_heap := (w_heap w)(x := v)\<rparr>) U"
proof (cases "conc_refs pc k ts U = 0")
  case True
  have "queue_left (h(x := v)) (w\<lparr>w_heap := (w_heap w)(x := v)\<rparr>)" if left: "queue_left h w"
  proof -
    from left obtain xs where src: "page_source_contract (sh_source (w_shared w))"
      and xs: "chain (w_heap w) (sh_return_head (w_shared w)) xs"
      "\<forall>y \<in> set xs. buffer_ok (w_heap w) (unat (src_page_size (sh_source (w_shared w)))) (sh_source (w_shared w)) y"
      and h: "\<forall>y. h y = (if y \<in> set xs then None else w_heap w y)" by (auto simp: queue_left_def)
    have "x \<notin> set xs" using x h xs(2) by (metis buffer_okE option.distinct(1))
    moreover from this have "chain ((w_heap w)(x := v)) (sh_return_head (w_shared w)) xs"
      by (intro chain_frame [OF _ xs(1)]) auto
    moreover have "buffer_ok ((w_heap w)(x := v)) n src y = buffer_ok (w_heap w) n src y" if "y \<noteq> x" for y n src
      using that by (simp add: buffer_ok_def)
    ultimately show ?thesis using src xs(2) h unfolding queue_left_def
      by (intro conjI exI [of _ xs]) (simp_all, metis)
  qed
  with True life show ?thesis by (auto simp: conc_life_def)
next
  case False
  with life obtain d out xs ys where live: "conc_live pp pc ts h w U d out xs ys" by (rule conc_life_live)
  note L = conc_liveD [OF live]
  let ?B = "rq_buffers (conc_rq pp pc ts w out) xs ys"
  have nx: "y \<noteq> x" if "y \<in># ?B" for y
  proof
    assume "y = x"
    with that rq_invD(2) [OF L(1), of x] L(8) [of x] x show False by (auto elim: buffer_okE)
  qed
  have "conc_live pp pc ts (h(x := v)) (w\<lparr>w_heap := (w_heap w)(x := v)\<rparr>) U d out xs ys"
  proof (rule conc_life_heap [OF live])
    show "((w_heap w)(x := v)) y = w_heap w y" if "y \<in># mset xs + mset ys + thread_buffers ts" for y
      using that nx [of y] by (auto simp: conc_buffers)
    show "buffer_ok ((w_heap w)(x := v)) (unat (sh_page_size (w_shared w))) (sh_source (w_shared w)) y \<and> (h(x := v)) y = None" if "y \<in># ?B" for y
      using rq_invD(2) [OF L(1) that] L(8) [OF that] nx [OF that] by (simp add: buffer_ok_def)
    show "((w_heap w)(x := v)) y = (h(x := v)) y" if "y \<notin># ?B" for y using L(7) [OF that] by simp
  qed
  then show ?thesis using False conc_lifeD(1) [OF life] by (intro conc_lifeI) simp_all
qed

lemma conc_life_write:
  assumes life: "conc_life pp pc k ts h w U" and x: "x \<in># U" and bs: "length bs = unat (sh_page_size (w_shared w))"
  shows "conc_life pp pc k ts h (w\<lparr>w_heap := (w_heap w)(x \<mapsto> bs)\<rparr>) U"
proof -
  have nz: "conc_refs pc k ts U \<noteq> 0" using x by (auto simp: conc_refs_0)
  with life obtain d out xs ys where live: "conc_live pp pc ts h w U d out xs ys" by (rule conc_life_live)
  note L = conc_liveD [OF live]
  have "conc_live pp pc ts h (w\<lparr>w_heap := (w_heap w)(x \<mapsto> bs)\<rparr>) U d out xs ys"
  proof (rule conc_life_heap [OF live])
    show "((w_heap w)(x \<mapsto> bs)) y = w_heap w y" if "y \<in># mset xs + mset ys + thread_buffers ts" for y
      using that L(5) [OF x] by auto
  qed (use rq_invD(2) [OF L(1)] L(2,7,8) bs x in \<open>auto simp: buffer_ok_write conc_buffers\<close>)
  then show ?thesis using nz conc_lifeD(1) [OF life] by (intro conc_lifeI) simp_all
qed

text \<open>The start: a pool that no thread is using yet; and the end.\<close>

lemma conc_life_start:
  assumes "pool_life h (Some pp) k w U"
  shows "conc_life pp PoolIdle k [] h w U"
proof -
  from assms obtain a where own: "pool_owned h (Some pp) k w a U" by (auto simp: pool_life_def)
  obtain out where out: "mset out = U" by (metis ex_mset)
  have len: "length out = size U" using arg_cong [OF out, of size] by simp
  let ?d = "ps_free_pages (sh_stats (w_shared w)) - of_nat (length (a_return a) + length (a_local a))"
  have B: "rq_buffers (conc_rq pp PoolIdle [] w out) (a_return a) (a_local a) = a_free a + U"
    by (simp add: conc_buffers out a_free_def)
  have "rq_inv ?d (conc_rq pp PoolIdle [] w out) (a_return a) (a_local a)"
    unfolding rq_inv_def B using pool_owned_inv [OF own] len by (simp add: pool_inv_def rq_counters_def)
  then have "conc_live pp PoolIdle [] h w U ?d out (a_return a) (a_local a)"
    unfolding conc_live_def B using own out by (simp add: conc_frees_def pool_owned_def)
  moreover have "w_strong w = conc_refs PoolIdle k [] U" using pool_owned_strong [OF own] by (simp add: conc_refs_def)
  ultimately show ?thesis by (intro conc_lifeI) (simp_all add: conc_refs_def)
qed

lemma conc_life_end:
  assumes "conc_life pp PoolGone 0 ts h w {#}" and "set ts \<subseteq> {Dropped}"
  shows "w_heap w = h \<and> w_strong w = 0"
proof -
  have "tally give_refs ts = 0" "tally thread_frees ts = 0" using assms(2) by (induction ts) auto
  with assms(1) show ?thesis by (auto simp: conc_life_def conc_refs_def conc_frees_def)
qed

end
