(* ===== verification/Page_Threads.thy ===== *)
theory Page_Threads
  imports Page_System Pool_Threads
begin

text \<open>
  The whole life of a page pool under concurrency. The pool's owner allocates and at some time drops the
  pool; builders and page handles move between threads, which append, seal, clone, read and drop them.
  Every step is one access to shared memory: a drop is the decrement of the handle's count, then, for the
  last handle, the two \<open>fetch_sub\<close>s of \<open>record_release\<close> and the steps of \<open>Pool_Threads\<close>. All of them
  interleave in any order with the owner and with each other. A builder is on one thread and writes to a buffer of
  its own, so its calls are one step each, and so is the release of the shared part by the last owner, as in
  \<open>Pool_Threads\<close>. Memory is sequentially consistent.
\<close>

section \<open>The machine\<close>

record pt_state =
  pt_world :: page_world
  pt_pool :: page_pool
  pt_owner :: pool_pc
  pt_scrapers :: nat
  pt_builders :: "page_builder list"
  pt_threads :: "drop_pc list"

datatype pt_event =
    StartAllocate tenant
  | StartDropPool
  | OwnerRuns
  | ThreadRuns nat bool
  | AppendBytes nat "u8 list"
  | SealBuilder nat
  | StartDropBuilder nat
  | ReadHandle page
  | CloneHandle page
  | DropHandle page
  | CloneScraper
  | DropScraper

text \<open>What ownership lets a client do. The owner's methods take \<open>&mut self\<close>: one at a time.\<close>

fun pt_allowed :: "pt_event \<Rightarrow> pt_state \<Rightarrow> bool" where
  "pt_allowed (StartAllocate t) s = (pt_owner s = PoolIdle)"
| "pt_allowed StartDropPool s = (pt_owner s = PoolIdle)"
| "pt_allowed OwnerRuns s = True"
| "pt_allowed (ThreadRuns i spurious) s = (i < length (pt_threads s))"
| "pt_allowed (AppendBytes i data) s = (i < length (pt_builders s) \<and> length data \<le> isize_max)"
| "pt_allowed (SealBuilder i) s = (i < length (pt_builders s))"
| "pt_allowed (StartDropBuilder i) s = (i < length (pt_builders s))"
| "pt_allowed (ReadHandle p) s = (get_page p (pt_world s) \<noteq> None)"
| "pt_allowed (CloneHandle p) s = (get_page p (pt_world s) \<noteq> None)"
| "pt_allowed (DropHandle p) s = (get_page p (pt_world s) \<noteq> None)"
| "pt_allowed CloneScraper s = (pt_owner s = PoolIdle \<or> pt_scrapers s \<noteq> 0)"
| "pt_allowed DropScraper s = (pt_scrapers s \<noteq> 0)"

text \<open>\<open>seal\<close> makes the page and then drops the builder, which is left without a buffer; the drop of the
  handle's last clone starts \<open>Drop for PageInner\<close>.\<close>

fun pt_step :: "pt_event \<Rightarrow> pt_state \<Rightarrow> pt_state option" where
  "pt_step (StartAllocate t) s = Some (s\<lparr>pt_owner := PoolAlloc t OwnerIdle\<rparr>)"
| "pt_step StartDropPool s = Some (s\<lparr>pt_owner := PoolWalk\<rparr>)"
| "pt_step OwnerRuns s = do {
     (pc, b, pp, w) \<leftarrow> pool_step (pt_owner s) (pt_pool s) (pt_world s);
     Some (s\<lparr>pt_owner := pc, pt_pool := pp, pt_world := w,
       pt_builders := (case b of None \<Rightarrow> pt_builders s | Some b \<Rightarrow> b # pt_builders s)\<rparr>)
   }"
| "pt_step (ThreadRuns i spurious) s = do {
     (pc, w) \<leftarrow> drop_step spurious (pt_threads s ! i) (pt_world s);
     Some (s\<lparr>pt_threads := (pt_threads s)[i := pc], pt_world := w\<rparr>)
   }"
| "pt_step (AppendBytes i data) s = do {
     (r, b, w) \<leftarrow> page_builder_append data (pt_builders s ! i) (pt_world s);
     Some (s\<lparr>pt_builders := (pt_builders s)[i := b], pt_world := w\<rparr>)
   }"
| "pt_step (SealBuilder i) s = do {
     let b = pt_builders s ! i;
     cap \<leftarrow> page_builder_capacity (pt_world s);
     let w = (case pb_buf b of
         None \<Rightarrow> pt_world s
       | Some buf \<Rightarrow>
           let inner = \<lparr>pi_buf = Some buf, pi_capacity = cap, pi_len = pb_len b, pi_tenant = pb_tenant b\<rparr>;
               w = clone_shared (pt_world s)
           in w\<lparr>w_pages := w_pages w @ [(inner, 1)]\<rparr>);
     Some (s\<lparr>pt_builders := remove_nth i (pt_builders s), pt_world := w, pt_threads := pt_threads s @ [DecShared]\<rparr>)
   }"
| "pt_step (StartDropBuilder i) s = do {
     let b = pt_builders s ! i;
     cap \<leftarrow> page_builder_capacity (pt_world s);
     Some (s\<lparr>pt_builders := remove_nth i (pt_builders s),
       pt_threads := pt_threads s @ [drop_begin (pb_buf b) (pb_tenant b) cap]\<rparr>)
   }"
| "pt_step (ReadHandle p) s = do { _ \<leftarrow> page_as_slice p (pt_world s); Some s }"
| "pt_step (CloneHandle p) s = do { (q, w) \<leftarrow> page_clone p (pt_world s); Some (s\<lparr>pt_world := w\<rparr>) }"
| "pt_step (DropHandle p) s = do {
     (inner, n) \<leftarrow> get_page p (pt_world s);
     Some (s\<lparr>pt_world := (pt_world s)\<lparr>w_pages := (w_pages (pt_world s))[p := (inner, n - 1)]\<rparr>,
       pt_threads := pt_threads s
         @ (if n = 1 then [drop_begin (pi_buf inner) (pi_tenant inner) (pi_capacity inner)] else [])\<rparr>)
   }"
| "pt_step CloneScraper s = do {
     _ \<leftarrow> get_shared (pt_world s);
     Some (s\<lparr>pt_scrapers := Suc (pt_scrapers s), pt_world := clone_shared (pt_world s)\<rparr>)
   }"
| "pt_step DropScraper s =
     Some (s\<lparr>pt_scrapers := pt_scrapers s - 1, pt_threads := pt_threads s @ [DecShared]\<rparr>)"

abbreviation pt_run :: "pt_state \<Rightarrow> pt_event list \<Rightarrow> pt_state \<Rightarrow> bool" where
  "pt_run \<equiv> run pt_allowed pt_step"

text \<open>The machine starts in any state of a program over the pool; from there on its handles may be on any thread.\<close>

definition pt_of :: "page_pool \<Rightarrow> page_sys \<Rightarrow> pt_state" where
  "pt_of pp s = \<lparr>pt_world = s_world s, pt_pool = pp, pt_owner = PoolIdle, pt_scrapers = s_scrapers s,
     pt_builders = s_builders s, pt_threads = []\<rparr>"

section \<open>The invariant\<close>

text \<open>What a thread and the owner hold: a buffer for a tenant that is not on its way back yet, and the part of it
  that the tenant's counters of pages and of bytes still show.\<close>

fun thread_hold :: "drop_pc \<Rightarrow> hold multiset" where
  "thread_hold (SubBytes buf t cap) = {#(buf, t)#}"
| "thread_hold (SubPages buf t) = {#(buf, t)#}"
| "thread_hold _ = {#}"

fun thread_bytes :: "drop_pc \<Rightarrow> hold multiset" where
  "thread_bytes (SubBytes buf t cap) = {#(buf, t)#}"
| "thread_bytes _ = {#}"

fun thread_ok :: "usize \<Rightarrow> drop_pc \<Rightarrow> bool" where
  "thread_ok sz (SubBytes buf t cap) = (cap = sz)"
| "thread_ok sz (Pushing pc) = (pc \<noteq> Returned)"
| "thread_ok sz _ = True"

fun owner_hold :: "pool_pc \<Rightarrow> hold multiset" where
  "owner_hold (PoolRecord t buf pc) = {#(buf, tenant_cell t)#}"
| "owner_hold _ = {#}"

fun owner_pages :: "pool_pc \<Rightarrow> hold multiset" where
  "owner_pages (PoolRecord t buf AddTotal) = {#}"
| "owner_pages (PoolRecord t buf AddPages) = {#}"
| "owner_pages (PoolRecord t buf pc) = {#(buf, tenant_cell t)#}"
| "owner_pages _ = {#}"

fun owner_bytes :: "pool_pc \<Rightarrow> hold multiset" where
  "owner_bytes (PoolRecord t buf AddBytes) = {#}"
| "owner_bytes pc = owner_pages pc"

text \<open>Every buffer that is not free, and what the tenants are charged for.\<close>

definition pt_holds :: "pt_state \<Rightarrow> hold multiset" where
  "pt_holds s = page_holds (pt_world s) (mset (pt_builders s)) + tally thread_hold (pt_threads s) + owner_hold (pt_owner s)"

definition pt_pages :: "pt_state \<Rightarrow> hold multiset" where
  "pt_pages s = page_holds (pt_world s) (mset (pt_builders s)) + tally thread_hold (pt_threads s) + owner_pages (pt_owner s)"

definition pt_bytes :: "pt_state \<Rightarrow> hold multiset" where
  "pt_bytes s = page_holds (pt_world s) (mset (pt_builders s)) + tally thread_bytes (pt_threads s) + owner_bytes (pt_owner s)"

definition charged_pages :: "stats_table \<Rightarrow> stats_table \<Rightarrow> hold multiset \<Rightarrow> bool" where
  "charged_pages base tab H \<longleftrightarrow> (\<forall>t.
     t_pages_in_use (tab t) = t_pages_in_use (base t) + of_nat (count (image_mset snd H) t))"

definition charged_bytes :: "stats_table \<Rightarrow> u64 \<Rightarrow> stats_table \<Rightarrow> hold multiset \<Rightarrow> bool" where
  "charged_bytes base sz tab H \<longleftrightarrow> (\<forall>t.
     t_bytes_in_use (tab t) = t_bytes_in_use (base t) + sz * of_nat (count (image_mset snd H) t))"

abbreviation pt_size :: "pt_state \<Rightarrow> usize" where
  "pt_size s \<equiv> sh_page_size (w_shared (pt_world s))"

definition pt_memory :: "heap \<Rightarrow> pt_state \<Rightarrow> bool" where
  "pt_memory h0 s = conc_life (pt_pool s) (pt_owner s) (pt_scrapers s) (pt_threads s) h0 (pt_world s)
     (image_mset fst (pt_holds s))"

definition pt_charges :: "stats_table \<Rightarrow> pt_state \<Rightarrow> bool" where
  "pt_charges base s \<longleftrightarrow>
     charged_pages base (w_tenants (pt_world s)) (pt_pages s) \<and>
     charged_bytes base (pt_size s) (w_tenants (pt_world s)) (pt_bytes s)"

definition pt_handles_ok :: "pt_state \<Rightarrow> bool" where
  "pt_handles_ok s \<longleftrightarrow>
     (\<forall>b \<in> set (pt_builders s). builder_ok (pt_size s) b) \<and>
     (\<forall>i \<in># live_cells (w_pages (pt_world s)). inner_ok (pt_size s) i) \<and>
     (\<forall>pc \<in> set (pt_threads s). thread_ok (pt_size s) pc)"

definition pt_inv :: "heap \<Rightarrow> stats_table \<Rightarrow> pt_state \<Rightarrow> bool" where
  "pt_inv h0 base s \<longleftrightarrow> pt_memory h0 s \<and> pt_charges base s \<and> pt_handles_ok s"

section \<open>Lemmas\<close>

text \<open>The state seen from one thread, and with that thread changed; \<open>w\<close> is a state with the same pages.\<close>

definition pt_others :: "nat \<Rightarrow> pt_state \<Rightarrow> pt_state" where
  "pt_others i s = s\<lparr>pt_threads := remove_nth i (pt_threads s)\<rparr>"

lemma pt_thread_split:
  assumes "i < length (pt_threads s)"
  shows "pt_holds s = thread_hold (pt_threads s ! i) + pt_holds (pt_others i s)"
    and "pt_pages s = thread_hold (pt_threads s ! i) + pt_pages (pt_others i s)"
    and "pt_bytes s = thread_bytes (pt_threads s ! i) + pt_bytes (pt_others i s)"
  using tally_update(1) [OF assms, of thread_hold] tally_update(1) [OF assms, of thread_bytes]
  by (simp_all add: pt_holds_def pt_pages_def pt_bytes_def pt_others_def ac_simps)

lemma pt_thread_upd:
  assumes "i < length (pt_threads s)" and "w_pages w = w_pages (pt_world s)"
  defines "upd \<equiv> \<lambda>pc. s\<lparr>pt_threads := (pt_threads s)[i := pc], pt_world := w\<rparr>"
  shows "pt_holds (upd pc) = thread_hold pc + pt_holds (pt_others i s)"
    and "pt_pages (upd pc) = thread_hold pc + pt_pages (pt_others i s)"
    and "pt_bytes (upd pc) = thread_bytes pc + pt_bytes (pt_others i s)"
  using tally_update(2) [OF assms(1), of thread_hold] tally_update(2) [OF assms(1), of thread_bytes]
  by (simp_all add: pt_holds_def pt_pages_def pt_bytes_def pt_others_def upd_def holds_cong [OF assms(2)] ac_simps)

lemma pt_handles_thread:
  assumes "pt_handles_ok s" and "thread_ok (pt_size s) pc" and "w_pages w = w_pages (pt_world s)"
    and "sh_page_size (w_shared w) = pt_size s"
  shows "pt_handles_ok (s\<lparr>pt_threads := (pt_threads s)[i := pc], pt_world := w\<rparr>)"
  using assms set_update_subset_insert [of "pt_threads s" i pc] by (auto simp: pt_handles_ok_def)

lemma pt_filled: "pt_handles_ok s \<Longrightarrow> pages_filled (pt_world s)"
  by (auto simp: pt_handles_ok_def pages_filled_def inner_ok_def)

text \<open>The tenants' side of each atomic update.\<close>

lemma charged_pages_sub:
  "charged_pages base tab (add_mset (x, t) H) \<Longrightarrow>
   charged_pages base (tab(t := (tab t)\<lparr>t_pages_in_use := fetch_sub (t_pages_in_use (tab t)) 1\<rparr>)) H"
  by (auto simp: charged_pages_def fetch_sub_def algebra_simps)

lemma charged_pages_add:
  "charged_pages base tab H \<Longrightarrow>
   charged_pages base (tab(t := (tab t)\<lparr>t_pages_in_use := fetch_add (t_pages_in_use (tab t)) 1\<rparr>)) (add_mset (x, t) H)"
  by (auto simp: charged_pages_def fetch_add_def algebra_simps)

lemma charged_bytes_sub:
  "charged_bytes base sz tab (add_mset (x, t) H) \<Longrightarrow>
   charged_bytes base sz (tab(t := (tab t)\<lparr>t_bytes_in_use := fetch_sub (t_bytes_in_use (tab t)) sz\<rparr>)) H"
  by (auto simp: charged_bytes_def fetch_sub_def algebra_simps)

lemma charged_bytes_add:
  "charged_bytes base sz tab H \<Longrightarrow>
   charged_bytes base sz (tab(t := (tab t)\<lparr>t_bytes_in_use := fetch_add (t_bytes_in_use (tab t)) sz\<rparr>)) (add_mset (x, t) H)"
  by (auto simp: charged_bytes_def fetch_add_def algebra_simps)

lemma charged_pages_cong:
  "charged_pages base tab H \<Longrightarrow> (\<And>t. t_pages_in_use (tab' t) = t_pages_in_use (tab t)) \<Longrightarrow> charged_pages base tab' H"
  by (simp add: charged_pages_def)

lemma charged_bytes_cong:
  "charged_bytes base sz tab H \<Longrightarrow> (\<And>t. t_bytes_in_use (tab' t) = t_bytes_in_use (tab t)) \<Longrightarrow> charged_bytes base sz tab' H"
  by (simp add: charged_bytes_def)

definition pt_good :: "heap \<Rightarrow> stats_table \<Rightarrow> pt_event \<Rightarrow> pt_state \<Rightarrow> bool" where
  "pt_good h0 base e s \<longleftrightarrow>
     (\<exists>s'. pt_step e s = Some s' \<and> pt_inv h0 base s' \<and> pages_stable (pt_world s) (pt_world s'))"

lemma pt_goodI:
  assumes "pt_step e s = Some s'" and "pt_memory h0 s'" and "pt_charges base s'" and "pt_handles_ok s'"
    and "pages_stable (pt_world s) (pt_world s')"
  shows "pt_good h0 base e s"
  using assms by (auto simp: pt_good_def pt_inv_def)

lemma pt_inv_parts:
  assumes "pt_inv h0 base s"
  shows "pt_memory h0 s" and "pt_charges base s" and "pt_handles_ok s"
  using assms by (simp_all add: pt_inv_def)

lemma pt_holds_refs: "pt_holds s \<noteq> {#} \<Longrightarrow> conc_refs (pt_owner s) (pt_scrapers s) (pt_threads s) (image_mset fst (pt_holds s)) \<noteq> 0"
  by (simp add: conc_refs_def)

lemma pt_page_buffer: "x \<in># page_buffers (pt_world s) (mset (pt_builders s)) \<Longrightarrow> x \<in># image_mset fst (pt_holds s)"
  by (auto simp: pt_holds_def)

text \<open>Steps of the pool change no page.\<close>

lemma pt_stable:
  assumes "pt_handles_ok s" and fr: "pool_frame (pt_world s) w"
    and "\<And>y. y \<in># image_mset fst (pt_holds s) \<Longrightarrow> w_heap w y = w_heap (pt_world s) y"
  shows "pages_stable (pt_world s) w"
proof (rule pages_stable_same [OF pt_filled [OF assms(1)] pool_frame_pages [OF fr]])
  show "keeps (page_buffers (pt_world s) (mset (pt_builders s))) (pt_world s) w"
    using fr assms(3) pt_page_buffer by (simp add: keeps_def pool_frame_def)
qed

lemma pt_stable_quiet:
  assumes "pt_handles_ok s" and "w_pages w = w_pages (pt_world s)" and "w_heap w = w_heap (pt_world s)"
    and "w_shared w = w_shared (pt_world s)"
  shows "pages_stable (pt_world s) w"
  using pages_stable_same [OF pt_filled [OF assms(1)] assms(2), of "{#}"] by (simp add: keeps_def assms(3,4))

subsection \<open>Steps of a dropping thread\<close>

lemma pt_sub_bytes:
  assumes inv: "pt_inv h0 base s" and i: "i < length (pt_threads s)" and pc: "pt_threads s ! i = SubBytes buf t cap"
  shows "pt_good h0 base (ThreadRuns i spurious) s"
proof -
  note parts = pt_inv_parts [OF inv]
  let ?w = "upd_tenant t (\<lambda>s. s\<lparr>t_bytes_in_use := fetch_sub (t_bytes_in_use s) cap\<rparr>) (pt_world s)"
  let ?s = "s\<lparr>pt_threads := (pt_threads s)[i := SubPages buf t], pt_world := ?w\<rparr>"
  have wp: "w_pages ?w = w_pages (pt_world s)" by simp
  note sp = pt_thread_split [OF i] pt_thread_upd [OF i wp, of "SubPages buf t"]
  have cap: "cap = pt_size s" using parts(3) pc nth_mem [OF i] by (fastforce simp: pt_handles_ok_def)
  show ?thesis
  proof (rule pt_goodI)
    show "pt_step (ThreadRuns i spurious) s = Some ?s" using pc by simp
    show "pt_memory h0 ?s"
      using parts(1) conc_thread_idle [OF i, of "SubPages buf t"] pc sp(1,4)
        conc_life_cong [of ?w "pt_world s"] by (simp add: pt_memory_def)
    show "pt_charges base ?s" using parts(2) sp(2,3,5,6) pc cap
        charged_bytes_sub [of base "pt_size s" "w_tenants (pt_world s)" buf t]
      by (auto simp: pt_charges_def intro: charged_pages_cong)
    show "pt_handles_ok ?s" using parts(3) by (intro pt_handles_thread) simp_all
    show "pages_stable (pt_world s) (pt_world ?s)" using parts(3) by (simp add: pt_stable_quiet)
  qed
qed

lemma pt_sub_pages:
  assumes inv: "pt_inv h0 base s" and i: "i < length (pt_threads s)" and pc: "pt_threads s ! i = SubPages buf t"
  shows "pt_good h0 base (ThreadRuns i spurious) s"
proof -
  note parts = pt_inv_parts [OF inv]
  let ?w = "upd_tenant t (\<lambda>s. s\<lparr>t_pages_in_use := fetch_sub (t_pages_in_use s) 1\<rparr>) (pt_world s)"
  let ?s = "s\<lparr>pt_threads := (pt_threads s)[i := Pushing (LoadHead buf)], pt_world := ?w\<rparr>"
  have wp: "w_pages ?w = w_pages (pt_world s)" by simp
  note sp = pt_thread_split [OF i] pt_thread_upd [OF i wp, of "Pushing (LoadHead buf)"]
  show ?thesis
  proof (rule pt_goodI)
    show "pt_step (ThreadRuns i spurious) s = Some ?s" using pc by simp
    show "pt_memory h0 ?s"
      using parts(1) conc_give [OF _ i] pc sp(1,4) conc_life_cong [of ?w "pt_world s"] by (simp add: pt_memory_def)
    show "pt_charges base ?s" using parts(2) sp(2,3,5,6) pc charged_pages_sub [of base "w_tenants (pt_world s)" buf t]
      by (auto simp: pt_charges_def intro: charged_bytes_cong)
    show "pt_handles_ok ?s" using parts(3) by (intro pt_handles_thread) simp_all
    show "pages_stable (pt_world s) (pt_world ?s)" using parts(3) by (simp add: pt_stable_quiet)
  qed
qed

lemma pt_returning:
  assumes inv: "pt_inv h0 base s" and i: "i < length (pt_threads s)" and pc: "pt_threads s ! i = pc0"
    and not: "\<And>buf t cap. pc0 \<noteq> SubBytes buf t cap" "\<And>buf t. pc0 \<noteq> SubPages buf t"
  shows "pt_good h0 base (ThreadRuns i spurious) s"
proof -
  note parts = pt_inv_parts [OF inv]
  have ok: "q \<noteq> Returned" if "pc0 = Pushing q" for q
    using parts(3) nth_mem [OF i] that pc by (fastforce simp: pt_handles_ok_def)
  from conc_thread [OF parts(1) [unfolded pt_memory_def] i pc ok not, of spurious] obtain pc' w where
    st: "drop_step spurious pc0 (pt_world s) = Some (pc', w)" "pool_frame (pt_world s) w"
      "\<forall>y. y \<in># image_mset fst (pt_holds s) \<longrightarrow> w_heap w y = w_heap (pt_world s) y"
    and life: "conc_life (pt_pool s) (pt_owner s) (pt_scrapers s) ((pt_threads s)[i := pc']) h0 w (image_mset fst (pt_holds s))"
    and pc': "pc' \<in> {DecShared, FreeShared, Dropped} \<union> {Pushing q | q. q \<noteq> Returned}" by blast
  let ?s = "s\<lparr>pt_threads := (pt_threads s)[i := pc'], pt_world := w\<rparr>"
  note wp = pool_frame_pages [OF st(2)] and sp = pt_thread_split [OF i] pt_thread_upd [OF i pool_frame_pages [OF st(2)], of pc']
  have none: "thread_hold pc0 = {#}" "thread_bytes pc0 = {#}" "thread_hold pc' = {#}" "thread_bytes pc' = {#}"
    using not pc' by (cases pc0; auto)+
  show ?thesis
  proof (rule pt_goodI)
    show "pt_step (ThreadRuns i spurious) s = Some ?s" using st(1) pc by simp
    show "pt_memory h0 ?s" using life sp(1,4) none pc by (simp add: pt_memory_def)
    show "pt_charges base ?s" using parts(2) sp none pc st(2) by (simp add: pt_charges_def pool_frame_def)
    show "pt_handles_ok ?s" using parts(3) wp st(2) pc' by (intro pt_handles_thread) (auto simp: pool_frame_def)
    show "pages_stable (pt_world s) (pt_world ?s)" using pt_stable [OF parts(3) st(2)] st(3) by simp
  qed
qed

lemma pt_thread_runs:
  assumes "pt_inv h0 base s" and "i < length (pt_threads s)"
  shows "pt_good h0 base (ThreadRuns i spurious) s"
  using assms by (cases "pt_threads s ! i") (auto intro: pt_sub_bytes pt_sub_pages pt_returning)

subsection \<open>Steps of the owner\<close>

fun new_hold :: "page_builder option \<Rightarrow> hold multiset" where
  "new_hold None = {#}"
| "new_hold (Some b) = {#builder_hold b#}"

definition pt_own :: "pool_pc \<Rightarrow> page_builder option \<Rightarrow> page_pool \<Rightarrow> page_world \<Rightarrow> pt_state \<Rightarrow> pt_state" where
  "pt_own pc b pp w s = s\<lparr>pt_owner := pc, pt_pool := pp, pt_world := w,
     pt_builders := (case b of None \<Rightarrow> pt_builders s | Some b \<Rightarrow> b # pt_builders s)\<rparr>"

lemma pt_own_simps [simp]:
  "pt_owner (pt_own pc b pp w s) = pc" "pt_pool (pt_own pc b pp w s) = pp" "pt_world (pt_own pc b pp w s) = w"
  "pt_threads (pt_own pc b pp w s) = pt_threads s" "pt_scrapers (pt_own pc b pp w s) = pt_scrapers s"
  by (simp_all add: pt_own_def)

lemma pt_own_agg:
  assumes "w_pages w = w_pages (pt_world s)"
  shows "pt_holds (pt_own pc b pp w s) + owner_hold (pt_owner s) = pt_holds s + owner_hold pc + new_hold b"
    and "pt_pages (pt_own pc b pp w s) + owner_pages (pt_owner s) = pt_pages s + owner_pages pc + new_hold b"
    and "pt_bytes (pt_own pc b pp w s) + owner_bytes (pt_owner s) = pt_bytes s + owner_bytes pc + new_hold b"
  by (cases b; simp add: pt_own_def pt_holds_def pt_pages_def pt_bytes_def holds_cong [OF assms])+

lemma pt_own_handles:
  assumes "pt_handles_ok s" and "w_pages w = w_pages (pt_world s)" and "sh_page_size (w_shared w) = pt_size s"
    and "\<And>x. b = Some x \<Longrightarrow> builder_ok (pt_size s) x"
  shows "pt_handles_ok (pt_own pc b pp w s)"
  using assms by (cases b) (auto simp: pt_handles_ok_def pt_own_def)

lemma pt_owner_runs: "pool_step (pt_owner s) (pt_pool s) (pt_world s) = Some (pc, b, pp, w) \<Longrightarrow>
    pt_step OwnerRuns s = Some (pt_own pc b pp w s)"
  by (simp add: pt_own_def)

text \<open>What remains to be shown of a step of the owner is the pool's part and the charges.\<close>

lemma pt_owner_good:
  assumes inv: "pt_inv h0 base s" and st: "pool_step (pt_owner s) (pt_pool s) (pt_world s) = Some (pc, b, pp, w)"
    and w: "w_pages w = w_pages (pt_world s)" "sh_page_size (w_shared w) = pt_size s"
      "\<And>y. y \<in># image_mset fst (pt_holds s) \<Longrightarrow> w_heap w y = w_heap (pt_world s) y"
    and life: "conc_life pp pc (pt_scrapers s) (pt_threads s) h0 w (image_mset fst (pt_holds (pt_own pc b pp w s)))"
    and ok: "\<And>x. b = Some x \<Longrightarrow> builder_ok (pt_size s) x" and ch: "pt_charges base (pt_own pc b pp w s)"
  shows "pt_good h0 base OwnerRuns s"
proof (rule pt_goodI [OF pt_owner_runs [OF st] _ ch])
  note hok = pt_inv_parts(3) [OF inv]
  show "pt_memory h0 (pt_own pc b pp w s)" using life by (simp add: pt_memory_def)
  show "pt_handles_ok (pt_own pc b pp w s)" by (rule pt_own_handles [OF hok w(1,2) ok])
  have "keeps (page_buffers (pt_world s) (mset (pt_builders s))) (pt_world s) w"
    using w(2,3) pt_page_buffer by (simp add: keeps_def)
  from pages_stable_same [OF pt_filled [OF hok] w(1) this] show "pages_stable (pt_world s) (pt_world (pt_own pc b pp w s))" by simp
qed

lemma pt_owner_alloc:
  assumes inv: "pt_inv h0 base s" and old: "pt_owner s = PoolAlloc t q" and np: "\<And>e. q \<noteq> OwnerPanicked e"
  shows "pt_good h0 base OwnerRuns s"
proof -
  note parts = pt_inv_parts [OF inv]
  have "conc_life (pt_pool s) (PoolAlloc t q) (pt_scrapers s) (pt_threads s) h0 (pt_world s) (image_mset fst (pt_holds s))"
    using parts(1) by (simp add: pt_memory_def old)
  from conc_alloc [OF this] obtain q' pp w where st: "owner_step q (pt_pool s) (pt_world s) = Some (q', pp, w)"
    and fr: "pool_frame (pt_world s) w" and same: "\<forall>y. y \<in># image_mset fst (pt_holds s) \<longrightarrow> w_heap w y = w_heap (pt_world s) y"
    and take: "(\<exists>buf. q = OwnerTake buf) \<longrightarrow> q' = OwnerIdle"
    and life: "conc_life pp (PoolAlloc t q') (pt_scrapers s) (pt_threads s) h0 w
      (owner_buffer (case q of OwnerTake buf \<Rightarrow> q | _ \<Rightarrow> OwnerIdle) + image_mset fst (pt_holds s))" by blast
  let ?pc = "case q of OwnerTake buf \<Rightarrow> PoolRecord t buf AddTotal | _ \<Rightarrow> PoolAlloc t q'"
  note wp = pool_frame_pages [OF fr]
  note agg = pt_own_agg [OF wp, of ?pc None pp, unfolded old]
  show ?thesis
  proof (rule pt_owner_good [OF inv])
    show "pool_step (pt_owner s) (pt_pool s) (pt_world s) = Some (?pc, None, pp, w)"
      using st np by (cases q) (auto simp: old)
    show "conc_life pp ?pc (pt_scrapers s) (pt_threads s) h0 w (image_mset fst (pt_holds (pt_own ?pc None pp w s)))"
    proof (cases "\<exists>buf. q = OwnerTake buf")
      case True
      with take life agg(1) show ?thesis by (auto intro: conc_owner)
    next
      case False
      with life agg(1) show ?thesis by (cases q) simp_all
    qed
    show "pt_charges base (pt_own ?pc None pp w s)"
      using parts(2) agg(2,3) fr by (cases q) (simp_all add: pt_charges_def pool_frame_def)
  qed (use wp fr same in \<open>auto simp: pool_frame_def\<close>)
qed

lemma pt_record_charges:
  assumes ch: "pt_charges base s" and old: "pt_owner s = PoolRecord t buf pc" and "pc \<noteq> Finished"
    and st: "alloc_step (pt_size s) pc (w_tenants (pt_world s) (tenant_cell t)) = (pc', ts)"
  shows "pt_charges base (pt_own (PoolRecord t buf pc') None (pt_pool s) (upd_tenant (tenant_cell t) (\<lambda>_. ts) (pt_world s)) s)"
proof -
  let ?w = "upd_tenant (tenant_cell t) (\<lambda>_. ts) (pt_world s)"
  have wp: "w_pages ?w = w_pages (pt_world s)" by simp
  note agg = pt_own_agg [OF wp, of "PoolRecord t buf pc'" None "pt_pool s", unfolded old]
  show ?thesis
  proof (cases pc)
    case AddPages
    with st agg ch charged_pages_add [of base "w_tenants (pt_world s)" "pt_pages s" "tenant_cell t" buf] show ?thesis
      by (auto simp: pt_charges_def intro: charged_bytes_cong)
  next
    case AddBytes
    with st agg ch charged_bytes_add [of base "pt_size s" "w_tenants (pt_world s)" "pt_bytes s" "tenant_cell t" buf] show ?thesis
      by (auto simp: pt_charges_def intro: charged_pages_cong)
  qed (use st agg ch \<open>pc \<noteq> Finished\<close> in \<open>auto simp: pt_charges_def intro: charged_pages_cong charged_bytes_cong split: if_splits\<close>)
qed

lemma pt_owner_record:
  assumes inv: "pt_inv h0 base s" and old: "pt_owner s = PoolRecord t buf pc"
  shows "pt_good h0 base OwnerRuns s"
proof -
  note parts = pt_inv_parts [OF inv]
  have life: "conc_life (pt_pool s) (PoolRecord t buf pc) (pt_scrapers s) (pt_threads s) h0 (pt_world s) (image_mset fst (pt_holds s))"
    using parts(1) by (simp add: pt_memory_def old)
  have gs: "get_shared (pt_world s) = Some (w_shared (pt_world s))"
    by (rule conc_lifeD(2) [OF life]) (simp add: conc_refs_def)
  show ?thesis
  proof (cases "pc = Finished")
    case True
    let ?b = "page_builder_new buf (tenant_cell t)"
    have "builder_hold ?b = (buf, tenant_cell t)" by (simp add: builder_hold_def page_builder_new_def)
    with pt_own_agg [of "pt_world s" s PoolIdle "Some ?b" "pt_pool s"] old True
    have agg: "pt_holds (pt_own PoolIdle (Some ?b) (pt_pool s) (pt_world s) s) = pt_holds s"
      "pt_pages (pt_own PoolIdle (Some ?b) (pt_pool s) (pt_world s) s) = pt_pages s"
      "pt_bytes (pt_own PoolIdle (Some ?b) (pt_pool s) (pt_world s) s) = pt_bytes s" by simp_all
    show ?thesis
      by (rule pt_owner_good [OF inv, where pc = PoolIdle and b = "Some ?b"])
        (use agg gs old True parts(2) conc_owner [OF life, of PoolIdle] in
          \<open>auto simp: pt_charges_def page_builder_new_def builder_ok_def\<close>)
  next
    case False
    obtain pc' ts where a: "alloc_step (pt_size s) pc (w_tenants (pt_world s) (tenant_cell t)) = (pc', ts)" by fastforce
    let ?w = "upd_tenant (tenant_cell t) (\<lambda>_. ts) (pt_world s)"
    have "conc_life (pt_pool s) (PoolRecord t buf pc') (pt_scrapers s) (pt_threads s) h0 ?w (image_mset fst (pt_holds s))"
      using conc_owner [OF life, of "PoolRecord t buf pc'"] conc_life_cong [of ?w "pt_world s"] by simp
    moreover have "pt_holds (pt_own (PoolRecord t buf pc') None (pt_pool s) ?w s) = pt_holds s"
      using pt_own_agg(1) [of ?w s "PoolRecord t buf pc'" None "pt_pool s"] old by simp
    ultimately show ?thesis using pt_record_charges [OF parts(2) old False a] gs False a old
      by (intro pt_owner_good [OF inv, where pc = "PoolRecord t buf pc'" and b = None and w = ?w]) auto
  qed
qed

lemma pt_owner_close:
  assumes inv: "pt_inv h0 base s" and old: "pt_owner s \<in> {PoolIdle, PoolWalk, PoolDec, PoolFree, PoolGone}"
  shows "pt_good h0 base OwnerRuns s"
proof -
  note parts = pt_inv_parts [OF inv]
  from conc_close [OF parts(1) [unfolded pt_memory_def] old] obtain pc pp w where
    st: "pool_step (pt_owner s) (pt_pool s) (pt_world s) = Some (pc, None, pp, w)" and fr: "pool_frame (pt_world s) w"
    and life: "conc_life pp pc (pt_scrapers s) (pt_threads s) h0 w (image_mset fst (pt_holds s))"
    and same: "\<forall>y. y \<in># image_mset fst (pt_holds s) \<longrightarrow> w_heap w y = w_heap (pt_world s) y"
    and pc: "pc \<in> {PoolIdle, PoolWalk, PoolDec, PoolFree, PoolGone}" by blast
  note wp = pool_frame_pages [OF fr]
  note agg = pt_own_agg [OF wp, of pc None pp]
  have none: "owner_hold q = {#}" "owner_pages q = {#}" "owner_bytes q = {#}"
    if "q \<in> {PoolIdle, PoolWalk, PoolDec, PoolFree, PoolGone}" for q using that by auto
  have h: "pt_holds (pt_own pc None pp w s) = pt_holds s" and c: "pt_charges base (pt_own pc None pp w s)"
    using agg none [OF old] none [OF pc] parts(2) fr by (simp_all add: pt_charges_def pool_frame_def)
  show ?thesis
    by (rule pt_owner_good [OF inv st]) (use wp fr same life h c in \<open>auto simp: pool_frame_def\<close>)
qed

lemma pt_owner_panicked:
  assumes inv: "pt_inv h0 base s" and old: "pt_owner s = PoolAlloc t (OwnerPanicked e)"
  shows "pt_good h0 base OwnerRuns s"
proof -
  note parts = pt_inv_parts [OF inv] and agg = pt_own_agg [of "pt_world s" s PoolIdle None "pt_pool s"]
  have "conc_life (pt_pool s) PoolIdle (pt_scrapers s) (pt_threads s) h0 (pt_world s) (image_mset fst (pt_holds s))"
    using conc_owner [OF parts(1) [unfolded pt_memory_def old], of PoolIdle] by simp
  with agg parts(2) show ?thesis
    by (intro pt_owner_good [OF inv, where pc = PoolIdle and b = None and pp = "pt_pool s" and w = "pt_world s"])
      (simp_all add: old pt_charges_def)
qed

lemma pt_owner_runs_good:
  assumes inv: "pt_inv h0 base s"
  shows "pt_good h0 base OwnerRuns s"
proof (cases "pt_owner s")
  case (PoolAlloc t q)
  then show ?thesis using pt_owner_alloc [OF inv PoolAlloc] pt_owner_panicked [OF inv] by (cases q) auto
qed (use inv in \<open>auto intro: pt_owner_record pt_owner_close\<close>)

subsection \<open>Steps of the clients\<close>

text \<open>What remains to be shown of a client's step that touches no memory and no counter.\<close>

lemma pt_client_quiet:
  assumes inv: "pt_inv h0 base s" and st: "pt_step e s = Some s'"
    and w: "w_shared (pt_world s') = w_shared (pt_world s)" "w_tenants (pt_world s') = w_tenants (pt_world s)"
    and holds: "pt_holds s' = pt_holds s" "pt_pages s' = pt_pages s" "pt_bytes s' = pt_bytes s"
    and life: "conc_life (pt_pool s') (pt_owner s') (pt_scrapers s') (pt_threads s') h0 (pt_world s') (image_mset fst (pt_holds s))"
    and hok: "pt_handles_ok s'" and stable: "pages_stable (pt_world s) (pt_world s')"
  shows "pt_good h0 base e s"
  by (rule pt_goodI [OF st _ _ hok stable])
    (use pt_inv_parts(2) [OF inv] holds w life in \<open>simp_all add: pt_charges_def pt_memory_def\<close>)

lemma pt_start_owner:
  assumes inv: "pt_inv h0 base s" and idle: "pt_owner s = PoolIdle"
  shows "pt_good h0 base (StartAllocate t) s" and "pt_good h0 base StartDropPool s"
proof -
  note parts = pt_inv_parts [OF inv] and life = pt_inv_parts(1) [OF inv, unfolded pt_memory_def idle]
  show "pt_good h0 base (StartAllocate t) s"
    by (rule pt_client_quiet [OF inv, where s' = "s\<lparr>pt_owner := PoolAlloc t OwnerIdle\<rparr>"])
      (use idle parts(3) conc_owner [OF life, of "PoolAlloc t OwnerIdle"] in
        \<open>auto simp: pt_holds_def pt_pages_def pt_bytes_def pt_handles_ok_def pages_stable_refl\<close>)
  show "pt_good h0 base StartDropPool s"
    by (rule pt_client_quiet [OF inv, where s' = "s\<lparr>pt_owner := PoolWalk\<rparr>"])
      (use idle parts(3) conc_drop_start [OF life] in
        \<open>auto simp: pt_holds_def pt_pages_def pt_bytes_def pt_handles_ok_def pages_stable_refl\<close>)
qed

lemma pt_scraper:
  assumes inv: "pt_inv h0 base s"
  shows "pt_owner s = PoolIdle \<or> pt_scrapers s \<noteq> 0 \<Longrightarrow> pt_good h0 base CloneScraper s"
    and "pt_scrapers s \<noteq> 0 \<Longrightarrow> pt_good h0 base DropScraper s"
proof -
  note parts = pt_inv_parts [OF inv] and life = pt_inv_parts(1) [OF inv, unfolded pt_memory_def]
  show "pt_good h0 base CloneScraper s" if "pt_owner s = PoolIdle \<or> pt_scrapers s \<noteq> 0"
  proof -
    have nz: "conc_refs (pt_owner s) (pt_scrapers s) (pt_threads s) (image_mset fst (pt_holds s)) \<noteq> 0"
      using that by (auto simp: conc_refs_def)
    show ?thesis
      by (rule pt_client_quiet [OF inv, where s' = "s\<lparr>pt_scrapers := Suc (pt_scrapers s), pt_world := clone_shared (pt_world s)\<rparr>"])
        (use parts(3) conc_scrape [OF life nz] conc_lifeD(2) [OF life nz] in
          \<open>auto simp: pt_holds_def pt_pages_def pt_bytes_def pt_handles_ok_def pt_stable_quiet\<close>)
  qed
  show "pt_good h0 base DropScraper s" if "pt_scrapers s \<noteq> 0"
  proof -
    from that obtain k where k: "pt_scrapers s = Suc k" by (cases "pt_scrapers s") auto
    show ?thesis
      by (rule pt_client_quiet [OF inv, where s' = "s\<lparr>pt_scrapers := k, pt_threads := pt_threads s @ [DecShared]\<rparr>"])
        (use parts(3) conc_unscrape [OF life [unfolded k]] k in
          \<open>auto simp: pt_holds_def pt_pages_def pt_bytes_def pt_handles_ok_def pages_stable_refl\<close>)
  qed
qed

lemma pt_builder_split:
  assumes "i < length (pt_builders s)"
  shows "page_holds w (mset (pt_builders s))
    = add_mset (builder_hold (pt_builders s ! i)) (page_holds w (mset (remove_nth i (pt_builders s))))"
  by (simp add: mset_remove_nth [OF assms])

lemma pt_builder_live:
  assumes inv: "pt_inv h0 base s" and i: "i < length (pt_builders s)"
  obtains buf where "pb_buf (pt_builders s ! i) = Some buf" and "pb_len (pt_builders s ! i) \<le> pt_size s"
    and "builder_hold (pt_builders s ! i) = (buf, pb_tenant (pt_builders s ! i))" and "pt_holds s \<noteq> {#}"
    and "page_builder_capacity (pt_world s) = Some (pt_size s)" and "get_shared (pt_world s) = Some (w_shared (pt_world s))"
proof -
  have "builder_ok (pt_size s) (pt_builders s ! i)"
    using inv nth_mem [OF i] by (simp add: pt_inv_def pt_handles_ok_def)
  then obtain buf where "pb_buf (pt_builders s ! i) = Some buf" "pb_len (pt_builders s ! i) \<le> pt_size s"
    by (auto simp: builder_ok_def)
  moreover have h: "pt_holds s \<noteq> {#}" by (simp add: pt_holds_def pt_builder_split [OF i])
  moreover have "get_shared (pt_world s) = Some (w_shared (pt_world s))"
    using conc_lifeD(2) [OF pt_inv_parts(1) [OF inv, unfolded pt_memory_def] pt_holds_refs [OF h]] .
  ultimately show thesis by (intro that) (auto simp: builder_hold_def page_builder_capacity_def)
qed

lemma pt_end_builder:
  assumes inv: "pt_inv h0 base s" and i: "i < length (pt_builders s)"
  shows "pt_good h0 base (StartDropBuilder i) s" and "pt_good h0 base (SealBuilder i) s"
proof -
  let ?b = "pt_builders s ! i" and ?B = "remove_nth i (pt_builders s)" and ?w = "pt_world s"
  note parts = pt_inv_parts [OF inv] and life = pt_inv_parts(1) [OF inv, unfolded pt_memory_def]
  from inv i obtain buf where b: "pb_buf ?b = Some buf" "pb_len ?b \<le> pt_size s" "builder_hold ?b = (buf, pb_tenant ?b)"
    "pt_holds s \<noteq> {#}" "page_builder_capacity ?w = Some (pt_size s)" by (rule pt_builder_live)
  note split = pt_builder_split [OF i]
  have B: "\<forall>b \<in> set ?B. builder_ok (pt_size s) b"
    using parts(3) set_remove_nth_subset [of i "pt_builders s"] by (auto simp: pt_handles_ok_def)
  let ?pc = "SubBytes buf (pb_tenant ?b) (pt_size s)"
  let ?s1 = "s\<lparr>pt_builders := ?B, pt_threads := pt_threads s @ [?pc]\<rparr>"
  show "pt_good h0 base (StartDropBuilder i) s"
  proof (rule pt_client_quiet [OF inv, where s' = ?s1])
    show "pt_handles_ok ?s1" using parts(3) B by (auto simp: pt_handles_ok_def)
  qed (use b conc_thread_new [OF life] in \<open>simp_all add: pt_holds_def pt_pages_def pt_bytes_def split pages_stable_refl\<close>)
  let ?inner = "\<lparr>pi_buf = Some buf, pi_capacity = pt_size s, pi_len = pb_len ?b, pi_tenant = pb_tenant ?b\<rparr>"
  let ?w2 = "(clone_shared ?w)\<lparr>w_pages := w_pages ?w @ [(?inner, 1)]\<rparr>"
  let ?s2 = "s\<lparr>pt_builders := ?B, pt_world := ?w2, pt_threads := pt_threads s @ [DecShared]\<rparr>"
  have cells: "live_cells (w_pages ?w2) = add_mset ?inner (live_cells (w_pages ?w))" by (simp add: live_cells_def)
  then have holds: "page_holds ?w2 (mset ?B) = page_holds ?w (mset (pt_builders s))"
    using b(3) by (simp add: page_holds_def split [unfolded page_holds_def] inner_hold_def)
  show "pt_good h0 base (SealBuilder i) s"
  proof (rule pt_client_quiet [OF inv, where s' = ?s2])
    show "pt_step (SealBuilder i) s = Some ?s2" using b by (simp add: Let_def clone_shared_def)
    show "pt_handles_ok ?s2" using parts(3) B b by (auto simp: pt_handles_ok_def cells inner_ok_def)
    show "pages_stable ?w (pt_world ?s2)"
      by (rule pages_stable_append [OF pt_filled [OF parts(3)], where C = "{#}"]) (simp_all add: keeps_def)
    show "conc_life (pt_pool ?s2) (pt_owner ?s2) (pt_scrapers ?s2) (pt_threads ?s2) h0 (pt_world ?s2) (image_mset fst (pt_holds s))"
      using conc_unscrape [OF conc_scrape [OF life pt_holds_refs [OF b(4)]]] conc_life_cong [of ?w2 "clone_shared ?w"] by simp
  qed (use holds in \<open>simp_all add: pt_holds_def pt_pages_def pt_bytes_def\<close>)
qed

lemma page_append_raw:
  assumes "pb_buf b = Some buf" and "w_heap w buf = Some bs" and "length bs = unat (sh_page_size (w_shared w))"
    and "pb_len b \<le> sh_page_size (w_shared w)" and "get_shared w = Some (w_shared w)"
    and "unat (sh_page_size (w_shared w)) \<le> isize_max" and "length data \<le> isize_max"
  shows "\<exists>r b' bs'. page_builder_append data b w = Some (r, b', w\<lparr>w_heap := (w_heap w)(buf \<mapsto> bs')\<rparr>)
    \<and> length bs' = length bs \<and> builder_hold b' = builder_hold b \<and> builder_ok (sh_page_size (w_shared w)) b'"
proof -
  let ?sz = "sh_page_size (w_shared w)" and ?l = "unat (pb_len b)"
  note len = builder_length_add [OF assms(4,6,7)]
  have gt: "(pb_len b + of_nat (length data) > ?sz) = (\<not> ?l + length data \<le> unat ?sz)"
    using len(2) by (simp add: not_le)
  show ?thesis
  proof (cases "?l + length data \<le> unat ?sz")
    case False
    have same: "w\<lparr>w_heap := (w_heap w)(buf \<mapsto> bs)\<rparr> = w" using assms(2) by (cases w) (auto simp: fun_upd_idem)
    show ?thesis using False gt assms
      by (intro exI [of _ "Inr (Inl \<lparr>pf_capacity = ?sz, pf_len = pb_len b, pf_attempted = of_nat (length data)\<rparr>)"]
          exI [of _ b] exI [of _ bs])
        (simp add: page_builder_append_def page_builder_capacity_def builder_ok_def same del: word_less_nat_alt)
  next
    case True
    then have wr: "mem_write (w_heap w) buf ?l data = Some ((w_heap w)(buf \<mapsto> take ?l bs @ data @ drop (?l + length data) bs))"
      using assms by (simp add: mem_write_def)
    have "pb_len b + of_nat (length data) \<le> ?sz" using True len(1) by (simp add: word_le_nat_alt)
    then show ?thesis using gt True assms wr
      by (intro exI [of _ "Inr (Inr ())"] exI [of _ "b\<lparr>pb_len := pb_len b + of_nat (length data)\<rparr>"]
          exI [of _ "take ?l bs @ data @ drop (?l + length data) bs"])
        (simp add: page_builder_append_def page_builder_capacity_def builder_ok_def builder_hold_def)
  qed
qed

text \<open>A builder writes to its own buffer.\<close>

lemma pt_append:
  assumes inv: "pt_inv h0 base s" and i: "i < length (pt_builders s)" and data: "length data \<le> isize_max"
  shows "pt_good h0 base (AppendBytes i data) s"
proof -
  let ?b = "pt_builders s ! i" and ?w = "pt_world s" and ?U = "image_mset fst (pt_holds s)"
  note parts = pt_inv_parts [OF inv] and life = pt_inv_parts(1) [OF inv, unfolded pt_memory_def]
  from inv i obtain buf where b: "pb_buf ?b = Some buf" "pb_len ?b \<le> pt_size s" "builder_hold ?b = (buf, pb_tenant ?b)"
    "get_shared ?w = Some (w_shared ?w)" by (rule pt_builder_live)
  have U: "?U = add_mset buf (page_buffers ?w (mset (remove_nth i (pt_builders s)))
      + image_mset fst (tally thread_hold (pt_threads s) + owner_hold (pt_owner s)))"
    by (simp add: pt_holds_def pt_builder_split [OF i] b(3))
  then have held: "buf \<in># ?U" by simp
  from conc_life_buffer [OF life held] obtain bs where
    bs: "w_heap ?w buf = Some bs" "length bs = unat (pt_size s)" "unat (pt_size s) \<le> isize_max" by (auto elim: buffer_okE)
  from page_append_raw [OF b(1) bs(1,2) b(2,4) bs(3) data] obtain r b' bs' where
    app: "page_builder_append data ?b ?w = Some (r, b', ?w\<lparr>w_heap := (w_heap ?w)(buf \<mapsto> bs')\<rparr>)"
    and b': "length bs' = length bs" "builder_hold b' = builder_hold ?b" "builder_ok (pt_size s) b'" by blast
  let ?w' = "?w\<lparr>w_heap := (w_heap ?w)(buf \<mapsto> bs')\<rparr>"
  let ?s = "s\<lparr>pt_builders := (pt_builders s)[i := b'], pt_world := ?w'\<rparr>"
  have holds: "page_holds ?w' (mset ((pt_builders s)[i := b'])) = page_holds ?w (mset (pt_builders s))"
    using b'(2) by (simp add: pt_builder_split [OF i] mset_update_nth [OF i])
  have agg: "pt_holds ?s = pt_holds s" "pt_pages ?s = pt_pages s" "pt_bytes ?s = pt_bytes s"
    using holds by (simp_all add: pt_holds_def pt_pages_def pt_bytes_def)
  show ?thesis
  proof (rule pt_goodI)
    show "pt_step (AppendBytes i data) s = Some ?s" using app by simp
    have "length bs' = unat (pt_size s)" using b' bs by simp
    from conc_life_write [OF life held this] show "pt_memory h0 ?s" by (simp add: pt_memory_def agg)
    show "pt_charges base ?s" using parts(2) agg by (simp add: pt_charges_def)
    show "pt_handles_ok ?s"
      using parts(3) b'(3) set_update_subset_insert [of "pt_builders s" i b'] by (auto simp: pt_handles_ok_def)
    have "buf \<notin># page_buffers ?w {#}"
    proof
      assume "buf \<in># page_buffers ?w {#}"
      then have "buf \<in># page_buffers ?w (mset (remove_nth i (pt_builders s)))" by (auto simp: page_holds_def)
      then have "2 \<le> count ?U buf" unfolding U by (simp add: Suc_le_eq)
      with conc_life_once [OF life, of buf] show False by simp
    qed
    then show "pages_stable ?w (pt_world ?s)"
      by (intro pages_stable_same [OF pt_filled [OF parts(3)], where C = "{#}"]) (auto simp: keeps_def)
  qed
qed

lemma pt_handle:
  assumes inv: "pt_inv h0 base s" and g: "get_page p (pt_world s) = Some (inner, n)"
  shows "pt_good h0 base (ReadHandle p) s" and "pt_good h0 base (CloneHandle p) s" and "pt_good h0 base (DropHandle p) s"
proof -
  let ?w = "pt_world s" and ?B = "mset (pt_builders s)"
  note parts = pt_inv_parts [OF inv] and life = pt_inv_parts(1) [OF inv, unfolded pt_memory_def]
  have q: "p < length (w_pages ?w)" "w_pages ?w ! p = (inner, n)" "n \<noteq> 0" using g by (simp_all add: get_page_Some)
  from live_cells_split [OF q] obtain L where L: "live_cells (w_pages ?w) = add_mset inner L"
    "\<And>m. live_cells ((w_pages ?w)[p := (inner, m)]) = (if m = 0 then L else add_mset inner L)" by metis
  then obtain buf where buf: "pi_buf inner = Some buf" "pi_len inner \<le> pt_size s" "pi_capacity inner = pt_size s"
    using parts(3) by (auto simp: pt_handles_ok_def inner_ok_def)
  then have hold: "inner_hold inner = (buf, pi_tenant inner)" by (simp add: inner_hold_def)
  have H: "page_holds ?w ?B = add_mset (buf, pi_tenant inner) (image_mset builder_hold ?B + image_mset inner_hold L)"
    by (simp add: page_holds_def L(1) hold)
  have "buf \<in># image_mset fst (pt_holds s)" by (rule pt_page_buffer) (simp add: H)
  from conc_life_buffer [OF life this] have "\<exists>bs. page_as_slice p ?w = Some (Inr bs)"
    using buf g by (auto simp: page_as_slice_def mem_read_def word_le_nat_alt elim: buffer_okE)
  with inv show "pt_good h0 base (ReadHandle p) s" by (auto simp: pt_good_def pages_stable_refl)
  have st: "pages_stable ?w (?w\<lparr>w_pages := (w_pages ?w)[p := (inner, m)]\<rparr>)" for m
    by (rule pages_stable_update [OF pt_filled [OF parts(3)] g, where C = "{#}"]) (simp_all add: keeps_def)
  have ok: "\<forall>i \<in># live_cells ((w_pages ?w)[p := (inner, m)]). inner_ok (pt_size s) i" for m
    using parts(3) L by (auto simp: pt_handles_ok_def)
  have H': "page_holds (?w\<lparr>w_pages := (w_pages ?w)[p := (inner, m)]\<rparr>) ?B
      = (if m = 0 then image_mset builder_hold ?B + image_mset inner_hold L else page_holds ?w ?B)" for m
    by (simp add: page_holds_def L)
  have life': "conc_life pp pc k ts h0 (?w\<lparr>w_pages := (w_pages ?w)[p := (inner, m)]\<rparr>) U = conc_life pp pc k ts h0 ?w U"
    for pp pc k ts m U by (rule conc_life_cong) simp_all
  let ?s1 = "s\<lparr>pt_world := ?w\<lparr>w_pages := (w_pages ?w)[p := (inner, Suc n)]\<rparr>\<rparr>"
  show "pt_good h0 base (CloneHandle p) s"
  proof (rule pt_client_quiet [OF inv, where s' = ?s1])
    show "pt_step (CloneHandle p) s = Some ?s1" using g by (simp add: page_clone_def)
    show "pt_handles_ok ?s1" using parts(3) ok by (simp add: pt_handles_ok_def)
  qed (use st H' [of "Suc n"] life life' in \<open>simp_all add: pt_holds_def pt_pages_def pt_bytes_def\<close>)
  let ?ts = "if n = 1 then [SubBytes buf (pi_tenant inner) (pt_size s)] else []"
  let ?s2 = "s\<lparr>pt_world := ?w\<lparr>w_pages := (w_pages ?w)[p := (inner, n - 1)]\<rparr>, pt_threads := pt_threads s @ ?ts\<rparr>"
  show "pt_good h0 base (DropHandle p) s"
  proof (rule pt_client_quiet [OF inv, where s' = ?s2])
    show "pt_step (DropHandle p) s = Some ?s2" using g buf by simp
    show "pt_handles_ok ?s2" using parts(3) ok by (auto simp: pt_handles_ok_def)
  qed (use st H' [of "n - 1"] H q(3) life life' conc_thread_new [OF life] in
      \<open>auto simp: pt_holds_def pt_pages_def pt_bytes_def split: if_splits\<close>)
qed

lemma pt_step_good:
  assumes "pt_inv h0 base s" and "pt_allowed e s"
  shows "pt_good h0 base e s"
  using assms
  by (cases e) (auto intro: pt_start_owner pt_owner_runs_good pt_thread_runs pt_append pt_end_builder pt_handle pt_scraper)

interpretation page_threads: safe_client pt_allowed pt_step "pt_inv h0 base"
    "\<lambda>s s'. pages_stable (pt_world s) (pt_world s')" for h0 base
proof
  show "\<exists>s'. pt_step c s = Some s' \<and> pt_inv h0 base s' \<and> pages_stable (pt_world s) (pt_world s')"
    if "pt_inv h0 base s" and "pt_allowed c s" for c s
    using pt_step_good [OF that] by (simp add: pt_good_def)
qed (rule pages_stable_refl, erule (1) pages_stable_trans)

end
