(* ===== verification/Pool_Progress.thy ===== *)
theory Pool_Progress
  imports Pool_Threads
begin

text \<open>
  Progress of the machine of \<open>Pool_Threads\<close>: a thread that runs without interference, how many steps it then has to go,
  and that its steps amount to \<open>push_return\<close> and the drop of an \<open>Arc<PoolShared>\<close>. The owner's call of
  \<open>allocate_raw_page\<close> has a bounded number of steps whatever the others do.
\<close>

section \<open>Running alone\<close>

text \<open>A thread running alone and without spurious failures.\<close>

fun drop_alone :: "nat \<Rightarrow> drop_pc \<Rightarrow> 'z pool_world_scheme \<Rightarrow> (drop_pc \<times> 'z pool_world_scheme) option" where
  "drop_alone 0 pc w = Some (pc, w)"
| "drop_alone (Suc n) pc w = do { (pc, w) \<leftarrow> drop_step False pc w; drop_alone n pc w }"

lemma drop_alone_dropped [simp]: "drop_alone n Dropped w = Some (Dropped, w)"
  by (induction n) auto

lemma drop_alone_shared: "drop_alone (Suc (Suc n)) DecShared w = map_option (Pair Dropped) (drop_shared w)"
  by (auto simp: drop_shared_def dec_shared_def Let_def split: Option.bind_split)

lemma drop_alone_push:
  "drop_alone (Suc (Suc (Suc (Suc (Suc n))))) (Pushing (LoadHead raw)) w = do { w \<leftarrow> push_return raw w; drop_alone n DecShared w }"
  by (cases "get_shared w"; cases "ptr_write (w_heap w) raw (sh_return_head (w_shared w))")
    (auto simp: push_return_def get_shared_def split: if_splits)

text \<open>How many steps a thread has to go when no other interferes; a head that another thread has replaced since
  costs one more round of the loop.\<close>

fun drop_rank :: "drop_pc \<Rightarrow> 'z pool_world_scheme \<Rightarrow> nat" where
  "drop_rank (SubBytes buf t cap) w = 9"
| "drop_rank (SubPages buf t) w = 8"
| "drop_rank (Pushing (LoadHead raw)) w = 7"
| "drop_rank (Pushing (WriteNext raw head)) w = (if sh_return_head (w_shared w) = head then 6 else 9)"
| "drop_rank (Pushing (CasHead raw head)) w = (if sh_return_head (w_shared w) = head then 5 else 8)"
| "drop_rank (Pushing SubInUse) w = 4"
| "drop_rank (Pushing AddFree) w = 3"
| "drop_rank (Pushing Returned) w = 3"
| "drop_rank DecShared w = 2"
| "drop_rank FreeShared w = 1"
| "drop_rank Dropped w = 0"

lemma drop_rank_le: "drop_rank pc w \<le> 9"
  by (cases "(pc, w)" rule: drop_rank.cases) auto

lemma drop_step_rank: "drop_step False pc w = Some (pc', w') \<Longrightarrow> pc \<noteq> Dropped \<Longrightarrow> drop_rank pc' w' < drop_rank pc w"
  by (cases "(pc, w)" rule: drop_rank.cases) (auto simp: bind_eq_Some_conv get_shared_def split: if_splits)

section \<open>The owner\<close>

fun owner_rank :: "owner_pc \<Rightarrow> nat" where
  "owner_rank OwnerIdle = 7"
| "owner_rank (OwnerGot head) = 6"
| "owner_rank OwnerPop = 5"
| "owner_rank OwnerFresh = 5"
| "owner_rank (OwnerCount buf) = 4"
| "owner_rank OwnerAlloc = 4"
| "owner_rank (OwnerUse buf) = 3"
| "owner_rank (OwnerTake buf) = 2"
| "owner_rank (OwnerPanicked e) = 1"

lemma owner_step_rank:
  "owner_step pc pp w = Some (pc', pp', w') \<Longrightarrow> (\<forall>buf. pc \<noteq> OwnerTake buf) \<Longrightarrow> (\<forall>e. pc \<noteq> OwnerPanicked e) \<Longrightarrow>
   owner_rank pc' < owner_rank pc"
proof (cases "pc = OwnerAlloc")
  case True
  assume "owner_step pc pp w = Some (pc', pp', w')"
  then show ?thesis unfolding True by (cases rule: owner_alloc_cases) simp_all
next
  case False
  assume "owner_step pc pp w = Some (pc', pp', w')" "\<forall>buf. pc \<noteq> OwnerTake buf" "\<forall>e. pc \<noteq> OwnerPanicked e"
  with False show ?thesis by (cases pc) (auto simp: bind_eq_Some_conv split: if_splits)
qed

end
