(* ===== verification/Page_Lifetimes.thy ===== *)
theory Page_Lifetimes
  imports Page_Threads Pool_Progress
begin

text \<open>
  Properties of the concurrent machine of \<open>Page_Threads\<close> over whole lifetimes: what holds in every state that
  any interleaving can reach, how the machine's steps relate to the operations of the sequential model, and that
  every run can be brought to its end.
\<close>

section \<open>Running alone\<close>

text \<open>The owner running alone.\<close>

fun allocate_alone :: "nat \<Rightarrow> pool_pc \<Rightarrow> page_pool \<Rightarrow> 'z pool_world_scheme
    \<Rightarrow> ((panic + page_builder) \<times> page_pool \<times> 'z pool_world_scheme) option" where
  "allocate_alone 0 pc pp w = None"
| "allocate_alone (Suc n) pc pp w =
     (case pc of
        PoolAlloc t (OwnerPanicked e) \<Rightarrow> Some (Inl e, pp, w)
      | _ \<Rightarrow> do {
          (pc, b, pp, w) \<leftarrow> pool_step pc pp w;
          (case b of Some b \<Rightarrow> Some (Inr b, pp, w) | None \<Rightarrow> allocate_alone n pc pp w)
        })"

section \<open>Lemmas\<close>

subsection \<open>The start\<close>

lemma pt_of_inv:
  assumes "page_sys_inv h0 base s" and "s_pool s = Some pp"
  shows "pt_inv h0 base (pt_of pp s)"
proof -
  let ?w = "s_world s" and ?B = "mset (s_builders s)" and ?s = "pt_of pp s"
  have inv: "page_inv h0 base (Some pp) (s_scrapers s) ?w ?B" using assms by (simp add: page_sys_inv_def)
  have agg: "pt_holds ?s = page_holds ?w ?B" "pt_pages ?s = page_holds ?w ?B" "pt_bytes ?s = page_holds ?w ?B"
    by (simp_all add: pt_of_def pt_holds_def pt_pages_def pt_bytes_def)
  have "pt_memory h0 ?s"
    unfolding pt_memory_def agg using inv conc_life_start [of h0 pp "s_scrapers s" ?w] by (simp add: pt_of_def page_inv_def)
  moreover have "pt_charges base ?s"
    unfolding pt_charges_def agg using inv
    by (simp add: pt_of_def page_inv_def charged_def charged_pages_def charged_bytes_def)
  moreover have "pt_handles_ok ?s" using inv by (simp add: pt_handles_ok_def pt_of_def page_inv_def)
  ultimately show ?thesis by (simp add: pt_inv_def)
qed

lemma pt_run_inv:
  assumes "page_source_contract src" and "with_source src w = (Inr pp0, w')" and "w_pages w = []"
    and "page_program (page_sys_start pp0 w') cs s0" and "s_pool s0 = Some pp" and "pt_run (pt_of pp s0) es s"
  shows "pt_inv (w_heap w) (w_tenants w) s"
proof -
  have "page_sys_inv (w_heap w) (w_tenants w) s0"
    using page_client.run_inv [OF assms(4) page_sys_start_inv [OF assms(1-3)]] by blast
  from page_threads.run_inv [OF assms(6) pt_of_inv [OF this assms(5)]] show ?thesis by blast
qed

lemma pt_quiet_charges:
  assumes "set ts \<subseteq> {Dropped}"
  shows "tally thread_hold ts = {#}" "tally thread_bytes ts = {#}"
  using assms by (induction ts) auto

lemma owner_bytes_pages: "owner_bytes pc \<subseteq># owner_pages pc"
  by (cases pc rule: owner_bytes.cases) auto

lemma thread_bytes_hold: "tally thread_bytes ts \<subseteq># tally thread_hold ts"
proof (induction ts)
  case (Cons pc ts)
  have "thread_bytes pc \<subseteq># thread_hold pc" by (cases pc) auto
  with Cons show ?case by (simp add: subset_mset.add_mono)
qed simp

lemma pt_bytes_pages: "pt_bytes s \<subseteq># pt_pages s"
  unfolding pt_bytes_def pt_pages_def by (intro subset_mset.add_mono thread_bytes_hold owner_bytes_pages) simp

subsection \<open>Running alone\<close>

lemma drop_alone_begin:
  "drop_alone 9 (drop_begin buf t cap) w = map_option (Pair Dropped) (do {
     w \<leftarrow> (case buf of None \<Rightarrow> Some w | Some b \<Rightarrow> push_return b (upd_tenant t (record_release cap) w));
     drop_shared w })"
proof -
  have rel: "upd_tenant t (\<lambda>s. s\<lparr>t_pages_in_use := fetch_sub (t_pages_in_use s) 1\<rparr>)
      (upd_tenant t (\<lambda>s. s\<lparr>t_bytes_in_use := fetch_sub (t_bytes_in_use s) cap\<rparr>) w) = upd_tenant t (record_release cap) w"
    by (simp add: upd_tenant_def record_release_def Let_def)
  have nine: "(9 :: nat) = Suc (Suc (Suc (Suc (Suc (Suc (Suc (Suc (Suc 0))))))))" by simp
  show ?thesis
  proof (cases buf)
    case None
    then show ?thesis unfolding nine by (simp only: drop_begin.simps drop_alone_shared) simp
  next
    case (Some b)
    have "drop_alone 9 (drop_begin buf t cap) w = do {
        w \<leftarrow> push_return b (upd_tenant t (record_release cap) w); drop_alone (Suc (Suc 0)) DecShared w }"
      unfolding nine Some drop_begin.simps
      by (subst drop_alone.simps, subst drop_step.simps, simp only: bind.bind_lunit prod.case,
          subst drop_alone.simps, subst drop_step.simps, simp only: bind.bind_lunit prod.case rel drop_alone_push)
    also have "\<dots> = map_option (Pair Dropped) (do { w \<leftarrow> push_return b (upd_tenant t (record_release cap) w); drop_shared w })"
      unfolding drop_alone_shared by (simp split: Option.bind_split)
    finally show ?thesis by (simp add: Some)
  qed
qed

lemma allocate_record:
  assumes "0 < w_strong w"
  shows "allocate_alone (Suc (Suc (Suc (Suc (Suc (Suc n)))))) (PoolRecord t buf AddTotal) pp w
    = Some (Inr (page_builder_new buf (tenant_cell t)), pp,
        upd_tenant (tenant_cell t) (record_allocate (sh_page_size (w_shared w))) w)"
  using assms by (simp add: get_shared_def upd_tenant_def record_allocate_def fetch_add_def Let_def)

lemma allocate_alone_call:
  assumes "owner_call m pc pp w = Some (r, pp', w')"
  shows "allocate_alone (Suc (Suc (Suc (Suc (Suc (Suc m)))))) (PoolAlloc t pc) pp w = (case r of
      Inl e \<Rightarrow> Some (Inl e, pp', w')
    | Inr buf \<Rightarrow> Some (Inr (page_builder_new buf (tenant_cell t)), pp',
        upd_tenant (tenant_cell t) (record_allocate (sh_page_size (w_shared w'))) w'))"
  using assms
proof (induction m arbitrary: pc pp w)
  case (Suc m)
  from Suc.prems obtain pc1 pp1 w1 where st: "owner_step pc pp w = Some (pc1, pp1, w1)"
    by (auto simp: bind_eq_Some_conv)
  show ?case
  proof (cases pc)
    case (OwnerTake buf)
    with st Suc.prems have r: "r = Inr buf" "pp' = pp1" "w' = w1" by simp_all
    have "0 < w_strong w1" using st OwnerTake by (auto simp: bind_eq_Some_conv)
    from allocate_record [OF this, of m t buf pp1] st OwnerTake r show ?thesis
      by (subst allocate_alone.simps) (simp del: allocate_alone.simps(2))
  next
    case (OwnerPanicked e)
    from Suc.prems show ?thesis by (auto simp: OwnerPanicked)
  qed (use st Suc.prems Suc.IH [of pc1 pp1 w1] in \<open>simp_all del: owner_step.simps allocate_alone.simps(2)
      add: allocate_alone.simps(2) [where pc = "PoolAlloc t q" for q]\<close>)
qed simp

lemma allocate_alone_eq:
  assumes "0 < w_strong w" and "page_allocate t pp w = Some res"
  shows "allocate_alone 12 (PoolAlloc t OwnerIdle) pp w = Some res"
proof -
  from assms(2) obtain r pp' w' where raw: "owner_call 6 OwnerIdle pp w = Some (r, pp', w')"
    by (auto simp: page_allocate_def owner_call_eq [OF assms(1)] bind_eq_Some_conv)
  have "allocate_raw_page pp w = Some (r, pp', w')" using raw by (simp add: owner_call_eq [OF assms(1)])
  with assms(2) allocate_alone_call [OF raw, of t] show ?thesis
    unfolding eval_nat_numeral by (cases r) (auto simp: page_allocate_def bind_eq_Some_conv get_shared_def split: if_splits)
qed

text \<open>A thread of a reachable state runs to its end, whatever the other threads are in the middle of.\<close>

lemma pt_thread_finishes:
  assumes "pt_inv h0 base s" and "i < length (pt_threads s)" and "drop_rank (pt_threads s ! i) (pt_world s) \<le> n"
  shows "\<exists>w. drop_alone n (pt_threads s ! i) (pt_world s) = Some (Dropped, w)
    \<and> pt_run s (replicate n (ThreadRuns i False)) (s\<lparr>pt_threads := (pt_threads s)[i := Dropped], pt_world := w\<rparr>)"
  using assms
proof (induction n arbitrary: s)
  case 0
  then have "pt_threads s ! i = Dropped" by (cases "(pt_threads s ! i, pt_world s)" rule: drop_rank.cases) (auto split: if_splits)
  moreover from this have "s\<lparr>pt_threads := (pt_threads s)[i := Dropped], pt_world := pt_world s\<rparr> = s"
    by (metis (no_types, lifting) list_update_id pt_state.surjective pt_state.update_convs(1,6))
  ultimately show ?case using run_none [of pt_allowed pt_step s] by auto
next
  case (Suc n)
  let ?e = "ThreadRuns i False" and ?pc = "pt_threads s ! i"
  have al: "pt_allowed ?e s" using Suc.prems by simp
  from page_threads.call_defined [OF Suc.prems(1) al] obtain s1 where
    s1: "pt_step ?e s = Some s1" "pt_inv h0 base s1" by blast
  then obtain pc w where st: "drop_step False ?pc (pt_world s) = Some (pc, w)"
    and eq: "s1 = s\<lparr>pt_threads := (pt_threads s)[i := pc], pt_world := w\<rparr>" by (auto simp: bind_eq_Some_conv)
  have "drop_rank pc w \<le> n"
  proof (cases "?pc = Dropped")
    case True
    then show ?thesis using st by simp
  next
    case False
    from drop_step_rank [OF st this] Suc.prems(3) show ?thesis by simp
  qed
  with Suc.IH [OF s1(2)] Suc.prems(2) obtain w' where
    "drop_alone n pc w = Some (Dropped, w')"
    "pt_run s1 (replicate n ?e) (s\<lparr>pt_threads := (pt_threads s)[i := Dropped], pt_world := w'\<rparr>)" by (auto simp: eq)
  with st s1(1) al show ?case by (auto simp: run_eq_exec_all)
qed

subsection \<open>Running down\<close>

fun record_rank :: "alloc_pc \<Rightarrow> nat" where
  "record_rank AddTotal = 6"
| "record_rank AddPages = 5"
| "record_rank AddBytes = 4"
| "record_rank (LoadPeak nb) = 3"
| "record_rank (StorePeak nb) = 2"
| "record_rank Finished = 1"

text \<open>The owner's way through \<open>allocate\<close>, then through the drop of the pool, whose walk has the length of the
  local list.\<close>

fun call_rank :: "pool_pc \<Rightarrow> nat" where
  "call_rank (PoolAlloc t pc) = owner_rank pc + 6"
| "call_rank (PoolRecord t buf pc) = record_rank pc"
| "call_rank _ = 0"

fun end_rank :: "pool_pc \<Rightarrow> nat" where
  "end_rank PoolGone = 0"
| "end_rank PoolFree = 1"
| "end_rank PoolDec = 2"
| "end_rank PoolWalk = 3"
| "end_rank _ = 4"

lemma alloc_step_rank: "alloc_step b pc s = (pc', s') \<Longrightarrow> pc \<noteq> Finished \<Longrightarrow> record_rank pc' < record_rank pc"
  by (cases pc) (auto split: if_splits)

lemma call_rank_step:
  assumes "pool_step pc pp w = Some (pc', b, pp', w')" and "call_rank pc \<noteq> 0"
  shows "call_rank pc' < call_rank pc"
proof (cases pc)
  case (PoolAlloc t q)
  then show ?thesis using assms owner_step_rank [of q pp w] by (cases q) (auto simp: bind_eq_Some_conv simp del: owner_step.simps)
next
  case (PoolRecord t buf q)
  then show ?thesis
    using assms alloc_step_rank [of "sh_page_size (w_shared w)" q "w_tenants w (tenant_cell t)"]
    by (auto simp: bind_eq_Some_conv get_shared_def split: if_splits prod.splits)
qed (use assms(2) in auto)

lemma pt_owner_step:
  assumes "pt_inv h0 base s"
  obtains pc b pp w where "pool_step (pt_owner s) (pt_pool s) (pt_world s) = Some (pc, b, pp, w)"
    and "pt_run s [OwnerRuns] (pt_own pc b pp w s)" and "pt_inv h0 base (pt_own pc b pp w s)"
proof -
  from page_threads.call_defined [OF assms, of OwnerRuns] obtain s' where
    s': "pt_step OwnerRuns s = Some s'" "pt_inv h0 base s'" by auto
  from s'(1) obtain pc b pp w where st: "pool_step (pt_owner s) (pt_pool s) (pt_world s) = Some (pc, b, pp, w)"
    by (auto simp: bind_eq_Some_conv)
  with s' pt_owner_runs [OF st] show thesis by (intro that) (auto intro: run_single simp del: pt_step.simps)
qed

text \<open>The owner finishes its allocation by steps of its own, with a builder or a panic.\<close>

lemma allocate_stays:
  assumes "pool_step pc pp w = Some (pc', None, pp', w')" and "call_rank pc \<noteq> 0" and "\<forall>t e. pc \<noteq> PoolAlloc t (OwnerPanicked e)"
  shows "call_rank pc' \<noteq> 0"
proof (cases pc)
  case (PoolAlloc t q)
  with assms show ?thesis by (cases q) (auto simp: bind_eq_Some_conv simp del: owner_step.simps)
next
  case (PoolRecord t buf q)
  have "record_rank r \<noteq> 0" for r by (cases r) simp_all
  with PoolRecord assms(1) show ?thesis by (auto simp: bind_eq_Some_conv Let_def split: if_splits prod.splits)
qed (use assms(2) in auto)

lemma pt_owner_finishes:
  assumes "pt_inv h0 base s" and "call_rank (pt_owner s) \<noteq> 0" and "call_rank (pt_owner s) \<le> n"
  shows "\<exists>r. allocate_alone n (pt_owner s) (pt_pool s) (pt_world s) = Some r"
  using assms
proof (induction n arbitrary: s)
  case (Suc n)
  show ?case
  proof (cases "\<exists>t e. pt_owner s = PoolAlloc t (OwnerPanicked e)")
    case False
    from Suc.prems(1) obtain pc b pp w where st: "pool_step (pt_owner s) (pt_pool s) (pt_world s) = Some (pc, b, pp, w)"
      "pt_inv h0 base (pt_own pc b pp w s)" by (rule pt_owner_step)
    have eq: "allocate_alone (Suc n) (pt_owner s) (pt_pool s) (pt_world s)
        = (case b of Some b \<Rightarrow> Some (Inr b, pp, w) | None \<Rightarrow> allocate_alone n pc pp w)"
      using False st(1) by (auto simp del: pool_step.simps split: pool_pc.split owner_pc.split)
    show ?thesis
    proof (cases b)
      case None
      from allocate_stays [OF st(1) [unfolded None] Suc.prems(2)] False have "call_rank pc \<noteq> 0" by blast
      with Suc.IH [OF st(2)] call_rank_step [OF st(1) Suc.prems(2)] Suc.prems(3) None show ?thesis unfolding eq by simp
    qed (simp add: eq del: allocate_alone.simps)
  qed auto
qed simp

lemma call_rank_le: "call_rank pc \<le> 13"
proof (cases pc)
  case (PoolAlloc t q)
  then show ?thesis by (cases q) simp_all
next
  case (PoolRecord t buf q)
  then show ?thesis by (cases q) simp_all
qed simp_all

lemma pt_call_ends:
  assumes "pt_inv h0 base s"
  shows "\<exists>es s'. pt_run s es s' \<and> pt_inv h0 base s' \<and> call_rank (pt_owner s') = 0"
proof (rule run_reaches [where P = "pt_inv h0 base" and m = "\<lambda>s. call_rank (pt_owner s)", OF assms])
  fix s assume inv: "pt_inv h0 base s" and nz: "call_rank (pt_owner s) \<noteq> 0"
  from inv obtain pc b pp w where st: "pool_step (pt_owner s) (pt_pool s) (pt_world s) = Some (pc, b, pp, w)"
    and "pt_run s [OwnerRuns] (pt_own pc b pp w s)" "pt_inv h0 base (pt_own pc b pp w s)" by (rule pt_owner_step)
  with call_rank_step [OF st nz] show "\<exists>es s'. pt_run s es s' \<and> pt_inv h0 base s' \<and> call_rank (pt_owner s') < call_rank (pt_owner s)"
    by (metis pt_own_simps(1))
qed

lemma pt_walk_ends:
  assumes "pt_inv h0 base s" and "pt_owner s = PoolWalk" and "chain (w_heap (pt_world s)) (pp_local_head (pt_pool s)) ys"
  shows "\<exists>es s'. pt_run s es s' \<and> pt_inv h0 base s' \<and> pt_owner s' = PoolDec"
  using assms
proof (induction ys arbitrary: s)
  case (Nil s)
  from Nil.prems(1) obtain pc b pp w where
    st: "pool_step (pt_owner s) (pt_pool s) (pt_world s) = Some (pc, b, pp, w)" "pt_run s [OwnerRuns] (pt_own pc b pp w s)"
    "pt_inv h0 base (pt_own pc b pp w s)" by (rule pt_owner_step)
  with Nil.prems have "pc = PoolDec" by simp
  with st(2,3) show ?case by (metis pt_own_simps(1))
next
  case (Cons x ys s)
  from Cons.prems(1) obtain pc b pp w where
    st: "pool_step (pt_owner s) (pt_pool s) (pt_world s) = Some (pc, b, pp, w)" "pt_run s [OwnerRuns] (pt_own pc b pp w s)"
    "pt_inv h0 base (pt_own pc b pp w s)" by (rule pt_owner_step)
  note life = pt_inv_parts(1) [OF Cons.prems(1), unfolded pt_memory_def Cons.prems(2)]
  from conc_walk_chain(2) [OF life Cons.prems(3) st(1) [unfolded Cons.prems(2)]]
  have "pt_owner (pt_own pc b pp w s) = PoolWalk"
    "chain (w_heap (pt_world (pt_own pc b pp w s))) (pp_local_head (pt_pool (pt_own pc b pp w s))) ys" by simp_all
  from Cons.IH [OF st(3) this] run_append [OF st(2)] show ?case by blast
qed

text \<open>The owner ends, then every client gives up what it holds, then every thread ends.\<close>

lemma pt_owner_ends:
  assumes "pt_inv h0 base s"
  shows "\<exists>es s'. pt_run s es s' \<and> pt_inv h0 base s' \<and> pt_owner s' = PoolGone"
proof -
  let ?P = "\<lambda>s. pt_inv h0 base s \<and> call_rank (pt_owner s) = 0"
  from pt_call_ends [OF assms] obtain es s1 where s1: "pt_run s es s1" "?P s1" by blast
  have "\<exists>es s'. pt_run s1 es s' \<and> ?P s' \<and> end_rank (pt_owner s') = 0"
  proof (rule run_reaches [where P = ?P and m = "\<lambda>s. end_rank (pt_owner s)", OF s1(2)])
    fix s assume P: "?P s" and nz: "end_rank (pt_owner s) \<noteq> 0"
    then have inv: "pt_inv h0 base s" by simp
    show "\<exists>es s'. pt_run s es s' \<and> ?P s' \<and> end_rank (pt_owner s') < end_rank (pt_owner s)"
    proof (cases "pt_owner s")
      case PoolIdle
      let ?s = "s\<lparr>pt_owner := PoolWalk\<rparr>"
      have "pt_inv h0 base ?s" using page_threads.call_inv [OF inv, of StartDropPool ?s] PoolIdle by simp
      moreover have "pt_run s [StartDropPool] ?s" by (rule run_single) (simp_all add: PoolIdle)
      ultimately show ?thesis using PoolIdle by (intro exI [of _ "[StartDropPool]"] exI [of _ ?s]) simp
    next
      case PoolWalk
      from conc_walk_chain(1) [OF pt_inv_parts(1) [OF inv, unfolded pt_memory_def PoolWalk]] obtain ys where
        "chain (w_heap (pt_world s)) (pp_local_head (pt_pool s)) ys" by blast
      from pt_walk_ends [OF inv PoolWalk this] obtain es s' where
        "pt_run s es s'" "pt_inv h0 base s'" "pt_owner s' = PoolDec" by blast
      then show ?thesis by (intro exI [of _ es] exI [of _ s']) (simp add: PoolWalk)
    next
      case PoolDec
      from inv obtain pc b pp w where st: "pool_step (pt_owner s) (pt_pool s) (pt_world s) = Some (pc, b, pp, w)"
        and s': "pt_run s [OwnerRuns] (pt_own pc b pp w s)" "pt_inv h0 base (pt_own pc b pp w s)" by (rule pt_owner_step)
      from st have "pc = PoolFree \<or> pc = PoolGone" by (auto simp: PoolDec bind_eq_Some_conv split: if_splits)
      with s' show ?thesis by (intro exI [of _ "[OwnerRuns]"] exI [of _ "pt_own pc b pp w s"]) (auto simp: PoolDec)
    next
      case PoolFree
      from inv obtain pc b pp w where st: "pool_step (pt_owner s) (pt_pool s) (pt_world s) = Some (pc, b, pp, w)"
        and s': "pt_run s [OwnerRuns] (pt_own pc b pp w s)" "pt_inv h0 base (pt_own pc b pp w s)" by (rule pt_owner_step)
      from st have "pc = PoolGone" by (auto simp: PoolFree bind_eq_Some_conv)
      with s' show ?thesis by (intro exI [of _ "[OwnerRuns]"] exI [of _ "pt_own pc b pp w s"]) (simp add: PoolFree)
    next
      case PoolAlloc
      with P show ?thesis by simp
    next
      case PoolRecord
      with P show ?thesis by (cases "pt_owner s") (auto elim: record_rank.elims)
    next
      case PoolGone
      with nz show ?thesis by simp
    qed
  qed
  then obtain es' s' where "pt_run s1 es' s'" "pt_inv h0 base s'" "end_rank (pt_owner s') = 0" by blast
  moreover from this(3) have "pt_owner s' = PoolGone" by (cases "pt_owner s'") auto
  ultimately show ?thesis using run_append [OF s1(1)] by blast
qed

definition client_rank :: "pt_state \<Rightarrow> nat" where
  "client_rank s = length (pt_builders s) + pt_scrapers s + sum_list (map snd (w_pages (pt_world s)))"

lemma client_rank_step:
  assumes "client_rank s \<noteq> 0"
  shows "\<exists>e s'. pt_allowed e s \<and> (pt_inv h0 base s \<longrightarrow> pt_step e s = Some s' \<and> pt_owner s' = pt_owner s \<and> client_rank s' < client_rank s)"
proof -
  consider "pt_scrapers s \<noteq> 0" | "pt_builders s \<noteq> []" | "sum_list (map snd (w_pages (pt_world s))) \<noteq> 0"
    using assms by (auto simp: client_rank_def)
  then show ?thesis
  proof cases
    case 1
    then show ?thesis by (intro exI [of _ DropScraper]) (auto simp: client_rank_def)
  next
    case 2
    then have al: "pt_allowed (StartDropBuilder 0) s" by simp
    show ?thesis
    proof (intro exI conjI impI)
      show "pt_allowed (StartDropBuilder 0) s" by (fact al)
      assume inv: "pt_inv h0 base s"
      from pt_builder_live [OF inv] 2 have "page_builder_capacity (pt_world s) = Some (pt_size s)" by (metis length_greater_0_conv)
      then show "pt_step (StartDropBuilder 0) s = Some (s\<lparr>pt_builders := remove_nth 0 (pt_builders s), pt_threads := pt_threads s
          @ [drop_begin (pb_buf (pt_builders s ! 0)) (pb_tenant (pt_builders s ! 0)) (pt_size s)]\<rparr>)" by (simp add: Let_def)
    qed (use 2 in \<open>simp_all add: client_rank_def remove_nth_def\<close>)
  next
    case 3
    then obtain p where p: "p < length (w_pages (pt_world s))" "snd (w_pages (pt_world s) ! p) \<noteq> 0"
      by (auto simp: in_set_conv_nth)
    obtain inner n where g: "w_pages (pt_world s) ! p = (inner, n)" by fastforce
    with p have gp: "get_page p (pt_world s) = Some (inner, n)" by (simp add: get_page_Some)
    from sum_list_update_less [OF p(1), of "n - 1" inner] g p(2) gp show ?thesis
      by (intro exI [of _ "DropHandle p"]) (auto simp: client_rank_def)
  qed
qed

lemma pt_clients_end:
  assumes "pt_inv h0 base s" and "pt_owner s = PoolGone"
  shows "\<exists>es s'. pt_run s es s' \<and> (pt_inv h0 base s' \<and> pt_owner s' = PoolGone) \<and> client_rank s' = 0"
proof (rule run_reaches [where m = client_rank], simp add: assms)
  fix s assume P: "pt_inv h0 base s \<and> pt_owner s = PoolGone" and nz: "client_rank s \<noteq> 0"
  from client_rank_step [OF nz, of h0 base] P obtain e s' where e: "pt_allowed e s" "pt_step e s = Some s'"
    "pt_owner s' = PoolGone" "client_rank s' < client_rank s" by metis
  from e(1,2) have "pt_run s [e] s'" by (rule run_single)
  with page_threads.call_inv [OF conjunct1 [OF P] e(1,2)] e(3,4)
  show "\<exists>es s'. pt_run s es s' \<and> (pt_inv h0 base s' \<and> pt_owner s' = PoolGone) \<and> client_rank s' < client_rank s" by blast
qed

definition pt_done :: "pt_state \<Rightarrow> bool" where
  "pt_done s \<longleftrightarrow> pt_owner s = PoolGone \<and> pt_builders s = [] \<and> pt_scrapers s = 0
     \<and> live_cells (w_pages (pt_world s)) = {#} \<and> set (pt_threads s) \<subseteq> {Dropped}"

lemma drop_step_pages: "drop_step spurious pc (w :: page_world) = Some (pc', w') \<Longrightarrow> w_pages w' = w_pages w"
  by (cases pc) (auto simp: bind_eq_Some_conv dec_shared_def pool_shared_drop_def set_return_head_def
      dest!: push_step_frame(1) pool_frame_pages)

lemma drop_alone_pages: "drop_alone n pc (w :: page_world) = Some (pc', w') \<Longrightarrow> w_pages w' = w_pages w"
  by (induction n arbitrary: pc w) (auto simp: bind_eq_Some_conv dest!: drop_step_pages)

lemma pt_threads_end:
  assumes "pt_inv h0 base s" and "pt_owner s = PoolGone" and "client_rank s = 0"
  shows "\<exists>es s'. pt_run s es s' \<and> pt_inv h0 base s' \<and> pt_done s'"
proof -
  let ?P = "\<lambda>s. pt_inv h0 base s \<and> pt_owner s = PoolGone \<and> client_rank s = 0"
  let ?m = "\<lambda>s. length (filter (\<lambda>pc. pc \<noteq> Dropped) (pt_threads s))"
  have "\<exists>es s'. pt_run s es s' \<and> ?P s' \<and> ?m s' = 0"
  proof (rule run_reaches [where P = ?P and m = ?m], simp add: assms)
    fix s assume P: "?P s" and "?m s \<noteq> 0"
    then obtain i where i: "i < length (pt_threads s)" "pt_threads s ! i \<noteq> Dropped"
      by (auto simp: filter_empty_conv in_set_conv_nth)
    from pt_thread_finishes [OF conjunct1 [OF P] i(1) drop_rank_le] obtain w where
      al: "drop_alone 9 (pt_threads s ! i) (pt_world s) = Some (Dropped, w)"
      and r: "pt_run s (replicate 9 (ThreadRuns i False)) (s\<lparr>pt_threads := (pt_threads s)[i := Dropped], pt_world := w\<rparr>)" by blast
    let ?s = "s\<lparr>pt_threads := (pt_threads s)[i := Dropped], pt_world := w\<rparr>"
    have "pt_inv h0 base ?s" using page_threads.run_inv [OF r] P by blast
    moreover have "client_rank ?s = client_rank s" by (simp add: client_rank_def drop_alone_pages [OF al])
    moreover have "?m ?s < ?m s"
      using i by (simp add: id_take_nth_drop [OF i(1), THEN arg_cong, of "filter _"] upd_conv_take_nth_drop)
    ultimately show "\<exists>es s'. pt_run s es s' \<and> ?P s' \<and> ?m s' < ?m s" using r P by fastforce
  qed
  then obtain es s' where s': "pt_run s es s'" "?P s'" "?m s' = 0" by blast
  from s'(3) have "set (pt_threads s') \<subseteq> {Dropped}" by (auto simp: filter_empty_conv)
  moreover have "live_cells (w_pages (pt_world s')) = {#}"
    using s'(2) by (fastforce simp: client_rank_def live_cells_def filter_empty_conv)
  ultimately have "pt_done s'" using s'(2) by (simp add: pt_done_def client_rank_def)
  with s' show ?thesis by blast
qed

lemma pt_can_end:
  assumes "pt_inv h0 base s"
  shows "\<exists>es s'. pt_run s es s' \<and> pt_inv h0 base s' \<and> pt_done s'"
proof -
  from pt_owner_ends [OF assms] obtain es1 s1 where s1: "pt_run s es1 s1" "pt_inv h0 base s1" "pt_owner s1 = PoolGone" by blast
  from pt_clients_end [OF s1(2,3)] obtain es2 s2 where s2: "pt_run s1 es2 s2" "pt_inv h0 base s2" "pt_owner s2 = PoolGone"
    "client_rank s2 = 0" by blast
  from pt_threads_end [OF s2(2-4)] obtain es3 s3 where s3: "pt_run s2 es3 s3" "pt_inv h0 base s3" "pt_done s3" by blast
  from run_append [OF run_append [OF s1(1) s2(1)] s3(1)] s3(2,3) show ?thesis by blast
qed

lemma pt_done_memory:
  assumes inv: "pt_inv h0 base s" and fin: "pt_done s"
  shows "w_heap (pt_world s) = h0" and "w_strong (pt_world s) = 0"
    and "t_bytes_in_use (w_tenants (pt_world s) t) = t_bytes_in_use (base t)"
    and "t_pages_in_use (w_tenants (pt_world s) t) = t_pages_in_use (base t)"
proof -
  note q = pt_quiet_charges [of "pt_threads s"]
  have agg: "pt_holds s = {#}" "pt_pages s = {#}" "pt_bytes s = {#}"
    using fin q by (auto simp: pt_done_def pt_holds_def pt_pages_def pt_bytes_def page_holds_def)
  show "w_heap (pt_world s) = h0" and "w_strong (pt_world s) = 0"
    using pt_inv_parts(1) [OF inv] fin agg(1) conc_life_end [of "pt_pool s" "pt_threads s" h0 "pt_world s"]
    by (simp_all add: pt_memory_def pt_done_def)
  show "t_bytes_in_use (w_tenants (pt_world s) t) = t_bytes_in_use (base t)"
    and "t_pages_in_use (w_tenants (pt_world s) t) = t_pages_in_use (base t)"
    using inv agg by (auto simp: pt_inv_def pt_charges_def charged_pages_def charged_bytes_def)
qed

section \<open>A concrete run\<close>

text \<open>A program has made one page; its only handle is dropped on another thread while the pool is still there.\<close>

lemma pt_demo:
  obtains s0 pp s where "page_program (page_sys_start demo_pool page_demo) [AllocFrom demo_tenant [1, 2, 3]] s0"
    and "s_pool s0 = Some pp" and "pt_run (pt_of pp s0) [DropHandle 0] s" and "length (pt_threads s) = 1"
    and "pt_owner s = PoolIdle"
    and "page_as_slice 0 (pt_world (pt_of pp s0)) = Some (Inr [1, 2, 3])" and "get_page 0 (pt_world (pt_of pp s0)) \<noteq> None"
proof -
  from page_demo_page obtain pp w where
    al: "page_alloc_from demo_tenant [1, 2, 3] demo_pool page_demo = Some (Inr 0, pp, w)" by blast
  have rc: "page_as_slice 0 w = Some (Inr [1, 2, 3])" "page_ref_count 0 w = Some 1"
    using al page_alloc_from_result [OF page_demo_inv, of "[1, 2, 3]" demo_tenant] by (auto simp: isize_max_def page_demo_size)
  then obtain i where g: "get_page 0 w = Some (i, 1)" by (auto simp: page_ref_count_def bind_eq_Some_conv)
  let ?init = "(page_sys_start demo_pool page_demo)\<lparr>s_pool := Some pp, s_world := w\<rparr>"
  have r0: "page_program (page_sys_start demo_pool page_demo) [AllocFrom demo_tenant [1, 2, 3]] ?init"
    by (rule run_single) (use al in \<open>simp_all add: page_sys_start_def after_alloc_def isize_max_def\<close>)
  let ?s = "(pt_of pp ?init)\<lparr>pt_world := w\<lparr>w_pages := (w_pages w)[0 := (i, 0)]\<rparr>,
      pt_threads := [drop_begin (pi_buf i) (pi_tenant i) (pi_capacity i)]\<rparr>"
  have "pt_run (pt_of pp ?init) [DropHandle 0] ?s"
    by (rule run_single) (use g in \<open>simp_all add: pt_of_def\<close>)
  with r0 rc g show thesis by (intro that [of ?init pp ?s]) (simp_all add: pt_of_def)
qed

section \<open>Properties\<close>

text \<open>C5: Memory safety under concurrency. Handles of a program over a page pool are spread over threads that
  append, seal, read, clone and drop them while the owner allocates or drops the pool; each step is a single
  atomic access (or the release of the shared part by its last owner), and any interleaving is possible. Whatever has happened, the next step of every thread, of the
  owner and of every client is defined: no access to memory that is not live, no buffer released twice, and no
  use of the shared part after its release.\<close>

theorem page_threads_safe:
  assumes "page_source_contract src" and "with_source src w = (Inr pp0, w')" and "w_pages w = []"
    and "page_program (page_sys_start pp0 w') cs s0" and "s_pool s0 = Some pp" and "pt_run (pt_of pp s0) es s"
    and "pt_allowed e s"
  shows "\<exists>s'. pt_step e s = Some s'"
  using page_threads.call_defined [OF pt_run_inv [OF assms(1-6)] assms(7)] by blast

theorem page_threads_safe_witness:
  "\<exists>s0 pp s s'. page_program (page_sys_start demo_pool page_demo) [AllocFrom demo_tenant [1, 2, 3]] s0
     \<and> pt_run (pt_of pp s0) [DropHandle 0] s \<and> pt_step (ThreadRuns 0 True) s = Some s'"
proof -
  obtain s0 pp s where r: "page_program (page_sys_start demo_pool page_demo) [AllocFrom demo_tenant [1, 2, 3]] s0"
    "s_pool s0 = Some pp" "pt_run (pt_of pp s0) [DropHandle 0] s" "length (pt_threads s) = 1" by (rule pt_demo)
  have "pt_allowed (ThreadRuns 0 True) s" using r(4) by simp
  from page_threads_safe [OF demo_start(1-3) r(1-3) this] r(1,3) show ?thesis by blast
qed

text \<open>C6: Nothing leaks under concurrency, and the end can always be reached. When the pool, every builder,
  every handle and every scraper's clone are gone and every thread has finished, memory is what it was before
  the pool and each tenant's bytes and pages in use are what they were, whatever the interleaving; and from
  every state that can occur, some continuation leads to such an end.\<close>

theorem page_threads_leak_free:
  assumes "page_source_contract src" and "with_source src w = (Inr pp0, w')" and "w_pages w = []"
    and "page_program (page_sys_start pp0 w') cs s0" and "s_pool s0 = Some pp" and "pt_run (pt_of pp s0) es s"
  shows "(\<exists>es' s'. pt_run s es' s' \<and> pt_done s')
    \<and> (pt_done s \<longrightarrow> w_heap (pt_world s) = w_heap w \<and> w_strong (pt_world s) = 0
        \<and> (\<forall>t. t_bytes_in_use (w_tenants (pt_world s) t) = t_bytes_in_use (w_tenants w t)
             \<and> t_pages_in_use (w_tenants (pt_world s) t) = t_pages_in_use (w_tenants w t)))"
proof -
  note inv = pt_run_inv [OF assms]
  from pt_can_end [OF inv] pt_done_memory [OF inv] show ?thesis by blast
qed

theorem page_threads_leak_free_witness:
  "\<exists>s0 pp es s. page_program (page_sys_start demo_pool page_demo) [AllocFrom demo_tenant [1, 2, 3]] s0
     \<and> pt_run (pt_of pp s0) (DropHandle 0 # es) s \<and> pt_done s \<and> w_heap (pt_world s) = Map.empty"
proof -
  obtain s0 pp s where r: "page_program (page_sys_start demo_pool page_demo) [AllocFrom demo_tenant [1, 2, 3]] s0"
    "s_pool s0 = Some pp" "pt_run (pt_of pp s0) [DropHandle 0] s" by (rule pt_demo)
  from page_threads_leak_free [OF demo_start(1-3) r] obtain es s' where s': "pt_run s es s'" "pt_done s'" by blast
  from run_append [OF r(3) s'(1)] have run: "pt_run (pt_of pp s0) (DropHandle 0 # es) s'" by simp
  from page_threads_leak_free [OF demo_start(1-3) r(1,2) run] s'(2) demo_start(4)
  have "w_heap (pt_world s') = Map.empty" by simp
  with r(1) run s'(2) show ?thesis by blast
qed

text \<open>C7: A sealed page is immutable across threads: at any two moments at which it has a handle it shows the
  same bytes, although other threads recycle buffers, append to their own pages and end the pool in between.\<close>

theorem page_threads_immutable:
  assumes "page_source_contract src" and "with_source src w = (Inr pp0, w')" and "w_pages w = []"
    and "page_program (page_sys_start pp0 w') cs s0" and "s_pool s0 = Some pp" and "pt_run (pt_of pp s0) es s"
    and "pt_run s es' s'" and "get_page p (pt_world s) \<noteq> None" and "get_page p (pt_world s') \<noteq> None"
  shows "page_as_slice p (pt_world s') = page_as_slice p (pt_world s) \<and> page_len p (pt_world s') = page_len p (pt_world s)
    \<and> page_capacity p (pt_world s') = page_capacity p (pt_world s)"
proof -
  have "pages_stable (pt_world s) (pt_world s')"
    using page_threads.run_inv [OF assms(7) pt_run_inv [OF assms(1-6)]] by blast
  moreover have "p < length (w_pages (pt_world s))" using assms(8) by (auto simp: get_page_def get_cell_def split: if_splits)
  ultimately show ?thesis using assms(9) by (auto simp: pages_stable_def)
qed

theorem page_threads_immutable_witness:
  "\<exists>s0 pp s. page_program (page_sys_start demo_pool page_demo) [AllocFrom demo_tenant [1, 2, 3]] s0
     \<and> pt_run (pt_of pp s0) [StartDropPool] s \<and> page_as_slice 0 (pt_world s) = Some (Inr [1, 2, 3])"
proof -
  obtain s0 pp where r: "page_program (page_sys_start demo_pool page_demo) [AllocFrom demo_tenant [1, 2, 3]] s0"
    "s_pool s0 = Some pp" "page_as_slice 0 (pt_world (pt_of pp s0)) = Some (Inr [1, 2, 3])"
    "get_page 0 (pt_world (pt_of pp s0)) \<noteq> None" by (rule pt_demo)
  have run: "pt_run (pt_of pp s0) [StartDropPool] ((pt_of pp s0)\<lparr>pt_owner := PoolWalk\<rparr>)"
    by (rule run_single) (simp_all add: pt_of_def)
  from page_threads_immutable [OF demo_start(1-3) r(1,2) run_none run r(4)] r run show ?thesis by fastforce
qed

text \<open>C8: What the tenants' counters mean while threads run. In every state that can occur \<open>pages_in_use\<close> is exactly the
  tenant's builders and pages alive, plus the drops that have not come to their \<open>fetch_sub\<close> of it, plus the allocation
  that has passed its \<open>fetch_add\<close>, and likewise for \<open>bytes_in_use\<close> with its own accesses. As an allocation adds the page
  first and a release takes the bytes first, the bytes are never ahead of the pages; and with no drop and no allocation
  under way both counters show the builders and pages alive.\<close>

theorem page_threads_tenants:
  assumes "page_source_contract src" and "with_source src w = (Inr pp0, w')" and "w_pages w = []"
    and "page_program (page_sys_start pp0 w') cs s0" and "s_pool s0 = Some pp" and "pt_run (pt_of pp s0) es s"
  shows "t_pages_in_use (w_tenants (pt_world s) t) = t_pages_in_use (w_tenants w t) + of_nat (count (image_mset snd (pt_pages s)) t)
    \<and> t_bytes_in_use (w_tenants (pt_world s) t)
        = t_bytes_in_use (w_tenants w t) + pt_size s * of_nat (count (image_mset snd (pt_bytes s)) t)
    \<and> page_holds (pt_world s) (mset (pt_builders s)) \<subseteq># pt_bytes s \<and> pt_bytes s \<subseteq># pt_pages s \<and> pt_pages s \<subseteq># pt_holds s
    \<and> (set (pt_threads s) \<subseteq> {Dropped} \<and> call_rank (pt_owner s) = 0 \<longrightarrow>
         pt_pages s = page_holds (pt_world s) (mset (pt_builders s)) \<and> pt_bytes s = page_holds (pt_world s) (mset (pt_builders s)))"
proof -
  have ch: "pt_charges (w_tenants w) s" using pt_run_inv [OF assms] by (simp add: pt_inv_def)
  have "owner_pages (pt_owner s) \<subseteq># owner_hold (pt_owner s)" by (cases "pt_owner s" rule: owner_pages.cases) auto
  then have ph: "pt_pages s \<subseteq># pt_holds s" unfolding pt_pages_def pt_holds_def by (intro subset_mset.add_mono) simp_all
  have hb: "page_holds (pt_world s) (mset (pt_builders s)) \<subseteq># pt_bytes s" by (simp add: pt_bytes_def)
  have "pt_pages s = page_holds (pt_world s) (mset (pt_builders s))" "pt_bytes s = page_holds (pt_world s) (mset (pt_builders s))"
    if "set (pt_threads s) \<subseteq> {Dropped}" "call_rank (pt_owner s) = 0"
  proof -
    have own: "owner_pages (pt_owner s) = {#}" using that(2) by (cases "pt_owner s") (auto elim: record_rank.elims)
    with owner_bytes_pages [of "pt_owner s"] have "owner_bytes (pt_owner s) = {#}" by simp
    with own pt_quiet_charges [OF that(1)] show "pt_pages s = page_holds (pt_world s) (mset (pt_builders s))"
      "pt_bytes s = page_holds (pt_world s) (mset (pt_builders s))" by (simp_all add: pt_pages_def pt_bytes_def)
  qed
  then show ?thesis using ch pt_bytes_pages ph hb by (auto simp: pt_charges_def charged_pages_def charged_bytes_def)
qed

theorem page_threads_tenants_witness:
  "\<exists>s0 pp s. page_program (page_sys_start demo_pool page_demo) [AllocFrom demo_tenant [1, 2, 3]] s0
     \<and> pt_run (pt_of pp s0) [DropHandle 0] s
     \<and> t_pages_in_use (w_tenants (pt_world s) 0) = of_nat (count (image_mset snd (pt_pages s)) 0)
     \<and> t_bytes_in_use (w_tenants (pt_world s) 0) = pt_size s * of_nat (count (image_mset snd (pt_bytes s)) 0)"
proof -
  obtain s0 pp s where r: "page_program (page_sys_start demo_pool page_demo) [AllocFrom demo_tenant [1, 2, 3]] s0"
    "s_pool s0 = Some pp" "pt_run (pt_of pp s0) [DropHandle 0] s" by (rule pt_demo)
  from page_threads_tenants [OF demo_start(1-3) r, of 0] r(1,3) show ?thesis
    by (intro exI [of _ s0] exI [of _ pp] exI [of _ s]) (simp add: page_start_def tenant_stats_default_def)
qed

text \<open>No call can be held up, in any state that can occur. From wherever a thread stands in a drop, nine steps without
  interference complete it (the release of the shared part, when no one else has a reference to it any more, counts as
  one step); and from wherever the owner stands in \<open>allocate\<close>, thirteen steps of its own complete it, with a builder or
  with the panic of the source.\<close>

theorem page_threads_obstruction_free:
  assumes "page_source_contract src" and "with_source src w = (Inr pp0, w')" and "w_pages w = []"
    and "page_program (page_sys_start pp0 w') cs s0" and "s_pool s0 = Some pp" and "pt_run (pt_of pp s0) es s"
  shows "(i < length (pt_threads s) \<longrightarrow> (\<exists>v. drop_alone 9 (pt_threads s ! i) (pt_world s) = Some (Dropped, v)))
    \<and> (call_rank (pt_owner s) \<noteq> 0 \<longrightarrow> (\<exists>r. allocate_alone 13 (pt_owner s) (pt_pool s) (pt_world s) = Some r))"
  using pt_thread_finishes [OF pt_run_inv [OF assms] _ drop_rank_le] pt_owner_finishes [OF pt_run_inv [OF assms] _ call_rank_le] by blast

theorem page_threads_obstruction_free_witness:
  "\<exists>s0 pp s v r. pt_run (pt_of pp s0) [DropHandle 0] s \<and> drop_alone 9 (pt_threads s ! 0) (pt_world s) = Some (Dropped, v)
     \<and> allocate_alone 13 (PoolAlloc demo_tenant OwnerIdle) (pt_pool s) (pt_world s) = Some r"
proof -
  obtain s0 pp s where r: "page_program (page_sys_start demo_pool page_demo) [AllocFrom demo_tenant [1, 2, 3]] s0"
    "s_pool s0 = Some pp" "pt_run (pt_of pp s0) [DropHandle 0] s" "length (pt_threads s) = 1" "pt_owner s = PoolIdle" by (rule pt_demo)
  have step: "pt_run s [StartAllocate demo_tenant] (s\<lparr>pt_owner := PoolAlloc demo_tenant OwnerIdle\<rparr>)"
    by (rule run_single) (simp_all add: r(5))
  from page_threads_obstruction_free [OF demo_start(1-3) r(1-3), of 0] r(4)
  have "\<exists>v. drop_alone 9 (pt_threads s ! 0) (pt_world s) = Some (Dropped, v)" by simp
  moreover from page_threads_obstruction_free [OF demo_start(1-3) r(1,2) run_append [OF r(3) step], of 0]
  have "\<exists>r. allocate_alone 13 (PoolAlloc demo_tenant OwnerIdle) (pt_pool s) (pt_world s) = Some r" by simp
  ultimately show ?thesis using r(3) by blast
qed

text \<open>C19: The concurrent machine refines to the sequential operations. A thread that drops a handle and is not
  interrupted does what \<open>Drop for PageInner\<close> or \<open>Drop for PageBuilder\<close> does as one operation, in every state,
  including those where it is undefined; and the owner's steps through \<open>allocate\<close> are the operation \<open>allocate\<close>.\<close>

theorem page_threads_sequential:
  "drop_alone 9 (drop_begin (pi_buf inner) (pi_tenant inner) (pi_capacity inner)) w
     = map_option (Pair Dropped) (page_inner_drop inner w)
   \<and> (pb_buf b \<noteq> None \<longrightarrow> page_builder_capacity w = Some cap \<longrightarrow>
        drop_alone 9 (drop_begin (pb_buf b) (pb_tenant b) cap) w = map_option (Pair Dropped) (page_builder_drop b w))
   \<and> (0 < w_strong w \<longrightarrow> page_allocate t pp w = Some res \<longrightarrow> allocate_alone 12 (PoolAlloc t OwnerIdle) pp w = Some res)"
  unfolding drop_alone_begin using allocate_alone_eq [of w t pp res]
  by (cases "pi_buf inner"; cases "pb_buf b") (auto simp: page_inner_drop_def page_builder_drop_def)

theorem page_threads_sequential_witness:
  "\<exists>b w. allocate_alone 12 (PoolAlloc demo_tenant OwnerIdle) demo_pool page_demo = Some (Inr b, demo_pool, w)
     \<and> drop_alone 9 (drop_begin (pb_buf b) (pb_tenant b) 16) w = map_option (Pair Dropped) (page_builder_drop b w)"
proof -
  obtain w b where b: "page_allocate demo_tenant demo_pool page_demo = Some (Inr b, demo_pool, w)"
    "page_inv Map.empty (\<lambda>_. tenant_stats_default) (Some demo_pool) 0 w {#b#}" "sh_page_size (w_shared w) = 16"
    by (rule page_demo_builder)
  have "0 < w_strong page_demo" using page_inv_shared [OF page_demo_inv] by (simp add: get_shared_def split: if_splits)
  moreover have "page_builder_capacity w = Some 16" using page_inv_shared [OF b(2)] b(3) by (simp add: page_builder_capacity_def)
  moreover have "pb_buf b \<noteq> None" using b(2) by (auto elim: page_inv_builder)
  ultimately show ?thesis using page_threads_sequential b(1) by blast
qed

end
