(* ===== verification/Packed_Pages.thy ===== *)
theory Packed_Pages
  imports Pool_Ownership
begin

text \<open>
  The reference-counted buffers of \<open>src/chunk.rs\<close>. A \<open>PackedPage\<close> is a buffer of the pool, or a block
  of the global allocator for an oversized chunk, and says in its field \<open>release\<close> how it goes back.
  \<open>Arc<PackedPage>\<close> values are indices into the table \<open>w_packed\<close>, whose entries are the packed page
  and its strong count (zero once dropped).

  The invariant \<open>store_inv\<close> has the references as a parameter: \<open>R\<close> lists, for every clone of an
  \<open>Arc<PackedPage>\<close> that exists anywhere, the index it refers to. What it needs of the pool is the locale
  \<open>buffer_life\<close>, interpreted here for the sequential pool, which gives \<open>packed_inv\<close>.
\<close>

section \<open>Definitions\<close>

datatype release = ReleasePool | ReleaseHeap layout

record packed_page =
  pk_buf :: addr
  pk_release :: release

record packed_world = pool_world +
  w_packed :: "(packed_page \<times> nat) list"

definition get_packed :: "nat \<Rightarrow> 'z packed_world_scheme \<Rightarrow> (packed_page \<times> nat) option" where
  "get_packed j w = get_cell j (w_packed w)"

text \<open>\<open>Arc::new\<close>, \<open>Arc::clone\<close> and the drop of an \<open>Arc\<close>.\<close>

definition packed_new :: "packed_page \<Rightarrow> 'z packed_world_scheme \<Rightarrow> nat \<times> 'z packed_world_scheme" where
  "packed_new pk w = (length (w_packed w), w\<lparr>w_packed := w_packed w @ [(pk, 1)]\<rparr>)"

definition packed_clone :: "nat \<Rightarrow> 'z packed_world_scheme \<Rightarrow> 'z packed_world_scheme option" where
  "packed_clone j w = do {
     (pk, n) \<leftarrow> get_packed j w;
     Some (w\<lparr>w_packed := (w_packed w)[j := (pk, Suc n)]\<rparr>)
   }"

text \<open>\<open>Drop for PackedPage\<close>; for a buffer of the pool, the \<open>Arc<PoolShared>\<close> inside \<open>Release::Pool\<close> is
  dropped with the field.\<close>

definition packed_page_drop :: "packed_page \<Rightarrow> 'z pool_world_scheme \<Rightarrow> 'z pool_world_scheme option" where
  "packed_page_drop pk w =
     (case pk_release pk of
        ReleasePool \<Rightarrow> do { w \<leftarrow> push_return (pk_buf pk) w; drop_shared w }
      | ReleaseHeap layout \<Rightarrow> do { h \<leftarrow> dealloc (pk_buf pk) layout (w_heap w); Some (w\<lparr>w_heap := h\<rparr>) })"

definition packed_drop :: "nat \<Rightarrow> 'z packed_world_scheme \<Rightarrow> 'z packed_world_scheme option" where
  "packed_drop j w = do {
     (pk, n) \<leftarrow> get_packed j w;
     let w = w\<lparr>w_packed := (w_packed w)[j := (pk, n - 1)]\<rparr>;
     if n = 1 then packed_page_drop pk w else Some w
   }"

section \<open>The invariant\<close>

definition pool_buffers :: "packed_page multiset \<Rightarrow> addr multiset" where
  "pool_buffers P = image_mset pk_buf {#pk \<in># P. pk_release pk = ReleasePool#}"

definition heap_blocks :: "packed_page multiset \<Rightarrow> packed_page multiset" where
  "heap_blocks P = {#pk \<in># P. pk_release pk \<noteq> ReleasePool#}"

fun release_layout :: "release \<Rightarrow> layout" where
  "release_layout (ReleaseHeap l) = l"
| "release_layout ReleasePool = \<lparr>l_size = 0, l_align = 1\<rparr>"

text \<open>The length of the block behind a packed page, in a pool with pages of size \<open>sz\<close>.\<close>

definition block_size :: "usize \<Rightarrow> packed_page \<Rightarrow> nat" where
  "block_size sz pk = (case pk_release pk of ReleasePool \<Rightarrow> unat sz | ReleaseHeap l \<Rightarrow> unat (l_size l))"

definition block_ok :: "heap \<Rightarrow> packed_page \<Rightarrow> bool" where
  "block_ok h pk \<longleftrightarrow> (let l = release_layout (pk_release pk)
     in aligned_to (unat (l_align l)) (pk_buf pk) \<and> pk_buf pk \<noteq> 0
        \<and> unat (l_size l) \<le> isize_max \<and> unat (pk_buf pk) + unat (l_size l) \<le> 2 ^ 64
        \<and> (case h (pk_buf pk) of None \<Rightarrow> False | Some bs \<Rightarrow> length bs = unat (l_size l)))"

text \<open>Memory \<open>h1\<close> is \<open>h0\<close> with the oversized blocks \<open>Q\<close> on top.\<close>

definition blocks_on :: "heap \<Rightarrow> heap \<Rightarrow> packed_page multiset \<Rightarrow> bool" where
  "blocks_on h0 h1 Q \<longleftrightarrow>
     (\<forall>x. count (image_mset pk_buf Q) x \<le> 1) \<and>
     (\<forall>pk. pk \<in># Q \<longrightarrow> h0 (pk_buf pk) = None \<and> block_ok h1 pk) \<and>
     (\<forall>x. x \<notin># image_mset pk_buf Q \<longrightarrow> h1 x = h0 x)"

text \<open>The packed pages as a store of blocks. \<open>life\<close> says what the pool guarantees of the buffers that are out,
  given the rest of memory; \<open>R\<close> lists the references and \<open>Q\<close> the oversized blocks that have lost their last
  reference and are not freed yet.\<close>

definition store_inv :: "(heap \<Rightarrow> 'z packed_world_scheme \<Rightarrow> addr multiset \<Rightarrow> bool) \<Rightarrow> heap \<Rightarrow> packed_page multiset
    \<Rightarrow> 'z packed_world_scheme \<Rightarrow> nat multiset \<Rightarrow> bool" where
  "store_inv life h0 Q w R \<longleftrightarrow>
     (\<forall>j. count R j = (if j < length (w_packed w) then snd (w_packed w ! j) else 0)) \<and>
     (\<exists>h1. life h1 w (pool_buffers (live_cells (w_packed w)))
        \<and> blocks_on h0 h1 (heap_blocks (live_cells (w_packed w)) + Q))"

text \<open>The sequential programs: every operation runs to its end, so no block is on its way back.\<close>

definition packed_inv :: "heap \<Rightarrow> page_pool option \<Rightarrow> nat \<Rightarrow> 'z packed_world_scheme \<Rightarrow> nat multiset \<Rightarrow> bool" where
  "packed_inv h0 pp k w R = store_inv (\<lambda>h w U. pool_life h pp k w U) h0 {#} w R"

text \<open>What an operation leaves alone: the page size, and the bytes of every block that stays live.\<close>

definition packed_keeps :: "'z packed_world_scheme \<Rightarrow> 'z packed_world_scheme \<Rightarrow> bool" where
  "packed_keeps w w' \<longleftrightarrow>
     sh_page_size (w_shared w') = sh_page_size (w_shared w) \<and>
     length (w_packed w) \<le> length (w_packed w') \<and>
     (\<forall>j < length (w_packed w). fst (w_packed w' ! j) = fst (w_packed w ! j)) \<and>
     (\<forall>j pk n pk' n'. get_packed j w = Some (pk, n) \<longrightarrow> get_packed j w' = Some (pk', n') \<longrightarrow>
        w_heap w' (pk_buf pk) = w_heap w (pk_buf pk))"

section \<open>Lemmas\<close>

lemma pool_frame_packed:
  fixes w w' :: "'z packed_world_scheme"
  assumes "pool_frame w w'"
  shows "w_packed w' = w_packed w" and "packed_world.more w' = packed_world.more w"
  using assms by (cases w, cases w', simp add: pool_frame_def)+

lemma pool_buffers_add [simp]:
  "pool_buffers (add_mset pk P) = (if pk_release pk = ReleasePool then add_mset (pk_buf pk) (pool_buffers P) else pool_buffers P)"
  "pool_buffers (P + P') = pool_buffers P + pool_buffers P'" "pool_buffers {#} = {#}"
  by (simp_all add: pool_buffers_def)

lemma heap_blocks_add [simp]:
  "heap_blocks (add_mset pk P) = (if pk_release pk = ReleasePool then heap_blocks P else add_mset pk (heap_blocks P))"
  "heap_blocks (P + P') = heap_blocks P + heap_blocks P'" "heap_blocks {#} = {#}"
  by (simp_all add: heap_blocks_def)

lemma in_pool_buffers: "pk \<in># P \<Longrightarrow> pk_release pk = ReleasePool \<Longrightarrow> pk_buf pk \<in># pool_buffers P"
  by (auto simp: pool_buffers_def)

lemma in_heap_blocks: "pk \<in># P \<Longrightarrow> pk_release pk \<noteq> ReleasePool \<Longrightarrow> pk \<in># heap_blocks P"
  by (simp add: heap_blocks_def)

lemma blocks_on_live: "blocks_on h0 h1 Q \<Longrightarrow> pk \<in># Q \<Longrightarrow> h1 (pk_buf pk) \<noteq> None"
  by (auto simp: blocks_on_def block_ok_def Let_def split: option.splits)

lemma packed_keepsI:
  assumes "sh_page_size (w_shared w') = sh_page_size (w_shared w)"
    and "length (w_packed w) \<le> length (w_packed w')"
    and "\<And>j. j < length (w_packed w) \<Longrightarrow> fst (w_packed w' ! j) = fst (w_packed w ! j)"
    and "\<And>pk. pk \<in># live_cells (w_packed w) \<Longrightarrow> pk \<in># live_cells (w_packed w') \<Longrightarrow>
      w_heap w' (pk_buf pk) = w_heap w (pk_buf pk)"
  shows "packed_keeps w w'"
  unfolding packed_keeps_def
proof (intro conjI allI impI)
  fix j pk n pk' n' assume g: "get_packed j w = Some (pk, n)" "get_packed j w' = Some (pk', n')"
  then have "pk' = pk" using assms(3) [of j] by (auto simp: get_packed_def get_cell_Some)
  with g show "w_heap w' (pk_buf pk) = w_heap w (pk_buf pk)"
    unfolding get_packed_def by (intro assms(4)) (auto dest: get_cell_live)
qed (use assms(1-3) in auto)

lemma packed_keeps_refl [simp]: "packed_keeps w w"
  by (auto intro: packed_keepsI)

text \<open>Oversized blocks come and go.\<close>

lemma block_ok_other: "pk_buf q \<noteq> x \<Longrightarrow> block_ok (h(x := v)) q = block_ok h q"
  by (simp add: block_ok_def)

lemma blocks_on_add:
  assumes on: "blocks_on h0 h1 Q" and x: "h1 (pk_buf pk) = None" and ok: "block_ok (h1(pk_buf pk := v)) pk"
  shows "blocks_on h0 (h1(pk_buf pk := v)) (add_mset pk Q)"
proof -
  have new: "pk_buf pk \<notin># image_mset pk_buf Q" using blocks_on_live [OF on] x by fastforce
  then have h0x: "h0 (pk_buf pk) = None" using on x by (simp add: blocks_on_def)
  have "block_ok (h1(pk_buf pk := v)) q" if "q \<in># Q" for q
  proof -
    have "pk_buf q \<noteq> pk_buf pk" using image_mset_apart [OF new that] .
    with that on show ?thesis by (simp add: block_ok_other blocks_on_def)
  qed
  moreover have "count (image_mset pk_buf (add_mset pk Q)) y \<le> 1" for y
  proof -
    have "count (image_mset pk_buf Q) y \<le> 1" using on unfolding blocks_on_def by blast
    with new show ?thesis by (auto simp: not_in_iff simp del: set_image_mset)
  qed
  ultimately show ?thesis using on ok h0x by (auto simp: blocks_on_def)
qed

lemma blocks_on_remove:
  assumes on: "blocks_on h0 h1 (add_mset pk Q)"
  shows "blocks_on h0 (h1(pk_buf pk := None)) Q"
proof -
  have cnt: "count (image_mset pk_buf (add_mset pk Q)) y \<le> 1" for y using on unfolding blocks_on_def by blast
  have gone: "pk_buf pk \<notin># image_mset pk_buf Q" using cnt [of "pk_buf pk"] by (simp add: not_in_iff del: set_image_mset)
  have "block_ok (h1(pk_buf pk := None)) q" if "q \<in># Q" for q
  proof -
    have "pk_buf q \<noteq> pk_buf pk" using image_mset_apart [OF gone that] .
    with that on show ?thesis by (simp add: block_ok_other blocks_on_def)
  qed
  moreover have "count (image_mset pk_buf Q) y \<le> 1" for y using cnt [of y] by (simp split: if_splits)
  ultimately show ?thesis using on gone by (auto simp: blocks_on_def)
qed

lemma live_cells_get:
  assumes "v \<in># live_cells cells"
  obtains j n where "get_cell j cells = Some (v, n)"
  using assms by (auto simp: live_cells_def get_cell_def in_set_conv_nth split: prod.splits) (metis snd_conv)

text \<open>A new cell at the end of the table, and a cell whose count changes.\<close>

lemma packed_new_counts:
  assumes "\<forall>j. count R j = (if j < length cells then snd (cells ! j) else 0)"
  shows "\<forall>j. count (add_mset (length cells) R) j
    = (if j < length (cells @ [(pk, 1)]) then snd ((cells @ [(pk, 1)]) ! j) else 0)"
  using assms by (auto simp: nth_append)

lemma packed_counts_upd:
  assumes "\<forall>j. count R j = (if j < length cells then snd (cells ! j) else 0)"
    and "i < length cells" and "\<And>j. count R' j = (if j = i then m else count R j)"
  shows "\<forall>j. count R' j = (if j < length (cells[i := (pk, m)]) then snd (cells[i := (pk, m)] ! j) else 0)"
  using assms by (auto simp: nth_list_update)

lemma packed_keeps_upd:
  assumes "get_packed j w = Some (pk, n)"
    and "w_packed w' = (w_packed w)[j := (pk, m)]" and "w_heap w' = w_heap w" and "w_shared w' = w_shared w"
  shows "packed_keeps w w'"
  by (rule packed_keepsI) (use assms in \<open>auto simp: get_packed_def get_cell_Some nth_list_update\<close>)

lemma packed_keeps_trans:
  assumes "packed_keeps w1 w2" and "packed_keeps w2 w3"
    and "\<And>j. get_packed j w3 \<noteq> None \<Longrightarrow> j < length (w_packed w2) \<Longrightarrow> get_packed j w2 \<noteq> None"
  shows "packed_keeps w1 w3"
  unfolding packed_keeps_def
proof (intro conjI allI impI)
  fix j pk n pk' n' assume g: "get_packed j w1 = Some (pk, n)" "get_packed j w3 = Some (pk', n')"
  then have j: "j < length (w_packed w1)" "w_packed w1 ! j = (pk, n)" by (auto simp: get_packed_def get_cell_Some)
  then have "j < length (w_packed w2)" using assms(1) by (auto simp: packed_keeps_def)
  with assms(3) [of j] g(2) obtain pk2 n2 where g2: "get_packed j w2 = Some (pk2, n2)" by fastforce
  then have "pk2 = pk" using assms(1) j by (auto simp: packed_keeps_def get_packed_def get_cell_Some)
  with assms(1,2) g g2 show "w_heap w3 (pk_buf pk) = w_heap w1 (pk_buf pk)" unfolding packed_keeps_def by metis
qed (use assms(1,2) in \<open>auto simp: packed_keeps_def\<close>)

section \<open>The store over any pool\<close>

text \<open>What the store relies on. A buffer that is out is a live block of the page size, no buffer is out twice, memory
  outside the buffers is \<open>h\<close>, and the guarantee survives writes to the buffers that are out and changes of the
  rest.\<close>

locale buffer_life =
  fixes life :: "heap \<Rightarrow> 'z packed_world_scheme \<Rightarrow> addr multiset \<Rightarrow> bool"
  assumes life_buffer: "life h w U \<Longrightarrow> x \<in># U \<Longrightarrow> buffer_ok (w_heap w) (unat (sh_page_size (w_shared w))) (sh_source (w_shared w)) x"
    and life_once: "life h w U \<Longrightarrow> count U x \<le> 1"
    and life_rest: "life h w U \<Longrightarrow> h x \<noteq> None \<Longrightarrow> w_heap w x = h x \<and> x \<notin># U"
    and life_elsewhere: "life h w U \<Longrightarrow> w_heap w x = None \<or> h x \<noteq> None \<Longrightarrow>
      life (h(x := v)) (w\<lparr>w_heap := (w_heap w)(x := v)\<rparr>) U"
    and life_write: "life h w U \<Longrightarrow> x \<in># U \<Longrightarrow> length bs = unat (sh_page_size (w_shared w)) \<Longrightarrow>
      life h (w\<lparr>w_heap := (w_heap w)(x \<mapsto> bs)\<rparr>) U"
    and life_cong: "w_heap w' = w_heap w \<Longrightarrow> w_shared w' = w_shared w \<Longrightarrow> w_strong w' = w_strong w \<Longrightarrow>
      life h w' U = life h w U"
begin

lemma store_invE:
  assumes "store_inv life h0 Q w R"
  obtains h1 where "\<forall>j. count R j = (if j < length (w_packed w) then snd (w_packed w ! j) else 0)"
    and "life h1 w (pool_buffers (live_cells (w_packed w)))"
    and "blocks_on h0 h1 (heap_blocks (live_cells (w_packed w)) + Q)"
  using assms by (auto simp: store_inv_def)

lemma rest_block:
  assumes "life h1 w U" and "blocks_on h0 h1 Q" and "pk \<in># Q"
  shows "w_heap w (pk_buf pk) = h1 (pk_buf pk)" and "pk_buf pk \<notin># U"
  using life_rest [OF assms(1) blocks_on_live [OF assms(2,3)]] by auto

text \<open>No two live packed pages share a block.\<close>

lemma store_once:
  assumes life: "life h1 w (pool_buffers P)" and on: "blocks_on h0 h1 (heap_blocks P + Q)"
  shows "count (image_mset pk_buf (P + Q)) x \<le> 1"
proof -
  have split: "count (image_mset pk_buf (P + Q)) x
      = count (pool_buffers P) x + count (image_mset pk_buf (heap_blocks P + Q)) x"
    by (induction P) simp_all
  have heap: "count (image_mset pk_buf (heap_blocks P + Q)) x \<le> 1"
    using on unfolding blocks_on_def by blast
  show ?thesis
  proof (cases "x \<in># image_mset pk_buf (heap_blocks P + Q)")
    case True
    then obtain pk where "pk \<in># heap_blocks P + Q" "x = pk_buf pk" by (auto simp del: union_iff)
    from rest_block(2) [OF life on this(1)] this(2) have "count (pool_buffers P) x = 0"
      by (simp add: not_in_iff)
    with split heap show ?thesis by simp
  next
    case False
    then have "count (image_mset pk_buf (heap_blocks P + Q)) x = 0" by (simp only: not_in_iff)
    with split life_once [OF life, of x] show ?thesis by simp
  qed
qed

lemma store_apart:
  assumes "store_inv life h0 Q w R" and "get_packed i w = Some (p, m)" and "get_packed j w = Some (q, n)"
    and "i \<noteq> j"
  shows "pk_buf p \<noteq> pk_buf q"
proof -
  from assms(2-4) obtain L where L: "live_cells (w_packed w) = add_mset p (add_mset q L)"
    unfolding get_packed_def by (rule live_cells_two)
  from assms(1) have "count (image_mset pk_buf (live_cells (w_packed w) + Q)) (pk_buf p) \<le> 1"
    by (elim store_invE) (rule store_once)
  with L show ?thesis by (simp split: if_splits)
qed

text \<open>The block behind a live packed page.\<close>

lemma store_block:
  assumes inv: "store_inv life h0 Q w R" and g: "get_packed j w = Some (pk, n)"
  obtains bs where "w_heap w (pk_buf pk) = Some bs"
    and "length bs = block_size (sh_page_size (w_shared w)) pk"
    and "unat (pk_buf pk) + length bs \<le> 2 ^ 64" and "length bs \<le> isize_max" and "pk_buf pk \<noteq> 0"
    and "pk_release pk = ReleasePool \<Longrightarrow> aligned_to 8 (pk_buf pk)"
    and "\<And>l. pk_release pk = ReleaseHeap l \<Longrightarrow> aligned_to (unat (l_align l)) (pk_buf pk)"
proof -
  from g have live: "pk \<in># live_cells (w_packed w)" unfolding get_packed_def by (rule get_cell_live)
  from inv obtain h1 where life: "life h1 w (pool_buffers (live_cells (w_packed w)))"
    and on: "blocks_on h0 h1 (heap_blocks (live_cells (w_packed w)) + Q)" by (rule store_invE)
  show thesis
  proof (cases "pk_release pk")
    case ReleasePool
    from life_buffer [OF life in_pool_buffers [OF live ReleasePool]] ReleasePool show thesis
      by (elim buffer_okE) (intro that, auto simp: block_size_def)
  next
    case (ReleaseHeap l)
    then have q: "pk \<in># heap_blocks (live_cells (w_packed w)) + Q" using live in_heap_blocks by auto
    with on have ok: "block_ok h1 pk" by (auto simp: blocks_on_def)
    with rest_block(1) [OF life on q] ReleaseHeap obtain bs where "w_heap w (pk_buf pk) = Some bs"
      "length bs = unat (l_size l)" by (auto simp: block_ok_def split: option.splits)
    with ok ReleaseHeap show thesis by (intro that [of bs]) (auto simp: block_ok_def block_size_def)
  qed
qed

lemma store_ref:
  assumes "store_inv life h0 Q w R" and "j \<in># R"
  obtains pk where "get_packed j w = Some (pk, count R j)"
proof -
  have "count R j = (if j < length (w_packed w) then snd (w_packed w ! j) else 0)"
    using assms(1) by (simp add: store_inv_def)
  moreover have "count R j \<noteq> 0" using assms(2) by simp
  ultimately show thesis using that [of "fst (w_packed w ! j)"]
    by (simp add: get_packed_def get_cell_def split: if_splits)
qed

lemma store_live: "store_inv life h0 Q w R \<Longrightarrow> j \<in># R \<Longrightarrow> get_packed j w \<noteq> None"
  by (elim store_ref) auto

text \<open>A new block of the global allocator.\<close>

lemma store_alloc_heap:
  assumes inv: "store_inv life h0 Q w R" and al: "alloc_zeroed ga l (w_heap w) = (x, h)" and x: "x \<noteq> 0"
  defines "w' \<equiv> w\<lparr>w_heap := h, w_packed := w_packed w @ [(\<lparr>pk_buf = x, pk_release = ReleaseHeap l\<rparr>, 1)]\<rparr>"
  shows "store_inv life h0 Q w' (add_mset (length (w_packed w)) R)" and "packed_keeps w w'"
proof -
  let ?pk = "\<lparr>pk_buf = x, pk_release = ReleaseHeap l\<rparr>"
  from inv obtain h1 where cnt: "\<forall>j. count R j = (if j < length (w_packed w) then snd (w_packed w ! j) else 0)"
    and life: "life h1 w (pool_buffers (live_cells (w_packed w)))"
    and on: "blocks_on h0 h1 (heap_blocks (live_cells (w_packed w)) + Q)" by (rule store_invE)
  let ?v = "Some (replicate (unat (l_size l)) 0)"
  from alloc_zeroed_cases [OF al] x have pl: "placeable (w_heap w) l x" and h: "h = (w_heap w)(x := ?v)"
    by auto
  then have none: "w_heap w x = None" by (simp add: placeable_def)
  have h1x: "h1 x = None" using life_rest [OF life, of x] none by fastforce
  have "life (h1(x := ?v)) (w\<lparr>w_heap := h\<rparr>) (pool_buffers (live_cells (w_packed w)))"
    using life_elsewhere [OF life, of x ?v] none h by simp
  then have "life (h1(x := ?v)) w' (pool_buffers (live_cells (w_packed w)))"
    unfolding w'_def by (subst life_cong [of _ "w\<lparr>w_heap := h\<rparr>"]) simp_all
  moreover have "blocks_on h0 (h1(x := ?v)) (add_mset ?pk (heap_blocks (live_cells (w_packed w)) + Q))"
    using blocks_on_add [OF on, of ?pk ?v] h1x pl by (simp add: block_ok_def placeable_def)
  ultimately show "store_inv life h0 Q w' (add_mset (length (w_packed w)) R)"
    unfolding store_inv_def using packed_new_counts [OF cnt, of ?pk] by (auto simp: w'_def)
  show "packed_keeps w w'"
  proof (rule packed_keepsI)
    fix pk assume "pk \<in># live_cells (w_packed w)"
    then obtain j n where "get_packed j w = Some (pk, n)" unfolding get_packed_def by (rule live_cells_get)
    with inv obtain bs where "w_heap w (pk_buf pk) = Some bs" by (elim store_block)
    with none show "w_heap w' (pk_buf pk) = w_heap w (pk_buf pk)" by (auto simp: w'_def h)
  qed (simp_all add: w'_def nth_append)
qed

text \<open>A clone of a reference, and the decrement that starts the drop of one: the block stays, or it goes, a buffer
  of the pool to the caller and an oversized block to those that are to be freed.\<close>

lemma store_clone:
  assumes inv: "store_inv life h0 Q w R" and g: "get_packed j w = Some (pk, n)"
  defines "w' \<equiv> w\<lparr>w_packed := (w_packed w)[j := (pk, Suc n)]\<rparr>"
  shows "packed_clone j w = Some w'" and "store_inv life h0 Q w' (add_mset j R)" and "packed_keeps w w'"
proof -
  from g have q: "j < length (w_packed w)" "w_packed w ! j = (pk, n)" "n \<noteq> 0"
    by (simp_all add: get_packed_def get_cell_Some)
  from live_cells_split [OF q] have live: "live_cells (w_packed w') = live_cells (w_packed w)"
    by (metis w'_def nat.distinct(1) packed_world.select_convs(1) packed_world.surjective packed_world.update_convs(1))
  from inv have "count R j = n" using q by (simp add: store_inv_def)
  then have "\<forall>i. count (add_mset j R) i = (if i < length (w_packed w') then snd (w_packed w' ! i) else 0)"
    using inv q unfolding w'_def store_inv_def by (auto simp: nth_list_update)
  moreover have "life h1 w' U = life h1 w U" for h1 U
    unfolding w'_def by (rule life_cong) simp_all
  ultimately show "store_inv life h0 Q w' (add_mset j R)" using inv live by (simp add: store_inv_def)
  show "packed_clone j w = Some w'" using g by (simp add: packed_clone_def w'_def)
  show "packed_keeps w w'" by (rule packed_keeps_upd [OF g]) (simp_all add: w'_def)
qed

lemma store_unref:
  assumes inv: "store_inv life h0 Q w (add_mset j R)"
  obtains (stays) pk n where "get_packed j w = Some (pk, Suc (Suc n))"
      and "store_inv life h0 Q (w\<lparr>w_packed := (w_packed w)[j := (pk, Suc n)]\<rparr>) R"
    | (block) pk l where "get_packed j w = Some (pk, 1)" and "pk_release pk = ReleaseHeap l"
      and "store_inv life h0 (add_mset pk Q) (w\<lparr>w_packed := (w_packed w)[j := (pk, 0)]\<rparr>) R"
    | (buffer) pk L h1 where "get_packed j w = Some (pk, 1)" and "pk_release pk = ReleasePool"
      and "\<forall>i. count R i = (if i < length ((w_packed w)[j := (pk, 0)]) then snd ((w_packed w)[j := (pk, 0)] ! i) else 0)"
      and "live_cells ((w_packed w)[j := (pk, 0)]) = L"
      and "life h1 (w\<lparr>w_packed := (w_packed w)[j := (pk, 0)]\<rparr>) (add_mset (pk_buf pk) (pool_buffers L))"
      and "blocks_on h0 h1 (heap_blocks L + Q)"
proof -
  from store_ref [OF inv, of j] obtain pk where g: "get_packed j w = Some (pk, Suc (count R j))" by auto
  let ?n = "Suc (count R j)"
  from g have q: "j < length (w_packed w)" "w_packed w ! j = (pk, ?n)" "?n \<noteq> 0"
    by (simp_all add: get_packed_def get_cell_Some)
  from live_cells_split [OF q] obtain L where L: "live_cells (w_packed w) = add_mset pk L"
    "\<And>m. live_cells ((w_packed w)[j := (pk, m)]) = (if m = 0 then L else add_mset pk L)" by metis
  from inv obtain h1 where cnt0: "\<forall>i. count (add_mset j R) i = (if i < length (w_packed w) then snd (w_packed w ! i) else 0)"
    and life: "life h1 w (pool_buffers (live_cells (w_packed w)))"
    and on: "blocks_on h0 h1 (heap_blocks (live_cells (w_packed w)) + Q)" by (rule store_invE)
  have cnt: "\<forall>i. count R i = (if i < length ((w_packed w)[j := (pk, count R j)]) then snd ((w_packed w)[j := (pk, count R j)] ! i) else 0)"
    by (rule packed_counts_upd [OF cnt0 q(1)]) simp
  have same: "life h (w\<lparr>w_packed := cells\<rparr>) U = life h w U" for h cells U by (rule life_cong) simp_all
  show thesis
  proof (cases "count R j")
    case (Suc m)
    have "store_inv life h0 Q (w\<lparr>w_packed := (w_packed w)[j := (pk, Suc m)]\<rparr>) R"
      unfolding store_inv_def same
      by (intro conjI exI [of _ h1]) (use cnt [unfolded Suc] life on L in \<open>simp_all add: same\<close>)
    with g Suc show thesis by (intro stays [of pk m]) simp_all
  next
    case 0
    show thesis
    proof (cases "pk_release pk")
      case ReleasePool
      show thesis
        by (rule buffer [of pk L h1]) (use g ReleasePool L life on 0 in \<open>simp_all only: same\<close>, use cnt [unfolded 0] L in simp_all)
    next
      case (ReleaseHeap l)
      have "store_inv life h0 (add_mset pk Q) (w\<lparr>w_packed := (w_packed w)[j := (pk, 0)]\<rparr>) R"
        unfolding store_inv_def same
        by (intro conjI exI [of _ h1]) (use cnt [unfolded 0] life on L ReleaseHeap in \<open>simp_all add: same\<close>)
      with g 0 ReleaseHeap show thesis by (intro block [of pk l]) simp_all
    qed
  qed
qed

text \<open>Freeing a block that has lost its last reference.\<close>

lemma store_free:
  assumes inv: "store_inv life h0 (add_mset pk Q) w R" and rel: "pk_release pk = ReleaseHeap l"
  defines "w' \<equiv> w\<lparr>w_heap := (w_heap w)(pk_buf pk := None)\<rparr>"
  shows "dealloc (pk_buf pk) l (w_heap w) = Some (w_heap w')" and "store_inv life h0 Q w' R" and "packed_keeps w w'"
proof -
  let ?P = "live_cells (w_packed w)"
  from inv obtain h1 where cnt: "\<forall>j. count R j = (if j < length (w_packed w) then snd (w_packed w ! j) else 0)"
    and life: "life h1 w (pool_buffers ?P)" and on': "blocks_on h0 h1 (heap_blocks ?P + add_mset pk Q)" by (rule store_invE)
  from on' have on: "blocks_on h0 h1 (add_mset pk (heap_blocks ?P + Q))" by simp
  have q: "pk \<in># add_mset pk (heap_blocks ?P + Q)" by simp
  have "block_ok h1 pk" using on by (simp add: blocks_on_def)
  with rest_block(1) [OF life on q] rel show "dealloc (pk_buf pk) l (w_heap w) = Some (w_heap w')"
    by (auto simp: dealloc_def block_ok_def Let_def w'_def split: option.splits)
  have "life (h1(pk_buf pk := None)) w' (pool_buffers ?P)"
    using life_elsewhere [OF life, of "pk_buf pk" None] blocks_on_live [OF on q] by (simp add: w'_def)
  with cnt blocks_on_remove [OF on] show "store_inv life h0 Q w' R"
    by (auto simp: store_inv_def w'_def)
  show "packed_keeps w w'"
  proof (rule packed_keepsI)
    fix p assume p: "p \<in># ?P"
    have "count (image_mset pk_buf (?P + add_mset pk Q)) (pk_buf pk) \<le> 1" by (rule store_once [OF life on'])
    then have "pk_buf pk \<notin># image_mset pk_buf ?P" by (simp add: not_in_iff del: set_image_mset)
    from image_mset_apart [OF this p] show "w_heap w' (pk_buf p) = w_heap w (pk_buf p)" by (simp add: w'_def)
  qed (simp_all add: w'_def)
qed

text \<open>A write to the block of a live packed page.\<close>

lemma store_write:
  assumes inv: "store_inv life h0 Q w R" and g: "get_packed j w = Some (pk, n)"
    and bs: "w_heap w (pk_buf pk) = Some bs" and len: "length bs' = length bs"
  shows "store_inv life h0 Q (w\<lparr>w_heap := (w_heap w)(pk_buf pk \<mapsto> bs')\<rparr>) R"
proof -
  let ?P = "live_cells (w_packed w)"
  from g have live: "pk \<in># ?P" unfolding get_packed_def by (rule get_cell_live)
  from inv obtain h1 where cnt: "\<forall>j. count R j = (if j < length (w_packed w) then snd (w_packed w ! j) else 0)"
    and life: "life h1 w (pool_buffers ?P)" and on: "blocks_on h0 h1 (heap_blocks ?P + Q)" by (rule store_invE)
  show ?thesis
  proof (cases "pk_release pk = ReleasePool")
    case True
    note U = in_pool_buffers [OF live True]
    have "length bs' = unat (sh_page_size (w_shared w))"
      using life_buffer [OF life U] bs len by (auto elim!: buffer_okE)
    from life_write [OF life U this] cnt on show ?thesis by (auto simp: store_inv_def)
  next
    case False
    have q: "pk \<in># heap_blocks ?P + Q" using in_heap_blocks [OF live False] by simp
    then obtain Q' where Q': "heap_blocks ?P + Q = add_mset pk Q'" by (blast dest: multi_member_split)
    have ok: "block_ok h1 pk" using on q by (auto simp: blocks_on_def)
    have gone: "blocks_on h0 (h1(pk_buf pk := None)) Q'"
      using blocks_on_remove [OF on [unfolded Q']] .
    have "blocks_on h0 (h1(pk_buf pk := Some bs')) (heap_blocks ?P + Q)"
      using blocks_on_add [OF gone, of pk "Some bs'"] ok bs len rest_block(1) [OF life on q]
      by (simp add: Q' block_ok_def Let_def)
    moreover have "life (h1(pk_buf pk := Some bs')) (w\<lparr>w_heap := (w_heap w)(pk_buf pk \<mapsto> bs')\<rparr>) (pool_buffers ?P)"
      using life_elsewhere [OF life, of "pk_buf pk" "Some bs'"] blocks_on_live [OF on q] by simp
    ultimately show ?thesis using cnt by (auto simp: store_inv_def)
  qed
qed

text \<open>Without references, the pool is all there is on top of \<open>h0\<close>.\<close>

lemma store_end:
  assumes "store_inv life h0 {#} w {#}"
  shows "life h0 w {#}"
proof -
  from assms obtain h1 where cnt: "\<forall>j. count {#} j = (if j < length (w_packed w) then snd (w_packed w ! j) else 0)"
    and life: "life h1 w (pool_buffers (live_cells (w_packed w)))"
    and on: "blocks_on h0 h1 (heap_blocks (live_cells (w_packed w)) + {#})" by (rule store_invE)
  from cnt have empty: "live_cells (w_packed w) = {#}" by (intro live_cells_empty) (metis count_empty)
  with on have "h1 = h0" by (auto simp: blocks_on_def)
  with life empty show ?thesis by simp
qed

end

text \<open>A step of the pool from one guarantee to another, with the same memory outside the buffers: it keeps the buffers
  that are out, or hands out one more, for which there is a new cell.\<close>

lemma store_change:
  fixes w w' :: "'z packed_world_scheme"
  assumes L: "buffer_life life" "buffer_life life'" and inv: "store_inv life h0 Q w R" and fr: "pool_frame w w'"
    and step: "\<And>h1. life h1 w (pool_buffers (live_cells (w_packed w))) \<Longrightarrow>
      life' h1 w' (pool_buffers (live_cells (w_packed w)))
      \<and> (\<forall>y. y \<in># pool_buffers (live_cells (w_packed w)) \<longrightarrow> w_heap w' y = w_heap w y)"
  shows "store_inv life' h0 Q w' R" and "packed_keeps w w'"
proof -
  let ?P = "live_cells (w_packed w)"
  note tab = pool_frame_packed(1) [OF fr]
  from buffer_life.store_invE [OF L(1) inv] obtain h1 where
    cnt: "\<forall>j. count R j = (if j < length (w_packed w) then snd (w_packed w ! j) else 0)"
    and life: "life h1 w (pool_buffers ?P)" and on: "blocks_on h0 h1 (heap_blocks ?P + Q)" by blast
  have life': "life' h1 w' (pool_buffers ?P)" and same: "\<forall>y. y \<in># pool_buffers ?P \<longrightarrow> w_heap w' y = w_heap w y"
    using step [OF life] by auto
  show "store_inv life' h0 Q w' R" using cnt life' on by (auto simp: store_inv_def tab)
  show "packed_keeps w w'"
  proof (rule packed_keepsI)
    fix q assume q: "q \<in># ?P"
    show "w_heap w' (pk_buf q) = w_heap w (pk_buf q)"
    proof (cases "pk_release q = ReleasePool")
      case True
      with same in_pool_buffers [OF q] show ?thesis by blast
    next
      case False
      then have "q \<in># heap_blocks ?P + Q" using in_heap_blocks [OF q] by simp
      with buffer_life.rest_block(1) [OF L(1) life on] buffer_life.rest_block(1) [OF L(2) life' on] show ?thesis by simp
    qed
  qed (use fr in \<open>simp_all add: tab pool_frame_def\<close>)
qed

lemma store_taken:
  fixes w w1 :: "'z packed_world_scheme"
  assumes L: "buffer_life life" "buffer_life life'" and inv: "store_inv life h0 Q w R" and fr: "pool_frame w w1"
    and step: "\<And>h1. life h1 w (pool_buffers (live_cells (w_packed w))) \<Longrightarrow>
      life' h1 w1 (add_mset buf (pool_buffers (live_cells (w_packed w))))
      \<and> (\<forall>y. y \<noteq> buf \<longrightarrow> w_heap w1 y = w_heap w y)"
  defines "w' \<equiv> w1\<lparr>w_packed := w_packed w @ [(\<lparr>pk_buf = buf, pk_release = ReleasePool\<rparr>, 1)]\<rparr>"
  shows "packed_new \<lparr>pk_buf = buf, pk_release = ReleasePool\<rparr> w1 = (length (w_packed w), w')"
    and "store_inv life' h0 Q w' (add_mset (length (w_packed w)) R)" and "packed_keeps w w'"
proof -
  let ?P = "live_cells (w_packed w)" and ?pk = "\<lparr>pk_buf = buf, pk_release = ReleasePool\<rparr>"
  note tab = pool_frame_packed(1) [OF fr]
  from buffer_life.store_invE [OF L(1) inv] obtain h1 where
    cnt: "\<forall>j. count R j = (if j < length (w_packed w) then snd (w_packed w ! j) else 0)"
    and life: "life h1 w (pool_buffers ?P)" and on: "blocks_on h0 h1 (heap_blocks ?P + Q)" by blast
  from step [OF life] have life1: "life' h1 w1 (add_mset buf (pool_buffers ?P))"
    and other: "\<forall>y. y \<noteq> buf \<longrightarrow> w_heap w1 y = w_heap w y" by auto
  show "packed_new ?pk w1 = (length (w_packed w), w')" by (simp add: packed_new_def w'_def tab)
  have "life' h1 w' (add_mset buf (pool_buffers ?P))"
    using life1 by (subst buffer_life.life_cong [OF L(2), of w' w1]) (simp_all add: w'_def)
  then show "store_inv life' h0 Q w' (add_mset (length (w_packed w)) R)"
    unfolding store_inv_def using on packed_new_counts [OF cnt, of ?pk] by (auto simp: w'_def)
  show "packed_keeps w w'"
  proof (rule packed_keepsI)
    fix pk assume live: "pk \<in># ?P"
    have "pk_buf pk \<noteq> buf"
    proof (cases "pk_release pk = ReleasePool")
      case True
      have "buf \<notin># pool_buffers ?P"
        using buffer_life.life_once [OF L(2) life1, of buf] by (simp add: not_in_iff)
      with in_pool_buffers [OF live True] show ?thesis by auto
    next
      case False
      then have "pk \<in># heap_blocks ?P + Q" using in_heap_blocks [OF live] by simp
      from buffer_life.rest_block(2) [OF L(2) life1 on this] show ?thesis by auto
    qed
    with other show "w_heap w' (pk_buf pk) = w_heap w (pk_buf pk)" by (simp add: w'_def)
  qed (use fr in \<open>simp_all add: w'_def nth_append pool_frame_def\<close>)
qed

section \<open>The store over a sequential pool\<close>

interpretation pool_store: buffer_life "\<lambda>h w U. pool_life h pp k w U" for pp k
proof
  fix h x and w :: "'z packed_world_scheme" and U assume life: "pool_life h pp k w U"
  show "count U x \<le> 1"
  proof (cases "x \<in># U")
    case True
    then obtain V where "U = add_mset x V" by (blast dest: multi_member_split)
    with pool_life_once [of h pp k w x V] life show ?thesis by (simp add: not_in_iff)
  qed (simp add: not_in_iff)
  show "w_heap w x = h x \<and> x \<notin># U" if "h x \<noteq> None" using pool_life_elsewhere_live [OF life that] by simp
next
  show "pool_life h pp k w' U = pool_life h pp k w U"
    if "w_heap w' = w_heap w" "w_shared w' = w_shared w" "w_strong w' = w_strong w"
    for w w' :: "'z packed_world_scheme" and h U using that by (rule pool_life_cong)
qed (simp_all add: pool_life_buffer pool_life_elsewhere pool_life_write)

lemmas packed_block = pool_store.store_block [where Q = "{#}", folded packed_inv_def]
lemmas packed_inv_live = pool_store.store_live [where Q = "{#}", folded packed_inv_def]
lemmas packed_alloc_heap = pool_store.store_alloc_heap [where Q = "{#}", folded packed_inv_def]

lemma packed_take:
  fixes w :: "'z packed_world_scheme"
  assumes inv: "packed_inv h0 (Some pp) k w R"
  obtains (failed) e pp' w' where "allocate_raw_page pp w = Some (Inl e, pp', w')" and "pool_frame w w'"
      and "packed_inv h0 (Some pp') k w' R" and "packed_keeps w w'"
    | (taken) buf pp' w1 w' where "allocate_raw_page pp w = Some (Inr buf, pp', w1)" and "pool_frame w w1"
      and "packed_new \<lparr>pk_buf = buf, pk_release = ReleasePool\<rparr> w1 = (length (w_packed w), w')"
      and "w' = w1\<lparr>w_packed := w_packed w @ [(\<lparr>pk_buf = buf, pk_release = ReleasePool\<rparr>, 1)]\<rparr>"
      and "packed_inv h0 (Some pp') k w' (add_mset (length (w_packed w)) R)" and "packed_keeps w w'"
proof -
  note inv' = inv [unfolded packed_inv_def] and P = pool_store.buffer_life_axioms
  let ?U = "pool_buffers (live_cells (w_packed w))"
  from inv' obtain h where "pool_life h (Some pp) k w ?U" by (rule pool_store.store_invE)
  from pool_life_take [OF this] obtain r pp' w1 where
    al: "allocate_raw_page pp w = Some (r, pp', w1)" "pool_frame w w1" by blast
  have res: "case r of
       Inl e \<Rightarrow> pool_life h (Some pp') k w1 ?U \<and> w_heap w1 = w_heap w
     | Inr x \<Rightarrow> pool_life h (Some pp') k w1 (add_mset x ?U) \<and> (\<forall>y. y \<noteq> x \<longrightarrow> w_heap w1 y = w_heap w y)"
    if "pool_life h (Some pp) k w ?U" for h using pool_life_take [OF that] al(1) by auto
  show thesis
  proof (cases r)
    case (Inl e)
    with res have "\<And>h. pool_life h (Some pp) k w ?U \<Longrightarrow> pool_life h (Some pp') k w1 ?U
      \<and> (\<forall>y. y \<in># ?U \<longrightarrow> w_heap w1 y = w_heap w y)" by simp
    from store_change [OF P P inv' al(2) this] al Inl show thesis by (intro failed) (simp_all add: packed_inv_def)
  next
    case (Inr buf)
    with res have "\<And>h. pool_life h (Some pp) k w ?U \<Longrightarrow> pool_life h (Some pp') k w1 (add_mset buf ?U)
      \<and> (\<forall>y. y \<noteq> buf \<longrightarrow> w_heap w1 y = w_heap w y)" by simp
    from store_taken [OF P P inv' al(2) this] al Inr show thesis by (intro taken) (simp_all add: packed_inv_def)
  qed
qed

lemma packed_drop_inv:
  fixes w :: "'z packed_world_scheme"
  assumes inv: "packed_inv h0 pp k w (add_mset j R)"
  shows "\<exists>w' pk n. packed_drop j w = Some w' \<and> packed_inv h0 pp k w' R \<and> packed_keeps w w'
    \<and> get_packed j w = Some (pk, n) \<and> w_packed w' = (w_packed w)[j := (pk, n - 1)]
    \<and> w_tenants w' = w_tenants w \<and> packed_world.more w' = packed_world.more w"
  using inv [unfolded packed_inv_def]
proof (cases rule: pool_store.store_unref)
  case (stays pk n)
  then show ?thesis using packed_keeps_upd [OF stays(1)] by (auto simp: packed_drop_def packed_inv_def)
next
  case (block pk l)
  let ?w = "w\<lparr>w_packed := (w_packed w)[j := (pk, 0)]\<rparr>"
  note free = pool_store.store_free [OF block(3,2)]
  have "packed_keeps w (?w\<lparr>w_heap := (w_heap ?w)(pk_buf pk := None)\<rparr>)"
    by (rule packed_keeps_trans [OF packed_keeps_upd [OF block(1)] free(3)]) (simp_all add: get_packed_def)
  with free(1,2) block(1,2) show ?thesis by (auto simp: packed_drop_def packed_page_drop_def packed_inv_def)
next
  case (buffer pk L h1)
  let ?w = "w\<lparr>w_packed := (w_packed w)[j := (pk, 0)]\<rparr>"
  from pool_life_give [OF buffer(5)] obtain w' where
    w': "give_back (pk_buf pk) ?w = Some w'" "pool_frame ?w w'" "pool_life h1 pp k w' (pool_buffers L)"
    and same: "\<forall>y. y \<in># pool_buffers L \<longrightarrow> w_heap w' y = w_heap w y" by auto
  have tab: "w_packed w' = (w_packed w)[j := (pk, 0)]" "packed_world.more w' = packed_world.more w"
    using pool_frame_packed [OF w'(2)] by simp_all
  have "packed_inv h0 pp k w' R" unfolding packed_inv_def store_inv_def tab(1) using buffer(3,4,6) w'(3) by auto
  moreover have "packed_keeps w w'"
  proof (rule packed_keepsI)
    fix q assume "q \<in># live_cells (w_packed w')"
    then have q: "q \<in># L" using buffer(4) by (simp add: tab)
    show "w_heap w' (pk_buf q) = w_heap w (pk_buf q)"
    proof (cases "pk_release q = ReleasePool")
      case True
      with same in_pool_buffers [OF q] show ?thesis by blast
    next
      case False
      then have "q \<in># heap_blocks L + {#}" using in_heap_blocks [OF q] by simp
      from pool_store.rest_block(1) [OF w'(3) buffer(6) this] pool_store.rest_block(1) [OF buffer(5,6) this]
      show ?thesis by simp
    qed
  qed (use w'(2) buffer(1) in \<open>auto simp: tab pool_frame_def get_packed_def get_cell_Some nth_list_update\<close>)
  ultimately show ?thesis using buffer(1,2) w'(1,2) tab
    by (auto simp: packed_drop_def packed_page_drop_def give_back_def pool_frame_def)
qed

text \<open>Steps of the pool that keep the buffers that are out.\<close>

lemma packed_pool_step:
  fixes w w' :: "'z packed_world_scheme"
  assumes "packed_inv h0 pp k w R" and "pool_frame w w'"
    and "\<And>h1 U. pool_life h1 pp k w U \<Longrightarrow> pool_life h1 pp' k' w' U
      \<and> (\<forall>y. y \<in># U \<longrightarrow> w_heap w' y = w_heap w y)"
  shows "packed_inv h0 pp' k' w' R" and "packed_keeps w w'"
  using store_change [OF pool_store.buffer_life_axioms pool_store.buffer_life_axioms
      assms(1) [unfolded packed_inv_def] assms(2,3)] by (simp_all add: packed_inv_def)

text \<open>When nothing refers to the pool or to a packed page any more, memory is back to what it was.\<close>

lemma packed_inv_end:
  assumes "packed_inv h0 None 0 w {#}"
  shows "w_heap w = h0 \<and> w_strong w = 0"
  using pool_life_end [OF pool_store.store_end [OF assms [unfolded packed_inv_def]]] by simp

end
