(* ===== verification/Chunks.thy ===== *)
theory Chunks
  imports Packed_Pages Builders
begin

text \<open>
  \<open>src/chunk.rs\<close>: the variable-size allocator over a page pool. Small chunks are packed one after the
  other into an open page, larger ones get a page of their own, and chunks larger than a page, or with
  an alignment no page can give, get a block of the global allocator (\<open>ga\<close>, a placement). Offsets,
  capacities and lengths are 32-bit in the handles, as in the source, and conversions truncate.
\<close>

section \<open>State\<close>

record chunk_full =
  cf_capacity :: usize
  cf_len :: usize
  cf_attempted :: usize

record chunk_pool_stats =
  cs_total_chunks :: u64
  cs_chunks_in_use :: u64
  cs_packed_allocations :: u64
  cs_dedicated_allocations :: u64
  cs_oversized_allocations :: u64
  cs_oversized_bytes_in_use :: u64

definition chunk_pool_stats_default :: chunk_pool_stats where
  "chunk_pool_stats_default = \<lparr>cs_total_chunks = 0, cs_chunks_in_use = 0, cs_packed_allocations = 0,
     cs_dedicated_allocations = 0, cs_oversized_allocations = 0, cs_oversized_bytes_in_use = 0\<rparr>"

record open_page =
  op_shared :: nat
  op_write_offset :: usize

record chunk_pool =
  cp_pages :: page_pool
  cp_current :: "open_page option"
  cp_threshold :: usize

record chunk_builder =
  cb_packed :: "nat option"
  cb_tenant :: "nat option"
  cb_oversized_bytes :: u64
  cb_offset :: u32
  cb_capacity :: u32
  cb_len :: u32

record chunk_inner =
  ci_packed :: "nat option"
  ci_tenant :: nat
  ci_oversized_bytes :: u64
  ci_offset :: u32
  ci_capacity :: u32
  ci_length :: u32

record chunk_world = packed_world +
  w_chunks :: "(chunk_inner \<times> nat) list"
  w_cstats :: chunk_pool_stats

type_synonym chunk = nat

definition upd_cstats :: "(chunk_pool_stats \<Rightarrow> chunk_pool_stats) \<Rightarrow> chunk_world \<Rightarrow> chunk_world" where
  "upd_cstats f w = w\<lparr>w_cstats := f (w_cstats w)\<rparr>"

definition default_page_size :: usize where
  "default_page_size = 16 * 1024"

definition default_align :: usize where
  "default_align = ptr_size"

definition align_up :: "usize \<Rightarrow> usize \<Rightarrow> usize" where
  "align_up v align = (v + align - 1) AND NOT (align - 1)"

section \<open>Construction\<close>

definition from_pool :: "page_pool \<Rightarrow> chunk_world \<Rightarrow> chunk_pool \<times> chunk_world" where
  "from_pool pages w =
     (\<lparr>cp_pages = pages, cp_current = None, cp_threshold = pool_page_size w div 2\<rparr>,
      w\<lparr>w_cstats := chunk_pool_stats_default\<rparr>)"

definition chunk_with_source :: "page_source \<Rightarrow> chunk_world \<Rightarrow> (panic + chunk_pool) \<times> chunk_world" where
  "chunk_with_source src w =
     (case with_source src w of
        (Inl e, w) \<Rightarrow> (Inl e, w)
      | (Inr pp, w) \<Rightarrow> (case from_pool pp w of (cp, w) \<Rightarrow> (Inr cp, w)))"

definition chunk_with_page_size :: "placement \<Rightarrow> usize \<Rightarrow> chunk_world \<Rightarrow> (panic + chunk_pool) \<times> chunk_world" where
  "chunk_with_page_size ga page_size w =
     (case page_pool_new ga page_size w of
        (Inl e, w) \<Rightarrow> (Inl e, w)
      | (Inr pp, w) \<Rightarrow> (case from_pool pp w of (cp, w) \<Rightarrow> (Inr cp, w)))"

definition chunk_new :: "placement \<Rightarrow> chunk_world \<Rightarrow> (panic + chunk_pool) \<times> chunk_world" where
  "chunk_new ga w = chunk_with_page_size ga default_page_size w"

definition chunk_with_capacity :: "placement \<Rightarrow> usize \<Rightarrow> usize \<Rightarrow> chunk_world
    \<Rightarrow> ((panic + chunk_pool) \<times> chunk_world) option" where
  "chunk_with_capacity ga page_size num_pages w = do {
     (r, w) \<leftarrow> with_capacity ga page_size num_pages w;
     (case r of
        Inl e \<Rightarrow> Some (Inl e, w)
      | Inr pp \<Rightarrow> (case from_pool pp w of (cp, w) \<Rightarrow> Some (Inr cp, w)))
   }"

definition chunk_prewarm :: "usize \<Rightarrow> chunk_pool \<Rightarrow> chunk_world
    \<Rightarrow> ((panic + unit) \<times> chunk_pool \<times> chunk_world) option" where
  "chunk_prewarm num_pages cp w = do {
     (r, pp, w) \<leftarrow> prewarm num_pages (cp_pages cp) w;
     Some (r, cp\<lparr>cp_pages := pp\<rparr>, w)
   }"

section \<open>Allocation\<close>

text \<open>The counters every path touches.\<close>

definition count_chunk :: "nat \<Rightarrow> usize \<Rightarrow> chunk_world \<Rightarrow> chunk_world" where
  "count_chunk t sz w =
     (let w = upd_tenant t (record_chunk_allocate sz) w;
          w = upd_cstats (\<lambda>s. s\<lparr>cs_total_chunks := fetch_add (cs_total_chunks s) 1\<rparr>) w
      in upd_cstats (\<lambda>s. s\<lparr>cs_chunks_in_use := fetch_add (cs_chunks_in_use s) 1\<rparr>) w)"

definition allocate_zero :: "tenant \<Rightarrow> chunk_world \<Rightarrow> chunk_builder \<times> chunk_world" where
  "allocate_zero tenant w =
     (\<lparr>cb_packed = None, cb_tenant = Some (tenant_cell tenant), cb_oversized_bytes = 0, cb_offset = 0,
       cb_capacity = 0, cb_len = 0\<rparr>, count_chunk (tenant_cell tenant) 0 w)"

definition open_new_page :: "chunk_pool \<Rightarrow> chunk_world \<Rightarrow> ((panic + unit) \<times> chunk_pool \<times> chunk_world) option" where
  "open_new_page cp w = do {
     (r, pp, w) \<leftarrow> allocate_raw_page (cp_pages cp) w;
     (case r of
        Inl e \<Rightarrow> Some (Inl e, cp\<lparr>cp_pages := pp\<rparr>, w)
      | Inr buf \<Rightarrow>
          (case packed_new \<lparr>pk_buf = buf, pk_release = ReleasePool\<rparr> w of
             (packed, w) \<Rightarrow> Some (Inr (),
               cp\<lparr>cp_pages := pp, cp_current := Some \<lparr>op_shared = packed, op_write_offset = 0\<rparr>\<rparr>, w)))
   }"

text \<open>Where the open page, if there is one, can take \<open>sz\<close> bytes aligned to \<open>align\<close>.\<close>

definition packed_fit :: "usize \<Rightarrow> usize \<Rightarrow> chunk_pool \<Rightarrow> chunk_world \<Rightarrow> (open_page \<times> usize) option option" where
  "packed_fit sz align cp w =
     (case cp_current cp of
        None \<Rightarrow> Some None
      | Some opn \<Rightarrow> do {
          (pk, n) \<leftarrow> get_packed (op_shared opn) w;
          let buf_addr = pk_buf pk;
          let aligned_addr = align_up (buf_addr + op_write_offset opn) align;
          let aligned_offset = aligned_addr - buf_addr;
          Some (if usize_saturating_add aligned_offset sz \<le> pool_page_size w
                then Some (opn, aligned_offset) else None)
        })"

text \<open>Dropping the pool's handle of the open page.\<close>

definition retire_current :: "chunk_pool \<Rightarrow> chunk_world \<Rightarrow> (chunk_pool \<times> chunk_world) option" where
  "retire_current cp w =
     (case cp_current cp of
        None \<Rightarrow> Some (cp, w)
      | Some opn \<Rightarrow> do { w \<leftarrow> packed_drop (op_shared opn) w; Some (cp\<lparr>cp_current := None\<rparr>, w) })"

partial_function (option) packed_loop :: "usize \<Rightarrow> usize \<Rightarrow> chunk_pool \<Rightarrow> chunk_world
    \<Rightarrow> ((panic + nat \<times> usize) \<times> chunk_pool \<times> chunk_world) option" where
  "packed_loop sz align cp w = do {
     fit \<leftarrow> packed_fit sz align cp w;
     (case fit of
        Some (opn, offset) \<Rightarrow> do {
          w \<leftarrow> packed_clone (op_shared opn) w;
          Some (Inr (op_shared opn, offset),
                cp\<lparr>cp_current := Some (opn\<lparr>op_write_offset := offset + sz\<rparr>)\<rparr>, w)
        }
      | None \<Rightarrow> do {
          (cp, w) \<leftarrow> retire_current cp w;
          (r, cp, w) \<leftarrow> open_new_page cp w;
          (case r of Inl e \<Rightarrow> Some (Inl e, cp, w) | Inr _ \<Rightarrow> packed_loop sz align cp w)
        })
   }"

definition allocate_packed :: "tenant \<Rightarrow> usize \<Rightarrow> usize \<Rightarrow> chunk_pool \<Rightarrow> chunk_world
    \<Rightarrow> ((panic + chunk_builder) \<times> chunk_pool \<times> chunk_world) option" where
  "allocate_packed tenant sz align cp w = do {
     (r, cp, w) \<leftarrow> packed_loop sz align cp w;
     (case r of
        Inl e \<Rightarrow> Some (Inl e, cp, w)
      | Inr (shared, offset) \<Rightarrow>
          let w = count_chunk (tenant_cell tenant) sz w;
              w = upd_cstats (\<lambda>s. s\<lparr>cs_packed_allocations := fetch_add (cs_packed_allocations s) 1\<rparr>) w
          in Some (Inr \<lparr>cb_packed = Some shared, cb_tenant = Some (tenant_cell tenant),
               cb_oversized_bytes = 0, cb_offset = ucast offset, cb_capacity = ucast sz, cb_len = 0\<rparr>, cp, w))
   }"

definition allocate_dedicated :: "tenant \<Rightarrow> usize \<Rightarrow> chunk_pool \<Rightarrow> chunk_world
    \<Rightarrow> ((panic + chunk_builder) \<times> chunk_pool \<times> chunk_world) option" where
  "allocate_dedicated tenant sz cp w = do {
     (r, pp, w) \<leftarrow> allocate_raw_page (cp_pages cp) w;
     let cp = cp\<lparr>cp_pages := pp\<rparr>;
     (case r of
        Inl e \<Rightarrow> Some (Inl e, cp, w)
      | Inr buf \<Rightarrow>
          (case packed_new \<lparr>pk_buf = buf, pk_release = ReleasePool\<rparr> w of
             (packed, w) \<Rightarrow>
               let w = count_chunk (tenant_cell tenant) sz w;
                   w = upd_cstats (\<lambda>s. s\<lparr>cs_dedicated_allocations := fetch_add (cs_dedicated_allocations s) 1\<rparr>) w
               in Some (Inr \<lparr>cb_packed = Some packed, cb_tenant = Some (tenant_cell tenant),
                    cb_oversized_bytes = 0, cb_offset = 0, cb_capacity = ucast sz, cb_len = 0\<rparr>, cp, w)))
   }"

definition allocate_oversized :: "placement \<Rightarrow> tenant \<Rightarrow> usize \<Rightarrow> usize \<Rightarrow> chunk_pool \<Rightarrow> chunk_world
    \<Rightarrow> ((panic + chunk_builder) \<times> chunk_pool \<times> chunk_world) option" where
  "allocate_oversized ga tenant sz align cp w =
     (let align = max align default_align
      in case from_size_align sz align of
           Inl e \<Rightarrow> Some (Inl e, cp, w)
         | Inr layout \<Rightarrow>
             (case alloc_zeroed ga layout (w_heap w) of
                (raw, h) \<Rightarrow>
                  let w = w\<lparr>w_heap := h\<rparr>
                  in if raw = 0 then Some (Inl AllocError, cp, w)
                     else (case packed_new \<lparr>pk_buf = raw, pk_release = ReleaseHeap layout\<rparr> w of
                       (packed, w) \<Rightarrow>
                         let w = count_chunk (tenant_cell tenant) sz w;
                             w = upd_cstats (\<lambda>s. s\<lparr>cs_oversized_allocations :=
                                   fetch_add (cs_oversized_allocations s) 1\<rparr>) w;
                             w = upd_cstats (\<lambda>s. s\<lparr>cs_oversized_bytes_in_use :=
                                   fetch_add (cs_oversized_bytes_in_use s) sz\<rparr>) w
                         in Some (Inr \<lparr>cb_packed = Some packed, cb_tenant = Some (tenant_cell tenant),
                              cb_oversized_bytes = sz, cb_offset = 0, cb_capacity = ucast sz,
                              cb_len = 0\<rparr>, cp, w))))"

definition allocate_aligned :: "placement \<Rightarrow> tenant \<Rightarrow> usize \<Rightarrow> usize \<Rightarrow> chunk_pool \<Rightarrow> chunk_world
    \<Rightarrow> ((panic + chunk_builder) \<times> chunk_pool \<times> chunk_world) option" where
  "allocate_aligned ga tenant sz align cp w =
     (if \<not> is_power_of_two align then Some (Inl AssertFailed, cp, w)
      else if sz = 0 then (case allocate_zero tenant w of (b, w) \<Rightarrow> Some (Inr b, cp, w))
      else let page_size = pool_page_size w
        in if align \<le> default_align
           then (if sz > page_size then allocate_oversized ga tenant sz align cp w
                 else if sz > cp_threshold cp then allocate_dedicated tenant sz cp w
                 else allocate_packed tenant sz align cp w)
           else (let worst_pad = align - 1;
                     needed = usize_saturating_add sz worst_pad
                 in if sz \<le> cp_threshold cp \<and> needed \<le> page_size
                    then allocate_packed tenant sz align cp w
                    else allocate_oversized ga tenant sz align cp w))"

definition chunk_allocate :: "placement \<Rightarrow> tenant \<Rightarrow> usize \<Rightarrow> chunk_pool \<Rightarrow> chunk_world
    \<Rightarrow> ((panic + chunk_builder) \<times> chunk_pool \<times> chunk_world) option" where
  "chunk_allocate ga tenant sz cp w = allocate_aligned ga tenant sz default_align cp w"

section \<open>ChunkBuilder\<close>

definition chunk_builder_capacity :: "chunk_builder \<Rightarrow> usize" where
  "chunk_builder_capacity b = ucast (cb_capacity b)"

definition chunk_builder_len :: "chunk_builder \<Rightarrow> usize" where
  "chunk_builder_len b = ucast (cb_len b)"

definition chunk_builder_is_empty :: "chunk_builder \<Rightarrow> bool" where
  "chunk_builder_is_empty b = (cb_len b = 0)"

definition chunk_builder_remaining :: "chunk_builder \<Rightarrow> usize" where
  "chunk_builder_remaining b = ucast (cb_capacity b - cb_len b)"

definition chunk_builder_as_slice :: "chunk_builder \<Rightarrow> 'z packed_world_scheme \<Rightarrow> u8 list option" where
  "chunk_builder_as_slice b w =
     (case cb_packed b of
        Some page \<Rightarrow> do {
          (pk, n) \<leftarrow> get_packed page w;
          mem_read (w_heap w) (pk_buf pk) (unat (cb_offset b)) (unat (chunk_builder_len b))
        }
      | None \<Rightarrow> Some [])"

text \<open>The slice over the builder's own range; for a zero-size builder it is \<open>&mut []\<close>.\<close>

definition chunk_builder_as_mut_slice :: "chunk_builder \<Rightarrow> 'z packed_world_scheme \<Rightarrow> slice_mut option" where
  "chunk_builder_as_mut_slice b w =
     (case cb_packed b of
        Some page \<Rightarrow> do {
          (pk, n) \<leftarrow> get_packed page w;
          let cap = unat (chunk_builder_capacity b);
          _ \<leftarrow> mem_read (w_heap w) (pk_buf pk) (unat (cb_offset b)) cap;
          Some \<lparr>sl_base = pk_buf pk, sl_off = unat (cb_offset b), sl_len = cap\<rparr>
        }
      | None \<Rightarrow> Some \<lparr>sl_base = 1, sl_off = 0, sl_len = 0\<rparr>)"

definition chunk_builder_set_len :: "usize \<Rightarrow> chunk_builder \<Rightarrow> (panic + unit) \<times> chunk_builder" where
  "chunk_builder_set_len len b =
     (if \<not> len \<le> chunk_builder_capacity b then (Inl AssertFailed, b)
      else (Inr (), b\<lparr>cb_len := ucast len\<rparr>))"

definition chunk_builder_append :: "u8 list \<Rightarrow> chunk_builder \<Rightarrow> 'z packed_world_scheme
    \<Rightarrow> ((panic + (chunk_full + unit)) \<times> chunk_builder \<times> 'z packed_world_scheme) option" where
  "chunk_builder_append data b w =
     (let cap = chunk_builder_capacity b;
          cur = chunk_builder_len b;
          data_len = of_nat (length data)
      in if cur + data_len > cap
         then Some (Inr (Inl \<lparr>cf_capacity = cap, cf_len = cur, cf_attempted = data_len\<rparr>), b, w)
         else if data = [] then Some (Inr (Inr ()), b, w)
         else do {
           buf \<leftarrow> chunk_builder_as_mut_slice b w;
           (case slice_range buf (unat cur) (unat cur + length data) of
              Inl e \<Rightarrow> Some (Inl e, b, w)
            | Inr s \<Rightarrow> do {
                (r, h) \<leftarrow> copy_from_slice s data (w_heap w);
                (case r of
                   Inl e \<Rightarrow> Some (Inl e, b, w\<lparr>w_heap := h\<rparr>)
                 | Inr _ \<Rightarrow> Some (Inr (Inr ()), b\<lparr>cb_len := cb_len b + of_nat (length data)\<rparr>,
                                w\<lparr>w_heap := h\<rparr>))
              })
         })"

text \<open>The accounting that \<open>Drop for ChunkBuilder\<close> and \<open>Drop for ChunkInner\<close> share.\<close>

definition uncount_chunk :: "nat \<Rightarrow> u32 \<Rightarrow> u64 \<Rightarrow> chunk_world \<Rightarrow> chunk_world" where
  "uncount_chunk t capacity oversized w =
     (let w = upd_tenant t (record_chunk_release (ucast capacity)) w;
          w = upd_cstats (\<lambda>s. s\<lparr>cs_chunks_in_use := fetch_sub (cs_chunks_in_use s) 1\<rparr>) w
      in if oversized > 0
         then upd_cstats (\<lambda>s. s\<lparr>cs_oversized_bytes_in_use :=
                fetch_sub (cs_oversized_bytes_in_use s) oversized\<rparr>) w
         else w)"

text \<open>The drop of the field \<open>packed\<close>, an \<open>Option<Arc<PackedPage>>\<close>.\<close>

definition drop_packed_field :: "nat option \<Rightarrow> 'z packed_world_scheme \<Rightarrow> 'z packed_world_scheme option" where
  "drop_packed_field j w = (case j of None \<Rightarrow> Some w | Some j \<Rightarrow> packed_drop j w)"

definition chunk_builder_drop :: "chunk_builder \<Rightarrow> chunk_world \<Rightarrow> chunk_world option" where
  "chunk_builder_drop b w = do {
     let w = (case cb_tenant b of
         None \<Rightarrow> w
       | Some t \<Rightarrow> uncount_chunk t (cb_capacity b) (cb_oversized_bytes b) w);
     drop_packed_field (cb_packed b) w
   }"

text \<open>\<open>seal\<close> clones the page reference into the chunk and drops the builder, whose tenant is gone.\<close>

definition chunk_builder_seal :: "chunk_builder \<Rightarrow> chunk_world \<Rightarrow> ((panic + chunk) \<times> chunk_world) option" where
  "chunk_builder_seal b w =
     (case cb_tenant b of
        None \<Rightarrow> do { w \<leftarrow> chunk_builder_drop b w; Some (Inl ExpectFailed, w) }
      | Some t \<Rightarrow> do {
          let b = b\<lparr>cb_tenant := None\<rparr>;
          w \<leftarrow> (case cb_packed b of None \<Rightarrow> Some w | Some j \<Rightarrow> packed_clone j w);
          let inner = \<lparr>ci_packed = cb_packed b, ci_tenant = t, ci_oversized_bytes = cb_oversized_bytes b,
                       ci_offset = cb_offset b, ci_capacity = cb_capacity b, ci_length = cb_len b\<rparr>;
          let chunk = length (w_chunks w);
          let w = w\<lparr>w_chunks := w_chunks w @ [(inner, 1)]\<rparr>;
          w \<leftarrow> chunk_builder_drop b w;
          Some (Inr chunk, w)
        })"

section \<open>Chunk\<close>

definition get_chunk :: "chunk \<Rightarrow> chunk_world \<Rightarrow> (chunk_inner \<times> nat) option" where
  "get_chunk c w = get_cell c (w_chunks w)"

definition chunk_len :: "chunk \<Rightarrow> chunk_world \<Rightarrow> usize option" where
  "chunk_len c w = do { (inner, n) \<leftarrow> get_chunk c w; Some (ucast (ci_length inner)) }"

definition chunk_is_empty :: "chunk \<Rightarrow> chunk_world \<Rightarrow> bool option" where
  "chunk_is_empty c w = do { (inner, n) \<leftarrow> get_chunk c w; Some (ci_length inner = 0) }"

definition chunk_capacity :: "chunk \<Rightarrow> chunk_world \<Rightarrow> usize option" where
  "chunk_capacity c w = do { (inner, n) \<leftarrow> get_chunk c w; Some (ucast (ci_capacity inner)) }"

definition inner_as_slice :: "chunk_inner \<Rightarrow> 'z packed_world_scheme \<Rightarrow> u8 list option" where
  "inner_as_slice inner w =
     (case ci_packed inner of
        Some page \<Rightarrow> do {
          (pk, n) \<leftarrow> get_packed page w;
          mem_read (w_heap w) (pk_buf pk) (unat (ci_offset inner)) (unat (ci_length inner))
        }
      | None \<Rightarrow> Some [])"

definition chunk_as_slice :: "chunk \<Rightarrow> chunk_world \<Rightarrow> u8 list option" where
  "chunk_as_slice c w = do { (inner, n) \<leftarrow> get_chunk c w; inner_as_slice inner w }"

definition chunk_ref_count :: "chunk \<Rightarrow> chunk_world \<Rightarrow> nat option" where
  "chunk_ref_count c w = do { (inner, n) \<leftarrow> get_chunk c w; Some n }"

definition chunk_clone :: "chunk \<Rightarrow> chunk_world \<Rightarrow> (chunk \<times> chunk_world) option" where
  "chunk_clone c w = do {
     (inner, n) \<leftarrow> get_chunk c w;
     Some (c, w\<lparr>w_chunks := (w_chunks w)[c := (inner, Suc n)]\<rparr>)
   }"

definition chunk_inner_drop :: "chunk_inner \<Rightarrow> chunk_world \<Rightarrow> chunk_world option" where
  "chunk_inner_drop inner w =
     drop_packed_field (ci_packed inner)
       (uncount_chunk (ci_tenant inner) (ci_capacity inner) (ci_oversized_bytes inner) w)"

definition chunk_drop :: "chunk \<Rightarrow> chunk_world \<Rightarrow> chunk_world option" where
  "chunk_drop c w = do {
     (inner, n) \<leftarrow> get_chunk c w;
     let w = w\<lparr>w_chunks := (w_chunks w)[c := (inner, n - 1)]\<rparr>;
     if n = 1 then chunk_inner_drop inner w else Some w
   }"

text \<open>A \<open>ChunkPool\<close> has no \<open>Drop\<close> of its own: its fields are dropped in order, the page pool first and
  then the handle of the open page.\<close>

definition chunk_pool_drop :: "chunk_pool \<Rightarrow> chunk_world \<Rightarrow> chunk_world option" where
  "chunk_pool_drop cp w = do {
     w \<leftarrow> page_pool_drop (cp_pages cp) w;
     (case cp_current cp of None \<Rightarrow> Some w | Some opn \<Rightarrow> packed_drop (op_shared opn) w)
   }"

section \<open>Allocation helpers\<close>

definition chunk_fill_from :: "u8 list \<Rightarrow> chunk_builder \<Rightarrow> chunk_world
    \<Rightarrow> ((panic + unit) \<times> chunk_builder \<times> chunk_world) option" where
  "chunk_fill_from data b w =
     (if data = [] then Some (Inr (), b, w)
      else do {
        s \<leftarrow> chunk_builder_as_mut_slice b w;
        (r, h) \<leftarrow> copy_from_slice s data (w_heap w);
        let w = w\<lparr>w_heap := h\<rparr>;
        (case r of
           Inl e \<Rightarrow> Some (Inl e, b, w)
         | Inr _ \<Rightarrow> (case chunk_builder_set_len (of_nat (length data)) b of (r, b) \<Rightarrow> Some (r, b, w)))
      })"

definition chunk_run_init :: "'r init \<Rightarrow> chunk_builder \<Rightarrow> 'z packed_world_scheme
    \<Rightarrow> ((panic + 'r) \<times> 'z packed_world_scheme) option" where
  "chunk_run_init f b w = do {
     s \<leftarrow> chunk_builder_as_mut_slice b w;
     (r, h) \<leftarrow> run_init f s (w_heap w);
     Some (r, w\<lparr>w_heap := h\<rparr>)
   }"

definition chunk_fill_with :: "usize \<Rightarrow> unit init \<Rightarrow> chunk_builder \<Rightarrow> chunk_world
    \<Rightarrow> ((panic + unit) \<times> chunk_builder \<times> chunk_world) option" where
  "chunk_fill_with sz f b w = do {
     (r, w) \<leftarrow> chunk_run_init f b w;
     (case r of
        Inl e \<Rightarrow> Some (Inl e, b, w)
      | Inr _ \<Rightarrow> (case chunk_builder_set_len sz b of (r, b) \<Rightarrow> Some (r, b, w)))
   }"

definition chunk_fill_with_len :: "usize init \<Rightarrow> chunk_builder \<Rightarrow> chunk_world
    \<Rightarrow> ((panic + unit) \<times> chunk_builder \<times> chunk_world) option" where
  "chunk_fill_with_len f b w = do {
     (r, w) \<leftarrow> chunk_run_init f b w;
     (case r of
        Inl e \<Rightarrow> Some (Inl e, b, w)
      | Inr len \<Rightarrow> (case chunk_builder_set_len len b of (r, b) \<Rightarrow> Some (r, b, w)))
   }"

definition chunk_alloc_fill :: "(chunk_builder \<Rightarrow> chunk_world \<Rightarrow> ((panic + unit) \<times> chunk_builder \<times> chunk_world) option)
    \<Rightarrow> placement \<Rightarrow> tenant \<Rightarrow> usize \<Rightarrow> chunk_pool \<Rightarrow> chunk_world
    \<Rightarrow> ((panic + chunk) \<times> chunk_pool \<times> chunk_world) option" where
  "chunk_alloc_fill fill ga tenant sz cp w = do {
     (r, cp, w) \<leftarrow> chunk_allocate ga tenant sz cp w;
     (case r of
        Inl e \<Rightarrow> Some (Inl e, cp, w)
      | Inr b \<Rightarrow> do {
          (r, b, w) \<leftarrow> fill b w;
          (case r of
             Inl e \<Rightarrow> do { w \<leftarrow> chunk_builder_drop b w; Some (Inl e, cp, w) }
           | Inr _ \<Rightarrow> do { (r, w) \<leftarrow> chunk_builder_seal b w; Some (r, cp, w) })
        })
   }"

definition chunk_alloc_from :: "placement \<Rightarrow> tenant \<Rightarrow> u8 list \<Rightarrow> chunk_pool \<Rightarrow> chunk_world
    \<Rightarrow> ((panic + chunk) \<times> chunk_pool \<times> chunk_world) option" where
  "chunk_alloc_from ga tenant data cp w =
     chunk_alloc_fill (chunk_fill_from data) ga tenant (of_nat (length data)) cp w"

definition chunk_alloc_with :: "placement \<Rightarrow> tenant \<Rightarrow> usize \<Rightarrow> unit init \<Rightarrow> chunk_pool \<Rightarrow> chunk_world
    \<Rightarrow> ((panic + chunk) \<times> chunk_pool \<times> chunk_world) option" where
  "chunk_alloc_with ga tenant sz f cp w = chunk_alloc_fill (chunk_fill_with sz f) ga tenant sz cp w"

definition chunk_alloc_with_len :: "placement \<Rightarrow> tenant \<Rightarrow> usize \<Rightarrow> usize init \<Rightarrow> chunk_pool \<Rightarrow> chunk_world
    \<Rightarrow> ((panic + chunk) \<times> chunk_pool \<times> chunk_world) option" where
  "chunk_alloc_with_len ga tenant capacity f cp w =
     chunk_alloc_fill (chunk_fill_with_len f) ga tenant capacity cp w"

end
