(* ===== verification/Alignment.thy ===== *)
theory Alignment
  imports Chunks
begin

text \<open>
  The address arithmetic of the packed path of \<open>src/chunk.rs\<close>: \<open>align_up\<close> on 64-bit words, including
  the sums that leave the address space, and the test that decides whether an open page has room.
\<close>

section \<open>Rounding up\<close>

definition round_up :: "nat \<Rightarrow> nat \<Rightarrow> nat" where
  "round_up a n = (n + a - 1) div a * a"

lemma round_up_bounds: "0 < a \<Longrightarrow> n \<le> round_up a n \<and> round_up a n < n + a \<and> a dvd round_up a n"
proof -
  assume a: "0 < a"
  have "round_up a n = n + a - 1 - (n + a - 1) mod a" by (simp only: round_up_def minus_mod_eq_div_mult)
  moreover have "(n + a - 1) mod a \<le> a - 1" using a mod_less_divisor [of a "n + a - 1"] by linarith
  ultimately have "n \<le> round_up a n" and "round_up a n < n + a" using a by linarith+
  then show ?thesis by (simp add: round_up_def)
qed

lemma round_up_least: "0 < a \<Longrightarrow> n \<le> m \<Longrightarrow> a dvd m \<Longrightarrow> round_up a n \<le> m"
proof -
  assume "0 < a" "n \<le> m" "a dvd m"
  then obtain q where m: "m = q * a" by (auto simp: mult.commute elim: dvdE)
  from round_up_bounds [OF \<open>0 < a\<close>, of n] obtain r where r: "round_up a n = r * a" "r * a < n + a"
    by (auto simp: mult.commute elim!: dvdE)
  have "r * a < (q + 1) * a" using r(2) \<open>n \<le> m\<close> m by simp
  then have "r \<le> q" using mult_less_cancel2 [of r a "q + 1"] by simp
  then show ?thesis using r(1) m by simp
qed

lemma round_up_aligned: "0 < a \<Longrightarrow> a dvd n \<Longrightarrow> round_up a n = n"
  using round_up_least [of a n n] round_up_bounds [of a n] by simp

section \<open>Words\<close>

lemma power_of_two_mask:
  assumes "is_power_of_two a"
  obtains k where "k < 64" and "unat a = 2 ^ k" and "a - 1 = mask k"
proof -
  from assms obtain k where k: "k < 64" "a = push_bit k 1" by (auto simp: is_power_of_two_iff)
  then have "a - 1 = mask k" by (simp add: mask_eq_exp_minus_1 push_bit_eq_mult)
  with k unat_push_bit_one show thesis by (intro that) auto
qed

lemma unat_clear_low:
  "unat (x AND NOT (mask k) :: usize) = unat x div 2 ^ k * 2 ^ k"
proof -
  have "x AND NOT (mask k) = push_bit k (drop_bit k x)"
    by (rule bit_word_eqI) (auto simp: bit_simps)
  then have "unat (x AND NOT (mask k)) = unat (push_bit k (drop_bit k x))" by (rule arg_cong)
  moreover have "unat x div 2 ^ k * 2 ^ k \<le> unat x" by simp
  then have "unat x div 2 ^ k * 2 ^ k < 2 ^ 64" by (rule le_less_trans) simp
  moreover have "unat (push_bit k (drop_bit k x)) = take_bit 64 (push_bit k (drop_bit k (unat x)))"
    by (simp only: unsigned_push_bit_eq unsigned_drop_bit_eq) (auto simp: bit_eq_iff bit_simps)
  ultimately show ?thesis
    by (simp only: drop_bit_eq_div push_bit_eq_mult take_bit_eq_mod mod_less)
qed

lemma power_of_two_pos: "is_power_of_two a \<Longrightarrow> 0 < unat a"
  by (elim is_power_of_twoE) simp

lemma power_of_two_dvd: "is_power_of_two a \<Longrightarrow> unat a dvd 2 ^ 64"
proof -
  assume "is_power_of_two a"
  then obtain k where "k < 64" "unat a = 2 ^ k" by (rule is_power_of_twoE)
  then show ?thesis by (simp only: le_imp_power_dvd less_imp_le)
qed

lemma align_up_eq:
  assumes "is_power_of_two a"
  shows "unat (align_up v a) = round_up (unat a) (unat v) mod 2 ^ 64"
proof -
  from assms obtain k where k: "k < 64" "unat a = 2 ^ k" "a - 1 = mask k" by (rule power_of_two_mask)
  let ?S = "unat v + unat a - 1"
  have pos: "0 < unat a" using assms by (rule power_of_two_pos)
  have small: "unat a \<le> 2 ^ 64" by (rule less_imp_le) simp
  have "unat (a - 1) = unat a - 1"
  proof -
    have "1 \<le> a" using pos by (simp add: word_le_nat_alt)
    then show ?thesis using unat_sub [of 1 a] by simp
  qed
  then have S: "unat (v + a - 1) = ?S mod 2 ^ 64"
    using pos by (simp add: add_diff_eq [symmetric] unat_word_ariths)
  have up: "unat (align_up v a) = ?S mod 2 ^ 64 div 2 ^ k * 2 ^ k"
    unfolding align_up_def k(3) [symmetric] using unat_clear_low [of "v + a - 1" k] S k(3) by simp
  show ?thesis
  proof (cases "?S < 2 ^ 64")
    case True
    then have "?S div 2 ^ k * 2 ^ k < 2 ^ 64" using div_times_less_eq_dividend [of ?S "2 ^ k"] by linarith
    with True up k(2) show ?thesis by (simp add: round_up_def)
  next
    case False
    then have ge: "2 ^ 64 \<le> ?S" by simp
    have "unat v < 2 ^ 64" by simp
    then have lt: "?S < 2 ^ 64 + unat a" using pos by linarith
    have m: "?S mod 2 ^ 64 = ?S - 2 ^ 64"
      using ge lt small by (simp add: mod_if)
    have zero: "(?S - 2 ^ 64) div 2 ^ k = 0" using lt ge k(2) by simp
    obtain q where q: "(2 :: nat) ^ 64 = q * unat a" using power_of_two_dvd [OF assms]
      by (metis dvd_def mult.commute)
    have "?S div unat a = q"
      using ge lt q pos by (intro div_nat_eqI) (simp_all add: algebra_simps)
    then have "round_up (unat a) (unat v) = 2 ^ 64" by (simp only: round_up_def q)
    with up m zero show ?thesis by simp
  qed
qed

section \<open>The test for room in an open page\<close>

text \<open>The offset the packed path computes for a write offset \<open>wo\<close> of a buffer \<open>buf\<close>.\<close>

definition fit_offset :: "addr \<Rightarrow> usize \<Rightarrow> usize \<Rightarrow> usize" where
  "fit_offset buf wo align = align_up (buf + wo) align - buf"

text \<open>Two cases: the rounded address lies in the address space and the offset is exact, or it is
  \<open>2^64\<close> and the offset is past the end of the page.\<close>

lemma fit_offset_cases:
  assumes a: "is_power_of_two align" and room: "unat buf + unat sz \<le> 2 ^ 64" and wo: "unat wo \<le> unat sz"
    and buf: "buf \<noteq> 0"
  shows "unat buf + unat (fit_offset buf wo align) = round_up (unat align) (unat buf + unat wo)
      \<and> round_up (unat align) (unat buf + unat wo) < 2 ^ 64
    \<or> unat sz \<le> unat (fit_offset buf wo align)
      \<and> 2 ^ 64 \<le> round_up (unat align) (unat buf + unat wo)"
proof -
  let ?a = "unat align" and ?V = "unat buf + unat wo"
  have pos: "0 < ?a" using a by (rule power_of_two_pos)
  note up = round_up_bounds [OF pos, of ?V]
  have past: "unat (0 - buf) = 2 ^ 64 - unat buf"
    using buf unat_sub_if' [of 0 buf] by (simp add: unat_gt_0 [symmetric] del: diff_0)
  show ?thesis
  proof (cases "?V < 2 ^ 64")
    case True
    then have V: "unat (buf + wo) = ?V" by (rule unat_add_usize)
    have eq: "unat (align_up (buf + wo) align) = round_up ?a ?V mod 2 ^ 64" using align_up_eq [OF a] V by simp
    show ?thesis
    proof (cases "round_up ?a ?V < 2 ^ 64")
      case True
      with eq have eq': "unat (align_up (buf + wo) align) = round_up ?a ?V" by simp
      with up have "buf \<le> align_up (buf + wo) align" by (simp add: word_le_nat_alt)
      then have "unat (fit_offset buf wo align) = round_up ?a ?V - unat buf"
        using eq' by (simp add: fit_offset_def unat_sub)
      with True up show ?thesis by linarith
    next
      case False
      have "round_up ?a ?V \<le> 2 ^ 64" using round_up_least [OF pos less_imp_le [OF \<open>?V < 2 ^ 64\<close>] power_of_two_dvd [OF a]] .
      with False have top: "round_up ?a ?V = 2 ^ 64" by simp
      with eq have "align_up (buf + wo) align = 0" by (simp add: unat_eq_zero)
      with past room top show ?thesis by (simp add: fit_offset_def)
    qed
  next
    case False
    with room wo have V: "?V = 2 ^ 64" by linarith
    then have "buf + wo = 0" by (simp add: unat_eq_zero [symmetric] unat_word_ariths)
    then have "align_up (buf + wo) align = 0"
      using align_up_eq [OF a, of 0] round_up_aligned [OF pos, of 0] by (simp add: unat_eq_zero)
    with past room V up show ?thesis by (simp add: fit_offset_def)
  qed
qed

lemma fit_offset_accepted:
  assumes a: "is_power_of_two align" and room: "unat buf + unat ps \<le> 2 ^ 64" and wo: "unat wo \<le> unat ps"
    and buf: "buf \<noteq> 0" and ps: "unat ps \<le> isize_max" and sz: "sz \<noteq> 0"
    and ok: "usize_saturating_add (fit_offset buf wo align) sz \<le> ps"
  shows "unat wo \<le> unat (fit_offset buf wo align)"
    and "unat (fit_offset buf wo align) + unat sz \<le> unat ps"
    and "aligned_to (unat align) (buf + fit_offset buf wo align)"
    and "unat (buf + fit_offset buf wo align) = unat buf + unat (fit_offset buf wo align)"
proof -
  let ?o = "fit_offset buf wo align"
  have pos: "0 < unat align" using a by (rule power_of_two_pos)
  have "unat ps < 2 ^ 64 - 1" using ps by (simp add: isize_max_def)
  from usize_saturating_add_le [OF this] ok show fits: "unat ?o + unat sz \<le> unat ps" by blast
  have "0 < unat sz" using sz by (simp add: unat_gt_0)
  with fits fit_offset_cases [OF a room wo buf]
  have eq: "unat buf + unat ?o = round_up (unat align) (unat buf + unat wo)"
    and lt: "round_up (unat align) (unat buf + unat wo) < 2 ^ 64" by linarith+
  note up = round_up_bounds [OF pos, of "unat buf + unat wo"]
  from eq up show "unat wo \<le> unat ?o" by linarith
  show sum: "unat (buf + ?o) = unat buf + unat ?o" using eq lt by (intro unat_add_usize) simp
  with eq up show "aligned_to (unat align) (buf + ?o)" by (simp add: aligned_to_def)
qed

text \<open>A page that has just been opened has room for what the dispatch sends to the packed path.\<close>

lemma fit_offset_fresh:
  assumes a: "is_power_of_two align" and room: "unat buf + unat ps \<le> 2 ^ 64" and buf: "buf \<noteq> 0"
    and ps: "unat ps \<le> isize_max" and al: "aligned_to 8 buf" and sz: "sz \<noteq> 0"
    and dispatch: "align \<le> 8 \<and> unat sz \<le> unat ps \<or> unat sz + (unat align - 1) \<le> unat ps"
  shows "usize_saturating_add (fit_offset buf 0 align) sz \<le> ps"
proof -
  let ?a = "unat align"
  have pos: "0 < ?a" using a by (rule power_of_two_pos)
  have small: "unat ps < 2 ^ 64 - 1" using ps by (simp add: isize_max_def)
  have psz: "0 < unat sz" using sz by (simp add: unat_gt_0)
  note up = round_up_bounds [OF pos, of "unat buf"]
  have pad: "round_up ?a (unat buf) + unat sz \<le> unat buf + unat ps"
    using dispatch
  proof
    assume d: "align \<le> 8 \<and> unat sz \<le> unat ps"
    have "?a dvd 8"
    proof -
      from a obtain k where k: "k < 64" "?a = 2 ^ k" by (rule is_power_of_twoE)
      with d have "(2 :: nat) ^ k \<le> 2 ^ 3" by (simp add: word_le_nat_alt)
      then have "k \<le> 3" by (simp only: power_increasing_iff)
      then have "(2 :: nat) ^ k dvd 2 ^ 3" by (rule le_imp_power_dvd)
      with k show ?thesis by simp
    qed
    with al have "?a dvd unat buf" by (auto simp: aligned_to_def intro: dvd_trans)
    with d round_up_aligned [OF pos] show ?thesis by simp
  next
    assume "unat sz + (?a - 1) \<le> unat ps"
    with up show ?thesis by linarith
  qed
  have "unat (0 :: usize) \<le> unat ps" by simp
  from fit_offset_cases [OF a room this buf] pad room psz
  have "unat buf + unat (fit_offset buf 0 align) = round_up ?a (unat buf)"
    by simp
  with pad show ?thesis unfolding usize_saturating_add_le [OF small] by linarith
qed

end
