(* ===== verification/Chunk_Claims.thy ===== *)
theory Chunk_Claims
  imports Alignment
begin

text \<open>
  The module-level safety argument of \<open>src/chunk.rs\<close>: the handles that share a page own disjoint byte
  ranges of it. A claim is a range of a packed page that a builder or a chunk owns. The invariant
  \<open>core_inv\<close> says of the claims \<open>C\<close> of all handles that each lies inside its block, that no two meet,
  that all claims on the open page end before its write offset, and that the strong count of every
  packed page is the number of claims on it, plus one for the open page.
\<close>

section \<open>Claims\<close>

text \<open>The index of the packed page, the offset and the length.\<close>

type_synonym claim = "nat \<times> nat \<times> nat"

fun apart :: "claim \<Rightarrow> claim \<Rightarrow> bool" where
  "apart (j, p, m) (i, q, n) = (j \<noteq> i \<or> p + m \<le> q \<or> q + n \<le> p)"

definition all_apart :: "claim multiset \<Rightarrow> bool" where
  "all_apart C \<longleftrightarrow> (\<forall>c D. C = add_mset c D \<longrightarrow> (\<forall>d. d \<in># D \<longrightarrow> apart c d))"

fun claim_ok :: "'z packed_world_scheme \<Rightarrow> claim \<Rightarrow> bool" where
  "claim_ok w (j, p, n) = (case get_packed j w of
      None \<Rightarrow> False
    | Some (pk, m) \<Rightarrow> p + n \<le> block_size (sh_page_size (w_shared w)) pk)"

fun claim_bytes :: "'z packed_world_scheme \<Rightarrow> claim \<Rightarrow> u8 list option" where
  "claim_bytes w (j, p, n) = do { (pk, m) \<leftarrow> get_packed j w; mem_read (w_heap w) (pk_buf pk) p n }"

definition open_ref :: "open_page option \<Rightarrow> nat multiset" where
  "open_ref opn = (case opn of None \<Rightarrow> {#} | Some opn \<Rightarrow> {#op_shared opn#})"

definition open_ok :: "open_page option \<Rightarrow> 'z packed_world_scheme \<Rightarrow> claim multiset \<Rightarrow> bool" where
  "open_ok opn w C \<longleftrightarrow> (case opn of None \<Rightarrow> True | Some opn \<Rightarrow>
     (\<exists>pk n. get_packed (op_shared opn) w = Some (pk, n) \<and> pk_release pk = ReleasePool) \<and>
     unat (op_write_offset opn) \<le> unat (sh_page_size (w_shared w)) \<and>
     (\<forall>p n. (op_shared opn, p, n) \<in># C \<longrightarrow> p + n \<le> unat (op_write_offset opn)))"

definition claims_ok :: "open_page option \<Rightarrow> 'z packed_world_scheme \<Rightarrow> claim multiset \<Rightarrow> bool" where
  "claims_ok opn w C \<longleftrightarrow> (\<forall>c. c \<in># C \<longrightarrow> claim_ok w c) \<and> all_apart C \<and> open_ok opn w C"

text \<open>The packed pages that the claims and the open page refer to.\<close>

definition claim_refs :: "open_page option \<Rightarrow> claim multiset \<Rightarrow> nat multiset" where
  "claim_refs opn C = image_mset fst C + open_ref opn"

text \<open>The claims on a store of blocks, over any pool.\<close>

definition held_inv :: "(heap \<Rightarrow> 'z packed_world_scheme \<Rightarrow> addr multiset \<Rightarrow> bool) \<Rightarrow> heap \<Rightarrow> packed_page multiset
    \<Rightarrow> open_page option \<Rightarrow> 'z packed_world_scheme \<Rightarrow> claim multiset \<Rightarrow> bool" where
  "held_inv life h0 Q opn w C \<longleftrightarrow> store_inv life h0 Q w (claim_refs opn C) \<and> claims_ok opn w C"

text \<open>The sequential programs. \<open>pp\<close> is the page pool and \<open>opn\<close> the open page; both are \<open>None\<close> once the chunk pool is gone.\<close>

definition core_inv :: "heap \<Rightarrow> page_pool option \<Rightarrow> open_page option \<Rightarrow> nat \<Rightarrow> 'z packed_world_scheme
    \<Rightarrow> claim multiset \<Rightarrow> bool" where
  "core_inv h0 pp opn k w C \<longleftrightarrow> packed_inv h0 pp k w (claim_refs opn C) \<and> claims_ok opn w C"

text \<open>What an operation leaves alone: the page size and the bytes of the claims \<open>C\<close>.\<close>

definition claims_kept :: "claim multiset \<Rightarrow> 'z packed_world_scheme \<Rightarrow> 'z packed_world_scheme \<Rightarrow> bool" where
  "claims_kept C w w' \<longleftrightarrow> sh_page_size (w_shared w') = sh_page_size (w_shared w) \<and>
     (\<forall>c. c \<in># C \<longrightarrow> claim_bytes w' c = claim_bytes w c)"

text \<open>The memory of a claim: the address of its block, the offset and the length. Claims are disjoint in memory if each lies
  inside a live block, and any two lie in blocks at different addresses or do not meet.\<close>

fun claim_range :: "'z packed_world_scheme \<Rightarrow> claim \<Rightarrow> (addr \<times> nat \<times> nat) option" where
  "claim_range w (j, p, n) = (case get_packed j w of None \<Rightarrow> None | Some (pk, m) \<Rightarrow> Some (pk_buf pk, p, n))"

definition disjoint_in_memory :: "'z packed_world_scheme \<Rightarrow> claim multiset \<Rightarrow> bool" where
  "disjoint_in_memory w C \<longleftrightarrow> (\<forall>c D. C = add_mset c D \<longrightarrow>
     (\<exists>x p n bs. claim_range w c = Some (x, p, n) \<and> w_heap w x = Some bs \<and> p + n \<le> length bs
        \<and> (\<forall>d. d \<in># D \<longrightarrow> (\<exists>y q m. claim_range w d = Some (y, q, m) \<and> (x \<noteq> y \<or> p + n \<le> q \<or> q + m \<le> p)))))"

section \<open>Lemmas\<close>

lemma apart_sym: "apart c d \<Longrightarrow> apart d c"
  by (cases c, cases d) auto

lemma all_apart_empty [simp]: "all_apart {#}"
  by (simp add: all_apart_def)

lemma all_apart_add: "all_apart (add_mset c C) \<longleftrightarrow> all_apart C \<and> (\<forall>d. d \<in># C \<longrightarrow> apart c d)"
proof
  assume all: "all_apart (add_mset c C)"
  have "apart d e" if "C = add_mset d D" "e \<in># D" for d D e
  proof -
    have "add_mset c C = add_mset d (add_mset c D)" using that(1) by simp
    with all have "\<forall>e. e \<in># add_mset c D \<longrightarrow> apart d e" unfolding all_apart_def by blast
    from this [rule_format, of e] that(2) show ?thesis by simp
  qed
  moreover have "apart c d" if "d \<in># C" for d using all that unfolding all_apart_def by blast
  ultimately show "all_apart C \<and> (\<forall>d. d \<in># C \<longrightarrow> apart c d)" unfolding all_apart_def by blast
next
  assume all: "all_apart C \<and> (\<forall>d. d \<in># C \<longrightarrow> apart c d)"
  show "all_apart (add_mset c C)"
    unfolding all_apart_def
  proof (intro allI impI)
    fix d D e assume eq: "add_mset c C = add_mset d D" and e: "e \<in># D"
    then consider "c = d" "C = D" | K where "C = add_mset d K" "D = add_mset c K"
      by (auto simp: add_eq_conv_ex)
    then show "apart d e"
    proof cases
      case 1
      with all e show ?thesis by blast
    next
      case 2
      have "d \<in># C" using 2(1) by simp
      then have cd: "apart c d" using all by blast
      have "apart d x" if "x \<in># K" for x using all 2(1) that unfolding all_apart_def by blast
      with e 2(2) apart_sym [OF cd] show ?thesis by (cases "e = c") simp_all
    qed
  qed
qed

lemma apart_shorter: "apart (j, p, n) d \<Longrightarrow> m \<le> n \<Longrightarrow> apart (j, p, m) d"
  by (cases d) auto

lemma claim_refs_simps [simp]:
  "claim_refs opn (add_mset c C) = add_mset (fst c) (claim_refs opn C)"
  "claim_refs opn (C + D) = image_mset fst D + claim_refs opn C"
  "claim_refs (Some p) C = add_mset (op_shared p) (image_mset fst C)" "claim_refs None C = image_mset fst C"
  by (simp_all add: claim_refs_def open_ref_def)

lemma claims_okD:
  assumes "claims_ok opn w C"
  shows "c \<in># C \<Longrightarrow> claim_ok w c" and "all_apart C" and "open_ok opn w C"
  using assms unfolding claims_ok_def by blast+

lemma claims_ok_add: "claims_ok opn w (add_mset c C) \<longleftrightarrow>
  claims_ok opn w C \<and> claim_ok w c \<and> (\<forall>d. d \<in># C \<longrightarrow> apart c d) \<and> open_ok opn w {#c#}"
proof -
  have "open_ok opn w (add_mset c C) \<longleftrightarrow> open_ok opn w C \<and> open_ok opn w {#c#}"
    by (auto simp: open_ok_def split: option.split)
  moreover have "(\<forall>d. d \<in># add_mset c C \<longrightarrow> claim_ok w d) \<longleftrightarrow> claim_ok w c \<and> (\<forall>d. d \<in># C \<longrightarrow> claim_ok w d)"
    by (auto simp del: claim_ok.simps split_paired_All)
  ultimately show ?thesis unfolding claims_ok_def all_apart_add by blast
qed

lemma claims_ok_sub: "claims_ok opn w (D + C) \<Longrightarrow> claims_ok opn w C"
  by (induction D) (simp_all add: claims_ok_add)

lemma disjoint_in_memory_sub: "disjoint_in_memory w (E + C) \<Longrightarrow> disjoint_in_memory w C"
proof -
  assume all: "disjoint_in_memory w (E + C)"
  show "disjoint_in_memory w C"
    unfolding disjoint_in_memory_def
  proof (intro allI impI)
    fix c D assume "C = add_mset c D"
    then have "E + C = add_mset c (E + D)" by simp
    from all [unfolded disjoint_in_memory_def, rule_format, OF this] obtain x p n bs where
      "claim_range w c = Some (x, p, n)" "w_heap w x = Some bs" "p + n \<le> length bs"
      and rest: "\<forall>d. d \<in># E + D \<longrightarrow> (\<exists>y q m. claim_range w d = Some (y, q, m) \<and> (x \<noteq> y \<or> p + n \<le> q \<or> q + m \<le> p))" by blast
    moreover from rest have "\<forall>d. d \<in># D \<longrightarrow> (\<exists>y q m. claim_range w d = Some (y, q, m) \<and> (x \<noteq> y \<or> p + n \<le> q \<or> q + m \<le> p))"
      by (simp only: union_iff) blast
    ultimately show "\<exists>x p n bs. claim_range w c = Some (x, p, n) \<and> w_heap w x = Some bs \<and> p + n \<le> length bs
        \<and> (\<forall>d. d \<in># D \<longrightarrow> (\<exists>y q m. claim_range w d = Some (y, q, m) \<and> (x \<noteq> y \<or> p + n \<le> q \<or> q + m \<le> p)))" by blast
  qed
qed

lemma claims_ok_cong:
  assumes "\<And>j. get_packed j w' = get_packed j w" and "sh_page_size (w_shared w') = sh_page_size (w_shared w)"
  shows "claims_ok opn w' C = claims_ok opn w C"
proof -
  have "claim_ok w' c = claim_ok w c" for c by (cases c) (simp add: assms split: option.split)
  then show ?thesis by (simp add: claims_ok_def open_ok_def assms split: option.split)
qed

text \<open>A claim of no bytes says only that the packed page is live. The claims of the open page may be retired.\<close>

lemma claims_ok_empty_claim:
  "claims_ok opn w (add_mset (j, 0, 0) C) \<longleftrightarrow> claims_ok opn w C \<and> get_packed j w \<noteq> None"
proof -
  have "apart (j, 0, 0) d" for d by (cases d) simp
  moreover have "claim_ok w (j, 0, 0) \<longleftrightarrow> get_packed j w \<noteq> None" by (simp split: option.split)
  moreover have "open_ok opn w {#(j, 0, 0)#}" if "claims_ok opn w C"
    using claims_okD(3) [OF that] by (simp add: open_ok_def split: option.splits)
  ultimately show ?thesis unfolding claims_ok_add by blast
qed

lemma claims_ok_retire: "claims_ok (Some p) w C \<Longrightarrow> claims_ok None w C"
  by (simp add: claims_ok_def open_ok_def)

lemma claims_ok_shorter:
  assumes "claims_ok opn w (add_mset (j, p, n) C)" and "m \<le> n"
  shows "claims_ok opn w (add_mset (j, p, m) C)"
proof -
  have "apart (j, p, m) d" if "apart (j, p, n) d" for d using that assms(2) by (rule apart_shorter)
  moreover have "claim_ok w (j, p, n) \<Longrightarrow> claim_ok w (j, p, m)" using assms(2) by (auto split: option.splits)
  moreover have "open_ok opn w {#(j, p, n)#} \<Longrightarrow> open_ok opn w {#(j, p, m)#}"
    using assms(2) by (auto simp: open_ok_def split: option.splits)
  ultimately show ?thesis using assms(1) unfolding claims_ok_add by blast
qed

text \<open>A step that keeps the blocks that stay live keeps the claims.\<close>

lemma claim_ok_keeps:
  assumes "packed_keeps w w'" and "claim_ok w (j, p, n)" and "get_packed j w' \<noteq> None"
  shows "claim_ok w' (j, p, n)"
proof -
  from assms(2,3) obtain pk m pk' m' where g: "get_packed j w = Some (pk, m)" "get_packed j w' = Some (pk', m')"
    by (auto split: option.splits)
  then have "j < length (w_packed w)" "w_packed w ! j = (pk, m)" "w_packed w' ! j = (pk', m')"
    by (auto simp: get_packed_def get_cell_Some)
  with assms(1) have "pk' = pk" unfolding packed_keeps_def by (metis fst_conv)
  with g assms(1,2) show ?thesis by (simp add: packed_keeps_def)
qed

lemma claims_step:
  assumes ok: "claims_ok opn w C" and keep: "packed_keeps w w'"
    and live: "\<And>j. j \<in># claim_refs opn C \<Longrightarrow> get_packed j w' \<noteq> None"
  shows "claims_ok opn w' C"
  unfolding claims_ok_def
proof (intro conjI allI impI)
  fix c assume c: "c \<in># C"
  obtain j p n where jpn: "c = (j, p, n)" by (cases c)
  have "j \<in># claim_refs opn C" using c jpn by (force simp: claim_refs_def)
  with keep claims_okD(1) [OF ok c] jpn live show "claim_ok w' c" by (metis claim_ok_keeps)
next
  show "open_ok opn w' C"
  proof (cases opn)
    case (Some o')
    have "op_shared o' \<in># claim_refs opn C" by (simp add: Some)
    from live [OF this] obtain pk' n' where g': "get_packed (op_shared o') w' = Some (pk', n')" by auto
    from claims_okD(3) [OF ok] Some obtain pk n where
      g: "get_packed (op_shared o') w = Some (pk, n)" "pk_release pk = ReleasePool"
      and rest: "unat (op_write_offset o') \<le> unat (sh_page_size (w_shared w))"
        "\<forall>p n. (op_shared o', p, n) \<in># C \<longrightarrow> p + n \<le> unat (op_write_offset o')"
      by (auto simp: open_ok_def)
    have "pk' = pk"
      using keep g(1) g' unfolding packed_keeps_def get_packed_def by (metis fst_conv get_cell_Some)
    with Some g' g(2) rest keep show ?thesis by (auto simp: open_ok_def packed_keeps_def)
  qed (simp add: open_ok_def)
qed (rule claims_okD(2) [OF ok])

lemma claims_kept_ok:
  assumes "packed_keeps w w'" and "\<And>c. c \<in># D \<Longrightarrow> claim_ok w c \<and> claim_ok w' c"
  shows "claims_kept D w w'"
  unfolding claims_kept_def
proof (intro conjI allI impI)
  show "sh_page_size (w_shared w') = sh_page_size (w_shared w)" using assms(1) by (simp add: packed_keeps_def)
  fix c assume "c \<in># D"
  then have c: "claim_ok w c" "claim_ok w' c" using assms(2) by auto
  obtain j p n where jpn: "c = (j, p, n)" by (cases c)
  with c obtain pk m pk' m' where g: "get_packed j w = Some (pk, m)" and g': "get_packed j w' = Some (pk', m')"
    by (auto split: option.splits)
  have j: "j < length (w_packed w)" "w_packed w ! j = (pk, m)" "w_packed w' ! j = (pk', m')"
    using g g' by (auto simp: get_packed_def get_cell_Some)
  with assms(1) have "pk' = pk" unfolding packed_keeps_def by (metis fst_conv)
  moreover have "w_heap w' (pk_buf pk) = w_heap w (pk_buf pk)"
    using assms(1) g g' unfolding packed_keeps_def by blast
  ultimately show "claim_bytes w' c = claim_bytes w c" using g g' jpn by (simp add: mem_read_def)
qed

lemma claims_kept_trans: "claims_kept C w1 w2 \<Longrightarrow> claims_kept C w2 w3 \<Longrightarrow> claims_kept C w1 w3"
  by (simp add: claims_kept_def)

lemma claims_kept_refl [simp]: "claims_kept C w w"
  by (simp add: claims_kept_def)

text \<open>A claim on a new packed page, and the open page when it is new.\<close>

lemma claims_add_new:
  assumes ok: "claims_ok opn w C" and keep: "packed_keeps w w'"
    and live: "\<And>j. j \<in># claim_refs opn C \<Longrightarrow> get_packed j w' \<noteq> None"
    and old: "\<And>j. j \<in># claim_refs opn C \<Longrightarrow> j < length (w_packed w)"
    and new: "get_packed (length (w_packed w)) w' = Some (pk, m)"
    and n: "n \<le> block_size (sh_page_size (w_shared w')) pk"
  shows "claims_ok opn w' (add_mset (length (w_packed w), 0, n) C)"
proof -
  let ?j = "length (w_packed w)"
  have "apart (?j, 0, n) d" if "d \<in># C" for d
  proof -
    have "fst d \<in># claim_refs opn C" using that by (simp add: claim_refs_def)
    from old [OF this] show ?thesis by (cases d) auto
  qed
  moreover have "open_ok opn w' {#(?j, 0, n)#}"
  proof (cases opn)
    case (Some o')
    then have "op_shared o' < ?j" by (intro old) simp
    with claims_okD(3) [OF claims_step [OF ok keep live]] Some show ?thesis by (auto simp: open_ok_def)
  qed (simp add: open_ok_def)
  ultimately show ?thesis using claims_step [OF ok keep live] new n by (simp add: claims_ok_add)
qed

lemma claims_open_new:
  assumes ok: "claims_ok None w C" and keep: "packed_keeps w w'"
    and live: "\<And>j. j \<in># claim_refs None C \<Longrightarrow> get_packed j w' \<noteq> None"
    and old: "\<And>j. j \<in># claim_refs None C \<Longrightarrow> j < length (w_packed w)"
    and new: "get_packed (length (w_packed w)) w' = Some (pk, m)" "pk_release pk = ReleasePool"
  shows "claims_ok (Some \<lparr>op_shared = length (w_packed w), op_write_offset = 0\<rparr>) w' C"
proof -
  have "(length (w_packed w), p, n) \<notin># C" for p n using old [of "length (w_packed w)"] by force
  with claims_step [OF ok keep live] new show ?thesis by (auto simp: claims_ok_def open_ok_def)
qed

text \<open>A claim on the open page.\<close>

lemma claims_add_open:
  assumes ok: "claims_ok (Some opn) w C" and g: "get_packed (op_shared opn) w = Some (pk, m)"
    and wo: "unat (op_write_offset opn) \<le> p" and ps: "p + n \<le> unat (sh_page_size (w_shared w))"
    and wo': "unat (op_write_offset opn') = p + n" "op_shared opn' = op_shared opn"
  defines "w' \<equiv> w\<lparr>w_packed := (w_packed w)[op_shared opn := (pk, Suc m)]\<rparr>"
  shows "claims_ok (Some opn') w' (add_mset (op_shared opn, p, n) C)" and "claims_kept C w w'"
proof -
  let ?j = "op_shared opn"
  from claims_okD(3) [OF ok] g have rel: "pk_release pk = ReleasePool"
    and ends: "\<forall>q l. (?j, q, l) \<in># C \<longrightarrow> q + l \<le> unat (op_write_offset opn)" by (auto simp: open_ok_def)
  have get: "get_packed i w' = (if i = ?j then Some (pk, Suc m) else get_packed i w)" for i
    using g by (auto simp: get_packed_def get_cell_def w'_def nth_list_update split: if_splits)
  have keep: "packed_keeps w w'" by (rule packed_keeps_upd [OF g]) (simp_all add: w'_def)
  have same: "claim_ok w' c = claim_ok w c" for c
  proof -
    have "sh_page_size (w_shared w') = sh_page_size (w_shared w)" by (simp add: w'_def)
    with g show ?thesis by (cases c) (auto simp: get split: option.splits)
  qed
  have "apart (?j, p, n) d" if "d \<in># C" for d
    using ends wo that by (cases d) force
  moreover have "open_ok (Some opn') w' (add_mset (?j, p, n) C)"
    using get rel wo' ps ends wo by (fastforce simp: open_ok_def w'_def)
  moreover have "claim_ok w' (?j, p, n)" using get rel ps by (simp add: block_size_def w'_def)
  ultimately show fin: "claims_ok (Some opn') w' (add_mset (?j, p, n) C)"
    using claims_okD(1,2) [OF ok] same unfolding claims_ok_def all_apart_add by (auto simp del: claim_ok.simps)
  show "claims_kept C w w'" by (rule claims_kept_ok [OF keep]) (use same claims_okD(1) [OF ok] in auto)
qed

text \<open>A write inside one claim leaves the bytes of every other claim alone.\<close>

lemma claims_write:
  assumes ok: "claims_ok opn w (add_mset (j, p, n) C)"
    and g: "get_packed j w = Some (pk, m)" and bs: "w_heap w (pk_buf pk) = Some bs"
    and le: "p + n \<le> length bs" and data: "length data = n"
    and other: "\<And>i q l. get_packed i w = Some (q, l) \<Longrightarrow> i \<noteq> j \<Longrightarrow> pk_buf q \<noteq> pk_buf pk"
  defines "w' \<equiv> w\<lparr>w_heap := (w_heap w)(pk_buf pk \<mapsto> take p bs @ data @ drop (p + n) bs)\<rparr>"
  shows "claims_ok opn w' (add_mset (j, p, n) C)" and "claims_kept C w w'" and "claim_bytes w' (j, p, n) = Some data"
proof -
  have tab: "get_packed i w' = get_packed i w" for i by (simp add: w'_def get_packed_def)
  show "claims_ok opn w' (add_mset (j, p, n) C)"
    using ok by (subst claims_ok_cong [of w' w]) (simp_all add: tab, simp add: w'_def)
  have wr: "mem_write (w_heap w) (pk_buf pk) p data = Some (w_heap w')"
    using bs le data by (simp add: mem_write_def w'_def)
  show "claim_bytes w' (j, p, n) = Some data"
    using g tab mem_read_write_same [OF wr] data by simp
  have "claim_bytes w' c = claim_bytes w c" if c: "c \<in># C" for c
  proof -
    obtain i q l where iql: "c = (i, q, l)" by (cases c)
    from ok c have ap: "apart (j, p, n) c" unfolding claims_ok_add by blast
    have "claim_ok w c" by (rule claims_okD(1) [OF ok]) (simp add: c)
    with iql obtain pk' m' where g': "get_packed i w = Some (pk', m')" by (auto split: option.splits)
    have "mem_read (w_heap w') (pk_buf pk') q l = mem_read (w_heap w) (pk_buf pk') q l"
    proof (cases "i = j")
      case True
      with ap iql have "q + l \<le> p \<or> p + length data \<le> q" using data by auto
      with True g g' mem_read_write_disjoint [OF wr] show ?thesis by simp
    next
      case False
      from other [OF g' False] show ?thesis by (simp add: w'_def mem_read_def)
    qed
    with g' tab iql show ?thesis by simp
  qed
  then show "claims_kept C w w'" by (simp add: claims_kept_def w'_def)
qed

section \<open>Claims on a store over any pool\<close>

lemma held_invD:
  assumes "held_inv life h0 Q opn w C"
  shows "store_inv life h0 Q w (claim_refs opn C)" and "claims_ok opn w C"
  using assms by (simp_all add: held_inv_def)

context buffer_life
begin

lemma held_ref_live: "held_inv life h0 Q opn w C \<Longrightarrow> j \<in># claim_refs opn C \<Longrightarrow> get_packed j w \<noteq> None"
  by (blast dest: held_invD store_live)

lemma held_index_old: "held_inv life h0 Q opn w C \<Longrightarrow> j \<in># claim_refs opn C \<Longrightarrow> j < length (w_packed w)"
  using held_ref_live [of h0 Q opn w C j] by (auto simp: get_packed_def get_cell_def split: if_splits)

lemma held_live:
  assumes "held_inv life h0 Q opn w C" and "(j, p, n) \<in># C"
  obtains pk m bs where "get_packed j w = Some (pk, m)" and "w_heap w (pk_buf pk) = Some bs"
    and "p + n \<le> length bs" and "length bs \<le> isize_max"
    and "unat (pk_buf pk) + length bs \<le> 2 ^ 64"
proof -
  note I = held_invD [OF assms(1)]
  from claims_okD(1) [OF I(2) assms(2)] obtain pk m where g: "get_packed j w = Some (pk, m)"
    and le: "p + n \<le> block_size (sh_page_size (w_shared w)) pk" by (auto split: option.splits)
  from I(1) g obtain bs where "w_heap w (pk_buf pk) = Some bs"
    "length bs = block_size (sh_page_size (w_shared w)) pk" "unat (pk_buf pk) + length bs \<le> 2 ^ 64"
    "length bs \<le> isize_max" by (rule store_block)
  with g le that show thesis by auto
qed

text \<open>The open page.\<close>

lemma held_open:
  assumes inv: "held_inv life h0 Q (Some opn) w C"
  obtains pk n where "get_packed (op_shared opn) w = Some (pk, n)" and "pk_release pk = ReleasePool"
    and "unat (pk_buf pk) + unat (sh_page_size (w_shared w)) \<le> 2 ^ 64" and "pk_buf pk \<noteq> 0"
    and "unat (sh_page_size (w_shared w)) \<le> isize_max" and "aligned_to 8 (pk_buf pk)"
    and "unat (op_write_offset opn) \<le> unat (sh_page_size (w_shared w))"
proof -
  note I = held_invD [OF inv]
  from claims_okD(3) [OF I(2)] obtain pk n where g: "get_packed (op_shared opn) w = Some (pk, n)" "pk_release pk = ReleasePool"
    "unat (op_write_offset opn) \<le> unat (sh_page_size (w_shared w))" by (auto simp: open_ok_def)
  from I(1) g(1) show thesis by (rule store_block) (rule that, use g in \<open>simp_all add: block_size_def\<close>)
qed

lemma held_add_open:
  assumes inv: "held_inv life h0 Q (Some opn) w C"
    and wo: "unat (op_write_offset opn) \<le> p" and ps: "p + n \<le> unat (sh_page_size (w_shared w))"
    and wo': "unat (op_write_offset opn') = p + n" "op_shared opn' = op_shared opn"
  shows "\<exists>w' pk m. packed_clone (op_shared opn) w = Some w' \<and> get_packed (op_shared opn) w = Some (pk, m)
    \<and> w' = w\<lparr>w_packed := (w_packed w)[op_shared opn := (pk, Suc m)]\<rparr> \<and> get_packed (op_shared opn) w' = Some (pk, Suc m)
    \<and> held_inv life h0 Q (Some opn') w' (add_mset (op_shared opn, p, n) C) \<and> claims_kept C w w'"
proof -
  note I = held_invD [OF inv]
  from claims_okD(3) [OF I(2)] obtain pk m where g: "get_packed (op_shared opn) w = Some (pk, m)" by (auto simp: open_ok_def)
  let ?w = "w\<lparr>w_packed := (w_packed w)[op_shared opn := (pk, Suc m)]\<rparr>"
  note cl = store_clone [OF I(1) g] and new = claims_add_open [OF I(2) g wo ps wo']
  have "held_inv life h0 Q (Some opn') ?w (add_mset (op_shared opn, p, n) C)"
    using cl(2) new(1) wo'(2) by (simp add: held_inv_def)
  moreover have "get_packed (op_shared opn) ?w = Some (pk, Suc m)" using g by (simp add: get_packed_def get_cell_Some)
  ultimately show ?thesis using cl(1) new(2) g by (intro exI [of _ ?w] exI) simp
qed

text \<open>Steps that keep the blocks that stay live: with the same claims, and with a new block.\<close>

lemma held_step:
  assumes ok: "claims_ok opn w C" and keep: "packed_keeps w w'" and store: "store_inv life h0 Q w' (claim_refs opn C)"
  shows "held_inv life h0 Q opn w' C" and "claims_kept C w w'"
proof -
  note ok' = claims_step [OF ok keep store_live [OF store]]
  then show "held_inv life h0 Q opn w' C" using store by (simp add: held_inv_def)
  show "claims_kept C w w'" using keep claims_okD(1) [OF ok] claims_okD(1) [OF ok'] by (intro claims_kept_ok) auto
qed

lemma held_add_new:
  assumes ok: "claims_ok opn w C" and keep: "packed_keeps w w'" and old: "\<And>j. j \<in># claim_refs opn C \<Longrightarrow> j < length (w_packed w)"
    and store: "store_inv life h0 Q w' (add_mset (length (w_packed w)) (claim_refs opn C))"
    and new: "get_packed (length (w_packed w)) w' = Some (pk, m)" and n: "n \<le> block_size (sh_page_size (w_shared w')) pk"
  shows "held_inv life h0 Q opn w' (add_mset (length (w_packed w), 0, n) C)" and "claims_kept C w w'"
proof -
  have live: "get_packed j w' \<noteq> None" if "j \<in># claim_refs opn C" for j using store_live [OF store, of j] that by simp
  note ok' = claims_add_new [OF ok keep live old new n]
  then show "held_inv life h0 Q opn w' (add_mset (length (w_packed w), 0, n) C)" using store by (simp add: held_inv_def)
  show "claims_kept C w w'" using claims_okD(1) [OF ok] claims_okD(1) [OF ok'] by (intro claims_kept_ok [OF keep]) auto
qed

lemma held_open_new:
  assumes ok: "claims_ok None w C" and keep: "packed_keeps w w'" and old: "\<And>j. j \<in># claim_refs None C \<Longrightarrow> j < length (w_packed w)"
    and store: "store_inv life h0 Q w' (add_mset (length (w_packed w)) (claim_refs None C))"
    and new: "get_packed (length (w_packed w)) w' = Some (pk, m)" "pk_release pk = ReleasePool"
  shows "held_inv life h0 Q (Some \<lparr>op_shared = length (w_packed w), op_write_offset = 0\<rparr>) w' C" and "claims_kept C w w'"
proof -
  have live: "get_packed j w' \<noteq> None" if "j \<in># claim_refs None C" for j using store_live [OF store, of j] that by simp
  note ok' = claims_open_new [OF ok keep live old new]
  then show "held_inv life h0 Q (Some \<lparr>op_shared = length (w_packed w), op_write_offset = 0\<rparr>) w' C"
    using store by (simp add: held_inv_def)
  show "claims_kept C w w'" using claims_okD(1) [OF ok] claims_okD(1) [OF ok'] by (intro claims_kept_ok [OF keep]) auto
qed

lemma held_disjoint:
  assumes inv: "held_inv life h0 Q opn w C"
  shows "disjoint_in_memory w C"
  unfolding disjoint_in_memory_def
proof (intro allI impI)
  fix c D assume C: "C = add_mset c D"
  note I = held_invD [OF inv]
  obtain j p n where c: "c = (j, p, n)" by (cases c)
  have "(j, p, n) \<in># C" using C c by simp
  with inv obtain pk k bs where g: "get_packed j w = Some (pk, k)" "w_heap w (pk_buf pk) = Some bs" "p + n \<le> length bs"
    by (rule held_live)
  have "\<exists>y q m. claim_range w d = Some (y, q, m) \<and> (pk_buf pk \<noteq> y \<or> p + n \<le> q \<or> q + m \<le> p)" if d: "d \<in># D" for d
  proof -
    obtain i q m where dd: "d = (i, q, m)" by (cases d)
    have "(i, q, m) \<in># C" using C d dd by simp
    with inv obtain pk' l bs' where g': "get_packed i w = Some (pk', l)" by (rule held_live)
    have "apart c d" using claims_okD(2) [OF I(2)] C d unfolding all_apart_def by blast
    then have "j \<noteq> i \<or> p + n \<le> q \<or> q + m \<le> p" by (simp add: c dd)
    with store_apart [OF I(1) g(1) g'] g' show ?thesis by (auto simp: dd)
  qed
  with g show "\<exists>x p n bs. claim_range w c = Some (x, p, n) \<and> w_heap w x = Some bs \<and> p + n \<le> length bs
      \<and> (\<forall>d. d \<in># D \<longrightarrow> (\<exists>y q m. claim_range w d = Some (y, q, m) \<and> (x \<noteq> y \<or> p + n \<le> q \<or> q + m \<le> p)))"
    by (intro exI [of _ "pk_buf pk"] exI [of _ p] exI [of _ n] exI [of _ bs]) (simp add: c)
qed

lemma held_write:
  assumes inv: "held_inv life h0 Q opn w (add_mset (j, p, n) C)"
    and g: "get_packed j w = Some (pk, m)" and bs: "w_heap w (pk_buf pk) = Some bs"
    and data: "length data = n"
  defines "w' \<equiv> w\<lparr>w_heap := (w_heap w)(pk_buf pk \<mapsto> take p bs @ data @ drop (p + n) bs)\<rparr>"
  shows "held_inv life h0 Q opn w' (add_mset (j, p, n) C)" and "claims_kept C w w'"
    and "claim_bytes w' (j, p, n) = Some data"
proof -
  note I = held_invD [OF inv]
  have "(j, p, n) \<in># add_mset (j, p, n) C" by simp
  with inv obtain pk' m' bs' where "get_packed j w = Some (pk', m')" "w_heap w (pk_buf pk') = Some bs'"
    "p + n \<le> length bs'" by (rule held_live)
  with g bs have le: "p + n \<le> length bs" by simp
  have other: "pk_buf q \<noteq> pk_buf pk" if "get_packed i w = Some (q, l)" "i \<noteq> j" for i q l
    by (rule store_apart [OF I(1) that(1) g that(2)])
  note wr = claims_write [OF I(2) g bs le data other, folded w'_def]
  from le data have len: "length (take p bs @ data @ drop (p + n) bs) = length bs" by simp
  show "held_inv life h0 Q opn w' (add_mset (j, p, n) C)"
    using store_write [OF I(1) g bs len] wr(1) by (simp add: held_inv_def w'_def)
  show "claims_kept C w w'" using wr(2) by simp
  show "claim_bytes w' (j, p, n) = Some data" using wr(3) by simp
qed

lemma held_cong:
  assumes "w_heap w' = w_heap w" and "w_shared w' = w_shared w" and "w_strong w' = w_strong w"
    and "w_packed w' = w_packed w"
  shows "held_inv life h0 Q opn w' C = held_inv life h0 Q opn w C"
proof -
  have "store_inv life h0 Q w' R = store_inv life h0 Q w R" for R
    by (simp add: store_inv_def life_cong [OF assms(1-3)] assms(4))
  moreover have "claims_ok opn w' C = claims_ok opn w C"
    by (rule claims_ok_cong) (simp_all add: get_packed_def assms(2,4))
  ultimately show ?thesis by (simp add: held_inv_def)
qed

end

section \<open>Sequential programs\<close>

lemma core_held: "core_inv h0 pp opn k w C = held_inv (\<lambda>h w U. pool_life h pp k w U) h0 {#} opn w C"
  by (simp add: core_inv_def held_inv_def packed_inv_def)

lemmas core_index_old = pool_store.held_index_old [where Q = "{#}", folded core_held]
lemmas core_inv_live = pool_store.held_live [where Q = "{#}", folded core_held]
lemmas core_inv_open = pool_store.held_open [where Q = "{#}", folded core_held]
lemmas core_disjoint = pool_store.held_disjoint [where Q = "{#}", folded core_held]
lemmas core_inv_cong = pool_store.held_cong [where Q = "{#}", folded core_held]

lemma core_claim_ok: "core_inv h0 pp opn k w C \<Longrightarrow> c \<in># C \<Longrightarrow> claim_ok w c"
  unfolding core_inv_def by (blast dest: claims_okD)

lemma core_inv_shorter:
  assumes "core_inv h0 pp opn k w (add_mset (j, p, n) C)" and "m \<le> n"
  shows "core_inv h0 pp opn k w (add_mset (j, p, m) C)"
  using assms claims_ok_shorter by (auto simp: core_inv_def)

lemma claims_kept_packed:
  assumes "packed_keeps w w'" and "core_inv h0 pp opn k w C" and "core_inv h0 pp' opn' k' w' C'"
    and "\<And>c. c \<in># D \<Longrightarrow> c \<in># C \<and> c \<in># C'"
  shows "claims_kept D w w'"
  using assms by (intro claims_kept_ok) (blast dest: core_claim_ok)+

lemma core_inv_step:
  assumes inv: "core_inv h0 pp opn k w (D + C)" and keep: "packed_keeps w w'"
    and packed: "packed_inv h0 pp' k' w' (claim_refs opn C)"
  shows "core_inv h0 pp' opn k' w' C"
  using claims_step [OF claims_ok_sub [of opn w D C] keep packed_inv_live [OF packed]] inv packed
  by (simp add: core_inv_def)

lemma core_add_new:
  assumes inv: "core_inv h0 pp opn k w C" and keep: "packed_keeps w w'"
    and packed: "packed_inv h0 pp' k' w' (add_mset (length (w_packed w)) (claim_refs opn C))"
    and new: "get_packed (length (w_packed w)) w' = Some (pk, m)"
    and n: "n \<le> block_size (sh_page_size (w_shared w')) pk"
  shows "core_inv h0 pp' opn k' w' (add_mset (length (w_packed w), 0, n) C)"
    and "claims_kept C w w'"
proof -
  have ok: "claims_ok opn w C" using inv by (simp add: core_inv_def)
  from pool_store.held_add_new [OF ok keep core_index_old [OF inv] packed [unfolded packed_inv_def] new n]
  show "core_inv h0 pp' opn k' w' (add_mset (length (w_packed w), 0, n) C)" and "claims_kept C w w'"
    by (simp_all add: core_held)
qed

subsection \<open>Giving up a claim, and retiring the open page\<close>

lemma core_drop_ref:
  fixes w :: "'z packed_world_scheme"
  assumes packed: "packed_inv h0 pp k w (add_mset j (claim_refs opn C))" and ok: "claims_ok opn w C"
  shows "\<exists>w'. packed_drop j w = Some w' \<and> core_inv h0 pp opn k w' C \<and> claims_kept C w w'
    \<and> w_tenants w' = w_tenants w \<and> packed_world.more w' = packed_world.more w"
proof -
  from packed_drop_inv [OF packed] obtain w' where
    w': "packed_drop j w = Some w'" "packed_inv h0 pp k w' (claim_refs opn C)" "packed_keeps w w'"
      "w_tenants w' = w_tenants w" "packed_world.more w' = packed_world.more w" by blast
  from pool_store.held_step [OF ok w'(3) w'(2) [unfolded packed_inv_def]] w'(1,4,5) show ?thesis by (auto simp: core_held)
qed

lemma core_drop_claim:
  fixes w :: "'z packed_world_scheme"
  assumes "core_inv h0 pp opn k w (add_mset (j, p, n) C)"
  shows "\<exists>w'. packed_drop j w = Some w' \<and> core_inv h0 pp opn k w' C \<and> claims_kept C w w'
    \<and> w_tenants w' = w_tenants w \<and> packed_world.more w' = packed_world.more w"
  by (rule core_drop_ref) (use assms in \<open>simp_all add: core_inv_def claims_ok_add\<close>)

lemma core_retire:
  fixes w :: "'z packed_world_scheme"
  assumes "core_inv h0 pp (Some opn) k w C"
  shows "\<exists>w'. packed_drop (op_shared opn) w = Some w' \<and> core_inv h0 pp None k w' C \<and> claims_kept C w w'
    \<and> w_tenants w' = w_tenants w \<and> packed_world.more w' = packed_world.more w"
  by (rule core_drop_ref) (use assms in \<open>auto simp: core_inv_def intro: claims_ok_retire\<close>)

subsection \<open>Steps of the page pool\<close>

lemma core_pool_step:
  fixes w w' :: "'z packed_world_scheme"
  assumes inv: "core_inv h0 pp opn k w C" and fr: "pool_frame w w'"
    and step: "\<And>h1 U. pool_life h1 pp k w U \<Longrightarrow> pool_life h1 pp' k' w' U
      \<and> (\<forall>y. y \<in># U \<longrightarrow> w_heap w' y = w_heap w y)"
  shows "core_inv h0 pp' opn k' w' C" and "claims_kept C w w'"
proof -
  have "packed_inv h0 pp k w (claim_refs opn C)" using inv by (simp add: core_inv_def)
  then have p: "packed_inv h0 pp' k' w' (claim_refs opn C)" "packed_keeps w w'"
    using packed_pool_step [OF _ fr] step by blast+
  have inv2: "core_inv h0 pp opn k w ({#} + C)" using inv by simp
  show fin: "core_inv h0 pp' opn k' w' C" by (rule core_inv_step [OF inv2 p(2,1)])
  show "claims_kept C w w'" by (rule claims_kept_packed [OF p(2) inv fin]) simp
qed

end
