(* ===== verification/Chunk_Alloc.thy ===== *)
theory Chunk_Alloc
  imports Chunk_Claims
begin

text \<open>
  The allocation paths of \<open>src/chunk.rs\<close>: packed, dedicated, oversized and zero-size, and the dispatch
  between them. Each path is shown to have a defined result, to return a builder whose range is
  inside a live block, aligned as asked and disjoint from every range handed out before, and to
  leave the bytes of those ranges alone. The loop of the packed path ends after at most two rounds.
\<close>

section \<open>Definitions\<close>

abbreviation pool_core :: "heap \<Rightarrow> chunk_pool \<Rightarrow> nat \<Rightarrow> chunk_world \<Rightarrow> claim multiset \<Rightarrow> bool" where
  "pool_core h0 cp k w C \<equiv> core_inv h0 (Some (cp_pages cp)) (cp_current cp) k w C"

definition builder_claim :: "chunk_builder \<Rightarrow> claim multiset" where
  "builder_claim b = (case cb_packed b of
      None \<Rightarrow> {#} | Some j \<Rightarrow> {#(j, unat (cb_offset b), unat (cb_capacity b))#})"

text \<open>The address of the builder's range.\<close>

definition builder_addr :: "chunk_builder \<Rightarrow> chunk_world \<Rightarrow> addr option" where
  "builder_addr b w = (case cb_packed b of
      None \<Rightarrow> None
    | Some j \<Rightarrow> (case get_packed j w of None \<Rightarrow> None | Some (pk, n) \<Rightarrow> Some (pk_buf pk + ucast (cb_offset b))))"

text \<open>The parts of the world the page and packed layers do not touch.\<close>

definition same_handles :: "chunk_world \<Rightarrow> chunk_world \<Rightarrow> bool" where
  "same_handles w w' \<longleftrightarrow> w_tenants w' = w_tenants w \<and> w_chunks w' = w_chunks w \<and> w_cstats w' = w_cstats w"

section \<open>The packed path\<close>

lemma same_handlesI:
  "w_tenants w' = w_tenants w \<Longrightarrow> packed_world.more w' = packed_world.more w \<Longrightarrow> same_handles w w'"
  by (cases w, cases w') (simp add: same_handles_def)

lemma same_handles_trans: "same_handles w1 w2 \<Longrightarrow> same_handles w2 w3 \<Longrightarrow> same_handles w1 w3"
  by (simp add: same_handles_def)

lemma same_handles_refl [simp]: "same_handles w w"
  by (simp add: same_handles_def)

text \<open>The test for room, and the claim that follows when it succeeds, over any pool.\<close>

text \<open>What the dispatch guarantees of a request to the packed path.\<close>

definition packable :: "usize \<Rightarrow> usize \<Rightarrow> usize \<Rightarrow> bool" where
  "packable ps sz align \<longleftrightarrow> align \<le> 8 \<and> unat sz \<le> unat ps \<or> unat sz + (unat align - 1) \<le> unat ps"

locale chunk_store = buffer_life life for life :: "heap \<Rightarrow> chunk_world \<Rightarrow> addr multiset \<Rightarrow> bool"
begin

lemma fit_defined:
  assumes inv: "held_inv life h0 Q (cp_current cp) w C"
  shows "\<exists>fit. packed_fit sz align cp w = Some fit"
proof (cases "cp_current cp")
  case (Some opn)
  with inv obtain pk n where "get_packed (op_shared opn) w = Some (pk, n)" by (metis held_open)
  with Some show ?thesis by (simp add: packed_fit_def Let_def)
qed (simp add: packed_fit_def)

lemma fit_hit:
  assumes inv: "held_inv life h0 Q (cp_current cp) w C" and a: "is_power_of_two align" and sz: "sz \<noteq> 0"
    and fit: "packed_fit sz align cp w = Some (Some (opn, off))"
  shows "\<exists>w' pk m. packed_clone (op_shared opn) w = Some w' \<and> cp_current cp = Some opn
    \<and> held_inv life h0 Q (Some (opn\<lparr>op_write_offset := off + sz\<rparr>)) w' (add_mset (op_shared opn, unat off, unat sz) C)
    \<and> claims_kept C w w' \<and> same_handles w w' \<and> unat off + unat sz \<le> unat (sh_page_size (w_shared w))
    \<and> w' = w\<lparr>w_packed := (w_packed w)[op_shared opn := (pk, Suc m)]\<rparr>
    \<and> get_packed (op_shared opn) w' = Some (pk, Suc m) \<and> aligned_to (unat align) (pk_buf pk + off)"
proof -
  let ?ps = "sh_page_size (w_shared w)"
  have cur: "cp_current cp = Some opn" using fit
    by (cases "cp_current cp") (auto simp: packed_fit_def bind_eq_Some_conv Let_def split: if_splits prod.splits)
  with inv have inv': "held_inv life h0 Q (Some opn) w C" by simp
  then obtain pk n where g: "get_packed (op_shared opn) w = Some (pk, n)"
    and b: "unat (pk_buf pk) + unat ?ps \<le> 2 ^ 64" "pk_buf pk \<noteq> 0" "unat ?ps \<le> isize_max"
      "unat (op_write_offset opn) \<le> unat ?ps" by (rule held_open)
  have off: "off = fit_offset (pk_buf pk) (op_write_offset opn) align" and ok: "usize_saturating_add off sz \<le> ?ps"
    using fit cur g by (auto simp: packed_fit_def fit_offset_def pool_page_size_def Let_def split: if_splits)
  note acc = fit_offset_accepted [OF a b(1,4,2,3) sz ok [unfolded off], folded off]
  have sum: "unat (off + sz) = unat off + unat sz"
    using acc(2) b(3) by (intro unat_add_usize) (simp add: isize_max_def)
  from held_add_open [OF inv' acc(1,2), of "opn\<lparr>op_write_offset := off + sz\<rparr>"] sum obtain w' pk' m where
    w': "packed_clone (op_shared opn) w = Some w'"
      "held_inv life h0 Q (Some (opn\<lparr>op_write_offset := off + sz\<rparr>)) w' (add_mset (op_shared opn, unat off, unat sz) C)"
      "claims_kept C w w'" "w' = w\<lparr>w_packed := (w_packed w)[op_shared opn := (pk', Suc m)]\<rparr>"
    and pk': "get_packed (op_shared opn) w = Some (pk', m)" "get_packed (op_shared opn) w' = Some (pk', Suc m)" by auto
  moreover have "same_handles w w'" by (rule same_handlesI) (simp_all add: w'(4))
  moreover have "pk' = pk" using g pk'(1) by simp
  ultimately show ?thesis using acc cur by (intro exI [of _ w'] exI [of _ pk] exI [of _ m]) auto
qed

lemma fresh_fits:
  assumes inv: "held_inv life h0 Q (cp_current cp) w C" and cur: "cp_current cp = Some \<lparr>op_shared = j, op_write_offset = 0\<rparr>"
    and a: "is_power_of_two align" and sz: "sz \<noteq> 0" and room: "packable (sh_page_size (w_shared w)) sz align"
  shows "\<exists>off. packed_fit sz align cp w = Some (Some (\<lparr>op_shared = j, op_write_offset = 0\<rparr>, off))"
proof -
  let ?opn = "\<lparr>op_shared = j, op_write_offset = 0 :: usize\<rparr>"
  have "held_inv life h0 Q (Some ?opn) w C" using inv cur by simp
  then obtain pk n where g: "get_packed (op_shared ?opn) w = Some (pk, n)"
    and b: "unat (pk_buf pk) + unat (sh_page_size (w_shared w)) \<le> 2 ^ 64" "pk_buf pk \<noteq> 0"
      "unat (sh_page_size (w_shared w)) \<le> isize_max" "aligned_to 8 (pk_buf pk)" by (rule held_open)
  have "usize_saturating_add (fit_offset (pk_buf pk) 0 align) sz \<le> sh_page_size (w_shared w)"
    using fit_offset_fresh [OF a b(1,2,3,4) sz] room by (simp add: packable_def)
  with g cur show ?thesis by (simp add: packed_fit_def fit_offset_def pool_page_size_def Let_def)
qed

end

interpretation pool_chunks: chunk_store "\<lambda>h w U. pool_life h pp k w U" for pp k
  by unfold_locales

lemmas packed_fit_defined = pool_chunks.fit_defined [where Q = "{#}", folded core_held]
lemmas packed_fit_clone = pool_chunks.fit_hit [where Q = "{#}", folded core_held]
lemmas fresh_page_fits = pool_chunks.fresh_fits [where Q = "{#}", folded core_held]

lemma packed_fit_hit:
  assumes inv: "pool_core h0 cp k w C" and a: "is_power_of_two align" and sz: "sz \<noteq> 0"
    and fit: "packed_fit sz align cp w = Some (Some (opn, off))"
  shows "\<exists>w'. packed_loop sz align cp w = Some (Inr (op_shared opn, off),
        cp\<lparr>cp_current := Some (opn\<lparr>op_write_offset := off + sz\<rparr>)\<rparr>, w')
    \<and> pool_core h0 (cp\<lparr>cp_current := Some (opn\<lparr>op_write_offset := off + sz\<rparr>)\<rparr>) k w'
        (add_mset (op_shared opn, unat off, unat sz) C)
    \<and> claims_kept C w w' \<and> same_handles w w'
    \<and> unat off + unat sz \<le> unat (sh_page_size (w_shared w))
    \<and> (\<exists>pk m. get_packed (op_shared opn) w' = Some (pk, m) \<and> aligned_to (unat align) (pk_buf pk + off))"
  using packed_fit_clone [OF inv a sz fit] fit by (fastforce simp: packed_loop.simps [of sz align cp w])

text \<open>Opening a page: no claim is on it yet.\<close>

lemma open_new_page_ok:
  assumes inv: "pool_core h0 cp k w C" and cur: "cp_current cp = None"
  shows "\<exists>r cp' w'. open_new_page cp w = Some (r, cp', w') \<and> pool_core h0 cp' k w' C
    \<and> cp_threshold cp' = cp_threshold cp \<and> claims_kept C w w' \<and> same_handles w w'
    \<and> (case r of Inl e \<Rightarrow> cp_current cp' = None
       | Inr _ \<Rightarrow> cp_current cp' = Some \<lparr>op_shared = length (w_packed w), op_write_offset = 0\<rparr>)"
proof -
  have inv': "core_inv h0 (Some (cp_pages cp)) None k w C" using inv cur by simp
  have packed: "packed_inv h0 (Some (cp_pages cp)) k w (claim_refs None C)" and ok: "claims_ok None w C"
    using inv' by (simp_all add: core_inv_def)
  have inv2: "core_inv h0 (Some (cp_pages cp)) None k w ({#} + C)" using inv' by simp
  from packed show ?thesis
  proof (cases rule: packed_take)
    case (failed e pp' w1)
    note fin = core_inv_step [OF inv2 failed(4,3)]
    have "claims_kept C w w1" by (rule claims_kept_packed [OF failed(4) inv' fin]) simp
    moreover have "same_handles w w1"
      using failed(2) pool_frame_packed(2) [OF failed(2)] by (intro same_handlesI) (simp_all add: pool_frame_def)
    ultimately show ?thesis using failed(1) fin cur by (simp add: open_new_page_def)
  next
    case (taken buf pp' w1 w2)
    let ?j = "length (w_packed w)" and ?pk = "\<lparr>pk_buf = buf, pk_release = ReleasePool\<rparr>"
    let ?opn = "\<lparr>op_shared = ?j, op_write_offset = 0\<rparr>"
    have g: "get_packed ?j w2 = Some (?pk, 1)" by (simp add: taken(4) get_packed_def get_cell_def)
    note fin = pool_store.held_open_new [OF ok taken(6) core_index_old [OF inv'] taken(5) [unfolded packed_inv_def] g, folded core_held]
    have "same_handles w w2"
      using taken(2) pool_frame_packed(2) [OF taken(2)]
      by (intro same_handlesI) (simp_all add: taken(4) pool_frame_def)
    with taken(1,3) fin show ?thesis by (simp add: open_new_page_def)
  qed
qed

definition loop_ok :: "heap \<Rightarrow> chunk_pool \<Rightarrow> nat \<Rightarrow> chunk_world \<Rightarrow> claim multiset \<Rightarrow> usize \<Rightarrow> usize
    \<Rightarrow> (panic + nat \<times> usize) \<Rightarrow> chunk_pool \<Rightarrow> chunk_world \<Rightarrow> bool" where
  "loop_ok h0 cp k w C sz align r cp' w' \<longleftrightarrow>
     cp_threshold cp' = cp_threshold cp \<and> claims_kept C w w' \<and> same_handles w w' \<and>
     (case r of
        Inl e \<Rightarrow> pool_core h0 cp' k w' C
      | Inr (j, off) \<Rightarrow> pool_core h0 cp' k w' (add_mset (j, unat off, unat sz) C)
          \<and> unat off + unat sz \<le> unat (sh_page_size (w_shared w))
          \<and> (\<exists>pk m. get_packed j w' = Some (pk, m) \<and> aligned_to (unat align) (pk_buf pk + off)))"

lemma loop_ok_trans:
  assumes "claims_kept C w1 w2" and "same_handles w1 w2" and "cp_threshold cp2 = cp_threshold cp1"
    and "loop_ok h0 cp2 k w2 C sz align r cp' w'"
  shows "loop_ok h0 cp1 k w1 C sz align r cp' w'"
  using assms by (auto simp: loop_ok_def claims_kept_def same_handles_def split: sum.splits)

lemma packed_loop_hit:
  assumes "pool_core h0 cp k w C" and "is_power_of_two align" and "sz \<noteq> 0"
    and "packed_fit sz align cp w = Some (Some (opn, off))"
  shows "\<exists>r cp' w'. packed_loop sz align cp w = Some (r, cp', w') \<and> loop_ok h0 cp k w C sz align r cp' w'"
  using packed_fit_hit [OF assms] by (fastforce simp: loop_ok_def)

text \<open>The loop ends: a page that has room, or a new page, which has room.\<close>

lemma packed_loop_ok:
  assumes inv: "pool_core h0 cp k w C" and a: "is_power_of_two align" and sz: "sz \<noteq> 0"
    and room: "packable (sh_page_size (w_shared w)) sz align"
  shows "\<exists>r cp' w'. packed_loop sz align cp w = Some (r, cp', w') \<and> loop_ok h0 cp k w C sz align r cp' w'"
proof -
  from packed_fit_defined [OF inv] obtain fit where fit: "packed_fit sz align cp w = Some fit" by blast
  show ?thesis
  proof (cases fit)
    case (Some oo)
    then show ?thesis using packed_loop_hit [OF inv a sz] fit by (cases oo) auto
  next
    case None
    have "\<exists>cp1 w1. retire_current cp w = Some (cp1, w1) \<and> pool_core h0 cp1 k w1 C \<and> cp_current cp1 = None
        \<and> cp_threshold cp1 = cp_threshold cp \<and> claims_kept C w w1 \<and> same_handles w w1"
    proof (cases "cp_current cp")
      case (Some opn)
      with core_retire [of h0 "Some (cp_pages cp)" opn k w C] inv show ?thesis
        by (fastforce simp: retire_current_def intro: same_handlesI)
    qed (use inv in \<open>simp add: retire_current_def\<close>)
    then obtain cp1 w1 where one: "retire_current cp w = Some (cp1, w1)" "pool_core h0 cp1 k w1 C"
      "cp_current cp1 = None" "cp_threshold cp1 = cp_threshold cp" "claims_kept C w w1" "same_handles w w1" by blast
    from open_new_page_ok [OF one(2,3)] obtain r2 cp2 w2 where
      two: "open_new_page cp1 w1 = Some (r2, cp2, w2)" "pool_core h0 cp2 k w2 C"
        "cp_threshold cp2 = cp_threshold cp1" "claims_kept C w1 w2" "same_handles w1 w2"
      and cur: "case r2 of Inl e \<Rightarrow> cp_current cp2 = None
        | Inr _ \<Rightarrow> cp_current cp2 = Some \<lparr>op_shared = length (w_packed w1), op_write_offset = 0\<rparr>" by blast
    note kept = claims_kept_trans [OF one(5) two(4)] and same = same_handles_trans [OF one(6) two(5)]
    have thr: "cp_threshold cp2 = cp_threshold cp" using one(4) two(3) by simp
    show ?thesis
    proof (cases r2)
      case (Inl e)
      then have "packed_loop sz align cp w = Some (Inl e, cp2, w2)"
        using fit None one(1) two(1) by (simp add: packed_loop.simps [of sz align cp w])
      with two(2) kept same thr show ?thesis by (auto simp: loop_ok_def)
    next
      case (Inr u)
      then obtain j where j: "cp_current cp2 = Some \<lparr>op_shared = j, op_write_offset = 0\<rparr>" using cur by auto
      have "packable (sh_page_size (w_shared w2)) sz align" using room kept by (simp add: claims_kept_def)
      from fresh_page_fits [OF two(2) j a sz this] packed_loop_hit [OF two(2) a sz] obtain r cp' w' where
        "packed_loop sz align cp2 w2 = Some (r, cp', w')" "loop_ok h0 cp2 k w2 C sz align r cp' w'" by blast
      moreover from this have "packed_loop sz align cp w = Some (r, cp', w')"
        using fit None one(1) two(1) Inr by (simp add: packed_loop.simps [of sz align cp w])
      ultimately show ?thesis using loop_ok_trans [OF kept same thr] by blast
    qed
  qed
qed

section \<open>The four paths\<close>

text \<open>The module documentation's table of size classes, in unbounded arithmetic.\<close>

datatype size_class = ZeroSize | PackedSize | DedicatedSize | OversizedSize

definition size_class :: "nat \<Rightarrow> nat \<Rightarrow> nat \<Rightarrow> size_class" where
  "size_class ps align sz =
     (if sz = 0 then ZeroSize
      else if align \<le> 8
      then (if ps < sz then OversizedSize else if ps div 2 < sz then DedicatedSize else PackedSize)
      else if sz \<le> ps div 2 \<and> sz + (align - 1) \<le> ps then PackedSize else OversizedSize)"

text \<open>What a chunk of a class adds to the counters of the pool.\<close>

definition class_stats :: "size_class \<Rightarrow> u64 \<Rightarrow> chunk_pool_stats \<Rightarrow> chunk_pool_stats" where
  "class_stats c sz s =
     (let s = s\<lparr>cs_total_chunks := cs_total_chunks s + 1, cs_chunks_in_use := cs_chunks_in_use s + 1\<rparr>
      in case c of
           ZeroSize \<Rightarrow> s
         | PackedSize \<Rightarrow> s\<lparr>cs_packed_allocations := cs_packed_allocations s + 1\<rparr>
         | DedicatedSize \<Rightarrow> s\<lparr>cs_dedicated_allocations := cs_dedicated_allocations s + 1\<rparr>
         | OversizedSize \<Rightarrow> s\<lparr>cs_oversized_allocations := cs_oversized_allocations s + 1,
             cs_oversized_bytes_in_use := cs_oversized_bytes_in_use s + sz\<rparr>)"

text \<open>The outcome of a request of class \<open>c\<close> for tenant \<open>t\<close>, where \<open>C\<close> are the claims before.\<close>

definition new_builder :: "size_class \<Rightarrow> nat \<Rightarrow> usize \<Rightarrow> usize \<Rightarrow> chunk_builder \<Rightarrow> chunk_world \<Rightarrow> bool" where
  "new_builder c t sz align b w \<longleftrightarrow>
     cb_tenant b = Some t \<and> cb_capacity b = ucast sz \<and> cb_len b = 0 \<and>
     cb_oversized_bytes b = (if c = OversizedSize then sz else 0) \<and>
     (if c = ZeroSize then cb_packed b = None
      else \<exists>a. builder_addr b w = Some a \<and> aligned_to (unat align) a)"

definition alloc_ok :: "heap \<Rightarrow> nat \<Rightarrow> claim multiset \<Rightarrow> size_class \<Rightarrow> nat \<Rightarrow> usize \<Rightarrow> usize \<Rightarrow> chunk_pool \<Rightarrow> chunk_world
    \<Rightarrow> (panic + chunk_builder) \<Rightarrow> chunk_pool \<Rightarrow> chunk_world \<Rightarrow> bool" where
  "alloc_ok h0 k C c t sz align cp w r cp' w' \<longleftrightarrow>
     cp_threshold cp' = cp_threshold cp \<and> claims_kept C w w' \<and>
     (case r of
        Inl e \<Rightarrow> pool_core h0 cp' k w' C \<and> same_handles w w'
      | Inr b \<Rightarrow> pool_core h0 cp' k w' (builder_claim b + C) \<and> new_builder c t sz align b w'
          \<and> w_tenants w' = (w_tenants w)(t := record_chunk_allocate sz (w_tenants w t))
          \<and> w_chunks w' = w_chunks w \<and> w_cstats w' = class_stats c sz (w_cstats w))"

lemma claims_kept_cong:
  fixes w w1 w2 :: "'z packed_world_scheme"
  assumes "w_heap w2 = w_heap w1" and "w_shared w2 = w_shared w1" and "w_packed w2 = w_packed w1"
  shows "claims_kept C w w2 = claims_kept C w w1" and "claims_kept C w2 w = claims_kept C w1 w"
proof -
  have "claim_bytes w2 c = claim_bytes w1 c" for c
    by (cases c) (simp add: get_packed_def assms)
  then show "claims_kept C w w2 = claims_kept C w w1" "claims_kept C w2 w = claims_kept C w1 w"
    by (simp_all add: claims_kept_def assms(2))
qed

text \<open>The counters are the only thing the accounting touches.\<close>

lemma upd_cstats_simps [simp]:
  "w_heap (upd_cstats f w) = w_heap w" "w_shared (upd_cstats f w) = w_shared w"
  "w_strong (upd_cstats f w) = w_strong w" "w_packed (upd_cstats f w) = w_packed w"
  "w_tenants (upd_cstats f w) = w_tenants w" "w_chunks (upd_cstats f w) = w_chunks w"
  "w_cstats (upd_cstats f w) = f (w_cstats w)"
  by (simp_all add: upd_cstats_def)

lemma upd_tenant_chunk_simps [simp]:
  fixes w :: chunk_world
  shows "w_packed (upd_tenant t f w) = w_packed w" "w_chunks (upd_tenant t f w) = w_chunks w"
    "w_cstats (upd_tenant t f w) = w_cstats w"
  by (simp_all add: upd_tenant_def)

lemma count_chunk_simps [simp]:
  "w_heap (count_chunk t sz w) = w_heap w" "w_shared (count_chunk t sz w) = w_shared w"
  "w_strong (count_chunk t sz w) = w_strong w" "w_packed (count_chunk t sz w) = w_packed w"
  "w_chunks (count_chunk t sz w) = w_chunks w"
  "w_tenants (count_chunk t sz w) = (w_tenants w)(t := record_chunk_allocate sz (w_tenants w t))"
  "w_cstats (count_chunk t sz w) = class_stats ZeroSize sz (w_cstats w)"
  by (simp_all add: count_chunk_def class_stats_def fetch_add_def Let_def)

lemma builder_addr_cong: "w_packed w' = w_packed w \<Longrightarrow> builder_addr b w' = builder_addr b w"
  by (simp add: builder_addr_def get_packed_def split: option.split)

text \<open>A path has prepared memory in \<open>w1\<close> and then counts, which leads to \<open>w2\<close>.\<close>

lemma alloc_ok_counted:
  assumes "pool_core h0 cp' k w1 (builder_claim b + C)" and "claims_kept C w w1" and "same_handles w w1"
    and "cp_threshold cp' = cp_threshold cp" and "new_builder c t sz align b w1"
    and "w_heap w2 = w_heap w1" and "w_shared w2 = w_shared w1" and "w_strong w2 = w_strong w1"
    and "w_packed w2 = w_packed w1" and "w_chunks w2 = w_chunks w1"
    and "w_tenants w2 = (w_tenants w1)(t := record_chunk_allocate sz (w_tenants w1 t))"
    and "w_cstats w2 = class_stats c sz (w_cstats w1)"
  shows "alloc_ok h0 k C c t sz align cp w (Inr b) cp' w2"
  using assms core_inv_cong [OF assms(6-9)] claims_kept_cong(1) [OF assms(6,7,9)]
    builder_addr_cong [OF assms(9)]
  by (simp add: alloc_ok_def same_handles_def new_builder_def)

lemma allocate_zero_ok:
  assumes "pool_core h0 cp k w C"
  shows "\<exists>b w'. allocate_zero t w = (b, w') \<and> alloc_ok h0 k C ZeroSize (tenant_cell t) 0 align cp w (Inr b) cp w'"
  using assms by (auto simp: allocate_zero_def intro!: alloc_ok_counted [where ?w1.0 = w])
    (auto simp: builder_claim_def new_builder_def)

lemma unat_ucast_up [simp]: "unat (ucast (x :: u32) :: usize) = unat x"
proof -
  have "unat x < 2 ^ 64" using unsigned_less [of x, where ?'a = nat] by simp
  then show ?thesis unfolding unsigned_ucast_eq by (intro take_bit_nat_eq_self) simp
qed

lemma ucast_offset:
  assumes "unat off + unat sz \<le> unat ps" and "sz \<noteq> 0" and "unat ps \<le> 2 ^ 32"
  shows "unat (ucast (off :: usize) :: u32) = unat off" and "ucast (ucast off :: u32) = off"
proof -
  have "0 < unat sz" using assms(2) by (simp add: unat_gt_0)
  then have lt: "unat off < 2 ^ 32" using assms(1,3) by linarith
  then show one: "unat (ucast off :: u32) = unat off" by (simp add: unsigned_ucast_eq take_bit_nat_eq_self)
  show "ucast (ucast off :: u32) = off"
  proof (rule unsigned_word_eqI)
    from one show "unat (ucast (ucast off :: u32) :: usize) = unat off" by simp
  qed
qed

lemma unat_ucast_u32_le: "unat (ucast (x :: usize) :: u32) \<le> unat x"
  by (simp add: unsigned_ucast_eq)

lemma aligned_to_divides: "aligned_to a p \<Longrightarrow> b dvd a \<Longrightarrow> aligned_to b p"
  unfolding aligned_to_def mod_eq_0_iff_dvd by (rule dvd_trans)

lemma power_of_two_dvd_le:
  assumes "is_power_of_two a" and "is_power_of_two b" and "a \<le> b"
  shows "unat a dvd unat b"
proof -
  from assms(1) obtain i where i: "unat a = 2 ^ i" by (rule is_power_of_twoE)
  from assms(2) obtain j where j: "unat b = 2 ^ j" by (rule is_power_of_twoE)
  have "(2::nat) ^ i \<le> 2 ^ j" using assms(3) i j by (simp add: word_le_nat_alt)
  then have "i \<le> j" by simp
  then show ?thesis unfolding i j by (rule le_imp_power_dvd)
qed

lemma allocate_packed_ok:
  assumes inv: "pool_core h0 cp k w C" and a: "is_power_of_two align" and sz: "sz \<noteq> 0"
    and room: "packable (sh_page_size (w_shared w)) sz align" and ps: "unat (sh_page_size (w_shared w)) \<le> 2 ^ 32"
  shows "\<exists>r cp' w'. allocate_packed t sz align cp w = Some (r, cp', w')
    \<and> alloc_ok h0 k C PackedSize (tenant_cell t) sz align cp w r cp' w'"
proof -
  from packed_loop_ok [OF inv a sz room] obtain r cp' w' where
    loop: "packed_loop sz align cp w = Some (r, cp', w')" "loop_ok h0 cp k w C sz align r cp' w'" by blast
  show ?thesis
  proof (cases r)
    case (Inl e)
    with loop show ?thesis by (simp add: allocate_packed_def loop_ok_def alloc_ok_def)
  next
    case (Inr jo)
    then obtain j off where r: "r = Inr (j, off)" by (cases jo) auto
    with loop(2) obtain pk m where
      core: "pool_core h0 cp' k w' (add_mset (j, unat off, unat sz) C)"
      and fits: "unat off + unat sz \<le> unat (sh_page_size (w_shared w))"
      and g: "get_packed j w' = Some (pk, m)" "aligned_to (unat align) (pk_buf pk + off)"
      and rest: "cp_threshold cp' = cp_threshold cp" "claims_kept C w w'" "same_handles w w'"
      by (auto simp: loop_ok_def)
    note off = ucast_offset [OF fits sz ps]
    let ?b = "\<lparr>cb_packed = Some j, cb_tenant = Some (tenant_cell t), cb_oversized_bytes = 0,
      cb_offset = ucast off, cb_capacity = ucast sz, cb_len = 0\<rparr>"
    have core': "pool_core h0 cp' k w' (builder_claim ?b + C)"
      using core_inv_shorter [OF core unat_ucast_u32_le] by (simp add: builder_claim_def off(1))
    have nb: "new_builder PackedSize (tenant_cell t) sz align ?b w'"
      using g by (simp add: new_builder_def builder_addr_def off(2))
    show ?thesis
      using loop(1) r by (simp add: allocate_packed_def Let_def)
        (rule alloc_ok_counted [OF core' rest(2,3,1) nb]; simp add: class_stats_def fetch_add_def)
  qed
qed

lemma allocate_dedicated_ok:
  assumes inv: "pool_core h0 cp k w C" and a: "is_power_of_two align" "align \<le> 8"
    and sz: "unat sz \<le> unat (sh_page_size (w_shared w))"
  shows "\<exists>r cp' w'. allocate_dedicated t sz cp w = Some (r, cp', w')
    \<and> alloc_ok h0 k C DedicatedSize (tenant_cell t) sz align cp w r cp' w'"
proof -
  let ?opn = "cp_current cp"
  have "packed_inv h0 (Some (cp_pages cp)) k w (claim_refs ?opn C)"
    using inv by (simp add: core_inv_def)
  then show ?thesis
  proof (cases rule: packed_take)
    case (failed e pp' w')
    have inv2: "pool_core h0 cp k w ({#} + C)" using inv by simp
    note fin = core_inv_step [OF inv2 failed(4,3)]
    have "claims_kept C w w'" by (rule claims_kept_packed [OF failed(4) inv fin]) simp
    moreover have "same_handles w w'"
      using failed(2) pool_frame_packed(2) [OF failed(2)] by (intro same_handlesI) (simp_all add: pool_frame_def)
    ultimately show ?thesis using failed(1) fin by (simp add: allocate_dedicated_def alloc_ok_def)
  next
    case (taken buf pp' w1 w')
    let ?j = "length (w_packed w)" and ?pk = "\<lparr>pk_buf = buf, pk_release = ReleasePool\<rparr>"
    let ?b = "\<lparr>cb_packed = Some ?j, cb_tenant = Some (tenant_cell t), cb_oversized_bytes = 0,
      cb_offset = 0, cb_capacity = ucast sz, cb_len = 0\<rparr>"
    have g: "get_packed ?j w' = Some (?pk, 1)" by (simp add: taken(4) get_packed_def get_cell_def)
    have "unat (ucast sz :: u32) \<le> block_size (sh_page_size (w_shared w')) ?pk"
      using sz unat_ucast_u32_le [of sz] taken(6) by (simp add: block_size_def packed_keeps_def)
    note fin = core_add_new [OF inv taken(6,5) g this]
    have core: "pool_core h0 (cp\<lparr>cp_pages := pp'\<rparr>) k w' (builder_claim ?b + C)"
      using fin(1) by (simp add: builder_claim_def)
    have "aligned_to 8 buf" using taken(5) g by (elim packed_block) auto
    then have "aligned_to (unat align) buf"
      using power_of_two_dvd_le [OF a(1) _ a(2)] by (elim aligned_to_divides) simp
    then have nb: "new_builder DedicatedSize (tenant_cell t) sz align ?b w'"
      using g by (simp add: new_builder_def builder_addr_def)
    have same: "same_handles w w'"
      using taken(2) pool_frame_packed(2) [OF taken(2)]
      by (intro same_handlesI) (simp_all add: taken(4) pool_frame_def)
    have thr: "cp_threshold (cp\<lparr>cp_pages := pp'\<rparr>) = cp_threshold cp" by simp
    show ?thesis
      using taken(1,3) by (simp add: allocate_dedicated_def Let_def)
        (rule alloc_ok_counted [OF core fin(2) same thr nb]; simp add: class_stats_def fetch_add_def)
  qed
qed

lemma max_power_of_two:
  assumes "is_power_of_two a"
  shows "is_power_of_two (max a 8)" and "unat a dvd unat (max a 8)"
proof -
  show "is_power_of_two (max a 8)" using assms by (simp add: max_def)
  then show "unat a dvd unat (max a 8)" using assms by (intro power_of_two_dvd_le) simp_all
qed

lemma allocate_oversized_ok:
  assumes inv: "pool_core h0 cp k w C" and a: "is_power_of_two align"
  shows "\<exists>r cp' w'. allocate_oversized ga t sz align cp w = Some (r, cp', w')
    \<and> alloc_ok h0 k C OversizedSize (tenant_cell t) sz align cp w r cp' w'"
proof (cases "from_size_align sz (max align 8)")
  case (Inl e)
  then show ?thesis using inv
    by (simp add: allocate_oversized_def alloc_ok_def default_align_def ptr_size_def Let_def)
next
  case (Inr l)
  obtain x h where al: "alloc_zeroed ga l (w_heap w) = (x, h)" by fastforce
  have l: "l = \<lparr>l_size = sz, l_align = max align 8\<rparr>" using Inr by (simp add: from_size_align_eq_Inr)
  show ?thesis
  proof (cases "x = 0")
    case True
    with alloc_zeroed_cases [OF al] have "h = w_heap w" by (auto simp: placeable_def)
    then show ?thesis using inv Inr al True
      by (simp add: allocate_oversized_def alloc_ok_def default_align_def ptr_size_def Let_def)
  next
    case False
    let ?j = "length (w_packed w)" and ?pk = "\<lparr>pk_buf = x, pk_release = ReleaseHeap l\<rparr>"
    let ?w = "w\<lparr>w_heap := h, w_packed := w_packed w @ [(?pk, 1)]\<rparr>"
    let ?b = "\<lparr>cb_packed = Some ?j, cb_tenant = Some (tenant_cell t), cb_oversized_bytes = sz,
      cb_offset = 0, cb_capacity = ucast sz, cb_len = 0\<rparr>"
    have "packed_inv h0 (Some (cp_pages cp)) k w (claim_refs (cp_current cp) C)"
      using inv by (simp add: core_inv_def)
    note new = packed_alloc_heap [OF this al False]
    have g: "get_packed ?j ?w = Some (?pk, 1)" by (simp add: get_packed_def get_cell_def)
    have "unat (ucast sz :: u32) \<le> block_size (sh_page_size (w_shared ?w)) ?pk"
      using unat_ucast_u32_le [of sz] by (simp add: block_size_def l)
    note fin = core_add_new [OF inv new(2,1) g this]
    have core: "pool_core h0 cp k ?w (builder_claim ?b + C)" using fin(1) by (simp add: builder_claim_def)
    have "aligned_to (unat (max align 8)) x"
      using new(1) g by (rule packed_block) (auto simp: l)
    then have "aligned_to (unat align) x" using max_power_of_two(2) [OF a] by (rule aligned_to_divides)
    then have nb: "new_builder OversizedSize (tenant_cell t) sz align ?b ?w"
      using g by (simp add: new_builder_def builder_addr_def)
    have same: "same_handles w ?w" by (simp add: same_handles_def)
    show ?thesis
      using Inr al False
      by (simp add: allocate_oversized_def default_align_def ptr_size_def packed_new_def Let_def)
        (rule alloc_ok_counted [OF core fin(2) same refl nb]; simp add: class_stats_def fetch_add_def)
  qed
qed

text \<open>The dispatch.\<close>

lemma allocate_aligned_ok:
  assumes inv: "pool_core h0 cp k w C" and thr: "cp_threshold cp = sh_page_size (w_shared w) div 2"
    and ps: "unat (sh_page_size (w_shared w)) \<le> 2 ^ 32" and a: "is_power_of_two align"
  shows "\<exists>r cp' w'. allocate_aligned ga t sz align cp w = Some (r, cp', w')
    \<and> alloc_ok h0 k C (size_class (unat (sh_page_size (w_shared w))) (unat align) (unat sz)) (tenant_cell t)
        sz align cp w r cp' w'"
proof -
  let ?ps = "sh_page_size (w_shared w)"
  have half: "unat (?ps div 2) = unat ?ps div 2" by (simp add: unat_div)
  have pos: "0 < unat align" using a by (rule power_of_two_pos)
  have pad: "unat (align - 1) = unat align - 1"
    using pos by (subst unat_sub_usize) (simp_all add: word_le_nat_alt)
  have need: "usize_saturating_add sz (align - 1) \<le> ?ps \<longleftrightarrow> unat sz + (unat align - 1) \<le> unat ?ps"
    using usize_saturating_add_le [of ?ps sz "align - 1"] ps pad by simp
  note need' = need [unfolded word_le_nat_alt]
  have cls: "align \<le> 8 \<longleftrightarrow> unat align \<le> 8" by (simp add: word_le_nat_alt)
  have zero: "sz = 0 \<longleftrightarrow> unat sz = 0" by (simp add: unat_eq_zero)
  note eq = allocate_aligned_def default_align_def ptr_size_def pool_page_size_def thr Let_def need a
    size_class_def half word_less_nat_alt
  consider (zero) "sz = 0" | (packed) "sz \<noteq> 0" "packable ?ps sz align" "unat sz \<le> unat ?ps div 2"
    | (dedicated) "sz \<noteq> 0" "unat align \<le> 8" "unat ?ps div 2 < unat sz" "unat sz \<le> unat ?ps"
    | (oversized) "sz \<noteq> 0" "unat align \<le> 8 \<and> unat ?ps < unat sz \<or>
        8 < unat align \<and> \<not> (unat sz \<le> unat ?ps div 2 \<and> unat sz + (unat align - 1) \<le> unat ?ps)"
    by (auto simp: packable_def cls) linarith+
  then show ?thesis
  proof cases
    case zero
    with allocate_zero_ok [OF inv, of t align] show ?thesis by (auto simp: eq)
  next
    case packed
    with allocate_packed_ok [OF inv a packed(1,2) ps, of t] show ?thesis
      by (auto simp: eq word_le_nat_alt packable_def zero need')
  next
    case dedicated
    with allocate_dedicated_ok [OF inv a, of sz t] cls show ?thesis
      by (auto simp: eq word_le_nat_alt zero need')
  next
    case oversized
    with allocate_oversized_ok [OF inv a, of ga t sz] show ?thesis
      by (auto simp: eq word_le_nat_alt zero need')
  qed
qed

end
