(* ===== verification/Chunk_Builders.thy ===== *)
theory Chunk_Builders
  imports Chunk_Alloc
begin

text \<open>
  The invariant of builders and chunks of \<open>src/chunk.rs\<close> on top of the claims, and the operations that
  allocate and write a builder. \<open>chunk_inv\<close> is about memory; the counters of tenants and of the pool
  are related to the live handles by \<open>chunk_accounts\<close>.
\<close>

section \<open>The invariant\<close>

definition inner_claim :: "chunk_inner \<Rightarrow> claim multiset" where
  "inner_claim i = (case ci_packed i of
      None \<Rightarrow> {#} | Some j \<Rightarrow> {#(j, unat (ci_offset i), unat (ci_capacity i))#})"

definition chunk_claims :: "chunk_world \<Rightarrow> chunk_builder multiset \<Rightarrow> claim multiset" where
  "chunk_claims w B = sum_mset (image_mset builder_claim B)
     + sum_mset (image_mset inner_claim (live_cells (w_chunks w)))"

definition cbuilder_ok :: "chunk_builder \<Rightarrow> bool" where
  "cbuilder_ok b \<longleftrightarrow> cb_tenant b \<noteq> None \<and> cb_len b \<le> cb_capacity b \<and> (cb_packed b = None \<longrightarrow> cb_capacity b = 0)"

definition cinner_ok :: "chunk_inner \<Rightarrow> bool" where
  "cinner_ok i \<longleftrightarrow> ci_length i \<le> ci_capacity i \<and> (ci_packed i = None \<longrightarrow> ci_capacity i = 0)"

text \<open>The pool, \<open>None\<close> once it has been dropped.\<close>

definition pool_pages :: "chunk_pool option \<Rightarrow> page_pool option" where
  "pool_pages cpo = map_option cp_pages cpo"

definition pool_open :: "chunk_pool option \<Rightarrow> open_page option" where
  "pool_open cpo = (case cpo of None \<Rightarrow> None | Some cp \<Rightarrow> cp_current cp)"

definition pool_sizes :: "chunk_pool option \<Rightarrow> usize \<Rightarrow> bool" where
  "pool_sizes cpo ps \<longleftrightarrow> (case cpo of None \<Rightarrow> True
     | Some cp \<Rightarrow> cp_threshold cp = ps div 2 \<and> unat ps \<le> 2 ^ 32)"

definition chunk_inv :: "heap \<Rightarrow> chunk_pool option \<Rightarrow> nat \<Rightarrow> chunk_world \<Rightarrow> chunk_builder multiset \<Rightarrow> bool" where
  "chunk_inv h0 cpo k w B \<longleftrightarrow>
     core_inv h0 (pool_pages cpo) (pool_open cpo) k w (chunk_claims w B) \<and>
     pool_sizes cpo (sh_page_size (w_shared w)) \<and>
     (\<forall>b. b \<in># B \<longrightarrow> cbuilder_ok b) \<and> (\<forall>i. i \<in># live_cells (w_chunks w) \<longrightarrow> cinner_ok i)"

text \<open>What a live handle costs: the tenant, the bytes, and the bytes counted as oversized.\<close>

type_synonym charge = "nat \<times> u64 \<times> u64"

definition builder_charge :: "chunk_builder \<Rightarrow> charge" where
  "builder_charge b = (the (cb_tenant b), ucast (cb_capacity b), cb_oversized_bytes b)"

definition inner_charge :: "chunk_inner \<Rightarrow> charge" where
  "inner_charge i = (ci_tenant i, ucast (ci_capacity i), ci_oversized_bytes i)"

definition chunk_charges :: "chunk_world \<Rightarrow> chunk_builder multiset \<Rightarrow> charge multiset" where
  "chunk_charges w B = image_mset builder_charge B + image_mset inner_charge (live_cells (w_chunks w))"

definition chunk_charged :: "stats_table \<Rightarrow> stats_table \<Rightarrow> chunk_pool_stats \<Rightarrow> charge multiset \<Rightarrow> bool" where
  "chunk_charged base tab s H \<longleftrightarrow>
     (\<forall>t. t_chunks_in_use (tab t) = t_chunks_in_use (base t) + of_nat (size {#h \<in># H. fst h = t#})
        \<and> t_bytes_in_use (tab t) = t_bytes_in_use (base t)
            + sum_mset (image_mset (fst \<circ> snd) {#h \<in># H. fst h = t#})) \<and>
     cs_chunks_in_use s = of_nat (size H) \<and>
     cs_oversized_bytes_in_use s = sum_mset (image_mset (snd \<circ> snd) H)"

definition chunk_accounts :: "stats_table \<Rightarrow> chunk_world \<Rightarrow> chunk_builder multiset \<Rightarrow> bool" where
  "chunk_accounts base w B = chunk_charged base (w_tenants w) (w_cstats w) (chunk_charges w B)"

section \<open>Lemmas on the invariant\<close>

lemma pool_simps [simp]:
  "pool_pages None = None" "pool_pages (Some cp) = Some (cp_pages cp)"
  "pool_open None = None" "pool_open (Some cp) = cp_current cp" "pool_sizes None ps"
  "pool_sizes (Some cp) ps \<longleftrightarrow> cp_threshold cp = ps div 2 \<and> unat ps \<le> 2 ^ 32"
  by (simp_all add: pool_pages_def pool_open_def pool_sizes_def)

lemma chunk_claims_add [simp]: "chunk_claims w (add_mset b B) = builder_claim b + chunk_claims w B"
  by (simp add: chunk_claims_def)

lemma chunk_claims_cong: "w_chunks w' = w_chunks w \<Longrightarrow> chunk_claims w' B = chunk_claims w B"
  by (simp add: chunk_claims_def)

lemma chunk_charges_cong: "w_chunks w' = w_chunks w \<Longrightarrow> chunk_charges w' B = chunk_charges w B"
  by (simp add: chunk_charges_def)

lemma chunk_charges_add: "chunk_charges w (add_mset b B) = add_mset (builder_charge b) (chunk_charges w B)"
  by (simp add: chunk_charges_def)

lemma chunk_charged_add:
  assumes "chunk_charged base tab s H"
  shows "chunk_charged base (tab(t := record_chunk_allocate n (tab t)))
    (s\<lparr>cs_chunks_in_use := cs_chunks_in_use s + 1, cs_oversized_bytes_in_use := cs_oversized_bytes_in_use s + m\<rparr>)
    (add_mset (t, n, m) H)"
  using assms by (auto simp: chunk_charged_def record_chunk_allocate_def fetch_add_def Let_def algebra_simps)

lemma chunk_charged_remove:
  assumes "chunk_charged base tab s (add_mset (t, n, m) H)"
  shows "chunk_charged base (tab(t := record_chunk_release n (tab t)))
    (s\<lparr>cs_chunks_in_use := cs_chunks_in_use s - 1, cs_oversized_bytes_in_use := cs_oversized_bytes_in_use s - m\<rparr>) H"
  using assms by (auto simp: chunk_charged_def record_chunk_release_def fetch_sub_def Let_def algebra_simps)

text \<open>The counters that are not about live handles play no part.\<close>

lemma chunk_charged_cong:
  assumes "cs_chunks_in_use s' = cs_chunks_in_use s"
    and "cs_oversized_bytes_in_use s' = cs_oversized_bytes_in_use s"
  shows "chunk_charged base tab s' H = chunk_charged base tab s H"
  using assms by (simp add: chunk_charged_def)

lemma chunk_invD:
  assumes "chunk_inv h0 cpo k w B"
  shows "core_inv h0 (pool_pages cpo) (pool_open cpo) k w (chunk_claims w B)"
    and "pool_sizes cpo (sh_page_size (w_shared w))"
    and "b \<in># B \<Longrightarrow> cbuilder_ok b" and "i \<in># live_cells (w_chunks w) \<Longrightarrow> cinner_ok i"
  using assms by (auto simp: chunk_inv_def)

section \<open>Allocation\<close>

text \<open>The bytes charged are the bytes asked for unless the conversion to 32 bits loses some.\<close>

lemma ucast_small: "unat (sz :: usize) < 2 ^ 32 \<Longrightarrow> ucast (ucast sz :: u32) = sz"
  using ucast_offset(2) [of sz 1 "4294967296 :: usize"] by simp

definition chunk_allocated :: "heap \<Rightarrow> nat \<Rightarrow> chunk_builder multiset \<Rightarrow> size_class \<Rightarrow> nat \<Rightarrow> usize \<Rightarrow> usize
    \<Rightarrow> chunk_world \<Rightarrow> (panic + chunk_builder) \<Rightarrow> chunk_pool \<Rightarrow> chunk_world \<Rightarrow> bool" where
  "chunk_allocated h0 k B c t sz align w r cp' w' \<longleftrightarrow>
     claims_kept (chunk_claims w B) w w' \<and> w_chunks w' = w_chunks w \<and>
     (case r of
        Inl e \<Rightarrow> chunk_inv h0 (Some cp') k w' B \<and> w_tenants w' = w_tenants w \<and> w_cstats w' = w_cstats w
      | Inr b \<Rightarrow> chunk_inv h0 (Some cp') k w' (add_mset b B) \<and> new_builder c t sz align b w'
          \<and> w_tenants w' = (w_tenants w)(t := record_chunk_allocate sz (w_tenants w t))
          \<and> w_cstats w' = class_stats c sz (w_cstats w))"

lemma allocate_aligned_inv:
  assumes inv: "chunk_inv h0 (Some cp) k w B" and a: "is_power_of_two align"
  shows "\<exists>r cp' w'. allocate_aligned ga t sz align cp w = Some (r, cp', w')
    \<and> chunk_allocated h0 k B (size_class (unat (sh_page_size (w_shared w))) (unat align) (unat sz))
        (tenant_cell t) sz align w r cp' w'"
proof -
  let ?c = "size_class (unat (sh_page_size (w_shared w))) (unat align) (unat sz)"
  have core: "pool_core h0 cp k w (chunk_claims w B)" and thr: "cp_threshold cp = sh_page_size (w_shared w) div 2"
    and ps: "unat (sh_page_size (w_shared w)) \<le> 2 ^ 32"
    using chunk_invD(1,2) [OF inv] by simp_all
  from allocate_aligned_ok [OF core thr ps a, of ga t sz] obtain r cp' w' where
    al: "allocate_aligned ga t sz align cp w = Some (r, cp', w')"
    and ok: "alloc_ok h0 k (chunk_claims w B) ?c (tenant_cell t) sz align cp w r cp' w'" by blast
  have kept: "claims_kept (chunk_claims w B) w w'" "cp_threshold cp' = cp_threshold cp"
    using ok by (simp_all add: alloc_ok_def)
  have ps': "sh_page_size (w_shared w') = sh_page_size (w_shared w)" using kept by (simp add: claims_kept_def)
  have ch: "w_chunks w' = w_chunks w" using ok by (auto simp: alloc_ok_def same_handles_def split: sum.splits)
  have zero: "?c = ZeroSize \<longleftrightarrow> sz = 0" by (auto simp: size_class_def unat_eq_zero)
  have "cbuilder_ok b" if "r = Inr b" for b
    using ok that zero
    by (cases "sz = 0") (auto simp: alloc_ok_def new_builder_def cbuilder_ok_def builder_addr_def split: option.splits)
  note new_ok = this
  have "chunk_allocated h0 k B ?c (tenant_cell t) sz align w r cp' w'"
  proof (cases r)
    case (Inl e)
    with ok have "pool_core h0 cp' k w' (chunk_claims w' B)" "same_handles w w'"
      by (simp_all add: alloc_ok_def chunk_claims_cong [OF ch])
    with Inl inv kept ch ps' thr show ?thesis
      by (simp add: chunk_allocated_def chunk_inv_def same_handles_def)
  next
    case (Inr b)
    with ok have "pool_core h0 cp' k w' (chunk_claims w' (add_mset b B))"
      by (simp add: alloc_ok_def chunk_claims_cong [OF ch])
    moreover have "cbuilder_ok b'" if "b' \<in># add_mset b B" for b'
      using that new_ok [OF Inr] chunk_invD(3) [OF inv, of b'] by (cases "b' = b") simp_all
    ultimately have "chunk_inv h0 (Some cp') k w' (add_mset b B)"
      using inv kept ch ps' thr unfolding chunk_inv_def by (simp del: chunk_claims_add)
    with Inr ok kept show ?thesis by (simp add: chunk_allocated_def alloc_ok_def)
  qed
  with al show ?thesis by blast
qed

lemma chunk_allocated_accounts:
  assumes "chunk_allocated h0 k B c t sz align w (Inr b) cp' w'" and "chunk_accounts base w B" and "unat sz < 2 ^ 32"
  shows "chunk_accounts base w' (add_mset b B)"
proof -
  have nb: "new_builder c t sz align b w'" and ch: "w_chunks w' = w_chunks w"
    and tab: "w_tenants w' = (w_tenants w)(t := record_chunk_allocate sz (w_tenants w t))"
    and st: "w_cstats w' = class_stats c sz (w_cstats w)"
    using assms(1) by (simp_all add: chunk_allocated_def)
  let ?m = "if c = OversizedSize then sz else 0"
  have ch': "builder_charge b = (t, sz, ?m)"
    using nb ucast_small [OF assms(3)] by (auto simp: new_builder_def builder_charge_def)
  have same: "chunk_charged base tab (class_stats c sz s) H = chunk_charged base tab
     (s\<lparr>cs_chunks_in_use := cs_chunks_in_use s + 1, cs_oversized_bytes_in_use := cs_oversized_bytes_in_use s + ?m\<rparr>) H"
    for tab s H by (rule chunk_charged_cong) (auto simp: class_stats_def Let_def split: size_class.split)
  from chunk_charged_add [of base "w_tenants w" "w_cstats w" "chunk_charges w B" t sz ?m] assms(2)
  show ?thesis
    unfolding chunk_accounts_def chunk_charges_add ch' tab st same chunk_charges_cong [OF ch] by blast
qed

section \<open>Reading and writing a range\<close>

text \<open>All bytes of a builder's range, written or not.\<close>

definition builder_bytes :: "chunk_builder \<Rightarrow> chunk_world \<Rightarrow> u8 list option" where
  "builder_bytes b w = (case cb_packed b of None \<Rightarrow> Some []
     | Some j \<Rightarrow> claim_bytes w (j, unat (cb_offset b), unat (cb_capacity b)))"

lemma slice_write_sub:
  assumes "slice_bytes s h = Some X" and "i + length data \<le> sl_len s" and "data \<noteq> []"
  shows "slice_write (s\<lparr>sl_off := sl_off s + i, sl_len := n\<rparr>) data h
    = slice_write s (take i X @ data @ drop (i + length data) X) h"
proof -
  from assms obtain bs where bs: "h (sl_base s) = Some bs" "sl_off s + sl_len s \<le> length bs"
    and X: "X = take (sl_len s) (drop (sl_off s) bs)"
    by (auto simp: slice_bytes_def mem_read_Some_iff split: if_splits)
  have len: "length X = sl_len s" using bs(2) by (simp add: X)
  have full: "length (take i X @ data @ drop (i + length data) X) = sl_len s" using assms(2) len by simp
  have "take (sl_off s) bs @ (take i X @ data @ drop (i + length data) X) @ drop (sl_off s + sl_len s) bs
      = take (sl_off s + i) bs @ data @ drop (sl_off s + i + length data) bs"
  proof -
    have "take (sl_off s) bs @ take i X = take (sl_off s + i) bs"
      using assms(2) bs(2) by (simp add: X take_add)
    moreover have "drop (i + length data) X @ drop (sl_off s + sl_len s) bs = drop (sl_off s + i + length data) bs"
    proof -
      have "drop (i + length data) X @ drop (sl_len s) (drop (sl_off s) bs)
          = drop (i + length data) (X @ drop (sl_len s) (drop (sl_off s) bs))" using assms(2) len by simp
      also have "X @ drop (sl_len s) (drop (sl_off s) bs) = drop (sl_off s) bs"
        unfolding X by (rule append_take_drop_id)
      finally show ?thesis by (simp add: add.commute add.left_commute)
    qed
    ultimately show ?thesis by (metis append.assoc)
  qed
  moreover have "sl_off s + i + length data \<le> length bs" using assms(2) bs(2) by simp
  ultimately show ?thesis
    using bs slice_write_eq [where s = "s\<lparr>sl_off := sl_off s + i, sl_len := n\<rparr>" and h = h and data = data]
      slice_write_eq [where s = s and h = h, OF bs(1), of "take i X @ data @ drop (i + length data) X"] full
    by (simp del: append_assoc length_append)
qed

lemma builder_claim_mem: "cb_packed b = Some j \<Longrightarrow>
  chunk_claims w (add_mset b B) = add_mset (j, unat (cb_offset b), unat (cb_capacity b)) (chunk_claims w B)"
  by (simp add: builder_claim_def)

lemma claim_bytes_prefix:
  "claim_bytes w (j, p, n) = Some X \<Longrightarrow> m \<le> n \<Longrightarrow> claim_bytes w (j, p, m) = Some (take m X)"
  by (auto simp: bind_eq_Some_conv mem_read_Some_iff)

lemma builder_slice:
  assumes "cbuilder_ok b" and "builder_bytes b w = Some X"
  shows "chunk_builder_as_slice b w = Some (take (unat (cb_len b)) X)"
proof (cases "cb_packed b")
  case (Some j)
  have "unat (cb_len b) \<le> unat (cb_capacity b)" using assms(1) by (simp add: cbuilder_ok_def word_le_nat_alt)
  with Some assms(2) claim_bytes_prefix [of w j "unat (cb_offset b)" "unat (cb_capacity b)" X "unat (cb_len b)"]
  show ?thesis by (simp add: builder_bytes_def chunk_builder_as_slice_def chunk_builder_len_def)
qed (use assms in \<open>simp add: chunk_builder_as_slice_def builder_bytes_def\<close>)

lemma builder_bytes_len [simp]: "builder_bytes (b\<lparr>cb_len := l\<rparr>) w = builder_bytes b w"
  by (simp add: builder_bytes_def split: option.split)

lemma chunk_builder_set_len_eq:
  "chunk_builder_set_len len b = (if unat len \<le> unat (cb_capacity b)
     then (Inr (), b\<lparr>cb_len := ucast len\<rparr>) else (Inl AssertFailed, b))"
  by (simp add: chunk_builder_set_len_def chunk_builder_capacity_def word_le_nat_alt)

lemma ucast_len:
  assumes "unat (len :: usize) \<le> unat (c :: u32)"
  shows "unat (ucast len :: u32) = unat len" and "(ucast len :: u32) \<le> c"
proof -
  have "unat len < 2 ^ 32" using assms unsigned_less [of c, where ?'a = nat] by simp
  then show eq: "unat (ucast len :: u32) = unat len" by (simp add: unsigned_ucast_eq take_bit_nat_eq_self)
  with assms show "(ucast len :: u32) \<le> c" by (simp add: word_le_nat_alt)
qed

lemma unat_of_nat_small: "n < 2 ^ 64 \<Longrightarrow> unat (of_nat n :: usize) = n"
  by (simp add: unsigned_of_nat take_bit_nat_eq_self)

lemma chunk_append_test:
  assumes "length data \<le> isize_max"
  shows "chunk_builder_len b + of_nat (length data) > chunk_builder_capacity b
    \<longleftrightarrow> unat (cb_capacity b) < unat (cb_len b) + length data"
proof -
  have "unat (cb_len b) < 2 ^ 32" using unsigned_less [of "cb_len b", where ?'a = nat] by simp
  moreover have len: "unat (of_nat (length data) :: usize) = length data"
    using assms by (intro unat_of_nat_small) (simp add: isize_max_def)
  ultimately have "unat (chunk_builder_len b + of_nat (length data)) = unat (cb_len b) + length data"
    using assms by (subst unat_add_usize) (simp_all add: chunk_builder_len_def isize_max_def)
  then show ?thesis by (simp add: word_less_nat_alt chunk_builder_capacity_def)
qed

lemma chunk_append_full:
  assumes "length data \<le> isize_max" and "unat (cb_capacity b) < unat (cb_len b) + length data"
  shows "chunk_builder_append data b w = Some (Inr (Inl \<lparr>cf_capacity = ucast (cb_capacity b),
    cf_len = ucast (cb_len b), cf_attempted = of_nat (length data)\<rparr>), b, w)"
  using chunk_append_test [OF assms(1), of b] assms(2)
  by (simp add: chunk_builder_append_def chunk_builder_len_def chunk_builder_capacity_def)

section \<open>Writing through a builder\<close>

text \<open>What the operations that write need of a builder in a state where it is \<open>ok\<close>: its mutable slice is its range,
  it may store any bytes there and set any length within its capacity, and is \<open>ok\<close> again.\<close>

locale writable_builder =
  fixes ok :: "chunk_builder \<Rightarrow> chunk_world \<Rightarrow> bool"
  assumes writable: "ok b w \<Longrightarrow> \<exists>s X. chunk_builder_as_mut_slice b w = Some s \<and> sl_len s = unat (cb_capacity b)
      \<and> slice_bytes s (w_heap w) = Some X \<and> builder_bytes b w = Some X \<and> length X = unat (cb_capacity b)
      \<and> (\<forall>Y. length Y = sl_len s \<longrightarrow> (\<exists>h. slice_write s Y (w_heap w) = Some h
           \<and> ok b (w\<lparr>w_heap := h\<rparr>) \<and> builder_bytes b (w\<lparr>w_heap := h\<rparr>) = Some Y))"
    and resize: "ok b w \<Longrightarrow> l \<le> cb_capacity b \<Longrightarrow> ok (b\<lparr>cb_len := l\<rparr>) w"
begin

lemma writableE:
  assumes "ok b w"
  obtains s X where "chunk_builder_as_mut_slice b w = Some s" and "sl_len s = unat (cb_capacity b)"
    and "slice_bytes s (w_heap w) = Some X" and "builder_bytes b w = Some X" and "length X = unat (cb_capacity b)"
    and "\<And>Y. length Y = unat (cb_capacity b) \<Longrightarrow> \<exists>h. slice_write s Y (w_heap w) = Some h
      \<and> ok b (w\<lparr>w_heap := h\<rparr>) \<and> builder_bytes b (w\<lparr>w_heap := h\<rparr>) = Some Y"
  using writable [OF assms] by auto

lemma set_len: "ok b w \<Longrightarrow> chunk_builder_set_len len b = (r, b') \<Longrightarrow> ok b' w"
  using resize [of b w "ucast len"] ucast_len(2) [of len "cb_capacity b"]
  by (auto simp: chunk_builder_set_len_eq split: if_splits)

text \<open>A closure run on the slice of the builder.\<close>

lemma run_init:
  assumes ok: "ok b w" and f: "keeps_length f" and X: "builder_bytes b w = Some X"
  shows "\<exists>w'. chunk_run_init f b w = Some (case snd (f X) of None \<Rightarrow> Inl CallbackPanicked | Some v \<Rightarrow> Inr v, w')
    \<and> ok b w' \<and> builder_bytes b w' = Some (fst (f X))"
proof -
  from ok obtain s where s: "chunk_builder_as_mut_slice b w = Some s" "slice_bytes s (w_heap w) = Some X"
    "length X = unat (cb_capacity b)" and wr: "\<And>Y. length Y = unat (cb_capacity b) \<Longrightarrow> \<exists>h. slice_write s Y (w_heap w) = Some h
      \<and> ok b (w\<lparr>w_heap := h\<rparr>) \<and> builder_bytes b (w\<lparr>w_heap := h\<rparr>) = Some Y"
    using X by (elim writableE) auto
  have len: "length (fst (f X)) = length X" using f by (simp add: keeps_length_def)
  with s wr [of "fst (f X)"] obtain h where h: "slice_write s (fst (f X)) (w_heap w) = Some h"
    "ok b (w\<lparr>w_heap := h\<rparr>)" "builder_bytes b (w\<lparr>w_heap := h\<rparr>) = Some (fst (f X))" by auto
  with s(1,2) len show ?thesis
    by (auto simp: chunk_run_init_def run_init_def case_prod_unfold Let_def)
qed

lemma append_fits:
  assumes ok: "ok b w" and X: "builder_bytes b w = Some X"
    and fits: "unat (cb_len b) + length data \<le> unat (cb_capacity b)"
  shows "\<exists>b' w'. chunk_builder_append data b w = Some (Inr (Inr ()), b', w') \<and> ok b' w'
    \<and> unat (cb_len b') = unat (cb_len b) + length data
    \<and> builder_bytes b' w' = Some (take (unat (cb_len b)) X @ data @ drop (unat (cb_len b) + length data) X)"
proof -
  have cap: "unat (cb_capacity b) < 2 ^ 32" using unsigned_less [of "cb_capacity b", where ?'a = nat] by simp
  then have small: "length data \<le> isize_max" using fits by (simp add: isize_max_def)
  note test = chunk_append_test [OF small, of b]
  let ?l = "unat (cb_len b)"
  have add: "unat (cb_len b + of_nat (length data)) = ?l + length data"
    using fits cap by (simp add: unat_word_ariths unsigned_of_nat take_bit_nat_eq_self)
  show ?thesis
  proof (cases "data = []")
    case True
    with test fits X ok show ?thesis
      by (intro exI [of _ b] exI [of _ w]) (simp add: chunk_builder_append_def Let_def)
  next
    case False
    let ?Y = "take ?l X @ data @ drop (?l + length data) X"
    from ok obtain s where s: "chunk_builder_as_mut_slice b w = Some s" "sl_len s = unat (cb_capacity b)"
      "slice_bytes s (w_heap w) = Some X" "length X = unat (cb_capacity b)"
      and wr: "\<And>Y. length Y = unat (cb_capacity b) \<Longrightarrow> \<exists>h. slice_write s Y (w_heap w) = Some h
        \<and> ok b (w\<lparr>w_heap := h\<rparr>) \<and> builder_bytes b (w\<lparr>w_heap := h\<rparr>) = Some Y"
      using X by (elim writableE) auto
    have "length ?Y = unat (cb_capacity b)" using fits s(4) by simp
    from wr [OF this] obtain h where h: "slice_write s ?Y (w_heap w) = Some h"
      "ok b (w\<lparr>w_heap := h\<rparr>)" "builder_bytes b (w\<lparr>w_heap := h\<rparr>) = Some ?Y" by blast
    have range: "slice_range s ?l (?l + length data)
        = Inr (s\<lparr>sl_off := sl_off s + ?l, sl_len := length data\<rparr>)" using fits s(2) by (simp add: slice_range_def)
    have wr: "slice_write (s\<lparr>sl_off := sl_off s + ?l, sl_len := length data\<rparr>) data (w_heap w) = Some h"
      using slice_write_sub [OF s(3), of ?l data] fits s(2) h(1) False by simp
    let ?b = "b\<lparr>cb_len := cb_len b + of_nat (length data)\<rparr>"
    have "ok ?b (w\<lparr>w_heap := h\<rparr>)" using h(2) add fits by (intro resize) (simp_all add: word_le_nat_alt)
    moreover have "chunk_builder_append data b w = Some (Inr (Inr ()), ?b, w\<lparr>w_heap := h\<rparr>)"
      using test fits False s(1) range wr
      by (simp add: chunk_builder_append_def copy_from_slice_def chunk_builder_len_def Let_def)
    ultimately show ?thesis using add h(3) by (intro exI [of _ ?b] exI [of _ "w\<lparr>w_heap := h\<rparr>"]) simp
  qed
qed

lemma append_ok:
  assumes ok: "ok b w" and data: "length data \<le> isize_max"
  shows "\<exists>r b' w'. chunk_builder_append data b w = Some (r, b', w') \<and> ok b' w'"
proof (cases "unat (cb_len b) + length data \<le> unat (cb_capacity b)")
  case True
  from ok obtain X where "builder_bytes b w = Some X" by (rule writableE)
  from append_fits [OF ok this True] show ?thesis by blast
next
  case False
  with chunk_append_full [OF data, of b w] ok show ?thesis by simp
qed

text \<open>The filling steps of the three helpers.\<close>

lemma fill_with_len:
  assumes ok: "ok b w" and f: "keeps_length f"
  shows "\<exists>r b' w'. chunk_fill_with_len f b w = Some (r, b', w') \<and> ok b' w'"
proof -
  from ok obtain X where "builder_bytes b w = Some X" by (rule writableE)
  from run_init [OF ok f this] obtain r w' where run: "chunk_run_init f b w = Some (r, w')" "ok b w'" by blast
  then show ?thesis using set_len [OF run(2)] by (cases r) (auto simp: chunk_fill_with_len_def split: prod.split)
qed

lemma fill_with:
  assumes ok: "ok b w" and f: "keeps_length f"
  shows "\<exists>r b' w'. chunk_fill_with sz f b w = Some (r, b', w') \<and> ok b' w'"
proof -
  from ok obtain X where "builder_bytes b w = Some X" by (rule writableE)
  from run_init [OF ok f this] obtain r w' where run: "chunk_run_init f b w = Some (r, w')" "ok b w'" by blast
  then show ?thesis using set_len [OF run(2)] by (cases r) (auto simp: chunk_fill_with_def split: prod.split)
qed

lemma fill_from_eq:
  assumes ok: "ok b w"
  shows "\<exists>w'. ok b w' \<and>
    (if data = [] then chunk_fill_from data b w = Some (Inr (), b, w) \<and> w' = w
     else if length data = unat (cb_capacity b)
     then chunk_fill_from data b w = Some (Inr (), b\<lparr>cb_len := cb_capacity b\<rparr>, w') \<and> builder_bytes b w' = Some data
     else chunk_fill_from data b w = Some (Inl SliceLength, b, w') \<and> w' = w)"
proof -
  from ok obtain s where s: "chunk_builder_as_mut_slice b w = Some s" "sl_len s = unat (cb_capacity b)"
    and wr: "\<And>Y. length Y = unat (cb_capacity b) \<Longrightarrow> \<exists>h. slice_write s Y (w_heap w) = Some h
      \<and> ok b (w\<lparr>w_heap := h\<rparr>) \<and> builder_bytes b (w\<lparr>w_heap := h\<rparr>) = Some Y" using writableE [OF ok] by metis
  show ?thesis
  proof (cases "data \<noteq> [] \<and> length data = unat (cb_capacity b)")
    case True
    with wr obtain h where h: "slice_write s data (w_heap w) = Some h"
      "ok b (w\<lparr>w_heap := h\<rparr>)" "builder_bytes b (w\<lparr>w_heap := h\<rparr>) = Some data" by blast
    have cap: "(of_nat (length data) :: usize) = ucast (cb_capacity b)"
    proof (rule unsigned_word_eqI)
      have "length data < 2 ^ 64" using True unsigned_less [of "cb_capacity b", where ?'a = nat] by simp
      then show "unat (of_nat (length data) :: usize) = unat (ucast (cb_capacity b) :: usize)"
        using True by (simp only: unat_of_nat_small unat_ucast_up)
    qed
    have "chunk_builder_set_len (of_nat (length data)) b = (Inr (), b\<lparr>cb_len := cb_capacity b\<rparr>)"
      using ucast_len(1) [of "ucast (cb_capacity b)" "cb_capacity b"] unfolding cap
      by (simp add: chunk_builder_set_len_eq unsigned_word_eqI)
    with True h s show ?thesis
      by (intro exI [of _ "w\<lparr>w_heap := h\<rparr>"])
        (auto simp: chunk_fill_from_def copy_from_slice_def Let_def)
  next
    case False
    with s ok show ?thesis
      by (intro exI [of _ w]) (auto simp: chunk_fill_from_def copy_from_slice_def Let_def)
  qed
qed

lemma fill_from:
  assumes ok: "ok b w"
  shows "\<exists>r b' w'. chunk_fill_from data b w = Some (r, b', w') \<and> ok b' w'"
proof -
  from fill_from_eq [OF ok, of data] obtain w' where st: "ok b w'"
    and eq: "if data = [] then chunk_fill_from data b w = Some (Inr (), b, w) \<and> w' = w
     else if length data = unat (cb_capacity b)
     then chunk_fill_from data b w = Some (Inr (), b\<lparr>cb_len := cb_capacity b\<rparr>, w') \<and> builder_bytes b w' = Some data
     else chunk_fill_from data b w = Some (Inl SliceLength, b, w') \<and> w' = w" by blast
  from resize [OF st, of "cb_capacity b"] st eq ok show ?thesis
    by (cases "data = []"; cases "length data = unat (cb_capacity b)") auto
qed

end

section \<open>Builders over any pool\<close>

text \<open>The mutable slice of a builder is its range: of a builder whose claim lies in a live block.\<close>

lemma builder_range:
  assumes "cb_packed b = Some j" and g: "get_packed j w = Some (pk, m)" and bs: "w_heap w (pk_buf pk) = Some bs"
    and le: "unat (cb_offset b) + unat (cb_capacity b) \<le> length bs"
  defines "p \<equiv> unat (cb_offset b)" and "n \<equiv> unat (cb_capacity b)"
  defines "s \<equiv> \<lparr>sl_base = pk_buf pk, sl_off = p, sl_len = n\<rparr>"
  shows "chunk_builder_as_mut_slice b w = Some s" and "slice_bytes s (w_heap w) = Some (take n (drop p bs))"
    and "builder_bytes b w = Some (take n (drop p bs))"
    and "length Y = n \<Longrightarrow> slice_write s Y (w_heap w) = Some ((w_heap w)(pk_buf pk \<mapsto> take p bs @ Y @ drop (p + n) bs))"
  using assms slice_bytes_eq [of "w_heap w" s bs] slice_write_eq [of "w_heap w" s bs Y]
  by (simp_all add: chunk_builder_as_mut_slice_def chunk_builder_capacity_def mem_read_def Let_def builder_bytes_def)

lemma zero_builder_range:
  assumes "cb_packed b = None" and "cb_capacity b = 0"
  defines "s \<equiv> \<lparr>sl_base = 1, sl_off = 0, sl_len = 0\<rparr>"
  shows "chunk_builder_as_mut_slice b w = Some s" and "slice_bytes s (w_heap w) = Some []" and "builder_bytes b w = Some []"
    and "slice_write s [] (w_heap w) = Some (w_heap w)"
  using assms by (simp_all add: chunk_builder_as_mut_slice_def slice_bytes_def builder_bytes_def slice_write_def)

text \<open>What writing operations share: they keep the builder but for its length, and write to its range only. \<open>C\<close> are the
  claims of everybody else.\<close>

definition range_step :: "(heap \<Rightarrow> chunk_world \<Rightarrow> addr multiset \<Rightarrow> bool) \<Rightarrow> heap \<Rightarrow> packed_page multiset
    \<Rightarrow> open_page option \<Rightarrow> claim multiset \<Rightarrow> chunk_builder \<Rightarrow> chunk_world \<Rightarrow> chunk_builder \<Rightarrow> chunk_world \<Rightarrow> bool" where
  "range_step life h0 Q opn C b w b' w' \<longleftrightarrow>
     held_inv life h0 Q opn w' (builder_claim b' + C) \<and> cbuilder_ok b' \<and> b' = b\<lparr>cb_len := cb_len b'\<rparr>
     \<and> same_handles w w' \<and> claims_kept C w w'"

lemma range_stepD:
  assumes "range_step life h0 Q opn C b w b' w'"
  shows "cb_capacity b' = cb_capacity b" and "builder_claim b' = builder_claim b" and "builder_charge b' = builder_charge b"
    and "cb_tenant b' = cb_tenant b"
proof -
  obtain l where l: "b' = b\<lparr>cb_len := l\<rparr>" using assms by (auto simp: range_step_def)
  show "cb_capacity b' = cb_capacity b" "builder_claim b' = builder_claim b" "builder_charge b' = builder_charge b"
    "cb_tenant b' = cb_tenant b" by (simp_all add: l builder_claim_def builder_charge_def split: option.split)
qed

context chunk_store
begin

lemma range_store:
  assumes inv: "held_inv life h0 Q opn w (builder_claim b + C)" and ok: "cbuilder_ok b"
  shows "\<exists>s X. chunk_builder_as_mut_slice b w = Some s \<and> sl_len s = unat (cb_capacity b)
    \<and> slice_bytes s (w_heap w) = Some X \<and> builder_bytes b w = Some X \<and> length X = unat (cb_capacity b)
    \<and> (\<forall>Y. length Y = sl_len s \<longrightarrow> (\<exists>h. slice_write s Y (w_heap w) = Some h
         \<and> range_step life h0 Q opn C b w b (w\<lparr>w_heap := h\<rparr>) \<and> builder_bytes b (w\<lparr>w_heap := h\<rparr>) = Some Y))"
proof (cases "cb_packed b")
  case None
  then have "cb_capacity b = 0" using ok by (simp add: cbuilder_ok_def)
  with zero_builder_range [OF None this, of w] inv ok show ?thesis by (simp add: range_step_def)
next
  case (Some j)
  let ?p = "unat (cb_offset b)" and ?n = "unat (cb_capacity b)"
  have cl: "builder_claim b + C = add_mset (j, ?p, ?n) C" using Some by (simp add: builder_claim_def)
  have "(j, ?p, ?n) \<in># builder_claim b + C" by (simp add: cl)
  with inv obtain pk m bs where g: "get_packed j w = Some (pk, m)" and bs: "w_heap w (pk_buf pk) = Some bs"
    and le: "?p + ?n \<le> length bs" by (rule held_live)
  note range = builder_range [OF Some g bs le]
  have "range_step life h0 Q opn C b w b (w\<lparr>w_heap := (w_heap w)(pk_buf pk \<mapsto> take ?p bs @ Y @ drop (?p + ?n) bs)\<rparr>)
      \<and> builder_bytes b (w\<lparr>w_heap := (w_heap w)(pk_buf pk \<mapsto> take ?p bs @ Y @ drop (?p + ?n) bs)\<rparr>) = Some Y"
    if Y: "length Y = ?n" for Y
    using held_write [OF inv [unfolded cl] g bs Y] ok Some
    by (simp add: range_step_def cl same_handles_def builder_bytes_def)
  with range le show ?thesis by (intro exI [of _ "\<lparr>sl_base = pk_buf pk, sl_off = ?p, sl_len = ?n\<rparr>"] exI) auto
qed

lemma range_step_trans:
  assumes "range_step life h0 Q opn C b w b1 w1" and "range_step life h0 Q opn C b1 w1 b2 w2"
  shows "range_step life h0 Q opn C b w b2 w2"
proof -
  have "b2 = b\<lparr>cb_len := cb_len b2\<rparr>"
    using assms unfolding range_step_def
    by (metis chunk_builder.ext_inject chunk_builder.surjective chunk_builder.update_convs(6))
  with assms show ?thesis using same_handles_trans claims_kept_trans unfolding range_step_def by blast
qed

end

sublocale chunk_store \<subseteq> range_writes: writable_builder "\<lambda>b' w'. range_step life h0 Q opn C b w b' w'" for h0 Q opn C b w
proof
  fix b' w' assume s: "range_step life h0 Q opn C b w b' w'"
  then have "held_inv life h0 Q opn w' (builder_claim b' + C)" "cbuilder_ok b'" by (simp_all add: range_step_def)
  from range_store [OF this] show "\<exists>s X. chunk_builder_as_mut_slice b' w' = Some s \<and> sl_len s = unat (cb_capacity b')
    \<and> slice_bytes s (w_heap w') = Some X \<and> builder_bytes b' w' = Some X \<and> length X = unat (cb_capacity b')
    \<and> (\<forall>Y. length Y = sl_len s \<longrightarrow> (\<exists>h. slice_write s Y (w_heap w') = Some h
         \<and> range_step life h0 Q opn C b w b' (w'\<lparr>w_heap := h\<rparr>) \<and> builder_bytes b' (w'\<lparr>w_heap := h\<rparr>) = Some Y))"
    using range_step_trans [OF s] by meson
  show "range_step life h0 Q opn C b w (b'\<lparr>cb_len := l\<rparr>) w'" if l: "l \<le> cb_capacity b'" for l
  proof -
    have "builder_claim (b'\<lparr>cb_len := l\<rparr>) = builder_claim b'" by (simp add: builder_claim_def split: option.split)
    with s l have "range_step life h0 Q opn C b' w' (b'\<lparr>cb_len := l\<rparr>) w'" by (simp add: range_step_def cbuilder_ok_def)
    with s show ?thesis by (rule range_step_trans)
  qed
qed

section \<open>Sequential programs\<close>

text \<open>What writing operations share: they keep the builder but for its length, write to its range only
  and touch no counter.\<close>

definition builder_step :: "heap \<Rightarrow> chunk_pool option \<Rightarrow> nat \<Rightarrow> chunk_builder multiset \<Rightarrow> chunk_builder \<Rightarrow> chunk_world
    \<Rightarrow> chunk_builder \<Rightarrow> chunk_world \<Rightarrow> bool" where
  "builder_step h0 cpo k B b w b' w' \<longleftrightarrow>
     chunk_inv h0 cpo k w' (add_mset b' B) \<and> b' = b\<lparr>cb_len := cb_len b'\<rparr> \<and> same_handles w w'
     \<and> claims_kept (chunk_claims w B) w w'"

lemma builder_step_refl: "chunk_inv h0 cpo k w (add_mset b B) \<Longrightarrow> builder_step h0 cpo k B b w b w"
  by (simp add: builder_step_def)

lemma builder_step_trans:
  assumes s1: "builder_step h0 cpo k B b w b1 w1" and s2: "builder_step h0 cpo k B b1 w1 b2 w2"
  shows "builder_step h0 cpo k B b w b2 w2"
proof -
  have "w_chunks w1 = w_chunks w" using s1 by (simp add: builder_step_def same_handles_def)
  from chunk_claims_cong [OF this, of B] have "claims_kept (chunk_claims w B) w w2"
    using s1 s2 by (auto simp: builder_step_def intro: claims_kept_trans)
  moreover have "b2 = b\<lparr>cb_len := cb_len b2\<rparr>"
    using s1 s2 unfolding builder_step_def
    by (metis chunk_builder.ext_inject chunk_builder.surjective chunk_builder.update_convs(6))
  ultimately show ?thesis using s1 s2 same_handles_trans by (auto simp: builder_step_def)
qed

lemma builder_step_capacity: "builder_step h0 cpo k B b w b' w' \<Longrightarrow> cb_capacity b' = cb_capacity b"
  unfolding builder_step_def
  by (metis chunk_builder.ext_inject chunk_builder.surjective chunk_builder.update_convs(6))

lemma builder_step_len:
  assumes s: "builder_step h0 cpo k B b w b' w'" and l: "l \<le> cb_capacity b"
  shows "builder_step h0 cpo k B b w (b'\<lparr>cb_len := l\<rparr>) w'"
proof -
  have inv: "chunk_inv h0 cpo k w' (add_mset b' B)" using s by (simp add: builder_step_def)
  have "builder_claim (b'\<lparr>cb_len := l\<rparr>) = builder_claim b'"
    by (simp add: builder_claim_def split: option.split)
  moreover have "cbuilder_ok (b'\<lparr>cb_len := l\<rparr>)"
    using chunk_invD(3) [OF inv, of b'] l builder_step_capacity [OF s] by (simp add: cbuilder_ok_def)
  ultimately have "chunk_inv h0 cpo k w' (add_mset (b'\<lparr>cb_len := l\<rparr>) B)" using inv by (simp add: chunk_inv_def)
  then have "builder_step h0 cpo k B b' w' (b'\<lparr>cb_len := l\<rparr>) w'" by (simp add: builder_step_def)
  with s show ?thesis by (rule builder_step_trans)
qed

lemma builder_step_range:
  assumes inv: "chunk_inv h0 cpo k w (add_mset b B)"
    and "range_step (\<lambda>h w U. pool_life h (pool_pages cpo) k w U) h0 {#} (pool_open cpo) (chunk_claims w B) b w b' w'"
  shows "builder_step h0 cpo k B b w b' w'"
proof -
  from assms(2) have ch: "w_chunks w' = w_chunks w" and ok: "cbuilder_ok b'" and kept: "claims_kept (chunk_claims w B) w w'"
    and core: "core_inv h0 (pool_pages cpo) (pool_open cpo) k w' (builder_claim b' + chunk_claims w B)"
    by (simp_all add: range_step_def same_handles_def core_held)
  have "chunk_inv h0 cpo k w' (add_mset b' B)"
    using inv core ok kept by (auto simp: chunk_inv_def chunk_claims_cong [OF ch] ch claims_kept_def)
  with assms(2) show ?thesis by (simp add: builder_step_def range_step_def)
qed

lemma builder_store:
  assumes inv: "chunk_inv h0 cpo k w (add_mset b B)"
  shows "\<exists>s X. chunk_builder_as_mut_slice b w = Some s \<and> sl_len s = unat (cb_capacity b)
    \<and> slice_bytes s (w_heap w) = Some X \<and> builder_bytes b w = Some X \<and> length X = unat (cb_capacity b)
    \<and> (\<forall>Y. length Y = sl_len s \<longrightarrow> (\<exists>h. slice_write s Y (w_heap w) = Some h
         \<and> builder_step h0 cpo k B b w b (w\<lparr>w_heap := h\<rparr>) \<and> builder_bytes b (w\<lparr>w_heap := h\<rparr>) = Some Y))"
proof -
  have "cbuilder_ok b" using chunk_invD(3) [OF inv, of b] by simp
  moreover have "held_inv (\<lambda>h w U. pool_life h (pool_pages cpo) k w U) h0 {#} (pool_open cpo) w (builder_claim b + chunk_claims w B)"
    using chunk_invD(1) [OF inv] by (simp add: core_held)
  ultimately show ?thesis using pool_chunks.range_store builder_step_range [OF inv] by meson
qed

interpretation chunk_writes: writable_builder "\<lambda>b' w'. builder_step h0 cpo k B b w b' w'" for h0 cpo k B b w
proof
  fix b' w' assume s: "builder_step h0 cpo k B b w b' w'"
  then have "chunk_inv h0 cpo k w' (add_mset b' B)" by (simp add: builder_step_def)
  from builder_store [OF this] show "\<exists>s X. chunk_builder_as_mut_slice b' w' = Some s \<and> sl_len s = unat (cb_capacity b')
    \<and> slice_bytes s (w_heap w') = Some X \<and> builder_bytes b' w' = Some X \<and> length X = unat (cb_capacity b')
    \<and> (\<forall>Y. length Y = sl_len s \<longrightarrow> (\<exists>h. slice_write s Y (w_heap w') = Some h
         \<and> builder_step h0 cpo k B b w b' (w'\<lparr>w_heap := h\<rparr>) \<and> builder_bytes b' (w'\<lparr>w_heap := h\<rparr>) = Some Y))"
    using builder_step_trans [OF s] by meson
  show "builder_step h0 cpo k B b w (b'\<lparr>cb_len := l\<rparr>) w'" if "l \<le> cb_capacity b'" for l
    using that builder_step_capacity [OF s] by (intro builder_step_len [OF s]) simp
qed

lemmas chunk_run_init_inv = chunk_writes.run_init [OF builder_step_refl]
lemmas chunk_append_fits = chunk_writes.append_fits [OF builder_step_refl]
lemmas chunk_fill_from_eq = chunk_writes.fill_from_eq [OF builder_step_refl]
lemmas set_len_step = chunk_writes.set_len

definition chunk_fill_ok :: "(chunk_builder \<Rightarrow> chunk_world \<Rightarrow> ((panic + unit) \<times> chunk_builder \<times> chunk_world) option) \<Rightarrow> bool" where
  "chunk_fill_ok fill \<longleftrightarrow> (\<forall>h0 cpo k w b B. chunk_inv h0 cpo k w (add_mset b B) \<longrightarrow>
     (\<exists>r b' w'. fill b w = Some (r, b', w') \<and> builder_step h0 cpo k B b w b' w'))"

lemma chunk_fills_ok:
  "keeps_length f \<Longrightarrow> chunk_fill_ok (chunk_fill_with_len f)" "keeps_length g \<Longrightarrow> chunk_fill_ok (chunk_fill_with sz g)"
  "chunk_fill_ok (chunk_fill_from data)"
  unfolding chunk_fill_ok_def
  by (intro allI impI chunk_writes.fill_with_len chunk_writes.fill_with chunk_writes.fill_from builder_step_refl; assumption)+

lemmas chunk_fill_with_len_ok = chunk_fills_ok(1)
lemmas chunk_fill_with_ok = chunk_fills_ok(2)
lemmas chunk_fill_from_ok = chunk_fills_ok(3)

lemma builder_bytes_some: "chunk_inv h0 cpo k w (add_mset b B) \<Longrightarrow>
  \<exists>X. builder_bytes b w = Some X \<and> length X = unat (cb_capacity b)"
  using builder_store by blast

text \<open>A builder of chunks keeps the contract of \<open>byte_builder\<close>.\<close>

lemma chunk_contents_live:
  assumes "chunk_inv h0 cpo k w (add_mset b B)"
  shows "\<exists>X. builder_bytes b w = Some X \<and> chunk_builder_as_slice b w = Some (take (unat (cb_len b)) X)
    \<and> unat (cb_len b) \<le> unat (cb_capacity b) \<and> length X = unat (cb_capacity b)"
proof -
  have ok: "cbuilder_ok b" using chunk_invD(3) [OF assms, of b] by simp
  from builder_bytes_some [OF assms] obtain X where "builder_bytes b w = Some X" "length X = unat (cb_capacity b)" by blast
  with builder_slice [OF ok] ok show ?thesis by (auto simp: cbuilder_ok_def word_le_nat_alt)
qed

lemma chunk_append_contents:
  assumes inv: "chunk_inv h0 cpo k w (add_mset b B)" and xs: "chunk_builder_as_slice b w = Some xs"
    and fits: "length xs + length d \<le> unat (cb_capacity b)"
  shows "\<exists>b' w'. chunk_builder_append d b w = Some (Inr (Inr ()), b', w') \<and> builder_step h0 cpo k B b w b' w'
    \<and> chunk_builder_as_slice b' w' = Some (xs @ d)"
proof -
  from chunk_contents_live [OF inv] xs obtain X where X: "builder_bytes b w = Some X" "xs = take (unat (cb_len b)) X"
    "unat (cb_len b) \<le> unat (cb_capacity b)" "length X = unat (cb_capacity b)" by auto
  then have len: "length xs = unat (cb_len b)" by simp
  from chunk_append_fits [OF inv X(1), of d] fits len obtain b' w' where
    app: "chunk_builder_append d b w = Some (Inr (Inr ()), b', w')" "builder_step h0 cpo k B b w b' w'"
      "unat (cb_len b') = unat (cb_len b) + length d"
      "builder_bytes b' w' = Some (take (unat (cb_len b)) X @ d @ drop (unat (cb_len b) + length d) X)" by auto
  from app(2) have "chunk_inv h0 cpo k w' (add_mset b' B)" by (simp add: builder_step_def)
  then have "cbuilder_ok b'" using chunk_invD(3) by fastforce
  from builder_slice [OF this app(4)] app(1,2,3) X len show ?thesis by (auto simp: min_def)
qed

interpretation chunk_bytes: byte_builder
  "\<lambda>b w. chunk_inv h0 cpo k w (add_mset b B)" "\<lambda>b w. unat (cb_capacity b)" chunk_builder_as_slice
  chunk_builder_append for h0 cpo k B
proof unfold_locales
  fix b w assume "chunk_inv h0 cpo k w (add_mset b B)"
  from chunk_contents_live [OF this] show "\<exists>xs. chunk_builder_as_slice b w = Some xs \<and> length xs \<le> unat (cb_capacity b)" by auto
next
  fix b w xs and d :: "u8 list" assume inv: "chunk_inv h0 cpo k w (add_mset b B)" and xs: "chunk_builder_as_slice b w = Some xs"
  { assume "length xs + length d \<le> unat (cb_capacity b)"
    from chunk_append_contents [OF inv xs this] show "\<exists>b' w'. chunk_builder_append d b w = Some (Inr (Inr ()), b', w')
        \<and> chunk_inv h0 cpo k w' (add_mset b' B) \<and> unat (cb_capacity b') = unat (cb_capacity b)
        \<and> chunk_builder_as_slice b' w' = Some (xs @ d)"
      by (metis builder_step_capacity builder_step_def) }
  assume "length d \<le> isize_max" "unat (cb_capacity b) < length xs + length d"
  moreover have "length xs = unat (cb_len b)" using chunk_contents_live [OF inv] xs by auto
  ultimately show "\<exists>e. chunk_builder_append d b w = Some (Inr (Inl e), b, w)" using chunk_append_full by fastforce
qed

end
