(* ===== verification/Chunk_Handles.thy ===== *)
theory Chunk_Handles
  imports Chunk_Builders
begin

text \<open>
  The life of builders and chunks of \<open>src/chunk.rs\<close>: sealing, cloning and dropping, the three helpers
  that allocate, fill and seal, and the operations of the pool that hand nothing out. Each is shown to
  have a defined result in any state that satisfies \<open>chunk_inv\<close>, to preserve the invariant and the
  accounts, and to leave the bytes of all other handles alone.
\<close>

section \<open>Seal, clone and drop\<close>

lemma get_chunk_Some:
  "get_chunk c w = Some (i, n) \<longleftrightarrow> c < length (w_chunks w) \<and> w_chunks w ! c = (i, n) \<and> n \<noteq> 0"
  by (simp add: get_chunk_def get_cell_Some)

text \<open>\<open>seal\<close> moves the range from the builder to a new chunk; the two reference counts it touches cancel.\<close>

definition sealed_inner :: "chunk_builder \<Rightarrow> chunk_inner" where
  "sealed_inner b = \<lparr>ci_packed = cb_packed b, ci_tenant = the (cb_tenant b), ci_oversized_bytes = cb_oversized_bytes b,
     ci_offset = cb_offset b, ci_capacity = cb_capacity b, ci_length = cb_len b\<rparr>"

lemma chunk_builder_seal_eq:
  assumes inv: "chunk_inv h0 cpo k w (add_mset b B)"
  shows "chunk_builder_seal b w
    = Some (Inr (length (w_chunks w)), w\<lparr>w_chunks := w_chunks w @ [(sealed_inner b, 1)]\<rparr>)"
proof -
  from chunk_invD(3) [OF inv, of b] obtain t where t: "cb_tenant b = Some t" by (auto simp: cbuilder_ok_def)
  show ?thesis
  proof (cases "cb_packed b")
    case None
    with t show ?thesis by (simp add: chunk_builder_seal_def sealed_inner_def chunk_builder_drop_def drop_packed_field_def Let_def)
  next
    case (Some j)
    note core = chunk_invD(1) [OF inv, unfolded builder_claim_mem [OF Some]]
    have "(j, unat (cb_offset b), unat (cb_capacity b))
        \<in># add_mset (j, unat (cb_offset b), unat (cb_capacity b)) (chunk_claims w B)" by simp
    with core obtain pk n where "get_packed j w = Some (pk, n)" by (rule core_inv_live)
    then have g: "j < length (w_packed w)" "w_packed w ! j = (pk, n)" "n \<noteq> 0"
      by (simp_all add: get_packed_def get_cell_Some)
    then have id: "(w_packed w)[j := (pk, n)] = w_packed w" by (metis list_update_id)
    have same: "w\<lparr>w_packed := w_packed w, w_chunks := cs\<rparr> = w\<lparr>w_chunks := cs\<rparr>" for cs by (cases w) simp
    show ?thesis using Some t g id same
      by (simp add: chunk_builder_seal_def sealed_inner_def chunk_builder_drop_def drop_packed_field_def Let_def
          packed_clone_def packed_drop_def get_packed_def get_cell_def)
  qed
qed

lemma chunk_inv_seal:
  assumes inv: "chunk_inv h0 cpo k w (add_mset b B)"
  shows "chunk_inv h0 cpo k (w\<lparr>w_chunks := w_chunks w @ [(sealed_inner b, 1)]\<rparr>) B"
proof -
  let ?w = "w\<lparr>w_chunks := w_chunks w @ [(sealed_inner b, 1)]\<rparr>"
  have "inner_claim (sealed_inner b) = builder_claim b" 
    by (simp add: inner_claim_def builder_claim_def sealed_inner_def split: option.split)
  then have "chunk_claims ?w B = chunk_claims w (add_mset b B)" by (simp add: chunk_claims_def)
  moreover have "core_inv h0 (pool_pages cpo) (pool_open cpo) k ?w C = core_inv h0 (pool_pages cpo) (pool_open cpo) k w C" for C
    by (rule core_inv_cong) simp_all
  moreover have "cinner_ok (sealed_inner b)"
    using chunk_invD(3) [OF inv, of b] by (simp add: cbuilder_ok_def cinner_ok_def sealed_inner_def)
  ultimately show ?thesis using inv by (auto simp: chunk_inv_def simp del: chunk_claims_add)
qed

lemma chunk_accounts_seal:
  assumes "cbuilder_ok b" and "chunk_accounts base w (add_mset b B)"
  shows "chunk_accounts base (w\<lparr>w_chunks := w_chunks w @ [(sealed_inner b, 1)]\<rparr>) B"
proof -
  have "inner_charge (sealed_inner b) = builder_charge b" by (simp add: inner_charge_def builder_charge_def sealed_inner_def)
  with assms(2) show ?thesis by (simp add: chunk_accounts_def chunk_charges_def)
qed

lemma uncount_chunk_simps [simp]:
  "w_heap (uncount_chunk t c m w) = w_heap w" "w_shared (uncount_chunk t c m w) = w_shared w"
  "w_strong (uncount_chunk t c m w) = w_strong w" "w_packed (uncount_chunk t c m w) = w_packed w"
  "w_chunks (uncount_chunk t c m w) = w_chunks w"
  "w_tenants (uncount_chunk t c m w) = (w_tenants w)(t := record_chunk_release (ucast c) (w_tenants w t))"
  by (simp_all add: uncount_chunk_def Let_def)

lemma uncount_chunk_stats [simp]:
  "w_cstats (uncount_chunk t c m w) = (w_cstats w)\<lparr>cs_chunks_in_use := cs_chunks_in_use (w_cstats w) - 1,
     cs_oversized_bytes_in_use := cs_oversized_bytes_in_use (w_cstats w) - m\<rparr>"
  by (cases "m = 0") (simp_all add: uncount_chunk_def fetch_sub_def word_gt_0 Let_def)

text \<open>The end of a handle: the charge is released and the reference to the block is dropped.\<close>

definition range_claim :: "nat option \<Rightarrow> nat \<Rightarrow> nat \<Rightarrow> claim multiset" where
  "range_claim p off n = (case p of None \<Rightarrow> {#} | Some j \<Rightarrow> {#(j, off, n)#})"

lemma release_handle:
  assumes inv: "core_inv h0 pp opn k w (range_claim p off n + C)"
  shows "\<exists>w'. drop_packed_field p (uncount_chunk t c m w) = Some w' \<and> core_inv h0 pp opn k w' C
    \<and> claims_kept C w w' \<and> same_handles (uncount_chunk t c m w) w'"
proof -
  let ?w = "uncount_chunk t c m w"
  have inv': "core_inv h0 pp opn k ?w (range_claim p off n + C)"
    using inv by (subst core_inv_cong [where w = w]) simp_all
  have kept: "claims_kept C ?w w' = claims_kept C w w'" for w' by (rule claims_kept_cong(2)) simp_all
  show ?thesis
  proof (cases p)
    case None
    with inv' kept [of ?w] show ?thesis by (simp add: drop_packed_field_def range_claim_def)
  next
    case (Some j)
    with inv' have "core_inv h0 pp opn k ?w (add_mset (j, off, n) C)" by (simp add: range_claim_def)
    from core_drop_claim [OF this] obtain w' where "packed_drop j ?w = Some w'" "core_inv h0 pp opn k w' C"
      "claims_kept C ?w w'" "w_tenants w' = w_tenants ?w" "packed_world.more w' = packed_world.more ?w" by blast
    with Some kept show ?thesis by (auto simp: drop_packed_field_def intro: same_handlesI)
  qed
qed

lemma chunk_builder_drop_inv:
  assumes inv: "chunk_inv h0 cpo k w (add_mset b B)"
  shows "\<exists>w'. chunk_builder_drop b w = Some w' \<and> chunk_inv h0 cpo k w' B \<and> claims_kept (chunk_claims w B) w w'
    \<and> w_chunks w' = w_chunks w \<and> (\<forall>base. chunk_accounts base w (add_mset b B) \<longrightarrow> chunk_accounts base w' B)"
proof -
  from chunk_invD(3) [OF inv, of b] obtain t where t: "cb_tenant b = Some t" by (auto simp: cbuilder_ok_def)
  have "builder_claim b = range_claim (cb_packed b) (unat (cb_offset b)) (unat (cb_capacity b))"
    by (simp add: builder_claim_def range_claim_def split: option.split)
  with chunk_invD(1) [OF inv] have "core_inv h0 (pool_pages cpo) (pool_open cpo) k w
      (range_claim (cb_packed b) (unat (cb_offset b)) (unat (cb_capacity b)) + chunk_claims w B)" by simp
  from release_handle [OF this, of t "cb_capacity b" "cb_oversized_bytes b"] obtain w' where
    w': "drop_packed_field (cb_packed b) (uncount_chunk t (cb_capacity b) (cb_oversized_bytes b) w) = Some w'"
      "core_inv h0 (pool_pages cpo) (pool_open cpo) k w' (chunk_claims w B)" "claims_kept (chunk_claims w B) w w'"
      "same_handles (uncount_chunk t (cb_capacity b) (cb_oversized_bytes b) w) w'" by blast
  have ch: "w_chunks w' = w_chunks w" using w'(4) by (simp add: same_handles_def)
  have "chunk_inv h0 cpo k w' B"
    using inv w'(2,3) ch by (auto simp: chunk_inv_def chunk_claims_cong [OF ch] claims_kept_def)
  moreover have "chunk_accounts base w' B" if "chunk_accounts base w (add_mset b B)" for base
    using that w'(4) t chunk_charged_remove [of base "w_tenants w" "w_cstats w" t "ucast (cb_capacity b)"
        "cb_oversized_bytes b" "chunk_charges w B"]
    by (simp add: chunk_accounts_def chunk_charges_add builder_charge_def same_handles_def chunk_charges_cong [OF ch])
  ultimately show ?thesis using w' t ch by (auto simp: chunk_builder_drop_def)
qed

lemma chunk_clone_inv:
  assumes "chunk_inv h0 cpo k w B" and "get_chunk c w = Some (i, n)"
  defines "w' \<equiv> w\<lparr>w_chunks := (w_chunks w)[c := (i, Suc n)]\<rparr>"
  shows "chunk_clone c w = Some (c, w')" and "chunk_inv h0 cpo k w' B"
    and "chunk_accounts base w B \<Longrightarrow> chunk_accounts base w' B"
proof -
  from assms(2) have c: "c < length (w_chunks w)" "w_chunks w ! c = (i, n)" "n \<noteq> 0" by (simp_all add: get_chunk_Some)
  have "\<exists>L. live_cells (w_chunks w) = add_mset i L
      \<and> live_cells ((w_chunks w)[c := (i, Suc n)]) = add_mset i L"
    by (rule live_cells_split [OF c]) (metis nat.distinct(1))
  then have live: "live_cells (w_chunks w') = live_cells (w_chunks w)" by (auto simp: w'_def)
  have "core_inv h0 (pool_pages cpo) (pool_open cpo) k w' C = core_inv h0 (pool_pages cpo) (pool_open cpo) k w C" for C
    by (rule core_inv_cong) (simp_all add: w'_def)
  with assms(1) live show "chunk_inv h0 cpo k w' B" by (simp add: chunk_inv_def chunk_claims_def) (simp add: w'_def)
  show "chunk_accounts base w' B" if "chunk_accounts base w B"
    using that live by (simp add: chunk_accounts_def chunk_charges_def) (simp add: w'_def)
  show "chunk_clone c w = Some (c, w')" using assms(2) by (simp add: chunk_clone_def w'_def)
qed

lemma chunk_drop_inv:
  assumes inv: "chunk_inv h0 cpo k w B" and g: "get_chunk c w = Some (i, n)"
  shows "\<exists>w'. chunk_drop c w = Some w' \<and> chunk_inv h0 cpo k w' B \<and> claims_kept (chunk_claims w' B) w w'
    \<and> w_chunks w' = (w_chunks w)[c := (i, n - 1)]
    \<and> (\<forall>base. chunk_accounts base w B \<longrightarrow> chunk_accounts base w' B)
    \<and> (n \<noteq> 1 \<longrightarrow> w' = w\<lparr>w_chunks := (w_chunks w)[c := (i, n - 1)]\<rparr>)"
proof -
  from g have c: "c < length (w_chunks w)" "w_chunks w ! c = (i, n)" "n \<noteq> 0" by (simp_all add: get_chunk_Some)
  let ?w = "w\<lparr>w_chunks := (w_chunks w)[c := (i, n - 1)]\<rparr>"
  from live_cells_split [OF c] obtain L where L: "live_cells (w_chunks w) = add_mset i L"
    "live_cells (w_chunks ?w) = (if n - 1 = 0 then L else add_mset i L)" by (metis chunk_world.select_convs(1) chunk_world.update_convs(1) chunk_world.surjective)
  have cong: "core_inv h0 (pool_pages cpo) (pool_open cpo) k ?w C = core_inv h0 (pool_pages cpo) (pool_open cpo) k w C" for C
    by (rule core_inv_cong) simp_all
  have keptc: "claims_kept C ?w w' = claims_kept C w w'" for C w' by (rule claims_kept_cong(2)) simp_all
  show ?thesis
  proof (cases "n = 1")
    case False
    then have live: "live_cells (w_chunks ?w) = live_cells (w_chunks w)" using L c(3) by auto
    have "chunk_inv h0 cpo k ?w B" using inv live cong by (simp add: chunk_inv_def chunk_claims_def)
    moreover have "chunk_accounts base ?w B" if "chunk_accounts base w B" for base
      using that live by (simp add: chunk_accounts_def chunk_charges_def)
    ultimately show ?thesis using False g keptc [of _ ?w]
      by (intro exI [of _ ?w]) (simp add: chunk_drop_def Let_def)
  next
    case True
    let ?C = "chunk_claims ?w B"
    have "inner_claim i = range_claim (ci_packed i) (unat (ci_offset i)) (unat (ci_capacity i))"
      by (simp add: inner_claim_def range_claim_def split: option.split)
    then have "chunk_claims w B = range_claim (ci_packed i) (unat (ci_offset i)) (unat (ci_capacity i)) + ?C"
      using L True by (simp add: chunk_claims_def)
    with chunk_invD(1) [OF inv] cong have "core_inv h0 (pool_pages cpo) (pool_open cpo) k ?w
        (range_claim (ci_packed i) (unat (ci_offset i)) (unat (ci_capacity i)) + ?C)" by simp
    from release_handle [OF this, of "ci_tenant i" "ci_capacity i" "ci_oversized_bytes i"] obtain w' where
      w': "drop_packed_field (ci_packed i) (uncount_chunk (ci_tenant i) (ci_capacity i) (ci_oversized_bytes i) ?w) = Some w'"
        "core_inv h0 (pool_pages cpo) (pool_open cpo) k w' ?C" "claims_kept ?C ?w w'"
        "same_handles (uncount_chunk (ci_tenant i) (ci_capacity i) (ci_oversized_bytes i) ?w) w'" by blast
    have ch: "w_chunks w' = w_chunks ?w" using w'(4) by (simp add: same_handles_def)
    have "chunk_inv h0 cpo k w' B"
      using inv w'(2,3) L True by (auto simp: chunk_inv_def chunk_claims_cong [OF ch] claims_kept_def ch)
    moreover have "chunk_accounts base w' B" if "chunk_accounts base w B" for base
      using that w'(4) L True chunk_charged_remove [of base "w_tenants w" "w_cstats w" "ci_tenant i" "ucast (ci_capacity i)"
          "ci_oversized_bytes i" "chunk_charges ?w B"]
      by (simp add: chunk_accounts_def chunk_charges_def inner_charge_def same_handles_def ch)
    ultimately show ?thesis using w'(1,3) True g ch keptc
      by (auto simp: chunk_drop_def chunk_inner_drop_def chunk_claims_cong [OF ch] Let_def)
  qed
qed

section \<open>The helpers\<close>

text \<open>Whatever the filling step does, the helper ends with a new chunk in the table or passes a panic on
  with the new range given back. No byte of any other handle changes.\<close>

definition chunk_filled :: "heap \<Rightarrow> nat \<Rightarrow> chunk_builder multiset \<Rightarrow> chunk_world \<Rightarrow> (panic + chunk) \<Rightarrow> chunk_pool
    \<Rightarrow> chunk_world \<Rightarrow> bool" where
  "chunk_filled h0 k B w r cp' w' \<longleftrightarrow>
     chunk_inv h0 (Some cp') k w' B \<and> claims_kept (chunk_claims w B) w w' \<and>
     (case r of
        Inl e \<Rightarrow> w_chunks w' = w_chunks w
      | Inr c \<Rightarrow> c = length (w_chunks w) \<and> (\<exists>i. w_chunks w' = w_chunks w @ [(i, 1)]))"

lemma builder_step_accounts:
  assumes "builder_step h0 cpo k B b w b' w'" and "chunk_accounts base w (add_mset b B)"
  shows "chunk_accounts base w' (add_mset b' B)"
proof -
  from assms(1) have b': "b' = b\<lparr>cb_len := cb_len b'\<rparr>" and same: "same_handles w w'" by (simp_all add: builder_step_def)
  have "builder_charge b' = builder_charge b" by (subst b') (simp add: builder_charge_def)
  moreover have "chunk_charges w' B = chunk_charges w B"
    using same by (intro chunk_charges_cong) (simp add: same_handles_def)
  ultimately show ?thesis using assms(2) same by (simp add: chunk_accounts_def chunk_charges_add same_handles_def)
qed

lemma is_power_of_two_default [simp]: "is_power_of_two default_align"
  by (simp add: default_align_def ptr_size_def)

lemma chunk_alloc_fill_inv:
  assumes inv: "chunk_inv h0 (Some cp) k w B" and fill: "chunk_fill_ok fill"
  shows "\<exists>r cp' w'. chunk_alloc_fill fill ga t sz cp w = Some (r, cp', w') \<and> chunk_filled h0 k B w r cp' w'
    \<and> (\<forall>base. unat sz < 2 ^ 32 \<longrightarrow> chunk_accounts base w B \<longrightarrow> chunk_accounts base w' B)"
proof -
  from allocate_aligned_inv [OF inv is_power_of_two_default, of ga t sz] obtain r1 cp1 w1 c where
    al: "chunk_allocate ga t sz cp w = Some (r1, cp1, w1)"
    and ok: "chunk_allocated h0 k B c (tenant_cell t) sz default_align w r1 cp1 w1"
    by (auto simp: chunk_allocate_def)
  show ?thesis
  proof (cases r1)
    case (Inl e)
    with ok have "chunk_charges w1 B = chunk_charges w B" by (intro chunk_charges_cong) (simp add: chunk_allocated_def)
    with Inl al ok show ?thesis
      by (auto simp: chunk_alloc_fill_def chunk_allocated_def chunk_filled_def chunk_accounts_def)
  next
    case (Inr b)
    with ok have inv1: "chunk_inv h0 (Some cp1) k w1 (add_mset b B)" and kept1: "claims_kept (chunk_claims w B) w w1"
      and ch1: "w_chunks w1 = w_chunks w" by (simp_all add: chunk_allocated_def)
    from fill inv1 obtain r2 b2 w2 where f: "fill b w1 = Some (r2, b2, w2)"
      and st: "builder_step h0 (Some cp1) k B b w1 b2 w2" unfolding chunk_fill_ok_def by metis
    have inv2: "chunk_inv h0 (Some cp1) k w2 (add_mset b2 B)" and ch2: "w_chunks w2 = w_chunks w"
      and kept2: "claims_kept (chunk_claims w B) w w2"
      using st ch1 kept1 chunk_claims_cong [OF ch1]
      by (auto simp: builder_step_def same_handles_def intro: claims_kept_trans)
    have acc: "chunk_accounts base w2 (add_mset b2 B)" if "unat sz < 2 ^ 32" "chunk_accounts base w B" for base
      using builder_step_accounts [OF st] chunk_allocated_accounts [OF ok [unfolded Inr] that(2,1)] .
    show ?thesis
    proof (cases r2)
      case (Inl e)
      from chunk_builder_drop_inv [OF inv2] obtain w3 where
        "chunk_builder_drop b2 w2 = Some w3" "chunk_inv h0 (Some cp1) k w3 B" "claims_kept (chunk_claims w2 B) w2 w3"
        "w_chunks w3 = w_chunks w2" "\<forall>base. chunk_accounts base w2 (add_mset b2 B) \<longrightarrow> chunk_accounts base w3 B" by blast
      with al Inr f Inl ch2 kept2 acc chunk_claims_cong [OF ch2] show ?thesis
        by (auto simp: chunk_alloc_fill_def chunk_filled_def intro: claims_kept_trans)
    next
      case (Inr u)
      let ?w = "w2\<lparr>w_chunks := w_chunks w2 @ [(sealed_inner b2, 1)]\<rparr>"
      have "claims_kept C w ?w = claims_kept C w w2" for C by (rule claims_kept_cong(1)) simp_all
      then have "chunk_filled h0 k B w (Inr (length (w_chunks w))) cp1 ?w"
        using chunk_inv_seal [OF inv2] kept2 ch2 by (simp add: chunk_filled_def)
      moreover have "chunk_accounts base ?w B" if "unat sz < 2 ^ 32" "chunk_accounts base w B" for base
        using chunk_accounts_seal [OF _ acc [OF that]] chunk_invD(3) [OF inv2, of b2] by simp
      ultimately show ?thesis
        using al \<open>r1 = Inr b\<close> f Inr chunk_builder_seal_eq [OF inv2] ch2 by (simp add: chunk_alloc_fill_def)
    qed
  qed
qed

section \<open>The pool\<close>

lemma core_life:
  assumes "core_inv h0 pp opn k w C"
  obtains h1 U where "pool_life h1 pp k w U"
  using assms by (auto simp: core_inv_def packed_inv_def store_inv_def)

lemma pool_frame_handles: "pool_frame w w' \<Longrightarrow> same_handles w w'"
  using pool_frame_packed(2) [of w w'] by (intro same_handlesI) (simp_all add: pool_frame_def)

lemma chunk_inv_same:
  assumes "chunk_inv h0 cpo k w B" and "same_handles w w'" and "claims_kept (chunk_claims w B) w w'"
    and "core_inv h0 (pool_pages cpo') (pool_open cpo') k' w' (chunk_claims w B)"
    and "pool_sizes cpo' (sh_page_size (w_shared w))"
  shows "chunk_inv h0 cpo' k' w' B"
proof -
  have "w_chunks w' = w_chunks w" using assms(2) by (simp add: same_handles_def)
  with assms chunk_claims_cong [OF this] show ?thesis by (simp add: chunk_inv_def claims_kept_def)
qed

lemma chunk_accounts_same: "same_handles w w' \<Longrightarrow> chunk_accounts base w' B = chunk_accounts base w B"
  by (simp add: chunk_accounts_def chunk_charges_def same_handles_def)

lemma chunk_prewarm_inv:
  assumes inv: "chunk_inv h0 (Some cp) k w B"
  shows "\<exists>r cp' w'. chunk_prewarm n cp w = Some (r, cp', w') \<and> chunk_inv h0 (Some cp') k w' B
    \<and> claims_kept (chunk_claims w B) w w' \<and> same_handles w w'"
proof -
  have core: "core_inv h0 (Some (cp_pages cp)) (cp_current cp) k w (chunk_claims w B)"
    using chunk_invD(1) [OF inv] by simp
  then obtain h1 U where "pool_life h1 (Some (cp_pages cp)) k w U" by (rule core_life)
  from pool_life_prewarm [OF this] obtain r pp' w' where
    pw: "prewarm n (cp_pages cp) w = Some (r, pp', w')" "pool_frame w w'" by blast
  have "pool_life h1 (Some pp') k w' U \<and> (\<forall>y. y \<in># U \<longrightarrow> w_heap w' y = w_heap w y)"
    if "pool_life h1 (Some (cp_pages cp)) k w U" for h1 U
    using pool_life_prewarm [OF that, of n] pw(1) by auto
  note step = core_pool_step [OF core pw(2) this]
  have "chunk_inv h0 (Some (cp\<lparr>cp_pages := pp'\<rparr>)) k w' B"
    by (rule chunk_inv_same [OF inv pool_frame_handles [OF pw(2)] step(2)])
      (use step(1) chunk_invD(2) [OF inv] in simp_all)
  with pw step(2) pool_frame_handles [OF pw(2)] show ?thesis by (simp add: chunk_prewarm_def)
qed

lemma chunk_pool_drop_inv:
  assumes inv: "chunk_inv h0 (Some cp) k w B"
  shows "\<exists>w'. chunk_pool_drop cp w = Some w' \<and> chunk_inv h0 None k w' B
    \<and> claims_kept (chunk_claims w B) w w' \<and> same_handles w w'"
proof -
  let ?C = "chunk_claims w B"
  have core: "core_inv h0 (Some (cp_pages cp)) (cp_current cp) k w ?C"
    using chunk_invD(1) [OF inv] by simp
  then obtain h1 U where "pool_life h1 (Some (cp_pages cp)) k w U" by (rule core_life)
  from pool_life_drop [OF this] obtain w1 where
    dr: "page_pool_drop (cp_pages cp) w = Some w1" "pool_frame w w1" by blast
  have "pool_life h1 None k w1 U \<and> (\<forall>y. y \<in># U \<longrightarrow> w_heap w1 y = w_heap w y)"
    if "pool_life h1 (Some (cp_pages cp)) k w U" for h1 U
    using pool_life_drop [OF that] dr(1) by auto
  note step = core_pool_step [OF core dr(2) this]
  obtain w' where w': "(case cp_current cp of None \<Rightarrow> Some w1 | Some opn \<Rightarrow> packed_drop (op_shared opn) w1) = Some w'"
    and c': "core_inv h0 None None k w' ?C" "claims_kept ?C w1 w'" "same_handles w1 w'"
  proof (cases "cp_current cp")
    case None
    with step(1) that show thesis by simp
  next
    case (Some opn)
    with step(1) have "core_inv h0 None (Some opn) k w1 ?C" by simp
    from core_retire [OF this] obtain w2 where "packed_drop (op_shared opn) w1 = Some w2" "core_inv h0 None None k w2 ?C"
      "claims_kept ?C w1 w2" "w_tenants w2 = w_tenants w1" "packed_world.more w2 = packed_world.more w1" by blast
    with Some that show thesis by (auto intro: same_handlesI)
  qed
  have kept: "claims_kept ?C w w'" using step(2) c'(2) by (rule claims_kept_trans)
  have same: "same_handles w w'" using pool_frame_handles [OF dr(2)] c'(3) by (rule same_handles_trans)
  have "chunk_inv h0 None k w' B" by (rule chunk_inv_same [OF inv same kept]) (use c'(1) in simp_all)
  with dr(1) w' kept same show ?thesis by (simp add: chunk_pool_drop_def)
qed

lemma chunk_scrape_inv:
  assumes inv: "chunk_inv h0 (Some cp) k w B"
  shows "chunk_inv h0 (Some cp) (Suc k) (clone_shared w) B \<and> claims_kept (chunk_claims w B) w (clone_shared w)
    \<and> same_handles w (clone_shared w)"
proof -
  have fr: "pool_frame w (clone_shared w)" by (simp add: pool_frame_def)
  have "pool_life h1 (Some (cp_pages cp)) (Suc k) (clone_shared w) U \<and> (\<forall>y. y \<in># U \<longrightarrow> w_heap (clone_shared w) y = w_heap w y)"
    if "pool_life h1 (pool_pages (Some cp)) k w U" for h1 U using pool_life_scrape that by simp
  note step = core_pool_step [OF chunk_invD(1) [OF inv] fr this]
  have "chunk_inv h0 (Some cp) (Suc k) (clone_shared w) B"
    by (rule chunk_inv_same [OF inv pool_frame_handles [OF fr] step(2)])
      (use step(1) chunk_invD(2) [OF inv] in simp_all)
  with step(2) pool_frame_handles [OF fr] show ?thesis by blast
qed

lemma chunk_unscrape_inv:
  assumes inv: "chunk_inv h0 cpo (Suc k) w B"
  shows "\<exists>w'. drop_shared w = Some w' \<and> chunk_inv h0 cpo k w' B \<and> claims_kept (chunk_claims w B) w w' \<and> same_handles w w'"
proof -
  from chunk_invD(1) [OF inv] obtain h1 U where "pool_life h1 (pool_pages cpo) (Suc k) w U" by (rule core_life)
  from pool_life_unscrape [OF this] obtain w' where dr: "drop_shared w = Some w'" "pool_frame w w'" by blast
  have "pool_life h1 (pool_pages cpo) k w' U \<and> (\<forall>y. y \<in># U \<longrightarrow> w_heap w' y = w_heap w y)"
    if "pool_life h1 (pool_pages cpo) (Suc k) w U" for h1 U using pool_life_unscrape [OF that] dr(1) by auto
  note step = core_pool_step [OF chunk_invD(1) [OF inv] dr(2) this]
  have "chunk_inv h0 cpo k w' B"
    by (rule chunk_inv_same [OF inv pool_frame_handles [OF dr(2)] step(2,1)])
      (simp_all add: chunk_invD(2) [OF inv])
  with dr(1) step(2) pool_frame_handles [OF dr(2)] show ?thesis by blast
qed

text \<open>A new pool, and the end of everything.\<close>

lemma from_pool_inv:
  assumes life: "pool_life (w_heap w0) (Some pp) 0 w {#}" and sz: "unat (sh_page_size (w_shared w)) \<le> 2 ^ 32"
    and none: "w_packed w = []" "w_chunks w = []" and fp: "from_pool pp w = (cp, w')"
  shows "chunk_inv (w_heap w0) (Some cp) 0 w' {#}"
proof -
  have w': "w' = w\<lparr>w_cstats := chunk_pool_stats_default\<rparr>" "cp = \<lparr>cp_pages = pp, cp_current = None,
      cp_threshold = sh_page_size (w_shared w) div 2\<rparr>" using fp by (auto simp: from_pool_def pool_page_size_def)
  have cong: "pool_life h1 p k w' U = pool_life h1 p k w U" for h1 p k U
    by (rule pool_life_cong) (simp_all add: w')
  have "packed_inv (w_heap w0) (Some pp) 0 w' {#}"
    unfolding packed_inv_def store_inv_def using life cong none by (auto simp: w' blocks_on_def)
  then show ?thesis
    using sz none by (simp add: chunk_inv_def core_inv_def claims_ok_def chunk_claims_def open_ok_def w')
qed

lemma from_pool_accounts: "w_chunks w = [] \<Longrightarrow> from_pool pp w = (cp, w') \<Longrightarrow> chunk_accounts (w_tenants w) w' {#}"
  by (auto simp: from_pool_def chunk_accounts_def chunk_charged_def chunk_charges_def chunk_pool_stats_default_def)

lemma chunk_inv_end:
  assumes "chunk_inv h0 None 0 w {#}" and "live_cells (w_chunks w) = {#}"
  shows "w_heap w = h0 \<and> w_strong w = 0"
proof (rule packed_inv_end)
  show "packed_inv h0 None 0 w {#}"
    using chunk_invD(1) [OF assms(1)] assms(2) by (simp add: core_inv_def chunk_claims_def)
qed

end
