(* ===== verification/Chunk_Calls.thy ===== *)
theory Chunk_Calls
  imports Chunk_Handles Page_Handles
begin

text \<open>
  The properties of the operations of \<open>src/chunk.rs\<close>, one call at a time, in any state that satisfies
  \<open>chunk_inv\<close>.
\<close>

section \<open>A concrete pool\<close>

text \<open>A pool of 64-byte pages in an empty memory: chunks of up to 32 bytes are packed.\<close>

definition chunk_start :: chunk_world where
  "chunk_start = \<lparr>w_heap = Map.empty, w_tenants = (\<lambda>_. tenant_stats_default),
     w_shared = w_shared empty_world, w_strong = 0, w_packed = [], w_chunks = [],
     w_cstats = chunk_pool_stats_default\<rparr>"

abbreviation chunk_source :: page_source where
  "chunk_source \<equiv> heap_vtable first_fit_alloc \<lparr>hs_page_size = 64, hs_layout = \<lparr>l_size = 64, l_align = 8\<rparr>\<rparr>"

definition chunk_demo :: chunk_world where
  "chunk_demo = snd (chunk_with_source chunk_source chunk_start)"

definition chunk_demo_pool :: chunk_pool where
  "chunk_demo_pool = \<lparr>cp_pages = demo_pool, cp_current = None, cp_threshold = 32\<rparr>"

lemma chunk_demo_eq: "chunk_with_source chunk_source chunk_start = (Inr chunk_demo_pool, chunk_demo)"
  by (simp add: chunk_demo_def chunk_demo_pool_def demo_pool_def chunk_with_source_def from_pool_def
      with_source_def heap_vtable_def ptr_size_def pool_page_size_def)

lemma chunk_demo_size: "sh_page_size (w_shared chunk_demo) = 64"
  by (simp add: chunk_demo_def chunk_with_source_def from_pool_def
      with_source_def heap_vtable_def ptr_size_def)

lemma chunk_demo_empty: "w_packed chunk_demo = []" "w_chunks chunk_demo = []" "w_heap chunk_demo = Map.empty"
  by (simp_all add: chunk_demo_def chunk_with_source_def from_pool_def
      with_source_def heap_vtable_def ptr_size_def chunk_start_def)

text \<open>A pool made by \<open>with_source\<close> starts in the invariant.\<close>

lemma chunk_with_source_inv:
  assumes src: "page_source_contract src" and new: "chunk_with_source src w = (Inr cp, w')"
    and none: "w_packed w = []" "w_chunks w = []" and sz: "unat (sh_page_size (w_shared w')) \<le> 2 ^ 32"
  shows "chunk_inv (w_heap w) (Some cp) 0 w' {#}" and "chunk_accounts (w_tenants w) w' {#}" and "w_chunks w' = []"
proof -
  from new obtain pp w1 where ws: "with_source src w = (Inr pp, w1)" and fp: "from_pool pp w1 = (cp, w')"
    by (auto simp: chunk_with_source_def split: prod.splits sum.splits)
  have same: "w_packed w1 = w_packed w" "w_chunks w1 = w_chunks w" "w_tenants w1 = w_tenants w"
    using ws by (auto simp: with_source_def Let_def split: if_splits)
  have "sh_page_size (w_shared w') = sh_page_size (w_shared w1)" using fp by (auto simp: from_pool_def)
  with from_pool_inv [OF pool_life_new [OF src ws] _ _ _ fp] sz none same
  show "chunk_inv (w_heap w) (Some cp) 0 w' {#}" by simp
  from from_pool_accounts [OF _ fp] none same show "chunk_accounts (w_tenants w) w' {#}" by simp
  from fp none same show "w_chunks w' = []" by (auto simp: from_pool_def)
qed

lemma chunk_demo_inv:
  "chunk_inv Map.empty (Some chunk_demo_pool) 0 chunk_demo {#}"
  "chunk_accounts (\<lambda>_. tenant_stats_default) chunk_demo {#}"
  using chunk_with_source_inv [OF heap_src.page_source_contract_axioms chunk_demo_eq]
  by (simp_all add: chunk_demo_size chunk_start_def)

text \<open>Evaluation of an allocation in the concrete pool.\<close>

lemmas chunk_demo_eval =
  chunk_allocate_def allocate_aligned_def allocate_packed_def chunk_demo_pool_def
  pool_page_size_def default_align_def ptr_size_def packed_loop.simps packed_fit_def retire_current_def
  open_new_page_def allocate_raw_page_def pop_local_def drain_return_queue_def allocate_fresh_def
  get_shared_def demo_pool_def isize_max_def with_source_def heap_vtable_def heap_allocate_def
  alloc_zeroed_def placeable_def first_fit_alloc_def first_fit_empty aligned_to_def Let_def packed_new_def
  chunk_demo_def chunk_with_source_def from_pool_def chunk_start_def get_packed_def get_cell_def align_up_def
  usize_saturating_add_def packed_clone_def is_power_of_two_default [unfolded default_align_def ptr_size_def]

lemma sealed_slice:
  "inner_as_slice (sealed_inner b) (w\<lparr>w_chunks := cs\<rparr>) = chunk_builder_as_slice b w"
  by (simp add: inner_as_slice_def sealed_inner_def chunk_builder_as_slice_def chunk_builder_len_def get_packed_def
      split: option.split)

text \<open>A helper whose filling step succeeds: the new chunk shows what the filled builder shows.\<close>

lemma chunk_alloc_fill_sealed:
  assumes al: "chunk_allocate ga t sz cp w = Some (Inr b, cp1, w1)" and ch1: "w_chunks w1 = w_chunks w"
    and f: "fill b w1 = Some (Inr (), b2, w2)" and st: "builder_step h0 (Some cp1) k B b w1 b2 w2"
  shows "\<exists>w'. chunk_alloc_fill fill ga t sz cp w = Some (Inr (length (w_chunks w)), cp1, w')
    \<and> chunk_as_slice (length (w_chunks w)) w' = chunk_builder_as_slice b2 w2
    \<and> chunk_len (length (w_chunks w)) w' = Some (ucast (cb_len b2))
    \<and> chunk_capacity (length (w_chunks w)) w' = Some (ucast (cb_capacity b))
    \<and> chunk_ref_count (length (w_chunks w)) w' = Some 1"
proof -
  from st have inv2: "chunk_inv h0 (Some cp1) k w2 (add_mset b2 B)" and ch2: "w_chunks w2 = w_chunks w"
    using ch1 by (simp_all add: builder_step_def same_handles_def)
  note cap = builder_step_capacity [OF st]
  have new: "get_chunk (length (w_chunks w)) (w2\<lparr>w_chunks := w_chunks w2 @ [(sealed_inner b2, 1)]\<rparr>)
      = Some (sealed_inner b2, 1)" using ch2 by (simp add: get_chunk_def get_cell_def nth_append)
  have "ci_length (sealed_inner b2) = cb_len b2" "ci_capacity (sealed_inner b2) = cb_capacity b"
    using cap by (simp_all add: sealed_inner_def)
  with new show ?thesis using al f chunk_builder_seal_eq [OF inv2] ch2
    by (simp add: chunk_alloc_fill_def chunk_as_slice_def chunk_len_def chunk_capacity_def chunk_ref_count_def sealed_slice)
qed

lemma chunk_demo_allocate:
  "\<exists>b cp w. chunk_allocate first_fit_alloc demo_tenant 3 chunk_demo_pool chunk_demo = Some (Inr b, cp, w)"
  by (simp add: chunk_demo_eval)

section \<open>Properties\<close>

text \<open>C26: The size classes of \<open>ChunkPool::allocate_aligned\<close>. An alignment that is no power of two fails
  the assertion. Otherwise the call either panics with the failure of the source or of the global
  allocator, and then changes no counter and no handle, or returns an empty builder over a range that
  starts at an address aligned as asked, whichever of the four paths served it; the counters show
  that the path is the one the size class names. No byte of any other builder or chunk changes.\<close>

theorem allocate_aligned_classes:
  assumes "chunk_inv h0 (Some cp) k w B"
  shows "if \<not> is_power_of_two align then allocate_aligned ga t sz align cp w = Some (Inl AssertFailed, cp, w)
    else \<exists>r cp' w'. allocate_aligned ga t sz align cp w = Some (r, cp', w')
      \<and> claims_kept (chunk_claims w B) w w' \<and> w_chunks w' = w_chunks w
      \<and> (case r of
           Inl e \<Rightarrow> chunk_inv h0 (Some cp') k w' B \<and> w_tenants w' = w_tenants w \<and> w_cstats w' = w_cstats w
         | Inr b \<Rightarrow> chunk_inv h0 (Some cp') k w' (add_mset b B)
             \<and> cb_tenant b = Some (tenant_cell t) \<and> cb_capacity b = ucast sz \<and> cb_len b = 0
             \<and> (if sz = 0 then cb_packed b = None
                else \<exists>a. builder_addr b w' = Some a \<and> aligned_to (unat align) a)
             \<and> w_cstats w' = class_stats
                 (size_class (unat (sh_page_size (w_shared w))) (unat align) (unat sz)) sz (w_cstats w))"
proof (cases "is_power_of_two align")
  case False
  then show ?thesis by (simp add: allocate_aligned_def)
next
  case True
  let ?c = "size_class (unat (sh_page_size (w_shared w))) (unat align) (unat sz)"
  have zero: "?c = ZeroSize \<longleftrightarrow> sz = 0" by (auto simp: size_class_def unat_eq_zero)
  from allocate_aligned_inv [OF assms True, of ga t sz] obtain r cp' w' where
    "allocate_aligned ga t sz align cp w = Some (r, cp', w')"
    "chunk_allocated h0 k B ?c (tenant_cell t) sz align w r cp' w'" by blast
  with True zero show ?thesis
    by (cases r) (auto simp: chunk_allocated_def new_builder_def)
qed

lemma is_power_of_two_16: "is_power_of_two 16"
  by (auto simp: is_power_of_two_iff intro!: exI [of _ 4])

lemma chunk_demo_aligned:
  "\<exists>b cp w. allocate_aligned first_fit_alloc demo_tenant 3 16 chunk_demo_pool chunk_demo = Some (Inr b, cp, w)"
  by (simp add: chunk_demo_eval is_power_of_two_16)

theorem allocate_aligned_classes_witness:
  "\<exists>b cp w a. allocate_aligned first_fit_alloc demo_tenant 3 16 chunk_demo_pool chunk_demo = Some (Inr b, cp, w)
     \<and> builder_addr b w = Some a \<and> aligned_to 16 a \<and> cs_packed_allocations (w_cstats w) = 1"
proof -
  from chunk_demo_aligned obtain b cp w where
    al: "allocate_aligned first_fit_alloc demo_tenant 3 16 chunk_demo_pool chunk_demo = Some (Inr b, cp, w)" by blast
  have st: "w_cstats chunk_demo = chunk_pool_stats_default"
    by (simp add: chunk_demo_def chunk_with_source_def from_pool_def with_source_def heap_vtable_def ptr_size_def)
  from allocate_aligned_classes [OF chunk_demo_inv(1), of 16 first_fit_alloc demo_tenant 3] al show ?thesis
    by (auto simp: is_power_of_two_16 chunk_demo_size size_class_def class_stats_def st
        chunk_pool_stats_default_def)
qed

lemma chunk_alloc_from_result:
  assumes inv: "chunk_inv h0 (Some cp) k w B" and data: "length data < 2 ^ 32"
  shows "\<exists>r cp' w'. chunk_alloc_from ga t data cp w = Some (r, cp', w')
    \<and> chunk_inv h0 (Some cp') k w' B \<and> claims_kept (chunk_claims w B) w w'
    \<and> (case r of
         Inl e \<Rightarrow> chunk_allocate ga t (of_nat (length data)) cp w = Some (Inl e, cp', w') \<and> w_chunks w' = w_chunks w
       | Inr c \<Rightarrow> c = length (w_chunks w) \<and> chunk_as_slice c w' = Some data
           \<and> chunk_len c w' = Some (of_nat (length data)) \<and> chunk_capacity c w' = Some (of_nat (length data))
           \<and> chunk_ref_count c w' = Some 1)"
proof -
  let ?sz = "of_nat (length data) :: usize"
  have un: "unat ?sz = length data" using data by (intro unat_of_nat_small) simp
  have cap64: "ucast (ucast ?sz :: u32) = ?sz" using data un by (intro ucast_small) simp
  have cap32: "unat (ucast ?sz :: u32) = length data"
    using data un by (metis cap64 unat_ucast_up)
  from allocate_aligned_inv [OF inv is_power_of_two_default, of ga t ?sz] obtain r1 cp1 w1 c where
    al: "chunk_allocate ga t ?sz cp w = Some (r1, cp1, w1)"
    and ok: "chunk_allocated h0 k B c (tenant_cell t) ?sz default_align w r1 cp1 w1"
    by (auto simp: chunk_allocate_def)
  show ?thesis
  proof (cases r1)
    case (Inl e)
    with al ok show ?thesis by (simp add: chunk_alloc_from_def chunk_alloc_fill_def chunk_allocated_def)
  next
    case (Inr b)
    with ok have inv1: "chunk_inv h0 (Some cp1) k w1 (add_mset b B)" and kept1: "claims_kept (chunk_claims w B) w w1"
      and ch1: "w_chunks w1 = w_chunks w" and b: "cb_capacity b = ucast ?sz" "cb_len b = 0"
      by (simp_all add: chunk_allocated_def new_builder_def)
    have len: "length data = unat (cb_capacity b)" using b(1) cap32 by simp
    from chunk_fill_from_eq [OF inv1, of data] obtain w2 where st: "builder_step h0 (Some cp1) k B b w1 b w2"
      and eq: "if data = [] then chunk_fill_from data b w1 = Some (Inr (), b, w1) \<and> w2 = w1
        else chunk_fill_from data b w1 = Some (Inr (), b\<lparr>cb_len := cb_capacity b\<rparr>, w2) \<and> builder_bytes b w2 = Some data"
      unfolding if_P [OF len] by blast
    let ?b = "b\<lparr>cb_len := cb_capacity b\<rparr>"
    have f: "chunk_fill_from data b w1 = Some (Inr (), ?b, w2)"
      and bytes: "builder_bytes ?b w2 = Some data"
    proof -
      have empty: "?b = b" if "data = []" using that b by simp
      show "chunk_fill_from data b w1 = Some (Inr (), ?b, w2)" using eq empty by (auto split: if_splits)
      from builder_bytes_some [of h0 "Some cp1" k w2 b B] st obtain X where
        "builder_bytes b w2 = Some X" "length X = unat (cb_capacity b)" by (auto simp: builder_step_def)
      with eq b(1) show "builder_bytes ?b w2 = Some data" by (auto split: if_splits)
    qed
    have st': "builder_step h0 (Some cp1) k B b w1 ?b w2" using builder_step_len [OF st, of "cb_capacity b"] by simp
    then have "cbuilder_ok ?b" using chunk_invD(3) [of h0 "Some cp1" k w2 "add_mset ?b B" ?b] by (simp add: builder_step_def)
    from builder_slice [OF this bytes] len have "chunk_builder_as_slice ?b w2 = Some data" by simp
    with chunk_alloc_fill_sealed [where fill = "chunk_fill_from data", OF al [unfolded Inr] ch1 f st'] b(1) cap64
      chunk_alloc_fill_inv [OF inv chunk_fill_from_ok [of data], of ga t ?sz]
    show ?thesis by (auto simp: chunk_alloc_from_def chunk_filled_def)
  qed
qed

lemma chunk_demo_chunk:
  "\<exists>cp w. chunk_alloc_from first_fit_alloc demo_tenant [1, 2, 3] chunk_demo_pool chunk_demo = Some (Inr 0, cp, w)"
proof -
  obtain r cp w where
    al: "chunk_alloc_from first_fit_alloc demo_tenant [1, 2, 3] chunk_demo_pool chunk_demo = Some (r, cp, w)"
    using chunk_alloc_from_result [OF chunk_demo_inv(1), of "[1, 2, 3]" first_fit_alloc demo_tenant] by auto
  with chunk_alloc_from_result [OF chunk_demo_inv(1), of "[1, 2, 3]" first_fit_alloc demo_tenant] chunk_demo_allocate
  show ?thesis by (cases r) (auto simp: chunk_demo_empty)
qed

text \<open>C28: \<open>ChunkPool::alloc_from\<close> is a round trip for data below 4 GiB: unless the allocation itself panics,
  the call returns a new chunk with one handle that shows exactly the bytes given, and no byte of any
  other builder or chunk changes.\<close>

theorem chunk_alloc_from_round_trip:
  assumes inv: "chunk_inv h0 (Some cp) k w B" and data: "length data < 2 ^ 32"
  shows "\<exists>r cp' w'. chunk_alloc_from ga t data cp w = Some (r, cp', w')
    \<and> chunk_inv h0 (Some cp') k w' B \<and> claims_kept (chunk_claims w B) w w'
    \<and> (case r of
         Inl e \<Rightarrow> chunk_allocate ga t (of_nat (length data)) cp w = Some (Inl e, cp', w') \<and> w_chunks w' = w_chunks w
       | Inr c \<Rightarrow> c = length (w_chunks w) \<and> chunk_as_slice c w' = Some data
           \<and> chunk_len c w' = Some (of_nat (length data)) \<and> chunk_capacity c w' = Some (of_nat (length data))
           \<and> chunk_ref_count c w' = Some 1)"
  using assms by (rule chunk_alloc_from_result)

theorem chunk_alloc_from_round_trip_witness:
  "\<exists>cp w. chunk_alloc_from first_fit_alloc demo_tenant [1, 2, 3] chunk_demo_pool chunk_demo = Some (Inr 0, cp, w)
     \<and> chunk_as_slice 0 w = Some [1, 2, 3] \<and> chunk_ref_count 0 w = Some 1"
  using chunk_alloc_from_round_trip [OF chunk_demo_inv(1), of "[1, 2, 3]" first_fit_alloc demo_tenant] chunk_demo_chunk
  by (auto simp: chunk_demo_empty)

text \<open>A builder of sixteen bytes in the concrete pool.\<close>

lemma chunk_demo_builder:
  obtains b cp w where "chunk_allocate first_fit_alloc demo_tenant 16 chunk_demo_pool chunk_demo = Some (Inr b, cp, w)"
    and "chunk_inv Map.empty (Some cp) 0 w {#b#}" and "cb_len b = 0" and "cb_capacity b = 16"
    and "chunk_builder_as_slice b w = Some []" and "w_chunks w = []"
proof -
  have "\<exists>b cp w. chunk_allocate first_fit_alloc demo_tenant 16 chunk_demo_pool chunk_demo = Some (Inr b, cp, w)"
    by (simp add: chunk_demo_eval)
  then obtain b cp w where al: "chunk_allocate first_fit_alloc demo_tenant 16 chunk_demo_pool chunk_demo = Some (Inr b, cp, w)"
    by blast
  with allocate_aligned_inv [OF chunk_demo_inv(1) is_power_of_two_default, of first_fit_alloc demo_tenant 16]
  have inv: "chunk_inv Map.empty (Some cp) 0 w {#b#}" and b: "cb_len b = 0" "cb_capacity b = 16" "w_chunks w = []"
    by (auto simp: chunk_allocate_def chunk_allocated_def new_builder_def chunk_demo_empty)
  from chunk_contents_live [OF inv] b(1) have "chunk_builder_as_slice b w = Some []" by auto
  with al inv b that show thesis by blast
qed

text \<open>C30: \<open>ChunkBuilder::append\<close>. When the bytes fit into the capacity asked for, they are added to the end
  of the contents and no byte of any other builder or chunk changes, not even of those that share the
  page; when they do not, the call reports capacity, length and the bytes attempted, and changes nothing.\<close>

theorem chunk_append_exact:
  assumes "chunk_inv h0 cpo k w (add_mset b B)" and "length data \<le> isize_max"
    and "chunk_builder_as_slice b w = Some xs"
  shows "if length xs + length data \<le> unat (cb_capacity b)
    then \<exists>b' w'. chunk_builder_append data b w = Some (Inr (Inr ()), b', w')
      \<and> chunk_inv h0 cpo k w' (add_mset b' B) \<and> chunk_builder_as_slice b' w' = Some (xs @ data)
      \<and> claims_kept (chunk_claims w B) w w'
    else chunk_builder_append data b w = Some (Inr (Inl \<lparr>cf_capacity = ucast (cb_capacity b),
      cf_len = ucast (cb_len b), cf_attempted = of_nat (length data)\<rparr>), b, w)"
proof -
  have len: "length xs = unat (cb_len b)" using chunk_contents_live [OF assms(1)] assms(3) by auto
  show ?thesis
    using chunk_append_contents [OF assms(1,3), of data] chunk_append_full [OF assms(2), of b w] len
    by (auto simp: builder_step_def)
qed

theorem chunk_append_exact_witness:
  "\<exists>b w b' w'. chunk_builder_append [1, 2, 3] b w = Some (Inr (Inr ()), b', w')
     \<and> chunk_builder_as_slice b' w' = Some [1, 2, 3]
     \<and> chunk_builder_append (replicate 17 0) b (w :: chunk_world)
       = Some (Inr (Inl \<lparr>cf_capacity = 16, cf_len = 0, cf_attempted = 17\<rparr>), b, w)"
proof -
  obtain b cp w where b: "chunk_inv Map.empty (Some cp) 0 w {#b#}" "cb_len b = 0" "cb_capacity b = 16"
    "chunk_builder_as_slice b w = Some []" by (rule chunk_demo_builder)
  from chunk_append_exact [OF b(1) _ b(4), of "[1, 2, 3]"] b(2,3) obtain b' w' where
    "chunk_builder_append [1, 2, 3] b w = Some (Inr (Inr ()), b', w')" "chunk_builder_as_slice b' w' = Some [1, 2, 3]"
    by (auto simp: isize_max_def)
  moreover have "chunk_builder_append (replicate 17 0) b w
      = Some (Inr (Inl \<lparr>cf_capacity = 16, cf_len = 0, cf_attempted = 17\<rparr>), b, w)"
    using chunk_append_exact [OF b(1) _ b(4), of "replicate 17 0"] b(2,3) by (simp add: isize_max_def)
  ultimately show ?thesis by blast
qed

text \<open>A record written to a chunk piece by piece: the pieces that fit are stored in order, without a
  gap, and writing stops at the first one that does not fit, which is left out as a whole.\<close>

theorem chunk_append_pieces:
  assumes "chunk_inv h0 cpo k w (add_mset b B)" and "chunk_builder_as_slice b w = Some xs"
    and "\<forall>d \<in> set ds. length d \<le> isize_max"
  shows "\<exists>b' w'. append_all chunk_builder_append ds b w
      = Some (drop (length (fitting (unat (cb_capacity b) - length xs) ds)) ds, b', w')
    \<and> chunk_inv h0 cpo k w' (add_mset b' B)
    \<and> chunk_builder_as_slice b' w' = Some (xs @ concat (fitting (unat (cb_capacity b) - length xs) ds))"
  using chunk_bytes.append_all_fitting [OF assms] by blast

lemma chunk_alloc_with_len_result:
  assumes inv: "chunk_inv h0 (Some cp) k w B" and f: "keeps_length f" and sz: "unat sz < 2 ^ 32"
    and al: "chunk_allocate ga t sz cp w = Some (Inr b, cp1, w1)" and X: "builder_bytes b w1 = Some X"
  shows "\<exists>r w'. chunk_alloc_with_len ga t sz f cp w = Some (r, cp1, w') \<and> chunk_inv h0 (Some cp1) k w' B
    \<and> claims_kept (chunk_claims w B) w w' \<and> (chunk_accounts base w B \<longrightarrow> chunk_accounts base w' B)
    \<and> (case snd (f X) of
         None \<Rightarrow> r = Inl CallbackPanicked \<and> w_chunks w' = w_chunks w
       | Some len \<Rightarrow> if unat sz < unat len then r = Inl AssertFailed \<and> w_chunks w' = w_chunks w
           else r = Inr (length (w_chunks w)) \<and> chunk_as_slice (length (w_chunks w)) w' = Some (take (unat len) (fst (f X)))
             \<and> chunk_capacity (length (w_chunks w)) w' = Some sz)"
proof -
  from allocate_aligned_inv [OF inv is_power_of_two_default, of ga t sz] al obtain c where
    ok: "chunk_allocated h0 k B c (tenant_cell t) sz default_align w (Inr b) cp1 w1"
    by (auto simp: chunk_allocate_def)
  then have inv1: "chunk_inv h0 (Some cp1) k w1 (add_mset b B)" and ch1: "w_chunks w1 = w_chunks w"
    and b: "cb_capacity b = ucast sz" by (simp_all add: chunk_allocated_def new_builder_def)
  have cap: "unat (cb_capacity b) = unat sz" using b ucast_small [OF sz] by (metis unat_ucast_up)
  from chunk_alloc_fill_inv [OF inv chunk_fill_with_len_ok [OF f], of ga t sz] obtain r cp' w' where
    fin: "chunk_alloc_with_len ga t sz f cp w = Some (r, cp', w')" "chunk_filled h0 k B w r cp' w'"
    and acc: "\<forall>base. unat sz < 2 ^ 32 \<longrightarrow> chunk_accounts base w B \<longrightarrow> chunk_accounts base w' B"
    by (auto simp: chunk_alloc_with_len_def)
  from chunk_run_init_inv [OF inv1 f X] obtain w2 where
    run: "chunk_run_init f b w1 = Some (case snd (f X) of None \<Rightarrow> Inl CallbackPanicked | Some v \<Rightarrow> Inr v, w2)"
    and st: "builder_step h0 (Some cp1) k B b w1 b w2" and X2: "builder_bytes b w2 = Some (fst (f X))" by blast
  note eval = chunk_alloc_with_len_def chunk_alloc_fill_def al run chunk_fill_with_len_def chunk_builder_set_len_eq cap
  have panics: "\<exists>w3. chunk_builder_drop b w2 = Some w3"
    using chunk_builder_drop_inv [of h0 "Some cp1" k w2 b B] st by (auto simp: builder_step_def)
  show ?thesis
  proof (cases "snd (f X)")
    case None
    with fin panics have "cp' = cp1 \<and> r = Inl CallbackPanicked" by (auto simp: eval)
    with fin acc sz None show ?thesis by (auto simp: chunk_filled_def)
  next
    case (Some len)
    show ?thesis
    proof (cases "unat sz < unat len")
      case True
      with fin panics Some have "cp' = cp1 \<and> r = Inl AssertFailed" by (auto simp: eval)
      with fin acc sz Some True show ?thesis by (auto simp: chunk_filled_def)
    next
      case False
      let ?b = "b\<lparr>cb_len := ucast len\<rparr>"
      have len: "unat (ucast len :: u32) = unat len" "(ucast len :: u32) \<le> cb_capacity b"
        using ucast_len [of len "cb_capacity b"] False cap by simp_all
      have st': "builder_step h0 (Some cp1) k B b w1 ?b w2" by (rule builder_step_len [OF st len(2)])
      then have "cbuilder_ok ?b" using chunk_invD(3) [of h0 "Some cp1" k w2 "add_mset ?b B" ?b] by (simp add: builder_step_def)
      from builder_slice [OF this, of w2 "fst (f X)"] X2 len(1)
      have "chunk_builder_as_slice ?b w2 = Some (take (unat len) (fst (f X)))" by simp
      moreover have "chunk_fill_with_len f b w1 = Some (Inr (), ?b, w2)" using Some False by (simp add: eval)
      note chunk_alloc_fill_sealed [where fill = "chunk_fill_with_len f", OF al ch1 this st']
      ultimately show ?thesis using fin acc sz Some False b ucast_small [OF sz]
        by (auto simp: chunk_filled_def chunk_alloc_with_len_def)
    qed
  qed
qed

text \<open>C29: \<open>ChunkPool::alloc_with_len\<close> on every branch, for requests below 4 GiB. A panic of the allocation is passed on.
  After a successful allocation: when the closure panics, or returns a length beyond the capacity, the panic is passed
  on with no chunk made; the builder's reference to its page is dropped and every in-use counter is what it was, while
  the pool keeps the write offset to which the allocation has advanced it. Otherwise the new chunk shows the first bytes
  of what the closure left, as many as it said. On no branch does a byte of another builder or chunk change.\<close>

theorem chunk_alloc_with_len_outcomes:
  assumes inv: "chunk_inv h0 (Some cp) k w B" and f: "keeps_length f" and sz: "unat sz < 2 ^ 32"
  shows "\<exists>ra cp1 w1 r w'. chunk_allocate ga t sz cp w = Some (ra, cp1, w1)
    \<and> chunk_alloc_with_len ga t sz f cp w = Some (r, cp1, w') \<and> chunk_inv h0 (Some cp1) k w' B
    \<and> claims_kept (chunk_claims w B) w w' \<and> (chunk_accounts base w B \<longrightarrow> chunk_accounts base w' B)
    \<and> (case ra of
         Inl e \<Rightarrow> r = Inl e \<and> w_chunks w' = w_chunks w
       | Inr b \<Rightarrow> (\<exists>X. builder_bytes b w1 = Some X
           \<and> (case snd (f X) of
                None \<Rightarrow> r = Inl CallbackPanicked \<and> w_chunks w' = w_chunks w
              | Some len \<Rightarrow> if unat sz < unat len then r = Inl AssertFailed \<and> w_chunks w' = w_chunks w
                  else r = Inr (length (w_chunks w)) \<and> chunk_as_slice (length (w_chunks w)) w' = Some (take (unat len) (fst (f X)))
                    \<and> chunk_capacity (length (w_chunks w)) w' = Some sz)))"
proof -
  from allocate_aligned_inv [OF inv is_power_of_two_default, of ga t sz] obtain ra cp1 w1 c where
    al: "chunk_allocate ga t sz cp w = Some (ra, cp1, w1)" "chunk_allocated h0 k B c (tenant_cell t) sz default_align w ra cp1 w1"
    by (auto simp: chunk_allocate_def)
  show ?thesis
  proof (cases ra)
    case (Inl e)
    from chunk_alloc_fill_inv [OF inv chunk_fill_with_len_ok [OF f], of ga t sz] obtain r cp' w' where
      fin: "chunk_alloc_with_len ga t sz f cp w = Some (r, cp', w')" "chunk_filled h0 k B w r cp' w'"
      and acc: "\<forall>base. unat sz < 2 ^ 32 \<longrightarrow> chunk_accounts base w B \<longrightarrow> chunk_accounts base w' B"
      by (auto simp: chunk_alloc_with_len_def)
    have "r = Inl e" "cp' = cp1" using fin(1) al(1) Inl by (simp_all add: chunk_alloc_with_len_def chunk_alloc_fill_def)
    with al(1) fin acc sz Inl show ?thesis by (auto simp: chunk_filled_def)
  next
    case (Inr b)
    then have "chunk_inv h0 (Some cp1) k w1 (add_mset b B)" using al(2) by (simp add: chunk_allocated_def)
    from builder_bytes_some [OF this] obtain X where X: "builder_bytes b w1 = Some X" by blast
    from chunk_alloc_with_len_result [OF inv f sz al(1) [unfolded Inr] X, of base] al(1) X Inr show ?thesis
      by (intro exI [of _ ra] exI [of _ cp1] exI [of _ w1]) auto
  qed
qed

theorem chunk_alloc_with_len_outcomes_witness:
  "\<exists>cp w. chunk_alloc_with_len first_fit_alloc demo_tenant 16 demo_panic chunk_demo_pool chunk_demo
       = Some (Inl CallbackPanicked, cp, w) \<and> w_chunks w = [] \<and> t_bytes_in_use (w_tenants w 0) = 0"
proof -
  obtain b cp w where b: "chunk_allocate first_fit_alloc demo_tenant 16 chunk_demo_pool chunk_demo = Some (Inr b, cp, w)"
    by (rule chunk_demo_builder)
  have "keeps_length demo_panic" by (auto simp: keeps_length_def demo_panic_def)
  from chunk_alloc_with_len_outcomes [OF chunk_demo_inv(1) this, of 16 first_fit_alloc demo_tenant "\<lambda>_. tenant_stats_default"]
    b chunk_demo_inv(2)
  obtain w' where "chunk_alloc_with_len first_fit_alloc demo_tenant 16 demo_panic chunk_demo_pool chunk_demo
      = Some (Inl CallbackPanicked, cp, w')" "w_chunks w' = []" "chunk_accounts (\<lambda>_. tenant_stats_default) w' {#}"
    by (auto simp: demo_panic_def chunk_demo_empty)
  then show ?thesis
    by (auto simp: chunk_accounts_def chunk_charged_def chunk_charges_def tenant_stats_default_def)
qed

text \<open>\<open>align_up\<close> on 64-bit words: for a power of two the result is the smallest multiple that is not
  below the value; when that multiple is \<open>2^64\<close>, which no pointer can hold, the result wraps to zero.\<close>

theorem align_up_rounds_up:
  assumes "is_power_of_two a"
  shows "if unat v + unat a \<le> 2 ^ 64
    then unat v \<le> unat (align_up v a) \<and> aligned_to (unat a) (align_up v a)
      \<and> (\<forall>m. unat v \<le> m \<longrightarrow> unat a dvd m \<longrightarrow> unat (align_up v a) \<le> m)
    else align_up v a = 0"
proof -
  let ?a = "unat a" and ?r = "round_up (unat a) (unat v)"
  have pos: "0 < ?a" using assms by (rule power_of_two_pos)
  note r = round_up_bounds [OF pos, of "unat v"]
  show ?thesis
  proof (cases "unat v + ?a \<le> 2 ^ 64")
    case True
    then have "?r < 2 ^ 64" using r by linarith
    then have "unat (align_up v a) = ?r" by (simp add: align_up_eq [OF assms])
    with True r round_up_least [OF pos] show ?thesis by (simp add: aligned_to_def mod_eq_0_iff_dvd)
  next
    case False
    obtain q where q: "2 ^ 64 = ?a * q" using power_of_two_dvd [OF assms] by (elim dvdE)
    obtain p where p: "?r = ?a * p" using r by (elim conjE dvdE)
    have "?a * (q - 1) = 2 ^ 64 - ?a" using q by (simp add: diff_mult_distrib2)
    moreover have "?a < 2 ^ 64" by simp
    then have "2 ^ 64 - ?a < ?r" using False conjunct1 [OF r] by linarith
    ultimately have "?a * (q - 1) < ?r" by simp
    then have "q \<le> p" using p pos by (simp add: mult_less_cancel1)
    then have "?a * q \<le> ?a * p" by (rule mult_le_mono2)
    then have "2 ^ 64 \<le> ?r" using p q by (simp only:)
    moreover have "unat v < 2 ^ 64" by simp
    then have "?r \<le> 2 ^ 64" by (intro round_up_least [OF pos _ power_of_two_dvd [OF assms]]) linarith
    ultimately have "unat (align_up v a) = 0" by (simp add: align_up_eq [OF assms])
    with False show ?thesis by (simp add: unat_eq_zero)
  qed
qed

text \<open>Requests of the packed class go to the packed path, and the room the class promises is enough.\<close>

lemma packed_class:
  assumes inv: "chunk_inv h0 (Some cp) k w B" and a: "is_power_of_two align"
    and cls: "size_class (unat (sh_page_size (w_shared w))) (unat align) (unat sz) = PackedSize"
  shows "allocate_aligned ga t sz align cp w = allocate_packed t sz align cp w" and "sz \<noteq> 0"
    and "packable (sh_page_size (w_shared w)) sz align"
proof -
  let ?ps = "sh_page_size (w_shared w)"
  have thr: "cp_threshold cp = ?ps div 2" and ps: "unat ?ps \<le> 2 ^ 32"
    using chunk_invD(2) [OF inv] by simp_all
  have half: "unat (?ps div 2) = unat ?ps div 2" by (simp add: unat_div)
  have pad: "unat (align - 1) = unat align - 1"
    using power_of_two_pos [OF a] by (subst unat_sub_usize) (simp_all add: word_le_nat_alt)
  have need: "usize_saturating_add sz (align - 1) \<le> ?ps \<longleftrightarrow> unat sz + (unat align - 1) \<le> unat ?ps"
    using usize_saturating_add_le [of ?ps sz "align - 1"] ps pad by simp
  show sz: "sz \<noteq> 0" using cls by (auto simp: size_class_def)
  show "packable ?ps sz align"
    using cls by (auto simp: size_class_def packable_def word_le_nat_alt split: if_splits)
  show "allocate_aligned ga t sz align cp w = allocate_packed t sz align cp w"
    using cls sz a need
    by (auto simp: allocate_aligned_def default_align_def ptr_size_def pool_page_size_def thr Let_def size_class_def
        half word_less_nat_alt word_le_nat_alt split: if_splits)
qed

text \<open>The test for room in exact arithmetic.\<close>

lemma packed_fit_exact:
  assumes inv: "chunk_inv h0 (Some cp) k w B" and cur: "cp_current cp = Some opn"
    and g: "get_packed (op_shared opn) w = Some (pk, n)" and a: "is_power_of_two align" and sz: "sz \<noteq> 0"
  defines "off \<equiv> round_up (unat align) (unat (pk_buf pk) + unat (op_write_offset opn)) - unat (pk_buf pk)"
  shows "packed_fit sz align cp w = Some (if off + unat sz \<le> unat (sh_page_size (w_shared w))
    then Some (opn, of_nat off) else None)"
proof -
  let ?ps = "sh_page_size (w_shared w)" and ?f = "fit_offset (pk_buf pk) (op_write_offset opn) align"
  have "core_inv h0 (Some (cp_pages cp)) (Some opn) k w (chunk_claims w B)"
    using chunk_invD(1) [OF inv] cur by simp
  then have b: "unat (pk_buf pk) + unat ?ps \<le> 2 ^ 64" "pk_buf pk \<noteq> 0" "unat ?ps \<le> isize_max"
      "unat (op_write_offset opn) \<le> unat ?ps" using g by (auto elim!: core_inv_open)
  have pos: "0 < unat sz" using sz by (simp add: unat_gt_0)
  have test: "usize_saturating_add ?f sz \<le> ?ps \<longleftrightarrow> unat ?f + unat sz \<le> unat ?ps"
    using b(3) by (intro usize_saturating_add_le) (simp add: isize_max_def)
  from fit_offset_cases [OF a b(1,4,2)] have "unat ?f + unat sz \<le> unat ?ps \<longleftrightarrow> off + unat sz \<le> unat ?ps"
    and "off + unat sz \<le> unat ?ps \<Longrightarrow> unat ?f = off" using pos b(1) unfolding off_def by linarith+
  moreover have "?f = of_nat off" if "unat ?f = off" using that by (metis of_nat_unat ucast_id)
  ultimately show ?thesis using cur g test
    by (auto simp: packed_fit_def fit_offset_def pool_page_size_def Let_def)
qed

text \<open>A range that does not fit retires the open page and is placed on a new one.\<close>

lemma packed_loop_reopens:
  assumes core: "pool_core h0 cp k w C" and cur: "cp_current cp = Some opn"
    and no: "packed_fit sz align cp w = Some None" and a: "is_power_of_two align" and sz: "sz \<noteq> 0"
    and room: "packable (sh_page_size (w_shared w)) sz align"
    and res: "packed_loop sz align cp w = Some (Inr (j, off), cp', w')"
  shows "j = length (w_packed w)"
proof -
  have "packed_inv h0 (Some (cp_pages cp)) k w (add_mset (op_shared opn) (image_mset fst C))"
    using core cur by (simp add: core_inv_def)
  from packed_drop_inv [OF this] obtain w1 where w1: "packed_drop (op_shared opn) w = Some w1"
    "length (w_packed w1) = length (w_packed w)" by auto
  have "core_inv h0 (Some (cp_pages cp)) (Some opn) k w C" using core cur by simp
  from core_retire [OF this] w1(1) have c1: "pool_core h0 (cp\<lparr>cp_current := None\<rparr>) k w1 C"
    and kept1: "claims_kept C w w1" by auto
  from open_new_page_ok [OF c1] obtain r cp2 w2 where op: "open_new_page (cp\<lparr>cp_current := None\<rparr>) w1 = Some (r, cp2, w2)"
    "pool_core h0 cp2 k w2 C" "claims_kept C w1 w2"
    and cur2: "case r of Inl e \<Rightarrow> cp_current cp2 = None
      | Inr _ \<Rightarrow> cp_current cp2 = Some \<lparr>op_shared = length (w_packed w1), op_write_offset = 0\<rparr>" by auto
  have loop: "packed_loop sz align cp w = (case r of Inl e \<Rightarrow> Some (Inl e, cp2, w2) | Inr _ \<Rightarrow> packed_loop sz align cp2 w2)"
    using no cur w1(1) op(1) by (simp add: packed_loop.simps [of sz align cp w] retire_current_def)
  with res obtain u where Inr: "r = Inr u" by (cases r) auto
  have "packable (sh_page_size (w_shared w2)) sz align" using room kept1 op(3) by (simp add: claims_kept_def)
  with fresh_page_fits [OF op(2) _ a sz] cur2 Inr obtain off2 where
    "packed_fit sz align cp2 w2 = Some (Some (\<lparr>op_shared = length (w_packed w1), op_write_offset = 0\<rparr>, off2))" by auto
  from packed_fit_hit [OF op(2) a sz this] Inr loop res w1(2) show ?thesis by auto
qed

text \<open>C27: The packed path is a bump allocator. While an open page has room behind its write offset, rounded
  up to the alignment, a packed chunk is placed there, the write offset moves to its end, and the page
  pool is not asked; otherwise the chunk starts a new page, the first free one.\<close>

theorem packed_path_bumps:
  assumes inv: "chunk_inv h0 (Some cp) k w B" and cur: "cp_current cp = Some opn"
    and g: "get_packed (op_shared opn) w = Some (pk, n)" and a: "is_power_of_two align"
    and cls: "size_class (unat (sh_page_size (w_shared w))) (unat align) (unat sz) = PackedSize"
  defines "off \<equiv> round_up (unat align) (unat (pk_buf pk) + unat (op_write_offset opn)) - unat (pk_buf pk)"
  shows "if off + unat sz \<le> unat (sh_page_size (w_shared w))
    then \<exists>b cp' w'. allocate_aligned ga t sz align cp w = Some (Inr b, cp', w')
      \<and> cb_packed b = Some (op_shared opn) \<and> unat (cb_offset b) = off
      \<and> cp_current cp' = Some (opn\<lparr>op_write_offset := of_nat (off + unat sz)\<rparr>)
      \<and> cp_pages cp' = cp_pages cp \<and> w_shared w' = w_shared w \<and> w_heap w' = w_heap w
    else \<forall>b cp' w'. allocate_aligned ga t sz align cp w = Some (Inr b, cp', w') \<longrightarrow>
      cb_packed b = Some (length (w_packed w))"
proof -
  let ?ps = "sh_page_size (w_shared w)"
  note cls = packed_class [OF inv a cls]
  note fit = packed_fit_exact [OF inv cur g a cls(2), folded off_def]
  have core: "pool_core h0 cp k w (chunk_claims w B)" and ps: "unat ?ps \<le> 2 ^ 32"
    using chunk_invD(1,2) [OF inv] by simp_all
  show ?thesis
  proof (cases "off + unat sz \<le> unat ?ps")
    case True
    have pos: "0 < unat sz" using cls(2) by (simp add: unat_gt_0)
    have small: "off < 2 ^ 32" using True ps pos by linarith
    then have off: "unat (of_nat off :: usize) = off" by (intro unat_of_nat_small) simp
    then have off32: "unat (ucast (of_nat off :: usize) :: u32) = off"
      using ucast_offset(1) [of "of_nat off" sz ?ps] True ps cls(2) by simp
    let ?w = "w\<lparr>w_packed := (w_packed w)[op_shared opn := (pk, Suc n)]\<rparr>"
    have end_at: "(of_nat off :: usize) + sz = of_nat (off + unat sz)" by simp
    have "packed_loop sz align cp w = Some (Inr (op_shared opn, of_nat off),
        cp\<lparr>cp_current := Some (opn\<lparr>op_write_offset := of_nat (off + unat sz)\<rparr>)\<rparr>, ?w)"
      using fit True g by (simp add: packed_loop.simps [of sz align cp w] packed_clone_def)
    with True cls(1) off32 show ?thesis by (simp add: allocate_packed_def Let_def)
  next
    case False
    with fit have no: "packed_fit sz align cp w = Some None" by simp
    have "j = length (w_packed w)" if "packed_loop sz align cp w = Some (Inr (j, o'), cp', w')" for j o' cp' w'
      by (rule packed_loop_reopens [OF core cur no a cls(2,3) that])
    with False cls(1) show ?thesis
      by (auto simp: allocate_packed_def Let_def bind_eq_Some_conv split: sum.split_asm prod.split_asm)
  qed
qed

theorem packed_path_bumps_witness:
  "\<exists>cp w b cp' w'. cp_current cp = Some \<lparr>op_shared = 0, op_write_offset = 13\<rparr>
     \<and> allocate_aligned first_fit_alloc demo_tenant 3 16 cp w = Some (Inr b, cp', w')
     \<and> cb_packed b = Some 0 \<and> unat (cb_offset b) = 16 \<and> w_heap w' = w_heap w"
proof -
  have "\<exists>b cp w. chunk_allocate first_fit_alloc demo_tenant 13 chunk_demo_pool chunk_demo = Some (Inr b, cp, w)
      \<and> cb_packed b = Some 0 \<and> cp_current cp = Some \<lparr>op_shared = 0, op_write_offset = 13\<rparr>
      \<and> w_packed w = [(\<lparr>pk_buf = 4096, pk_release = ReleasePool\<rparr>, 2)]"
    by (simp add: chunk_demo_eval count_chunk_def upd_cstats_def upd_tenant_def clone_shared_def upd_stats_def
        set_return_head_def)
  then obtain b cp w where al: "chunk_allocate first_fit_alloc demo_tenant 13 chunk_demo_pool chunk_demo = Some (Inr b, cp, w)"
    and b: "cb_packed b = Some 0" and cur: "cp_current cp = Some \<lparr>op_shared = 0, op_write_offset = 13\<rparr>"
    and pk: "w_packed w = [(\<lparr>pk_buf = 4096, pk_release = ReleasePool\<rparr>, 2)]" by blast
  from al allocate_aligned_inv [OF chunk_demo_inv(1) is_power_of_two_default, of first_fit_alloc demo_tenant 13]
  have inv: "chunk_inv Map.empty (Some cp) 0 w {#b#}" and ps: "sh_page_size (w_shared w) = 64"
    by (auto simp: chunk_allocate_def chunk_allocated_def claims_kept_def chunk_demo_size)
  have g: "get_packed (op_shared \<lparr>op_shared = 0, op_write_offset = 13\<rparr>) w
      = Some (\<lparr>pk_buf = 4096, pk_release = ReleasePool\<rparr>, 2)" by (simp add: get_packed_def get_cell_def pk)
  from packed_path_bumps [OF inv cur g is_power_of_two_16, of 3 first_fit_alloc demo_tenant]
  obtain b' cp' w' where "allocate_aligned first_fit_alloc demo_tenant 3 16 cp w = Some (Inr b', cp', w')"
    "cb_packed b' = Some 0" "unat (cb_offset b') = 16" "w_heap w' = w_heap w"
    by (auto simp: ps size_class_def round_up_def)
  with cur show ?thesis by blast
qed

text \<open>C31: A chunk of 4 GiB or more does not keep its size. The handle stores the capacity in 32 bits, so the
  builder offers only the size modulo \<open>2^32\<close>; the tenant is charged the full size on allocation and
  released the truncated capacity on drop, so the difference stays charged for ever.\<close>

theorem chunk_capacity_truncates:
  assumes inv: "chunk_inv h0 (Some cp) k w B" and a: "is_power_of_two align" and big: "2 ^ 32 \<le> unat sz"
    and al: "allocate_aligned ga t sz align cp w = Some (Inr b, cp', w')"
  shows "unat (cb_capacity b) = unat sz mod 2 ^ 32
    \<and> (\<exists>w''. chunk_builder_drop b w' = Some w''
       \<and> t_bytes_in_use (w_tenants w'' (tenant_cell t))
           = t_bytes_in_use (w_tenants w (tenant_cell t)) + of_nat (unat sz - unat sz mod 2 ^ 32)
       \<and> t_bytes_in_use (w_tenants w'' (tenant_cell t)) \<noteq> t_bytes_in_use (w_tenants w (tenant_cell t)))"
proof -
  let ?t = "tenant_cell t"
  from allocate_aligned_inv [OF inv a, of ga t sz] al obtain c where
    ok: "chunk_allocated h0 k B c ?t sz align w (Inr b) cp' w'" by auto
  then have inv': "chunk_inv h0 (Some cp') k w' (add_mset b B)" and b: "cb_tenant b = Some ?t" "cb_capacity b = ucast sz"
    and tab: "w_tenants w' = (w_tenants w)(?t := record_chunk_allocate sz (w_tenants w ?t))"
    by (simp_all add: chunk_allocated_def new_builder_def)
  have cap: "unat (ucast sz :: u32) = unat sz mod 2 ^ 32" by (simp add: unsigned_ucast_eq take_bit_eq_mod)
  have "builder_claim b = range_claim (cb_packed b) (unat (cb_offset b)) (unat (cb_capacity b))"
    by (simp add: builder_claim_def range_claim_def split: option.split)
  with chunk_invD(1) [OF inv'] have "core_inv h0 (Some (cp_pages cp')) (cp_current cp') k w'
      (range_claim (cb_packed b) (unat (cb_offset b)) (unat (cb_capacity b)) + chunk_claims w' B)" by simp
  from release_handle [OF this, of ?t "cb_capacity b" "cb_oversized_bytes b"] obtain w'' where
    d: "drop_packed_field (cb_packed b) (uncount_chunk ?t (cb_capacity b) (cb_oversized_bytes b) w') = Some w''"
      "same_handles (uncount_chunk ?t (cb_capacity b) (cb_oversized_bytes b) w') w''" by blast
  have bytes: "t_bytes_in_use (w_tenants w'' ?t) = t_bytes_in_use (w_tenants w ?t) + (sz - ucast (ucast sz :: u32))"
    using d(2) tab b(2)
    by (simp add: same_handles_def record_chunk_allocate_def record_chunk_release_def fetch_add_def fetch_sub_def Let_def)
  have le: "ucast (ucast sz :: u32) \<le> sz" using cap by (simp add: word_le_nat_alt)
  have un: "unat (sz - ucast (ucast sz :: u32)) = unat sz - unat sz mod 2 ^ 32"
    using le cap by (simp add: unat_sub_usize)
  have eq: "sz - ucast (ucast sz :: u32) = of_nat (unat sz - unat sz mod 2 ^ 32)"
    using un by (metis of_nat_unat ucast_id)
  have "unat sz mod 2 ^ 32 < unat sz" using big by (metis le_less_trans mod_less_divisor not_less zero_less_numeral zero_less_power order.strict_trans2)
  then have "sz - ucast (ucast sz :: u32) \<noteq> 0" using un by auto
  with bytes eq d(1) b cap show ?thesis by (simp add: chunk_builder_drop_def)
qed

lemma chunk_demo_oversized:
  "\<exists>b cp w. allocate_aligned first_fit_alloc demo_tenant 4294967299 8 chunk_demo_pool chunk_demo = Some (Inr b, cp, w)"
  by (simp add: chunk_demo_eval allocate_oversized_def from_size_align_def)

theorem chunk_capacity_truncates_witness:
  "\<exists>b cp w w'. allocate_aligned first_fit_alloc demo_tenant 4294967299 8 chunk_demo_pool chunk_demo = Some (Inr b, cp, w)
     \<and> unat (cb_capacity b) = 3 \<and> chunk_builder_drop b w = Some w' \<and> t_bytes_in_use (w_tenants w' 0) = 4294967296"
proof -
  from chunk_demo_oversized obtain b cp w where
    al: "allocate_aligned first_fit_alloc demo_tenant 4294967299 8 chunk_demo_pool chunk_demo = Some (Inr b, cp, w)" by blast
  have "w_tenants chunk_demo 0 = tenant_stats_default"
    by (simp add: chunk_demo_def chunk_with_source_def from_pool_def with_source_def heap_vtable_def ptr_size_def chunk_start_def)
  with chunk_capacity_truncates [OF chunk_demo_inv(1) is_power_of_two_8 _ al] al show ?thesis
    by (auto simp: demo_tenant_def tenant_stats_default_def)
qed

end
