(* ===== verification/Chunk_System.thy ===== *)
theory Chunk_System
  imports Chunk_Calls Client_Runs
begin

text \<open>
  Whole programs over a chunk pool: an owner that allocates, prewarms and drops the pool, holders of
  builders and chunks on any thread, and metrics scrapers, in any order. A call is allowed when Rust's
  ownership rules let the client make it. The flag \<open>exact\<close> restricts programs to requests below
  4 GiB, the limit of the 32-bit capacity in a handle: memory safety does not need it, the accounts do.
\<close>

section \<open>Programs\<close>

record chunk_sys =
  c_pool :: "chunk_pool option"
  c_scrapers :: nat
  c_builders :: "chunk_builder list"
  c_world :: chunk_world

datatype chunk_cmd =
    ChunkAllocate tenant usize usize
  | ChunkAllocFrom tenant "u8 list"
  | ChunkAllocWith tenant usize "unit init"
  | ChunkAllocWithLen tenant usize "usize init"
  | ReadChunkBuilder nat
  | ChunkAppend nat "u8 list"
  | ChunkSetLen nat usize
  | ChunkFillSlice nat "unit init"
  | ChunkSeal nat
  | DropChunkBuilder nat
  | ReadChunk chunk
  | CloneChunk chunk
  | DropChunk chunk
  | ChunkPrewarm usize
  | DropChunkPool
  | CloneChunkShared
  | DropChunkShared

fun chunk_allowed :: "bool \<Rightarrow> chunk_cmd \<Rightarrow> chunk_sys \<Rightarrow> bool" where
  "chunk_allowed exact (ChunkAllocate t sz align) s = (c_pool s \<noteq> None \<and> (exact \<longrightarrow> unat sz < 2 ^ 32))"
| "chunk_allowed exact (ChunkAllocFrom t data) s = (c_pool s \<noteq> None \<and> length data \<le> isize_max
     \<and> (exact \<longrightarrow> length data < 2 ^ 32))"
| "chunk_allowed exact (ChunkAllocWith t sz f) s = (c_pool s \<noteq> None \<and> keeps_length f \<and> (exact \<longrightarrow> unat sz < 2 ^ 32))"
| "chunk_allowed exact (ChunkAllocWithLen t sz f) s = (c_pool s \<noteq> None \<and> keeps_length f \<and> (exact \<longrightarrow> unat sz < 2 ^ 32))"
| "chunk_allowed exact (ReadChunkBuilder i) s = (i < length (c_builders s))"
| "chunk_allowed exact (ChunkAppend i data) s = (i < length (c_builders s) \<and> length data \<le> isize_max)"
| "chunk_allowed exact (ChunkSetLen i len) s = (i < length (c_builders s))"
| "chunk_allowed exact (ChunkFillSlice i f) s = (i < length (c_builders s) \<and> keeps_length f)"
| "chunk_allowed exact (ChunkSeal i) s = (i < length (c_builders s))"
| "chunk_allowed exact (DropChunkBuilder i) s = (i < length (c_builders s))"
| "chunk_allowed exact (ReadChunk c) s = (get_chunk c (c_world s) \<noteq> None)"
| "chunk_allowed exact (CloneChunk c) s = (get_chunk c (c_world s) \<noteq> None)"
| "chunk_allowed exact (DropChunk c) s = (get_chunk c (c_world s) \<noteq> None)"
| "chunk_allowed exact (ChunkPrewarm n) s = (c_pool s \<noteq> None)"
| "chunk_allowed exact DropChunkPool s = (c_pool s \<noteq> None)"
| "chunk_allowed exact CloneChunkShared s = (c_pool s \<noteq> None)"
| "chunk_allowed exact DropChunkShared s = (c_scrapers s \<noteq> 0)"

text \<open>A helper returns a chunk or panics; the client goes on in both cases.\<close>

definition after_chunk_alloc :: "chunk_sys \<Rightarrow> ((panic + chunk) \<times> chunk_pool \<times> chunk_world) option \<Rightarrow> chunk_sys option" where
  "after_chunk_alloc s res = do { (r, cp, w) \<leftarrow> res; Some (s\<lparr>c_pool := Some cp, c_world := w\<rparr>) }"

fun chunk_exec :: "placement \<Rightarrow> chunk_cmd \<Rightarrow> chunk_sys \<Rightarrow> chunk_sys option" where
  "chunk_exec ga (ChunkAllocate t sz align) s = do {
     cp \<leftarrow> c_pool s;
     (r, cp, w) \<leftarrow> allocate_aligned ga t sz align cp (c_world s);
     Some (s\<lparr>c_pool := Some cp, c_world := w,
       c_builders := (case r of Inl e \<Rightarrow> c_builders s | Inr b \<Rightarrow> b # c_builders s)\<rparr>)
   }"
| "chunk_exec ga (ChunkAllocFrom t data) s = do {
     cp \<leftarrow> c_pool s; after_chunk_alloc s (chunk_alloc_from ga t data cp (c_world s)) }"
| "chunk_exec ga (ChunkAllocWith t sz f) s = do {
     cp \<leftarrow> c_pool s; after_chunk_alloc s (chunk_alloc_with ga t sz f cp (c_world s)) }"
| "chunk_exec ga (ChunkAllocWithLen t sz f) s = do {
     cp \<leftarrow> c_pool s; after_chunk_alloc s (chunk_alloc_with_len ga t sz f cp (c_world s)) }"
| "chunk_exec ga (ReadChunkBuilder i) s = do { _ \<leftarrow> chunk_builder_as_slice (c_builders s ! i) (c_world s); Some s }"
| "chunk_exec ga (ChunkAppend i data) s = do {
     (r, b, w) \<leftarrow> chunk_builder_append data (c_builders s ! i) (c_world s);
     Some (s\<lparr>c_builders := (c_builders s)[i := b], c_world := w\<rparr>)
   }"
| "chunk_exec ga (ChunkSetLen i len) s =
     (case chunk_builder_set_len len (c_builders s ! i) of
        (r, b) \<Rightarrow> Some (s\<lparr>c_builders := (c_builders s)[i := b]\<rparr>))"
| "chunk_exec ga (ChunkFillSlice i f) s = do {
     (r, w) \<leftarrow> chunk_run_init f (c_builders s ! i) (c_world s);
     Some (s\<lparr>c_world := w\<rparr>)
   }"
| "chunk_exec ga (ChunkSeal i) s = do {
     (r, w) \<leftarrow> chunk_builder_seal (c_builders s ! i) (c_world s);
     Some (s\<lparr>c_builders := remove_nth i (c_builders s), c_world := w\<rparr>)
   }"
| "chunk_exec ga (DropChunkBuilder i) s = do {
     w \<leftarrow> chunk_builder_drop (c_builders s ! i) (c_world s);
     Some (s\<lparr>c_builders := remove_nth i (c_builders s), c_world := w\<rparr>)
   }"
| "chunk_exec ga (ReadChunk c) s = do { _ \<leftarrow> chunk_as_slice c (c_world s); Some s }"
| "chunk_exec ga (CloneChunk c) s = do { (c', w) \<leftarrow> chunk_clone c (c_world s); Some (s\<lparr>c_world := w\<rparr>) }"
| "chunk_exec ga (DropChunk c) s = do { w \<leftarrow> chunk_drop c (c_world s); Some (s\<lparr>c_world := w\<rparr>) }"
| "chunk_exec ga (ChunkPrewarm n) s = do {
     cp \<leftarrow> c_pool s;
     (r, cp, w) \<leftarrow> chunk_prewarm n cp (c_world s);
     Some (s\<lparr>c_pool := Some cp, c_world := w\<rparr>)
   }"
| "chunk_exec ga DropChunkPool s = do {
     cp \<leftarrow> c_pool s;
     w \<leftarrow> chunk_pool_drop cp (c_world s);
     Some (s\<lparr>c_pool := None, c_world := w\<rparr>)
   }"
| "chunk_exec ga CloneChunkShared s =
     Some (s\<lparr>c_scrapers := Suc (c_scrapers s), c_world := clone_shared (c_world s)\<rparr>)"
| "chunk_exec ga DropChunkShared s = do {
     w \<leftarrow> drop_shared (c_world s);
     Some (s\<lparr>c_scrapers := c_scrapers s - 1, c_world := w\<rparr>)
   }"

abbreviation chunk_program :: "placement \<Rightarrow> bool \<Rightarrow> chunk_sys \<Rightarrow> chunk_cmd list \<Rightarrow> chunk_sys \<Rightarrow> bool" where
  "chunk_program ga exact \<equiv> run (chunk_allowed exact) (chunk_exec ga)"

definition chunk_sys_start :: "chunk_pool \<Rightarrow> chunk_world \<Rightarrow> chunk_sys" where
  "chunk_sys_start cp w = \<lparr>c_pool = Some cp, c_scrapers = 0, c_builders = [], c_world = w\<rparr>"

section \<open>The invariant of a program\<close>

definition chunk_sys_inv :: "heap \<Rightarrow> stats_table \<Rightarrow> bool \<Rightarrow> chunk_sys \<Rightarrow> bool" where
  "chunk_sys_inv h0 base exact s \<longleftrightarrow>
     chunk_inv h0 (c_pool s) (c_scrapers s) (c_world s) (mset (c_builders s)) \<and>
     (exact \<longrightarrow> chunk_accounts base (c_world s) (mset (c_builders s)))"

text \<open>What every call leaves of the chunks: no chunk that is gone comes back, and a chunk that is still
  live shows the same bytes.\<close>

definition chunks_stable :: "chunk_world \<Rightarrow> chunk_world \<Rightarrow> bool" where
  "chunks_stable w w' \<longleftrightarrow> (\<forall>c < length (w_chunks w). c < length (w_chunks w')
     \<and> (get_chunk c w' \<noteq> None \<longrightarrow> get_chunk c w \<noteq> None \<and> chunk_as_slice c w' = chunk_as_slice c w
          \<and> chunk_len c w' = chunk_len c w \<and> chunk_capacity c w' = chunk_capacity c w))"

section \<open>Lemmas\<close>

lemma inner_slice_prefix:
  assumes "cinner_ok i" and "ci_packed i = Some j"
    and "claim_bytes w (j, unat (ci_offset i), unat (ci_capacity i)) = Some X"
  shows "inner_as_slice i w = Some (take (unat (ci_length i)) X)"
proof -
  have "unat (ci_length i) \<le> unat (ci_capacity i)" using assms(1) by (simp add: cinner_ok_def word_le_nat_alt)
  from claim_bytes_prefix [OF assms(3) this] assms(2) show ?thesis by (simp add: inner_as_slice_def)
qed

lemma live_inner_claim:
  assumes "i \<in># live_cells (w_chunks w)" and "ci_packed i = Some j"
  shows "(j, unat (ci_offset i), unat (ci_capacity i)) \<in># chunk_claims w B"
proof -
  from multi_member_split [OF assms(1)] obtain L where "live_cells (w_chunks w) = add_mset i L" by blast
  with assms(2) show ?thesis by (simp add: chunk_claims_def inner_claim_def)
qed

text \<open>Every live chunk is well formed and its range is in live memory.\<close>

definition chunks_readable :: "chunk_world \<Rightarrow> bool" where
  "chunks_readable w \<longleftrightarrow> (\<forall>i. i \<in># live_cells (w_chunks w) \<longrightarrow>
     cinner_ok i \<and> (\<forall>c. c \<in># inner_claim i \<longrightarrow> (\<exists>X. claim_bytes w c = Some X \<and> length X = snd (snd c))))"

context buffer_life
begin

lemma held_bytes:
  assumes "held_inv life h0 Q opn w C" and "(j, p, n) \<in># C"
  shows "\<exists>X. claim_bytes w (j, p, n) = Some X \<and> length X = n"
  by (rule held_live [OF assms]) (auto simp: mem_read_def)

end

context chunk_store
begin

lemma held_readable:
  assumes inv: "held_inv life h0 Q opn w C" and C: "\<And>i c. i \<in># live_cells (w_chunks w) \<Longrightarrow> c \<in># inner_claim i \<Longrightarrow> c \<in># C"
    and ok: "\<And>i. i \<in># live_cells (w_chunks w) \<Longrightarrow> cinner_ok i"
  shows "chunks_readable w"
  unfolding chunks_readable_def
proof (intro allI impI conjI)
  fix i c assume "i \<in># live_cells (w_chunks w)" "c \<in># inner_claim i"
  from held_bytes [OF inv, of "fst c" "fst (snd c)" "snd (snd c)"] C [OF this]
  show "\<exists>X. claim_bytes w c = Some X \<and> length X = snd (snd c)" by simp
qed (rule ok)

end

lemma inner_claims_sub:
  assumes "i \<in># live_cells (w_chunks w)" and "c \<in># inner_claim i"
  shows "c \<in># chunk_claims w B"
  using assms live_inner_claim [OF assms(1)] by (cases "ci_packed i") (auto simp: inner_claim_def)

lemma chunk_inv_readable:
  assumes inv: "chunk_inv h0 cpo k w B"
  shows "chunks_readable w"
  by (rule pool_chunks.held_readable [OF chunk_invD(1) [OF inv, unfolded core_held]])
    (use inner_claims_sub chunk_invD(4) [OF inv] in blast)+

text \<open>The slice of a live chunk is defined, and has the length of the chunk.\<close>

lemma readable_range:
  assumes r: "chunks_readable w" and i: "i \<in># live_cells (w_chunks w)" and p: "ci_packed i = Some j"
  obtains X where "claim_bytes w (j, unat (ci_offset i), unat (ci_capacity i)) = Some X" and "length X = unat (ci_capacity i)"
proof -
  have "(j, unat (ci_offset i), unat (ci_capacity i)) \<in># inner_claim i" by (simp add: inner_claim_def p)
  with r i show thesis unfolding chunks_readable_def using that by (metis snd_conv)
qed

lemma readable_slice:
  assumes r: "chunks_readable w" and i: "i \<in># live_cells (w_chunks w)"
  shows "\<exists>xs. inner_as_slice i w = Some xs \<and> length xs = unat (ci_length i)"
proof -
  have ok: "cinner_ok i" using r i by (simp add: chunks_readable_def)
  show ?thesis
  proof (cases "ci_packed i")
    case None
    with ok show ?thesis by (auto simp: inner_as_slice_def cinner_ok_def word_le_nat_alt)
  next
    case (Some j)
    from r i Some obtain X where X: "claim_bytes w (j, unat (ci_offset i), unat (ci_capacity i)) = Some X"
      "length X = unat (ci_capacity i)" by (rule readable_range)
    with inner_slice_prefix [OF ok Some X(1)] ok show ?thesis by (auto simp: cinner_ok_def word_le_nat_alt)
  qed
qed

lemmas inner_slice_live = readable_slice [OF chunk_inv_readable]

lemma inner_slice_kept:
  assumes r: "chunks_readable w" and i: "i \<in># live_cells (w_chunks w)"
    and kept: "claims_kept D w w'" and D: "\<And>c. c \<in># inner_claim i \<Longrightarrow> c \<in># D"
  shows "inner_as_slice i w' = inner_as_slice i w"
proof (cases "ci_packed i")
  case None
  then show ?thesis by (simp add: inner_as_slice_def)
next
  case (Some j)
  let ?c = "(j, unat (ci_offset i), unat (ci_capacity i))"
  from r i Some obtain X where X: "claim_bytes w ?c = Some X" by (rule readable_range)
  have "?c \<in># D" using D Some by (simp add: inner_claim_def)
  with kept have "claim_bytes w' ?c = claim_bytes w ?c" unfolding claims_kept_def by blast
  then have X': "claim_bytes w' ?c = Some X" using X by (simp only:)
  have ok: "cinner_ok i" using r i by (simp add: chunks_readable_def)
  show ?thesis unfolding inner_slice_prefix [OF ok Some X] inner_slice_prefix [OF ok Some X'] ..
qed

lemma chunks_stableI:
  assumes inv: "chunks_readable w" and len: "length (w_chunks w) \<le> length (w_chunks w')"
    and ent: "\<And>c. c < length (w_chunks w) \<Longrightarrow> fst (w_chunks w' ! c) = fst (w_chunks w ! c)
       \<and> (snd (w_chunks w ! c) = 0 \<longrightarrow> snd (w_chunks w' ! c) = 0)"
    and kept: "claims_kept D w w'"
    and D: "\<And>i c. i \<in># live_cells (w_chunks w) \<Longrightarrow> i \<in># live_cells (w_chunks w') \<Longrightarrow> c \<in># inner_claim i \<Longrightarrow> c \<in># D"
  shows "chunks_stable w w'"
  unfolding chunks_stable_def
proof (intro allI impI conjI)
  fix c assume c: "c < length (w_chunks w)"
  then show "c < length (w_chunks w')" using len by simp
  assume "get_chunk c w' \<noteq> None"
  then obtain i n' where g': "get_chunk c w' = Some (i, n')" by auto
  then have "snd (w_chunks w ! c) \<noteq> 0" using ent [OF c] by (auto simp: get_chunk_Some)
  with ent [OF c] g' c obtain n where g: "get_chunk c w = Some (i, n)"
    by (cases "w_chunks w ! c") (auto simp: get_chunk_def get_cell_def split: if_splits)
  have live: "i \<in># live_cells (w_chunks w)" "i \<in># live_cells (w_chunks w')"
    using g g' by (auto simp: get_chunk_def dest: get_cell_live)
  from inner_slice_kept [OF inv live(1) kept] D [OF live] have "inner_as_slice i w' = inner_as_slice i w" by blast
  with g g' show "get_chunk c w \<noteq> None" and "chunk_as_slice c w' = chunk_as_slice c w"
    and "chunk_len c w' = chunk_len c w" and "chunk_capacity c w' = chunk_capacity c w"
    by (simp_all add: chunk_as_slice_def chunk_len_def chunk_capacity_def)
qed

text \<open>Calls that add chunks at the end of the table or none, and calls that change one count; \<open>D\<close> are claims that the call
  leaves alone.\<close>

lemma readable_append:
  assumes "chunks_readable w" and "w_chunks w' = w_chunks w @ cs" and "claims_kept D w w'"
    and "\<And>i c. i \<in># live_cells (w_chunks w) \<Longrightarrow> c \<in># inner_claim i \<Longrightarrow> c \<in># D"
  shows "chunks_stable w w'"
  by (rule chunks_stableI [OF assms(1) _ _ assms(3)]) (use assms(2,4) in \<open>auto simp: nth_append\<close>)

lemma readable_update:
  assumes "chunks_readable w" and g: "get_chunk c w = Some (i, n)"
    and w': "w_chunks w' = (w_chunks w)[c := (i, m)]" and kept: "claims_kept D w w'"
    and "\<And>i c. i \<in># live_cells (w_chunks w') \<Longrightarrow> c \<in># inner_claim i \<Longrightarrow> c \<in># D"
  shows "chunks_stable w w'"
proof (rule chunks_stableI [OF assms(1) _ _ kept])
  show "fst (w_chunks w' ! d) = fst (w_chunks w ! d) \<and> (snd (w_chunks w ! d) = 0 \<longrightarrow> snd (w_chunks w' ! d) = 0)"
    if "d < length (w_chunks w)" for d
    using that g by (cases "d = c") (auto simp: w' get_chunk_Some)
qed (use assms(5) in \<open>auto simp: w'\<close>)

lemma chunks_stable_append:
  assumes inv: "chunk_inv h0 cpo k w B" and "w_chunks w' = w_chunks w @ cs" and kept: "claims_kept (chunk_claims w D) w w'"
  shows "chunks_stable w w'"
  using readable_append [OF chunk_inv_readable [OF inv] assms(2) kept] inner_claims_sub by blast

lemma chunks_stable_same:
  assumes "chunk_inv h0 cpo k w B" and "w_chunks w' = w_chunks w" and "claims_kept (chunk_claims w D) w w'"
  shows "chunks_stable w w'"
  by (rule chunks_stable_append [OF assms(1) _ assms(3), of "[]"]) (simp add: assms(2))

lemma chunks_stable_update:
  assumes inv: "chunk_inv h0 cpo k w B" and g: "get_chunk c w = Some (i, n)"
    and w': "w_chunks w' = (w_chunks w)[c := (i, m)]" and kept: "claims_kept (chunk_claims w' D) w w'"
  shows "chunks_stable w w'"
  using readable_update [OF chunk_inv_readable [OF inv] g w' kept] inner_claims_sub by blast

lemma chunks_stable_refl: "chunks_stable w w"
  by (simp add: chunks_stable_def)

lemma chunks_stable_trans: "chunks_stable w1 w2 \<Longrightarrow> chunks_stable w2 w3 \<Longrightarrow> chunks_stable w1 w3"
  unfolding chunks_stable_def by metis

lemma chunk_sys_inv_builder:
  assumes "chunk_sys_inv h0 base exact s" and "i < length (c_builders s)"
  shows "chunk_inv h0 (c_pool s) (c_scrapers s) (c_world s)
      (add_mset (c_builders s ! i) (mset (remove_nth i (c_builders s))))"
    and "exact \<Longrightarrow> chunk_accounts base (c_world s) (add_mset (c_builders s ! i) (mset (remove_nth i (c_builders s))))"
  using assms by (simp_all add: chunk_sys_inv_def mset_remove_nth [symmetric])

definition chunk_call_ok :: "placement \<Rightarrow> heap \<Rightarrow> stats_table \<Rightarrow> bool \<Rightarrow> chunk_cmd \<Rightarrow> chunk_sys \<Rightarrow> bool" where
  "chunk_call_ok ga h0 base exact c s \<longleftrightarrow>
     (\<exists>s'. chunk_exec ga c s = Some s' \<and> chunk_sys_inv h0 base exact s' \<and> chunks_stable (c_world s) (c_world s'))"

lemma call_chunk_allocate:
  assumes sys: "chunk_sys_inv h0 base exact s" and pool: "c_pool s = Some cp" and sz: "exact \<Longrightarrow> unat sz < 2 ^ 32"
  shows "chunk_call_ok ga h0 base exact (ChunkAllocate t sz align) s"
proof (cases "is_power_of_two align")
  case False
  with sys pool show ?thesis
    by (simp add: chunk_call_ok_def allocate_aligned_def chunk_sys_inv_def chunks_stable_refl)
next
  case True
  let ?w = "c_world s" and ?B = "mset (c_builders s)"
  have inv: "chunk_inv h0 (Some cp) (c_scrapers s) ?w ?B" using sys pool by (simp add: chunk_sys_inv_def)
  from allocate_aligned_inv [OF inv True, of ga t sz] obtain r cp' w' cl where
    al: "allocate_aligned ga t sz align cp ?w = Some (r, cp', w')"
    and ok: "chunk_allocated h0 (c_scrapers s) ?B cl (tenant_cell t) sz align ?w r cp' w'" by blast
  have ch: "w_chunks w' = w_chunks ?w" and kept: "claims_kept (chunk_claims ?w ?B) ?w w'"
    using ok by (simp_all add: chunk_allocated_def)
  have same: "chunk_accounts base w' ?B = chunk_accounts base ?w ?B" if "r = Inl e" for e
    using ok that by (intro chunk_accounts_same) (simp add: chunk_allocated_def same_handles_def)
  have acc: "chunk_accounts base w' (add_mset b ?B)" if "r = Inr b" "exact" for b
    using chunk_allocated_accounts [OF ok [unfolded that(1)]] sys sz that(2) by (simp add: chunk_sys_inv_def)
  from ok same acc sys have "chunk_sys_inv h0 base exact (s\<lparr>c_pool := Some cp', c_world := w',
      c_builders := (case r of Inl e \<Rightarrow> c_builders s | Inr b \<Rightarrow> b # c_builders s)\<rparr>)"
    by (cases r) (simp_all add: chunk_allocated_def chunk_sys_inv_def)
  with al pool chunks_stable_same [OF inv ch kept] show ?thesis by (simp add: chunk_call_ok_def)
qed

lemma call_chunk_fill:
  assumes sys: "chunk_sys_inv h0 base exact s" and pool: "c_pool s = Some cp" and sz: "exact \<Longrightarrow> unat sz < 2 ^ 32"
    and fill: "chunk_fill_ok fill"
  shows "\<exists>s'. after_chunk_alloc s (chunk_alloc_fill fill ga t sz cp (c_world s)) = Some s'
    \<and> chunk_sys_inv h0 base exact s' \<and> chunks_stable (c_world s) (c_world s')"
proof -
  let ?w = "c_world s" and ?B = "mset (c_builders s)"
  have inv: "chunk_inv h0 (Some cp) (c_scrapers s) ?w ?B" using sys pool by (simp add: chunk_sys_inv_def)
  from chunk_alloc_fill_inv [OF inv fill, of ga t sz] obtain r cp' w' where
    al: "chunk_alloc_fill fill ga t sz cp ?w = Some (r, cp', w')" "chunk_filled h0 (c_scrapers s) ?B ?w r cp' w'"
    and acc: "\<forall>base. unat sz < 2 ^ 32 \<longrightarrow> chunk_accounts base ?w ?B \<longrightarrow> chunk_accounts base w' ?B" by blast
  then obtain cs where ch: "w_chunks w' = w_chunks ?w @ cs"
    by (cases r) (auto simp: chunk_filled_def)
  have kept: "claims_kept (chunk_claims ?w ?B) ?w w'" using al(2) by (simp add: chunk_filled_def)
  from al acc sys sz chunks_stable_append [OF inv ch kept] show ?thesis
    by (simp add: after_chunk_alloc_def chunk_sys_inv_def chunk_filled_def)
qed

lemma call_chunk_helpers:
  assumes sys: "chunk_sys_inv h0 base exact s" and pool: "c_pool s \<noteq> None"
  shows "length data \<le> isize_max \<Longrightarrow> (exact \<longrightarrow> length data < 2 ^ 32) \<Longrightarrow>
      chunk_call_ok ga h0 base exact (ChunkAllocFrom t data) s"
    and "keeps_length f \<Longrightarrow> (exact \<longrightarrow> unat sz < 2 ^ 32) \<Longrightarrow> chunk_call_ok ga h0 base exact (ChunkAllocWith t sz f) s"
    and "keeps_length g \<Longrightarrow> (exact \<longrightarrow> unat sz < 2 ^ 32) \<Longrightarrow> chunk_call_ok ga h0 base exact (ChunkAllocWithLen t sz g) s"
proof -
  from pool obtain cp where cp: "c_pool s = Some cp" by blast
  note fill = call_chunk_fill [OF sys cp]
  show "chunk_call_ok ga h0 base exact (ChunkAllocFrom t data) s"
    if "length data \<le> isize_max" "exact \<longrightarrow> length data < 2 ^ 32"
  proof -
    have "exact \<Longrightarrow> unat (of_nat (length data) :: usize) < 2 ^ 32"
      using that unat_of_nat_small [of "length data"] by (simp add: isize_max_def)
    from fill [OF this chunk_fill_from_ok [of data], of ga t] cp show ?thesis
      by (simp add: chunk_call_ok_def chunk_alloc_from_def)
  qed
  show "chunk_call_ok ga h0 base exact (ChunkAllocWith t sz f) s" if "keeps_length f" "exact \<longrightarrow> unat sz < 2 ^ 32"
    using fill [OF _ chunk_fill_with_ok [OF that(1)], of sz sz] that(2) cp
    by (simp add: chunk_call_ok_def chunk_alloc_with_def)
  show "chunk_call_ok ga h0 base exact (ChunkAllocWithLen t sz g) s" if "keeps_length g" "exact \<longrightarrow> unat sz < 2 ^ 32"
    using fill [OF _ chunk_fill_with_len_ok [OF that(1)], of sz] that(2) cp
    by (simp add: chunk_call_ok_def chunk_alloc_with_len_def)
qed

text \<open>Calls on a builder that the client keeps.\<close>

lemma chunk_builder_step_ok:
  assumes sys: "chunk_sys_inv h0 base exact s" and i: "i < length (c_builders s)"
    and st: "builder_step h0 (c_pool s) (c_scrapers s) (mset (remove_nth i (c_builders s))) (c_builders s ! i) (c_world s) b' w'"
  shows "chunk_sys_inv h0 base exact (s\<lparr>c_builders := (c_builders s)[i := b'], c_world := w'\<rparr>)
    \<and> chunks_stable (c_world s) w'"
proof -
  note inv = chunk_sys_inv_builder [OF sys i]
  have "w_chunks w' = w_chunks (c_world s)" using st by (simp add: builder_step_def same_handles_def)
  moreover have "claims_kept (chunk_claims (c_world s) (mset (remove_nth i (c_builders s)))) (c_world s) w'"
    using st by (simp add: builder_step_def)
  ultimately have "chunks_stable (c_world s) w'" by (rule chunks_stable_same [OF inv(1)])
  moreover have "chunk_inv h0 (c_pool s) (c_scrapers s) w' (mset ((c_builders s)[i := b']))"
    using st i by (simp add: builder_step_def mset_update_nth)
  moreover have "exact \<Longrightarrow> chunk_accounts base w' (mset ((c_builders s)[i := b']))"
    using builder_step_accounts [OF st inv(2)] i by (simp add: mset_update_nth)
  ultimately show ?thesis by (simp add: chunk_sys_inv_def)
qed

lemma call_chunk_write:
  assumes sys: "chunk_sys_inv h0 base exact s" and i: "i < length (c_builders s)"
  shows "chunk_call_ok ga h0 base exact (ReadChunkBuilder i) s"
    and "length data \<le> isize_max \<Longrightarrow> chunk_call_ok ga h0 base exact (ChunkAppend i data) s"
    and "chunk_call_ok ga h0 base exact (ChunkSetLen i len) s"
    and "keeps_length f \<Longrightarrow> chunk_call_ok ga h0 base exact (ChunkFillSlice i f) s"
proof -
  let ?b = "c_builders s ! i" and ?B = "mset (remove_nth i (c_builders s))" and ?w = "c_world s"
  note inv = chunk_sys_inv_builder(1) [OF sys i] and ok = chunk_builder_step_ok [OF sys i]
  from chunk_contents_live [OF inv] obtain X where X: "builder_bytes ?b ?w = Some X"
    "chunk_builder_as_slice ?b ?w = Some (take (unat (cb_len ?b)) X)" by blast
  then show "chunk_call_ok ga h0 base exact (ReadChunkBuilder i) s"
    using sys by (simp add: chunk_call_ok_def chunks_stable_refl)
  show "chunk_call_ok ga h0 base exact (ChunkAppend i data) s" if data: "length data \<le> isize_max"
  proof (cases "unat (cb_len ?b) + length data \<le> unat (cb_capacity ?b)")
    case True
    from chunk_append_fits [OF inv X(1) True] ok show ?thesis by (fastforce simp: chunk_call_ok_def)
  next
    case False
    with chunk_append_full [OF data, of ?b ?w] ok [OF builder_step_refl [OF inv]] show ?thesis
      by (simp add: chunk_call_ok_def)
  qed
  obtain r b' where "chunk_builder_set_len len ?b = (r, b')" by fastforce
  with ok [OF set_len_step [OF builder_step_refl [OF inv] this]] show "chunk_call_ok ga h0 base exact (ChunkSetLen i len) s"
    by (simp add: chunk_call_ok_def chunks_stable_refl)
  show "chunk_call_ok ga h0 base exact (ChunkFillSlice i f) s" if f: "keeps_length f"
  proof -
    from chunk_run_init_inv [OF inv f X(1)] obtain r w' where
      "chunk_run_init f ?b ?w = Some (r, w')" "builder_step h0 (c_pool s) (c_scrapers s) ?B ?b ?w ?b w'" by blast
    with ok [OF this(2)] show ?thesis by (simp add: chunk_call_ok_def)
  qed
qed

text \<open>Calls that end a builder.\<close>

lemma call_chunk_end:
  assumes sys: "chunk_sys_inv h0 base exact s" and i: "i < length (c_builders s)"
  shows "chunk_call_ok ga h0 base exact (ChunkSeal i) s" and "chunk_call_ok ga h0 base exact (DropChunkBuilder i) s"
proof -
  let ?b = "c_builders s ! i" and ?B = "mset (remove_nth i (c_builders s))" and ?w = "c_world s"
  note inv = chunk_sys_inv_builder [OF sys i]
  let ?w' = "?w\<lparr>w_chunks := w_chunks ?w @ [(sealed_inner ?b, 1)]\<rparr>"
  have ok: "cbuilder_ok ?b" using chunk_invD(3) [OF inv(1), of ?b] by simp
  have "claims_kept C ?w ?w' = claims_kept C ?w ?w" for C by (rule claims_kept_cong(1)) simp_all
  then have "chunks_stable ?w ?w'"
    by (intro chunks_stable_append [OF inv(1), where cs = "[(sealed_inner ?b, 1)]" and D = ?B]) simp_all
  with chunk_inv_seal [OF inv(1)] chunk_accounts_seal [OF ok inv(2)] chunk_builder_seal_eq [OF inv(1)]
  show "chunk_call_ok ga h0 base exact (ChunkSeal i) s"
    by (simp add: chunk_call_ok_def chunk_sys_inv_def)
  from chunk_builder_drop_inv [OF inv(1)] obtain w' where
    d: "chunk_builder_drop ?b ?w = Some w'" "chunk_inv h0 (c_pool s) (c_scrapers s) w' ?B"
      "claims_kept (chunk_claims ?w ?B) ?w w'" "w_chunks w' = w_chunks ?w"
      "\<forall>base. chunk_accounts base ?w (add_mset ?b ?B) \<longrightarrow> chunk_accounts base w' ?B" by blast
  with chunks_stable_same [OF inv(1) d(4,3)] inv(2) show "chunk_call_ok ga h0 base exact (DropChunkBuilder i) s"
    by (simp add: chunk_call_ok_def chunk_sys_inv_def)
qed

lemma call_chunk:
  assumes sys: "chunk_sys_inv h0 base exact s" and g: "get_chunk c (c_world s) = Some (i, n)"
  shows "chunk_call_ok ga h0 base exact (ReadChunk c) s" and "chunk_call_ok ga h0 base exact (CloneChunk c) s"
    and "chunk_call_ok ga h0 base exact (DropChunk c) s"
proof -
  let ?w = "c_world s" and ?B = "mset (c_builders s)"
  have inv: "chunk_inv h0 (c_pool s) (c_scrapers s) ?w ?B" using sys by (simp add: chunk_sys_inv_def)
  have live: "i \<in># live_cells (w_chunks ?w)" using g by (auto simp: get_chunk_def dest: get_cell_live)
  from inner_slice_live [OF inv live] g sys show "chunk_call_ok ga h0 base exact (ReadChunk c) s"
    by (auto simp: chunk_call_ok_def chunk_as_slice_def chunks_stable_refl)
  let ?w' = "?w\<lparr>w_chunks := (w_chunks ?w)[c := (i, Suc n)]\<rparr>"
  have "claims_kept C ?w ?w' = claims_kept C ?w ?w" for C by (rule claims_kept_cong(1)) simp_all
  then have "chunks_stable ?w ?w'" by (intro chunks_stable_update [OF inv g, where D = ?B]) simp_all
  with chunk_clone_inv [OF inv g] sys show "chunk_call_ok ga h0 base exact (CloneChunk c) s"
    by (simp add: chunk_call_ok_def chunk_sys_inv_def)
  from chunk_drop_inv [OF inv g] obtain w' where
    d: "chunk_drop c ?w = Some w'" "chunk_inv h0 (c_pool s) (c_scrapers s) w' ?B" "claims_kept (chunk_claims w' ?B) ?w w'"
      "w_chunks w' = (w_chunks ?w)[c := (i, n - 1)]" "\<forall>base. chunk_accounts base ?w ?B \<longrightarrow> chunk_accounts base w' ?B" by blast
  with chunks_stable_update [OF inv g d(4,3)] sys show "chunk_call_ok ga h0 base exact (DropChunk c) s"
    by (simp add: chunk_call_ok_def chunk_sys_inv_def)
qed

text \<open>Calls of the owner and of scrapers that hand nothing out.\<close>

lemma chunk_frame_ok:
  assumes sys: "chunk_sys_inv h0 base exact s" and inv': "chunk_inv h0 cpo' k' w' (mset (c_builders s))"
    and kept: "claims_kept (chunk_claims (c_world s) (mset (c_builders s))) (c_world s) w'" and same: "same_handles (c_world s) w'"
  shows "chunk_sys_inv h0 base exact (s\<lparr>c_pool := cpo', c_scrapers := k', c_world := w'\<rparr>) \<and> chunks_stable (c_world s) w'"
proof -
  have inv: "chunk_inv h0 (c_pool s) (c_scrapers s) (c_world s) (mset (c_builders s))"
    using sys by (simp add: chunk_sys_inv_def)
  have "w_chunks w' = w_chunks (c_world s)" using same by (simp add: same_handles_def)
  from chunks_stable_same [OF inv this kept] inv' sys chunk_accounts_same [OF same] show ?thesis
    by (simp add: chunk_sys_inv_def)
qed

lemma call_chunk_owner:
  assumes sys: "chunk_sys_inv h0 base exact s" and pool: "c_pool s \<noteq> None"
  shows "chunk_call_ok ga h0 base exact (ChunkPrewarm n) s" and "chunk_call_ok ga h0 base exact DropChunkPool s"
    and "chunk_call_ok ga h0 base exact CloneChunkShared s"
proof -
  from pool obtain cp where cp: "c_pool s = Some cp" by blast
  have inv: "chunk_inv h0 (Some cp) (c_scrapers s) (c_world s) (mset (c_builders s))"
    using sys cp by (simp add: chunk_sys_inv_def)
  have upd: "s\<lparr>c_pool := p, c_scrapers := c_scrapers s, c_world := w\<rparr> = s\<lparr>c_pool := p, c_world := w\<rparr>" for p w
    by (cases s) simp
  have upd': "s\<lparr>c_pool := Some cp, c_scrapers := k, c_world := w\<rparr> = s\<lparr>c_scrapers := k, c_world := w\<rparr>" for k w
    using cp by (cases s) simp
  from chunk_prewarm_inv [OF inv, of n] obtain r cp' w' where
    p: "chunk_prewarm n cp (c_world s) = Some (r, cp', w')" "chunk_inv h0 (Some cp') (c_scrapers s) w' (mset (c_builders s))"
      "claims_kept (chunk_claims (c_world s) (mset (c_builders s))) (c_world s) w'" "same_handles (c_world s) w'" by blast
  from chunk_frame_ok [OF sys p(2-4)] p(1) cp show "chunk_call_ok ga h0 base exact (ChunkPrewarm n) s"
    by (simp add: chunk_call_ok_def upd)
  from chunk_pool_drop_inv [OF inv] obtain w' where
    d: "chunk_pool_drop cp (c_world s) = Some w'" "chunk_inv h0 None (c_scrapers s) w' (mset (c_builders s))"
      "claims_kept (chunk_claims (c_world s) (mset (c_builders s))) (c_world s) w'" "same_handles (c_world s) w'" by blast
  from chunk_frame_ok [OF sys d(2-4)] d(1) cp show "chunk_call_ok ga h0 base exact DropChunkPool s"
    by (simp add: chunk_call_ok_def upd)
  show "chunk_call_ok ga h0 base exact CloneChunkShared s"
    using chunk_scrape_inv [OF inv] chunk_frame_ok [OF sys, of "Some cp" "Suc (c_scrapers s)" "clone_shared (c_world s)"]
    by (simp add: chunk_call_ok_def upd')
qed

lemma call_chunk_scraper:
  assumes sys: "chunk_sys_inv h0 base exact s" and k: "c_scrapers s \<noteq> 0"
  shows "chunk_call_ok ga h0 base exact DropChunkShared s"
proof -
  from k obtain k' where k': "c_scrapers s = Suc k'" by (cases "c_scrapers s") auto
  with sys have "chunk_inv h0 (c_pool s) (Suc k') (c_world s) (mset (c_builders s))" by (simp add: chunk_sys_inv_def)
  from chunk_unscrape_inv [OF this] obtain w' where d: "drop_shared (c_world s) = Some w'"
    "chunk_inv h0 (c_pool s) k' w' (mset (c_builders s))"
    "claims_kept (chunk_claims (c_world s) (mset (c_builders s))) (c_world s) w'" "same_handles (c_world s) w'" by blast
  have "s\<lparr>c_pool := c_pool s, c_scrapers := k', c_world := w'\<rparr> = s\<lparr>c_scrapers := k', c_world := w'\<rparr>" by (cases s) simp
  with chunk_frame_ok [OF sys d(2-4)] d(1) k' show ?thesis by (simp add: chunk_call_ok_def)
qed

lemma chunk_call:
  assumes "chunk_sys_inv h0 base exact s" and "chunk_allowed exact c s"
  shows "chunk_call_ok ga h0 base exact c s"
  using assms(2)
  by (cases c) (auto intro: call_chunk_allocate [OF assms(1)] call_chunk_helpers [OF assms(1)]
      call_chunk_write [OF assms(1)] call_chunk_end [OF assms(1)] call_chunk [OF assms(1)]
      call_chunk_owner [OF assms(1)] call_chunk_scraper [OF assms(1)])

interpretation chunk_client: safe_client "chunk_allowed exact" "chunk_exec ga" "chunk_sys_inv h0 base exact"
  "\<lambda>s s'. chunks_stable (c_world s) (c_world s')" for exact ga h0 base
proof unfold_locales
  show "\<exists>s'. chunk_exec ga c s = Some s' \<and> chunk_sys_inv h0 base exact s' \<and> chunks_stable (c_world s) (c_world s')"
    if "chunk_sys_inv h0 base exact s" "chunk_allowed exact c s" for c s
    using chunk_call [OF that] by (simp add: chunk_call_ok_def)
qed (auto intro: chunks_stable_refl chunks_stable_trans)

lemma chunk_sys_start_inv:
  assumes "page_source_contract src" and "chunk_with_source src w = (Inr cp, w')"
    and "w_packed w = []" "w_chunks w = []" and "unat (sh_page_size (w_shared w')) \<le> 2 ^ 32"
  shows "chunk_sys_inv (w_heap w) (w_tenants w) exact (chunk_sys_start cp w')"
  using chunk_with_source_inv [OF assms] by (simp add: chunk_sys_inv_def chunk_sys_start_def)

section \<open>A concrete program\<close>

text \<open>The owner makes a chunk of three bytes and drops the pool; the chunk lives on.\<close>

lemmas chunk_demo_facts =
  heap_src.page_source_contract_axioms [where ga = first_fit_alloc and ps = 64] chunk_demo_eq

lemma chunk_demo_rest: "w_packed chunk_start = []" "w_chunks chunk_start = []"
  "unat (sh_page_size (w_shared chunk_demo)) \<le> 2 ^ 32"
  by (simp_all add: chunk_start_def chunk_demo_size)

abbreviation demo_cmds :: "chunk_cmd list" where
  "demo_cmds \<equiv> [ChunkAllocFrom demo_tenant [1, 2, 3], DropChunkPool]"

lemma chunk_demo_program:
  obtains s where "chunk_program first_fit_alloc exact (chunk_sys_start chunk_demo_pool chunk_demo) demo_cmds s"
    and "c_pool s = None" and "c_builders s = []" and "c_scrapers s = 0"
    and "chunk_as_slice 0 (c_world s) = Some [1, 2, 3]" and "length (w_chunks (c_world s)) = 1"
    and "chunk_ref_count 0 (c_world s) = Some 1"
proof -
  let ?s0 = "chunk_sys_start chunk_demo_pool chunk_demo"
  from chunk_demo_chunk chunk_alloc_from_result [OF chunk_demo_inv(1), of "[1, 2, 3]" first_fit_alloc demo_tenant]
  obtain cp1 w1 where al: "chunk_alloc_from first_fit_alloc demo_tenant [1, 2, 3] chunk_demo_pool chunk_demo = Some (Inr 0, cp1, w1)"
      "chunk_as_slice 0 w1 = Some [1, 2, 3]" "chunk_ref_count 0 w1 = Some 1" by auto
  from chunk_alloc_fill_inv [OF chunk_demo_inv(1) chunk_fill_from_ok [of "[1, 2, 3]"], of first_fit_alloc demo_tenant 3] al(1)
  have inv1: "chunk_inv Map.empty (Some cp1) 0 w1 {#}" and len: "length (w_chunks w1) = 1"
    by (auto simp: chunk_alloc_from_def chunk_filled_def chunk_demo_empty)
  from chunk_pool_drop_inv [OF inv1] obtain w2 where d: "chunk_pool_drop cp1 w1 = Some w2"
    "claims_kept (chunk_claims w1 {#}) w1 w2" "same_handles w1 w2" by blast
  have ch: "w_chunks w2 = w_chunks w1" using d(3) by (simp add: same_handles_def)
  then have get: "get_chunk c w2 = get_chunk c w1" for c by (simp add: get_chunk_def)
  from al(3) have "get_chunk 0 w2 \<noteq> None" by (auto simp: get chunk_ref_count_def bind_eq_Some_conv)
  with chunks_stable_same [OF inv1 ch d(2)] len al(2) have w2: "chunk_as_slice 0 w2 = Some [1, 2, 3]"
    by (auto simp: chunks_stable_def)
  let ?s1 = "?s0\<lparr>c_pool := Some cp1, c_world := w1\<rparr>" and ?s2 = "?s0\<lparr>c_pool := None, c_world := w2\<rparr>"
  have "chunk_program first_fit_alloc exact ?s0 [ChunkAllocFrom demo_tenant [1, 2, 3]] ?s1"
    by (rule run_single) (use al(1) in \<open>simp_all add: chunk_sys_start_def after_chunk_alloc_def isize_max_def\<close>)
  from run_more [OF this, of DropChunkPool ?s2] d(1) have
    "chunk_program first_fit_alloc exact ?s0 demo_cmds ?s2" by simp
  with w2 len ch al(3) show thesis by (intro that [of ?s2]) (simp_all add: chunk_sys_start_def chunk_ref_count_def get)
qed

section \<open>Properties\<close>

text \<open>C9: Memory safety of the chunk layer. In every state a program over a chunk pool can reach, every call
  that Rust's ownership rules allow has a defined result: no access to memory that is not live, no
  access outside a block, no block released twice, no use of the shared part after its release, and
  every loop ends. This holds for any order of calls and for any sizes and alignments, with chunks
  and builders that outlive the pool, over pages of up to 4 GiB.\<close>

theorem chunk_programs_safe:
  assumes "page_source_contract src" and "chunk_with_source src w = (Inr cp, w')"
    and "w_packed w = []" and "w_chunks w = []" and "unat (sh_page_size (w_shared w')) \<le> 2 ^ 32"
    and "chunk_program ga False (chunk_sys_start cp w') cs s" and "chunk_allowed False c s"
  shows "\<exists>s'. chunk_exec ga c s = Some s'"
  using chunk_client.run_safe [OF assms(6) chunk_sys_start_inv [OF assms(1-5)] assms(7)] .

theorem chunk_programs_safe_witness:
  "\<exists>s s'. chunk_program first_fit_alloc False (chunk_sys_start chunk_demo_pool chunk_demo) demo_cmds s
     \<and> chunk_exec first_fit_alloc (DropChunk 0) s = Some s'"
proof -
  obtain s where s: "chunk_program first_fit_alloc False (chunk_sys_start chunk_demo_pool chunk_demo) demo_cmds s"
    "chunk_ref_count 0 (c_world s) = Some 1" by (rule chunk_demo_program)
  then have "chunk_allowed False (DropChunk 0) s" by (auto simp: chunk_ref_count_def bind_eq_Some_conv)
  from chunk_programs_safe [OF chunk_demo_facts chunk_demo_rest s(1) this] s(1) show ?thesis by blast
qed

text \<open>C10: Nothing leaks from the chunk layer. When the pool, every builder, every chunk and every scraper's
  clone have been dropped, in whatever order, memory is what it was before the pool was made; if no
  request reached 4 GiB, the in-use counters of the tenants are what they were and those of the pool
  are zero.\<close>

theorem chunk_programs_leak_free:
  assumes "page_source_contract src" and "chunk_with_source src w = (Inr cp, w')"
    and "w_packed w = []" and "w_chunks w = []" and "unat (sh_page_size (w_shared w')) \<le> 2 ^ 32"
    and "chunk_program ga exact (chunk_sys_start cp w') cs s"
    and "c_pool s = None" and "c_builders s = []" and "c_scrapers s = 0"
    and "live_cells (w_chunks (c_world s)) = {#}"
  shows "w_heap (c_world s) = w_heap w \<and> w_strong (c_world s) = 0
    \<and> (exact \<longrightarrow> cs_chunks_in_use (w_cstats (c_world s)) = 0 \<and> cs_oversized_bytes_in_use (w_cstats (c_world s)) = 0
         \<and> t_bytes_in_use (w_tenants (c_world s) t) = t_bytes_in_use (w_tenants w t)
         \<and> t_chunks_in_use (w_tenants (c_world s) t) = t_chunks_in_use (w_tenants w t))"
proof -
  have inv: "chunk_sys_inv (w_heap w) (w_tenants w) exact s"
    using chunk_client.run_inv [OF assms(6) chunk_sys_start_inv [OF assms(1-5)]] by blast
  then have "chunk_inv (w_heap w) None 0 (c_world s) {#}" using assms(7-9) by (simp add: chunk_sys_inv_def)
  from chunk_inv_end [OF this assms(10)] inv assms(8,10) show ?thesis
    by (auto simp: chunk_sys_inv_def chunk_accounts_def chunk_charged_def chunk_charges_def)
qed

theorem chunk_programs_leak_free_witness:
  "\<exists>s. chunk_program first_fit_alloc True (chunk_sys_start chunk_demo_pool chunk_demo) (demo_cmds @ [DropChunk 0]) s
     \<and> w_heap (c_world s) = Map.empty \<and> t_bytes_in_use (w_tenants (c_world s) 0) = 0"
proof -
  obtain s where s: "chunk_program first_fit_alloc True (chunk_sys_start chunk_demo_pool chunk_demo) demo_cmds s"
    "c_pool s = None" "c_builders s = []" "c_scrapers s = 0" "length (w_chunks (c_world s)) = 1"
    "chunk_ref_count 0 (c_world s) = Some 1" by (rule chunk_demo_program)
  have sys: "chunk_sys_inv Map.empty (\<lambda>_. tenant_stats_default) True s"
    using chunk_client.run_inv [OF s(1) chunk_sys_start_inv [OF chunk_demo_facts chunk_demo_rest]]
    by (simp add: chunk_start_def)
  then have inv: "chunk_inv Map.empty None 0 (c_world s) {#}" using s by (simp add: chunk_sys_inv_def)
  from s(6) obtain i where g: "get_chunk 0 (c_world s) = Some (i, 1)" by (auto simp: chunk_ref_count_def bind_eq_Some_conv)
  from chunk_drop_inv [OF inv g] obtain w' where d: "chunk_drop 0 (c_world s) = Some w'"
    "w_chunks w' = (w_chunks (c_world s))[0 := (i, 0)]" by auto
  from run_more [OF s(1), of "DropChunk 0" "s\<lparr>c_world := w'\<rparr>"] d(1) g
  have r: "chunk_program first_fit_alloc True (chunk_sys_start chunk_demo_pool chunk_demo) (demo_cmds @ [DropChunk 0]) (s\<lparr>c_world := w'\<rparr>)"
    by simp
  have "live_cells (w_chunks w') = {#}" using d(2) s(5) by (intro live_cells_empty) simp
  with chunk_programs_leak_free [OF chunk_demo_facts chunk_demo_rest r, of 0] s(2-4) r show ?thesis
    by (intro exI [of _ "s\<lparr>c_world := w'\<rparr>"]) (simp add: chunk_start_def tenant_stats_default_def)
qed

text \<open>C11: Sealed chunks never change. At any two moments of a program at which a chunk has a handle it shows
  the same bytes, although other handles write to the same page all the time.\<close>

theorem sealed_chunks_immutable:
  assumes "page_source_contract src" and "chunk_with_source src w = (Inr cp, w')"
    and "w_packed w = []" and "w_chunks w = []" and "unat (sh_page_size (w_shared w')) \<le> 2 ^ 32"
    and "chunk_program ga False (chunk_sys_start cp w') cs s" and "chunk_program ga False s ds s2"
    and "get_chunk c (c_world s) \<noteq> None" and "get_chunk c (c_world s2) \<noteq> None"
  shows "chunk_as_slice c (c_world s2) = chunk_as_slice c (c_world s)
    \<and> chunk_len c (c_world s2) = chunk_len c (c_world s) \<and> chunk_capacity c (c_world s2) = chunk_capacity c (c_world s)"
proof -
  have "chunk_sys_inv (w_heap w) (w_tenants w) False s"
    using chunk_client.run_inv [OF assms(6) chunk_sys_start_inv [OF assms(1-5)]] by blast
  from chunk_client.run_inv [OF assms(7) this] have "chunks_stable (c_world s) (c_world s2)" by blast
  moreover have "c < length (w_chunks (c_world s))" using assms(8) by (auto simp: get_chunk_Some)
  ultimately show ?thesis using assms(9) by (simp add: chunks_stable_def)
qed

theorem sealed_chunks_immutable_witness:
  "\<exists>s s2. chunk_program first_fit_alloc False s [ReadChunk 0, CloneChunk 0] s2 \<and> chunk_as_slice 0 (c_world s2) = Some [1, 2, 3]"
proof -
  obtain s where s: "chunk_program first_fit_alloc False (chunk_sys_start chunk_demo_pool chunk_demo) demo_cmds s"
    "chunk_as_slice 0 (c_world s) = Some [1, 2, 3]" "length (w_chunks (c_world s)) = 1"
    "chunk_ref_count 0 (c_world s) = Some 1" by (rule chunk_demo_program)
  from s(4) obtain i where g: "get_chunk 0 (c_world s) = Some (i, 1)" by (auto simp: chunk_ref_count_def bind_eq_Some_conv)
  let ?w = "(c_world s)\<lparr>w_chunks := (w_chunks (c_world s))[0 := (i, 2)]\<rparr>"
  have "chunk_program first_fit_alloc False s [ReadChunk 0] s" by (rule run_single) (use g s(2) in simp_all)
  from run_more [OF this, of "CloneChunk 0" "s\<lparr>c_world := ?w\<rparr>"] g
  have two: "chunk_program first_fit_alloc False s [ReadChunk 0, CloneChunk 0] (s\<lparr>c_world := ?w\<rparr>)"
    by (simp add: chunk_clone_def numeral_2_eq_2)
  moreover have "get_chunk 0 ?w \<noteq> None" using s(3) by (simp add: get_chunk_def get_cell_def)
  ultimately show ?thesis
    using sealed_chunks_immutable [OF chunk_demo_facts chunk_demo_rest s(1) two, of 0] g s(2)
    by (intro exI [of _ s] exI [of _ "s\<lparr>c_world := ?w\<rparr>"]) simp
qed

text \<open>No two live handles overlap. In every reachable state each builder and each live chunk owns a byte range inside a
  live block, and any two of these ranges lie in blocks at different addresses or do not meet.\<close>

theorem chunk_ranges_disjoint:
  assumes "page_source_contract src" and "chunk_with_source src w = (Inr cp, w')"
    and "w_packed w = []" and "w_chunks w = []" and "unat (sh_page_size (w_shared w')) \<le> 2 ^ 32"
    and "chunk_program ga False (chunk_sys_start cp w') cs s"
  shows "disjoint_in_memory (c_world s) (chunk_claims (c_world s) (mset (c_builders s)))"
proof -
  have "chunk_sys_inv (w_heap w) (w_tenants w) False s"
    using chunk_client.run_inv [OF assms(6) chunk_sys_start_inv [OF assms(1-5)]] by blast
  then show ?thesis unfolding chunk_sys_inv_def by (blast intro: core_disjoint dest: chunk_invD(1))
qed

theorem chunk_ranges_disjoint_witness:
  "\<exists>s. chunk_program first_fit_alloc False (chunk_sys_start chunk_demo_pool chunk_demo) demo_cmds s
     \<and> disjoint_in_memory (c_world s) (chunk_claims (c_world s) (mset (c_builders s)))"
proof -
  obtain s where s: "chunk_program first_fit_alloc False (chunk_sys_start chunk_demo_pool chunk_demo) demo_cmds s"
    by (rule chunk_demo_program)
  from chunk_ranges_disjoint [OF chunk_demo_facts chunk_demo_rest s] s show ?thesis by blast
qed

text \<open>C12: Accounting of the chunk layer. In every state reachable with requests below 4 GiB, the pool's
  counters of chunks and of oversized bytes in use are those of the live builders and chunks, and
  each tenant is charged, on top of what it used before, exactly the chunks and the bytes it asked for.\<close>

theorem chunk_accounting_exact:
  assumes "page_source_contract src" and "chunk_with_source src w = (Inr cp, w')"
    and "w_packed w = []" and "w_chunks w = []" and "unat (sh_page_size (w_shared w')) \<le> 2 ^ 32"
    and "chunk_program ga True (chunk_sys_start cp w') cs s"
  defines "H \<equiv> chunk_charges (c_world s) (mset (c_builders s))"
  shows "cs_chunks_in_use (w_cstats (c_world s)) = of_nat (length (c_builders s) + size (live_cells (w_chunks (c_world s))))
    \<and> cs_oversized_bytes_in_use (w_cstats (c_world s)) = sum_mset (image_mset (snd \<circ> snd) H)
    \<and> t_chunks_in_use (w_tenants (c_world s) t) = t_chunks_in_use (w_tenants w t) + of_nat (size {#h \<in># H. fst h = t#})
    \<and> t_bytes_in_use (w_tenants (c_world s) t) = t_bytes_in_use (w_tenants w t)
        + sum_mset (image_mset (fst \<circ> snd) {#h \<in># H. fst h = t#})"
proof -
  have "chunk_accounts (w_tenants w) (c_world s) (mset (c_builders s))"
    using chunk_client.run_inv [OF assms(6) chunk_sys_start_inv [OF assms(1-5)]] by (simp add: chunk_sys_inv_def)
  then show ?thesis by (simp add: chunk_accounts_def chunk_charged_def H_def) (simp add: chunk_charges_def)
qed

theorem chunk_accounting_exact_witness:
  "\<exists>s. chunk_program first_fit_alloc True (chunk_sys_start chunk_demo_pool chunk_demo) demo_cmds s
     \<and> cs_chunks_in_use (w_cstats (c_world s)) = of_nat (size (live_cells (w_chunks (c_world s))))"
proof -
  obtain s where s: "chunk_program first_fit_alloc True (chunk_sys_start chunk_demo_pool chunk_demo) demo_cmds s"
    "c_builders s = []" by (rule chunk_demo_program)
  from chunk_accounting_exact [OF chunk_demo_facts chunk_demo_rest s(1)] s show ?thesis
    by (intro exI [of _ s]) simp
qed

end
