(* ===== verification/Chunk_Drops.thy ===== *)
theory Chunk_Drops
  imports Pool_Threads Chunk_System
begin

text \<open>
  Counting and dropping of \<open>src/chunk.rs\<close>, one access to shared memory at a time. An allocation adds to each counter in
  turn; the last drop of a handle subtracts from each counter, then drops its reference of the block, and the last
  reference gives the block back, by the steps of \<open>Pool_Threads\<close>, where the release of the shared part is one step, or
  to the global allocator. \<open>drops_inv\<close> is the
  invariant of a store of blocks that any number of threads are dropping references of.
\<close>

section \<open>Counting\<close>

text \<open>One atomic operation on a counter: those of \<open>record_chunk_allocate\<close>, whose \<open>fetch_add\<close> of the bytes is followed by
  the load and perhaps the store of the peak, those on the pool's counters, and those of a release.\<close>

datatype count_op =
    AddTenantTotal nat
  | AddTenantChunk nat
  | AddTenantBytes nat u64
  | LoadTenantPeak nat u64
  | StoreTenantPeak nat u64
  | AddPoolTotal
  | AddPoolChunk
  | AddPacked
  | AddDedicated
  | AddOversized
  | AddOversizedBytes u64
  | SubTenantBytes nat u64
  | SubTenantChunk nat
  | SubPoolChunk
  | SubOversizedBytes u64

text \<open>The operations that the step calls for, and the state after it.\<close>

fun count_step :: "count_op \<Rightarrow> chunk_world \<Rightarrow> count_op list \<times> chunk_world" where
  "count_step (AddTenantTotal t) w =
     ([], upd_tenant t (\<lambda>s. s\<lparr>t_total_chunks_allocated := fetch_add (t_total_chunks_allocated s) 1\<rparr>) w)"
| "count_step (AddTenantChunk t) w =
     ([], upd_tenant t (\<lambda>s. s\<lparr>t_chunks_in_use := fetch_add (t_chunks_in_use s) 1\<rparr>) w)"
| "count_step (AddTenantBytes t n) w =
     ([LoadTenantPeak t (t_bytes_in_use (w_tenants w t) + n)],
      upd_tenant t (\<lambda>s. s\<lparr>t_bytes_in_use := fetch_add (t_bytes_in_use s) n\<rparr>) w)"
| "count_step (LoadTenantPeak t new_bytes) w =
     (if new_bytes > t_peak_bytes_in_use (w_tenants w t) then [StoreTenantPeak t new_bytes] else [], w)"
| "count_step (StoreTenantPeak t new_bytes) w = ([], upd_tenant t (\<lambda>s. s\<lparr>t_peak_bytes_in_use := new_bytes\<rparr>) w)"
| "count_step AddPoolTotal w =
     ([], upd_cstats (\<lambda>s. s\<lparr>cs_total_chunks := fetch_add (cs_total_chunks s) 1\<rparr>) w)"
| "count_step AddPoolChunk w =
     ([], upd_cstats (\<lambda>s. s\<lparr>cs_chunks_in_use := fetch_add (cs_chunks_in_use s) 1\<rparr>) w)"
| "count_step AddPacked w =
     ([], upd_cstats (\<lambda>s. s\<lparr>cs_packed_allocations := fetch_add (cs_packed_allocations s) 1\<rparr>) w)"
| "count_step AddDedicated w =
     ([], upd_cstats (\<lambda>s. s\<lparr>cs_dedicated_allocations := fetch_add (cs_dedicated_allocations s) 1\<rparr>) w)"
| "count_step AddOversized w =
     ([], upd_cstats (\<lambda>s. s\<lparr>cs_oversized_allocations := fetch_add (cs_oversized_allocations s) 1\<rparr>) w)"
| "count_step (AddOversizedBytes n) w =
     ([], upd_cstats (\<lambda>s. s\<lparr>cs_oversized_bytes_in_use := fetch_add (cs_oversized_bytes_in_use s) n\<rparr>) w)"
| "count_step (SubTenantBytes t n) w =
     ([], upd_tenant t (\<lambda>s. s\<lparr>t_bytes_in_use := fetch_sub (t_bytes_in_use s) n\<rparr>) w)"
| "count_step (SubTenantChunk t) w =
     ([], upd_tenant t (\<lambda>s. s\<lparr>t_chunks_in_use := fetch_sub (t_chunks_in_use s) 1\<rparr>) w)"
| "count_step SubPoolChunk w =
     ([], upd_cstats (\<lambda>s. s\<lparr>cs_chunks_in_use := fetch_sub (cs_chunks_in_use s) 1\<rparr>) w)"
| "count_step (SubOversizedBytes n) w =
     ([], upd_cstats (\<lambda>s. s\<lparr>cs_oversized_bytes_in_use := fetch_sub (cs_oversized_bytes_in_use s) n\<rparr>) w)"

text \<open>The counters each allocation path adds to, in the order of the source, and those that \<open>Drop for ChunkBuilder\<close> and
  \<open>Drop for ChunkInner\<close> subtract from.\<close>

definition count_ops :: "size_class \<Rightarrow> nat \<Rightarrow> usize \<Rightarrow> count_op list" where
  "count_ops c t sz = [AddTenantTotal t, AddTenantChunk t, AddTenantBytes t sz, AddPoolTotal, AddPoolChunk] @
     (case c of
        ZeroSize \<Rightarrow> []
      | PackedSize \<Rightarrow> [AddPacked]
      | DedicatedSize \<Rightarrow> [AddDedicated]
      | OversizedSize \<Rightarrow> [AddOversized, AddOversizedBytes sz])"

definition uncount_ops :: "nat \<Rightarrow> u32 \<Rightarrow> u64 \<Rightarrow> count_op list" where
  "uncount_ops t capacity oversized = [SubTenantBytes t (ucast capacity), SubTenantChunk t, SubPoolChunk] @
     (if oversized > 0 then [SubOversizedBytes oversized] else [])"

text \<open>How many steps an operation takes with those it calls for.\<close>

fun count_rank :: "count_op \<Rightarrow> nat" where
  "count_rank (AddTenantBytes t n) = 3"
| "count_rank (LoadTenantPeak t n) = 2"
| "count_rank op = 1"

section \<open>Threads that drop a handle\<close>

text \<open>Where a thread stands: it subtracts from counters and then drops the field \<open>packed\<close>, it decrements the count of an
  \<open>Arc<PackedPage>\<close>, it returns a buffer to the pool, or it frees an oversized block.\<close>

datatype chunk_drop_pc =
    Uncounting "count_op list" "nat option"
  | Unref nat
  | Returning drop_pc
  | Freeing packed_page
  | DropFinished

fun uncounted :: "count_op list \<Rightarrow> nat option \<Rightarrow> chunk_drop_pc" where
  "uncounted [] None = DropFinished"
| "uncounted [] (Some j) = Unref j"
| "uncounted (op # ops) j = Uncounting (op # ops) j"

fun chunk_drop_step :: "bool \<Rightarrow> chunk_drop_pc \<Rightarrow> chunk_world \<Rightarrow> (chunk_drop_pc \<times> chunk_world) option" where
  "chunk_drop_step spurious (Uncounting [] j) w = Some (uncounted [] j, w)"
| "chunk_drop_step spurious (Uncounting (op # ops) j) w =
     (case count_step op w of (next_ops, w) \<Rightarrow> Some (uncounted (next_ops @ ops) j, w))"
| "chunk_drop_step spurious (Unref j) w = do {
     (pk, n) \<leftarrow> get_packed j w;
     let w = w\<lparr>w_packed := (w_packed w)[j := (pk, n - 1)]\<rparr>;
     Some (if n = 1
           then (case pk_release pk of
                   ReleasePool \<Rightarrow> Returning (Pushing (LoadHead (pk_buf pk)))
                 | ReleaseHeap layout \<Rightarrow> Freeing pk)
           else DropFinished, w)
   }"
| "chunk_drop_step spurious (Returning pc) w = do {
     (pc, w) \<leftarrow> drop_step spurious pc w;
     Some (if pc = Dropped then DropFinished else Returning pc, w)
   }"
| "chunk_drop_step spurious (Freeing pk) w = do {
     h \<leftarrow> dealloc (pk_buf pk) (release_layout (pk_release pk)) (w_heap w);
     Some (DropFinished, w\<lparr>w_heap := h\<rparr>)
   }"
| "chunk_drop_step spurious DropFinished w = Some (DropFinished, w)"

text \<open>Where the drop of a builder starts, with its tenant or, after \<open>seal\<close>, without, and where the drop of the last
  handle of a chunk starts.\<close>

definition builder_drop_pc :: "chunk_builder \<Rightarrow> chunk_drop_pc" where
  "builder_drop_pc b = uncounted
     (case cb_tenant b of None \<Rightarrow> [] | Some t \<Rightarrow> uncount_ops t (cb_capacity b) (cb_oversized_bytes b)) (cb_packed b)"

definition inner_drop_pc :: "chunk_inner \<Rightarrow> chunk_drop_pc" where
  "inner_drop_pc i = uncounted (uncount_ops (ci_tenant i) (ci_capacity i) (ci_oversized_bytes i)) (ci_packed i)"

section \<open>The invariant\<close>

text \<open>What a thread stands for: for the pool a thread that returns a buffer or does nothing, for the claims a reference
  without bytes, and for the store perhaps an oversized block on its way back.\<close>

fun give_of :: "chunk_drop_pc \<Rightarrow> drop_pc" where
  "give_of (Returning pc) = pc"
| "give_of _ = Dropped"

fun drop_claim :: "chunk_drop_pc \<Rightarrow> claim multiset" where
  "drop_claim (Uncounting ops (Some j)) = {#(j, 0, 0)#}"
| "drop_claim (Unref j) = {#(j, 0, 0)#}"
| "drop_claim _ = {#}"

fun drop_block :: "chunk_drop_pc \<Rightarrow> packed_page multiset" where
  "drop_block (Freeing pk) = {#pk#}"
| "drop_block _ = {#}"

fun drop_ops :: "chunk_drop_pc \<Rightarrow> count_op list" where
  "drop_ops (Uncounting ops j) = ops"
| "drop_ops _ = []"

fun returning_ok :: "drop_pc \<Rightarrow> bool" where
  "returning_ok (Pushing q) = (q \<noteq> Returned)"
| "returning_ok DecShared = True"
| "returning_ok FreeShared = True"
| "returning_ok _ = False"

fun release_op :: "count_op \<Rightarrow> bool" where
  "release_op (SubTenantBytes t n) = True"
| "release_op (SubTenantChunk t) = True"
| "release_op SubPoolChunk = True"
| "release_op (SubOversizedBytes n) = True"
| "release_op op = False"

fun drop_pc_ok :: "chunk_drop_pc \<Rightarrow> bool" where
  "drop_pc_ok (Uncounting ops j) = (list_all release_op ops \<and> length ops \<le> 4)"
| "drop_pc_ok (Returning pc) = returning_ok pc"
| "drop_pc_ok (Freeing pk) = (pk_release pk \<noteq> ReleasePool)"
| "drop_pc_ok _ = True"

text \<open>Blocks that handles with the claims \<open>C\<close> own and threads at \<open>pcs\<close> are dropping references of.\<close>

definition drops_inv :: "heap \<Rightarrow> page_pool \<Rightarrow> pool_pc \<Rightarrow> nat \<Rightarrow> open_page option \<Rightarrow> chunk_world \<Rightarrow> claim multiset
    \<Rightarrow> chunk_drop_pc list \<Rightarrow> bool" where
  "drops_inv h0 pp own k opn w C pcs = held_inv (conc_life pp own k (map give_of pcs)) h0 (tally drop_block pcs) opn w
     (tally drop_claim pcs + C)"

text \<open>The counters that tell what is in use, their values, and what an operation and a live handle have to do with
  them.\<close>

datatype use_counter = TenantChunks nat | TenantBytes nat | PoolChunks | PoolOversized

fun use_value :: "stats_table \<Rightarrow> chunk_pool_stats \<Rightarrow> use_counter \<Rightarrow> u64" where
  "use_value tab s (TenantChunks t) = t_chunks_in_use (tab t)"
| "use_value tab s (TenantBytes t) = t_bytes_in_use (tab t)"
| "use_value tab s PoolChunks = cs_chunks_in_use s"
| "use_value tab s PoolOversized = cs_oversized_bytes_in_use s"

abbreviation world_use :: "chunk_world \<Rightarrow> use_counter \<Rightarrow> u64" where
  "world_use w \<equiv> use_value (w_tenants w) (w_cstats w)"

fun op_use :: "use_counter \<Rightarrow> count_op \<Rightarrow> u64" where
  "op_use (TenantChunks t) (AddTenantChunk u) = (if u = t then 1 else 0)"
| "op_use (TenantChunks t) (SubTenantChunk u) = (if u = t then - 1 else 0)"
| "op_use (TenantBytes t) (AddTenantBytes u n) = (if u = t then n else 0)"
| "op_use (TenantBytes t) (SubTenantBytes u n) = (if u = t then - n else 0)"
| "op_use PoolChunks AddPoolChunk = 1"
| "op_use PoolChunks SubPoolChunk = - 1"
| "op_use PoolOversized (AddOversizedBytes n) = n"
| "op_use PoolOversized (SubOversizedBytes n) = - n"
| "op_use _ _ = 0"

fun charge_use :: "use_counter \<Rightarrow> charge \<Rightarrow> u64" where
  "charge_use (TenantChunks t) (u, n, m) = (if u = t then 1 else 0)"
| "charge_use (TenantBytes t) (u, n, m) = (if u = t then n else 0)"
| "charge_use PoolChunks (u, n, m) = 1"
| "charge_use PoolOversized (u, n, m) = m"

abbreviation ops_use :: "use_counter \<Rightarrow> count_op list \<Rightarrow> u64" where
  "ops_use c ops \<equiv> tally (op_use c) ops"

section \<open>Lemmas\<close>

lemma count_step_frame:
  assumes "count_step op w = (ops, w')"
  shows "w_heap w' = w_heap w" "w_shared w' = w_shared w" "w_strong w' = w_strong w" "w_packed w' = w_packed w"
    "w_chunks w' = w_chunks w" "world_use w' c + ops_use c ops = world_use w c + op_use c op"
proof -
  show "w_heap w' = w_heap w" "w_shared w' = w_shared w" "w_strong w' = w_strong w" "w_packed w' = w_packed w"
    "w_chunks w' = w_chunks w" using assms by (cases op; auto split: if_splits)+
  show "world_use w' c + ops_use c ops = world_use w c + op_use c op"
    using assms by (cases op; cases c) (auto simp: fetch_add_def fetch_sub_def split: if_splits)
qed

lemma count_step_rank: "count_step op w = (ops, w') \<Longrightarrow> tally count_rank ops < count_rank op"
  by (cases op) (auto split: if_splits)

lemma count_ops_rank [simp]: "tally count_rank (count_ops c t sz) < 19"
  by (cases c) (simp_all add: count_ops_def)

text \<open>Once all of its operations are done, an allocation has charged its builder, and a release has taken that back.\<close>

lemma count_ops_use: "ops_use c (count_ops cl t sz) = charge_use c (t, sz, if cl = OversizedSize then sz else 0)"
  by (cases c; cases cl) (simp_all add: count_ops_def)

lemma uncount_ops_use: "ops_use c (uncount_ops t cap m) = - charge_use c (t, ucast cap, m)"
  by (cases c) (auto simp: uncount_ops_def word_gt_0)

lemma uncount_ops_ok [simp]: "list_all release_op (uncount_ops t cap m)" "length (uncount_ops t cap m) \<le> 4"
  by (simp_all add: uncount_ops_def)

lemma release_op_step: "release_op op \<Longrightarrow> fst (count_step op w) = []"
  by (cases op) simp_all

lemma uncounted_simps [simp]:
  "give_of (uncounted ops j) = Dropped" "drop_block (uncounted ops j) = {#}" "drop_ops (uncounted ops j) = ops"
  "drop_pc_ok (uncounted ops j) \<longleftrightarrow> list_all release_op ops \<and> length ops \<le> 4"
  "drop_claim (uncounted ops j) = (case j of None \<Rightarrow> {#} | Some j \<Rightarrow> {#(j, 0, 0)#})"
  by (cases ops; cases j; auto)+

lemma uncounting_claim [simp]: "drop_claim (Uncounting ops j) = (case j of None \<Rightarrow> {#} | Some j \<Rightarrow> {#(j, 0, 0)#})"
  by (cases j) simp_all

interpretation conc_store: chunk_store "conc_life pp pc k ts" for pp pc k ts
proof
  show "conc_life pp pc k ts h w' U = conc_life pp pc k ts h w U"
    if "w_heap w' = w_heap w" "w_shared w' = w_shared w" "w_strong w' = w_strong w" for w w' :: chunk_world and h U
    using that by (rule conc_life_cong)
qed (simp_all add: conc_life_buffer conc_life_once [unfolded One_nat_def] conc_life_rest conc_life_elsewhere conc_life_write)


text \<open>The claims and blocks of one thread among those of the others.\<close>

lemma drops_split:
  assumes "i < length pcs"
  shows "drops_inv h0 pp own k opn w C pcs \<longleftrightarrow> held_inv (conc_life pp own k (map give_of pcs)) h0
      (drop_block (pcs ! i) + tally drop_block (remove_nth i pcs)) opn w
      (drop_claim (pcs ! i) + (tally drop_claim (remove_nth i pcs) + C))"
    and "drops_inv h0 pp own k opn w C (pcs[i := pc]) \<longleftrightarrow> held_inv (conc_life pp own k ((map give_of pcs)[i := give_of pc])) h0
      (drop_block pc + tally drop_block (remove_nth i pcs)) opn w
      (drop_claim pc + (tally drop_claim (remove_nth i pcs) + C))"
  using tally_update [OF assms, of drop_block] tally_update [OF assms, of drop_claim]
  by (simp_all add: drops_inv_def map_update add.assoc)

lemma drops_cong:
  assumes "w_heap w' = w_heap w" and "w_shared w' = w_shared w" and "w_strong w' = w_strong w" and "w_packed w' = w_packed w"
  shows "drops_inv h0 pp own k opn w' C pcs = drops_inv h0 pp own k opn w C pcs"
  unfolding drops_inv_def by (rule conc_store.held_cong [OF assms])

lemma same_give: "i < length pcs \<Longrightarrow> give_of pc = give_of (pcs ! i) \<Longrightarrow> (map give_of pcs)[i := give_of pc] = map give_of pcs"
  by (simp add: list_update_same_conv)

text \<open>What a step of a thread does: it is defined, keeps the bytes of all claims and changes the counters as its
  operations say.\<close>

definition drop_good :: "heap \<Rightarrow> page_pool \<Rightarrow> pool_pc \<Rightarrow> nat \<Rightarrow> open_page option \<Rightarrow> claim multiset \<Rightarrow> chunk_drop_pc list
    \<Rightarrow> nat \<Rightarrow> bool \<Rightarrow> chunk_world \<Rightarrow> bool" where
  "drop_good h0 pp own k opn C pcs i spurious w \<longleftrightarrow>
     (\<exists>pc w'. chunk_drop_step spurious (pcs ! i) w = Some (pc, w') \<and> drops_inv h0 pp own k opn w' C (pcs[i := pc])
        \<and> drop_pc_ok pc \<and> claims_kept C w w' \<and> w_chunks w' = w_chunks w
        \<and> (\<forall>c. world_use w' c + ops_use c (drop_ops pc) = world_use w c + ops_use c (drop_ops (pcs ! i))))"

lemma drop_goodI:
  assumes "i < length pcs" and "chunk_drop_step spurious (pcs ! i) w = Some (pc, w')" and "drop_pc_ok pc"
    and "held_inv (conc_life pp own k ((map give_of pcs)[i := give_of pc])) h0
      (drop_block pc + tally drop_block (remove_nth i pcs)) opn w' (drop_claim pc + (tally drop_claim (remove_nth i pcs) + C))"
    and "claims_kept (tally drop_claim (remove_nth i pcs) + C) w w'" and "w_chunks w' = w_chunks w"
    and "\<And>c. world_use w' c + ops_use c (drop_ops pc) = world_use w c + ops_use c (drop_ops (pcs ! i))"
  shows "drop_good h0 pp own k opn C pcs i spurious w"
  unfolding drop_good_def
proof (intro exI conjI allI)
  show "drops_inv h0 pp own k opn w' C (pcs[i := pc])" using assms(4) by (simp add: drops_split(2) [OF assms(1)])
  show "claims_kept C w w'" using assms(5) by (simp add: claims_kept_def)
qed (rule assms)+

lemma drop_uncounting:
  assumes inv: "drops_inv h0 pp own k opn w C pcs" and i: "i < length pcs" and pc: "pcs ! i = Uncounting ops j"
    and ok: "list_all release_op ops" "length ops \<le> 4"
  shows "drop_good h0 pp own k opn C pcs i spurious w"
proof -
  let ?pc = "case ops of [] \<Rightarrow> uncounted [] j | op # ops \<Rightarrow> uncounted (fst (count_step op w) @ ops) j"
    and ?w = "case ops of [] \<Rightarrow> w | op # ops \<Rightarrow> snd (count_step op w)"
  have fr: "w_heap ?w = w_heap w" "w_shared ?w = w_shared w" "w_strong ?w = w_strong w" "w_packed ?w = w_packed w"
    "w_chunks ?w = w_chunks w" by (simp_all add: count_step_frame(1-5) [OF surjective_pairing] split: list.split)
  show ?thesis
  proof (rule drop_goodI [OF i, where pc = ?pc and w' = ?w])
    show "chunk_drop_step spurious (pcs ! i) w = Some (?pc, ?w)" using pc by (simp split: list.split prod.split)
    show "drop_pc_ok ?pc" using ok by (cases ops) (simp_all add: release_op_step)
    have g: "give_of ?pc = give_of (pcs ! i)" "drop_block ?pc = drop_block (pcs ! i)" "drop_claim ?pc = drop_claim (pcs ! i)"
      using pc by (simp_all split: list.split)
    show "held_inv (conc_life pp own k ((map give_of pcs)[i := give_of ?pc])) h0
        (drop_block ?pc + tally drop_block (remove_nth i pcs)) opn ?w (drop_claim ?pc + (tally drop_claim (remove_nth i pcs) + C))"
      using inv drops_split(1) [OF i] unfolding same_give [OF i g(1)] g(2,3) conc_store.held_cong [OF fr(1-4)] by blast
    show "claims_kept D w ?w" for D using claims_kept_cong(1) [OF fr(1,2,4), of D w] by simp
    show "world_use ?w c + ops_use c (drop_ops ?pc) = world_use w c + ops_use c (drop_ops (pcs ! i))" for c
      using pc count_step_frame(6) [of "hd ops" w "fst (count_step (hd ops) w)" "snd (count_step (hd ops) w)" c]
      by (cases ops) (simp_all add: add.assoc [symmetric])
  qed (rule fr)
qed

lemma drop_unref:
  assumes inv: "drops_inv h0 pp own k opn w C pcs" and i: "i < length pcs" and pc: "pcs ! i = Unref j"
  shows "drop_good h0 pp own k opn C pcs i spurious w"
proof -
  let ?C = "tally drop_claim (remove_nth i pcs) + C" and ?Q = "tally drop_block (remove_nth i pcs)" and ?ts = "map give_of pcs"
  have held: "held_inv (conc_life pp own k ?ts) h0 ?Q opn w (add_mset (j, 0, 0) ?C)"
    using inv drops_split(1) [OF i] pc by simp
  then have store: "store_inv (conc_life pp own k ?ts) h0 ?Q w (add_mset j (claim_refs opn ?C))"
    and ok: "claims_ok opn w ?C" by (simp_all add: held_inv_def claims_ok_add)
  have i': "i < length ?ts" and idle: "?ts ! i = Dropped" using i pc by simp_all
  then have same: "?ts[i := Dropped] = ?ts" by (simp add: list_update_same_conv)
  have good: "drop_good h0 pp own k opn C pcs i spurious w"
    if g: "get_packed j w = Some (pk, Suc n)"
      and pc': "pc' = (if n = 0 then (case pk_release pk of ReleasePool \<Rightarrow> Returning (Pushing (LoadHead (pk_buf pk)))
         | ReleaseHeap layout \<Rightarrow> Freeing pk) else DropFinished)"
      and st: "store_inv (conc_life pp own k (?ts[i := give_of pc'])) h0 (drop_block pc' + ?Q)
        (w\<lparr>w_packed := (w_packed w)[j := (pk, n)]\<rparr>) (claim_refs opn ?C)"
    for pk n pc'
  proof -
    let ?w = "w\<lparr>w_packed := (w_packed w)[j := (pk, n)]\<rparr>"
    have keep: "packed_keeps w ?w" by (rule packed_keeps_upd [OF g]) simp_all
    note fin = conc_store.held_step [OF ok keep st]
    have e: "drop_claim pc' = {#}" "drop_ops pc' = []" "drop_pc_ok pc'" using pc' by (simp_all split: release.split)
    show ?thesis
      by (rule drop_goodI [OF i, where pc = pc' and w' = ?w]) (use fin e pc pc' g in \<open>simp_all add: Let_def\<close>)
  qed
  from store show ?thesis
  proof (cases rule: conc_store.store_unref)
    case (stays pk n)
    then show ?thesis by (intro good [of pk "Suc n" DropFinished]) (simp_all add: same)
  next
    case (block pk l)
    then show ?thesis by (intro good [of pk 0 "Freeing pk"]) (simp_all add: same)
  next
    case (buffer pk L h1)
    let ?w = "w\<lparr>w_packed := (w_packed w)[j := (pk, 0)]\<rparr>"
    have "idle_pc (?ts ! i)" by (simp add: idle)
    from conc_give [OF buffer(5) i' this] buffer(3,4,6)
    have "store_inv (conc_life pp own k (?ts[i := Pushing (LoadHead (pk_buf pk))])) h0 ?Q ?w (claim_refs opn ?C)"
      unfolding store_inv_def by auto
    with buffer(1,2) show ?thesis by (intro good [of pk 0 "Returning (Pushing (LoadHead (pk_buf pk)))"]) simp_all
  qed
qed

text \<open>A step of the pool that keeps the buffers that are out.\<close>

lemma drops_life:
  assumes "drops_inv h0 pp own k opn w C pcs"
  obtains h1 where "conc_life pp own k (map give_of pcs) h1 w (pool_buffers (live_cells (w_packed w)))"
  using assms unfolding drops_inv_def held_inv_def store_inv_def by blast

lemma drops_pool_step:
  assumes inv: "drops_inv h0 pp own k opn w C pcs" and fr: "pool_frame w w'"
    and step: "\<And>h1. conc_life pp own k (map give_of pcs) h1 w (pool_buffers (live_cells (w_packed w))) \<Longrightarrow>
      conc_life pp' own' k' (map give_of pcs') h1 w' (pool_buffers (live_cells (w_packed w)))
      \<and> (\<forall>y. y \<in># pool_buffers (live_cells (w_packed w)) \<longrightarrow> w_heap w' y = w_heap w y)"
    and pcs': "tally drop_claim pcs' = tally drop_claim pcs" "tally drop_block pcs' = tally drop_block pcs"
  shows "drops_inv h0 pp' own' k' opn w' C pcs'" and "claims_kept C w w'" and "same_handles w w'"
proof -
  note held = inv [unfolded drops_inv_def]
  have L: "buffer_life (conc_life pp own k ts :: heap \<Rightarrow> chunk_world \<Rightarrow> addr multiset \<Rightarrow> bool)" for pp own k ts
    by (rule conc_store.buffer_life_axioms)
  note ch = store_change [OF L L held_invD(1) [OF held] fr step]
  note fin = conc_store.held_step [OF held_invD(2) [OF held] ch(2,1)]
  show "drops_inv h0 pp' own' k' opn w' C pcs'" using fin(1) pcs' by (simp add: drops_inv_def)
  show "claims_kept C w w'" using fin(2) by (simp add: claims_kept_def)
  show "same_handles w w'" using fr pool_frame_packed(2) [OF fr] by (intro same_handlesI) (simp_all add: pool_frame_def)
qed

text \<open>A thread starts: with a reference that was a claim, or with a scraper's clone of the shared part.\<close>

lemma drops_new:
  assumes inv: "drops_inv h0 pp own k opn w (drop_claim pc + C) pcs" and pc: "give_of pc = Dropped" "drop_block pc = {#}"
  shows "drops_inv h0 pp own k opn w C (pcs @ [pc])"
proof -
  have "drops_inv h0 pp own k opn w (drop_claim pc + C) (pcs @ [DropFinished])"
    by (rule drops_pool_step(1) [OF inv]) (use conc_thread_new [where q = Dropped] in \<open>simp_all add: pool_frame_def\<close>)
  then show ?thesis using pc by (simp add: drops_inv_def ac_simps)
qed

lemma drops_unscrape:
  assumes "drops_inv h0 pp own (Suc k) opn w C pcs"
  shows "drops_inv h0 pp own k opn w C (pcs @ [Returning DecShared])"
  by (rule drops_pool_step(1) [OF assms]) (use conc_unscrape in \<open>simp_all add: pool_frame_def\<close>)

text \<open>A claim becomes a reference without bytes.\<close>

lemma drops_ref:
  assumes "drops_inv h0 pp own k opn w ((case p of None \<Rightarrow> {#} | Some j \<Rightarrow> {#(j, a, n)#}) + C) pcs"
  shows "drops_inv h0 pp own k opn w ((case p of None \<Rightarrow> {#} | Some j \<Rightarrow> {#(j, 0, 0)#}) + C) pcs"
proof (cases p)
  case (Some j)
  let ?C = "tally drop_claim pcs + C"
  have held: "held_inv (conc_life pp own k (map give_of pcs)) h0 (tally drop_block pcs) opn w (add_mset (j, a, n) ?C)"
    using assms Some by (simp add: drops_inv_def)
  note ok = held_invD(2) [OF held]
  have "get_packed j w \<noteq> None" using claims_okD(1) [OF ok, of "(j, a, n)"] by (auto split: option.splits)
  moreover have "claims_ok opn w ?C" using ok unfolding claims_ok_add by blast
  ultimately have "claims_ok opn w (add_mset (j, 0, 0) ?C)" by (simp add: claims_ok_empty_claim)
  with held_invD(1) [OF held] show ?thesis using Some by (simp add: drops_inv_def held_inv_def)
qed (use assms in simp)

lemma drops_end:
  assumes "drops_inv h0 pp own k opn w ((case p of None \<Rightarrow> {#} | Some j \<Rightarrow> {#(j, a, n)#}) + C) pcs"
  shows "drops_inv h0 pp own k opn w C (pcs @ [uncounted ops p])"
  by (rule drops_new) (use drops_ref [OF assms] in simp_all)

lemma drops_clone:
  assumes inv: "drops_inv h0 pp own k opn w C pcs" and g: "get_packed j w = Some (pk, n)"
  defines "w' \<equiv> w\<lparr>w_packed := (w_packed w)[j := (pk, Suc n)]\<rparr>"
  shows "packed_clone j w = Some w'" and "drops_inv h0 pp own k opn w' (add_mset (j, 0, 0) C) pcs" and "claims_kept C w w'"
proof -
  let ?C = "tally drop_claim pcs + C"
  note held = inv [unfolded drops_inv_def]
  note cl = conc_store.store_clone [OF held_invD(1) [OF held] g, folded w'_def]
  show "packed_clone j w = Some w'" by (rule cl(1))
  have live: "get_packed i w' \<noteq> None" if "i \<in># add_mset j (claim_refs opn ?C)" for i
    using conc_store.store_live [OF cl(2) that] .
  have ok: "claims_ok opn w' ?C" by (rule claims_step [OF held_invD(2) [OF held] cl(3)]) (use live in auto)
  then have "claims_ok opn w' (add_mset (j, 0, 0) ?C)" using live [of j] by (simp add: claims_ok_empty_claim)
  with cl(2) show "drops_inv h0 pp own k opn w' (add_mset (j, 0, 0) C) pcs" by (simp add: drops_inv_def held_inv_def)
  show "claims_kept C w w'"
    using claims_okD(1) [OF held_invD(2) [OF held]] claims_okD(1) [OF ok] by (intro claims_kept_ok [OF cl(3)]) auto
qed

lemma drop_returning:
  assumes inv: "drops_inv h0 pp own k opn w C pcs" and i: "i < length pcs" and pc: "pcs ! i = Returning d"
    and ok: "returning_ok d"
  shows "drop_good h0 pp own k opn C pcs i spurious w"
proof -
  let ?ts = "map give_of pcs" and ?U = "pool_buffers (live_cells (w_packed w))"
  have i': "i < length ?ts" and d: "?ts ! i = d" using i pc by simp_all
  have not: "d = Pushing q \<Longrightarrow> q \<noteq> Returned" "d \<noteq> SubBytes buf t cap" "d \<noteq> SubPages buf t" for q buf t cap
    using ok by auto
  note step = conc_thread [OF _ i' d not]
  from inv obtain h1 where "conc_life pp own k ?ts h1 w ?U" by (rule drops_life)
  from step [OF this] obtain d' w' where st: "drop_step spurious d w = Some (d', w')" "pool_frame w w'"
    and d': "d' \<in> {DecShared, FreeShared, Dropped} \<union> {Pushing q | q. q \<noteq> Returned}" by blast
  let ?pc = "if d' = Dropped then DropFinished else Returning d'"
  have e: "give_of ?pc = d'" "drop_block ?pc = {#}" "drop_claim ?pc = {#}" "drop_ops ?pc = []" "drop_pc_ok ?pc"
    using d' by auto
  have same: "tally drop_claim (pcs[i := ?pc]) = tally drop_claim pcs" "tally drop_block (pcs[i := ?pc]) = tally drop_block pcs"
    using e(2,3) pc by (simp_all add: tally_same [OF i])
  have life': "conc_life pp own k (map give_of (pcs[i := ?pc])) h1 w' ?U \<and> (\<forall>y. y \<in># ?U \<longrightarrow> w_heap w' y = w_heap w y)"
    if "conc_life pp own k ?ts h1 w ?U" for h1 using step [OF that, of spurious] st(1) by (auto simp: map_update e(1))
  from drops_pool_step [OF inv st(2) life' same] st(1) e(4,5) pc show ?thesis
    by (auto simp: drop_good_def same_handles_def)
qed

lemma drop_freeing:
  assumes inv: "drops_inv h0 pp own k opn w C pcs" and i: "i < length pcs" and pc: "pcs ! i = Freeing pk"
    and rel: "pk_release pk \<noteq> ReleasePool"
  shows "drop_good h0 pp own k opn C pcs i spurious w"
proof -
  let ?C = "tally drop_claim (remove_nth i pcs) + C" and ?Q = "tally drop_block (remove_nth i pcs)" and ?ts = "map give_of pcs"
  from rel obtain l where l: "pk_release pk = ReleaseHeap l" by (cases "pk_release pk") auto
  have held: "held_inv (conc_life pp own k ?ts) h0 (add_mset pk ?Q) opn w ?C" using inv drops_split(1) [OF i] pc by simp
  note fr = conc_store.store_free [OF held_invD(1) [OF held] l]
  note fin = conc_store.held_step [OF held_invD(2) [OF held] fr(3,2)]
  have same: "?ts[i := Dropped] = ?ts" using i pc by (simp add: list_update_same_conv)
  show ?thesis
    by (rule drop_goodI [OF i, where pc = DropFinished and w' = "w\<lparr>w_heap := (w_heap w)(pk_buf pk := None)\<rparr>"])
      (use fin fr(1) pc l same in simp_all)
qed

lemma drop_step_good:
  assumes inv: "drops_inv h0 pp own k opn w C pcs" and i: "i < length pcs" and ok: "drop_pc_ok (pcs ! i)"
  shows "drop_good h0 pp own k opn C pcs i spurious w"
proof (cases "pcs ! i")
  case DropFinished
  then have "pcs[i := DropFinished] = pcs" by (simp add: list_update_same_conv i)
  with inv DropFinished show ?thesis by (simp add: drop_good_def)
qed (use ok drop_uncounting [OF inv i] drop_unref [OF inv i] drop_returning [OF inv i] drop_freeing [OF inv i] in simp_all)

end
