(* ===== verification/Chunk_Threads.thy ===== *)
theory Chunk_Threads
  imports Chunk_Drops
begin

text \<open>
  The whole life of a chunk pool under concurrency. The owner allocates chunks of every size class and at some time
  drops the pool; builders and chunks move between threads, which write, seal, clone, read and drop them. Every step
  is one access to shared memory: the packed path takes a reference of the open page and then adds to each counter,
  opening a page is the steps of \<open>allocate_raw_page\<close>, and the drop of a last handle is the steps of \<open>Chunk_Drops\<close>. All
  of them interleave in any order. What only one thread can reach goes with the step before or after it: a block that
  \<open>Arc::new\<close> has just made, a call on a builder, whose range is its own, and the release of the shared part by its
  last owner. Memory is sequentially consistent.
\<close>

section \<open>The owner\<close>

text \<open>Where the owner stands: in the loop of the packed path, in the drop of the page it retires, in \<open>open_new_page\<close>, in the
  dedicated and the oversized path, in the counting at the end of each path, or in the drop of the pool, whose fields
  are dropped in order.\<close>

datatype chunk_owner_pc =
    ChunkIdle
  | Fitting tenant usize usize
  | Retiring tenant usize usize chunk_drop_pc
  | Opening tenant usize usize owner_pc
  | Dedicating tenant usize owner_pc
  | Oversizing tenant usize usize
  | Counting "count_op list" chunk_builder
  | ClosingPages pool_pc
  | ClosingOpen chunk_drop_pc
  | ChunkPoolGone

definition path_builder :: "nat option \<Rightarrow> nat \<Rightarrow> u64 \<Rightarrow> usize \<Rightarrow> usize \<Rightarrow> chunk_builder" where
  "path_builder packed t oversized offset sz = \<lparr>cb_packed = packed, cb_tenant = Some t, cb_oversized_bytes = oversized,
     cb_offset = ucast offset, cb_capacity = ucast sz, cb_len = 0\<rparr>"

text \<open>The dispatch of \<open>allocate_aligned\<close>. A call that fails, here or on a path, hands out no builder; the model goes on
  from there also where the global allocator is out of memory and the process aborts.\<close>

definition chunk_dispatch :: "tenant \<Rightarrow> usize \<Rightarrow> usize \<Rightarrow> chunk_pool \<Rightarrow> chunk_world \<Rightarrow> chunk_owner_pc" where
  "chunk_dispatch t sz align cp w =
     (if \<not> is_power_of_two align then ChunkIdle
      else if sz = 0 then Counting (count_ops ZeroSize (tenant_cell t) 0) (path_builder None (tenant_cell t) 0 0 0)
      else if align \<le> default_align
      then (if sz > pool_page_size w then Oversizing t sz align
            else if sz > cp_threshold cp then Dedicating t sz OwnerIdle
            else Fitting t sz align)
      else (if sz \<le> cp_threshold cp \<and> usize_saturating_add sz (align - 1) \<le> pool_page_size w
            then Fitting t sz align else Oversizing t sz align))"

fun chunk_owner_step :: "placement \<Rightarrow> bool \<Rightarrow> chunk_owner_pc \<Rightarrow> chunk_pool \<Rightarrow> chunk_world
    \<Rightarrow> (chunk_owner_pc \<times> chunk_builder option \<times> chunk_pool \<times> chunk_world) option" where
  "chunk_owner_step ga spurious ChunkIdle cp w = Some (ChunkIdle, None, cp, w)"
| "chunk_owner_step ga spurious (Fitting t sz align) cp w = do {
     fit \<leftarrow> packed_fit sz align cp w;
     (case fit of
        Some (opn, offset) \<Rightarrow> do {
          w \<leftarrow> packed_clone (op_shared opn) w;
          Some (Counting (count_ops PackedSize (tenant_cell t) sz)
                  (path_builder (Some (op_shared opn)) (tenant_cell t) 0 offset sz),
                None, cp\<lparr>cp_current := Some (opn\<lparr>op_write_offset := offset + sz\<rparr>)\<rparr>, w)
        }
      | None \<Rightarrow>
          Some (case cp_current cp of
                  None \<Rightarrow> Opening t sz align OwnerIdle
                | Some opn \<Rightarrow> Retiring t sz align (Unref (op_shared opn)),
                None, cp\<lparr>cp_current := None\<rparr>, w))
   }"
| "chunk_owner_step ga spurious (Retiring t sz align pc) cp w = do {
     (pc, w) \<leftarrow> chunk_drop_step spurious pc w;
     Some (if pc = DropFinished then Opening t sz align OwnerIdle else Retiring t sz align pc, None, cp, w)
   }"
| "chunk_owner_step ga spurious (Opening t sz align pc) cp w =
     (case pc of
        OwnerPanicked e \<Rightarrow> Some (ChunkIdle, None, cp, w)
      | _ \<Rightarrow> do {
          (pc', pp, w) \<leftarrow> owner_step pc (cp_pages cp) w;
          (case pc of
             OwnerTake buf \<Rightarrow>
               (case packed_new \<lparr>pk_buf = buf, pk_release = ReleasePool\<rparr> w of
                  (packed, w) \<Rightarrow> Some (Fitting t sz align, None,
                    cp\<lparr>cp_pages := pp, cp_current := Some \<lparr>op_shared = packed, op_write_offset = 0\<rparr>\<rparr>, w))
           | _ \<Rightarrow> Some (Opening t sz align pc', None, cp\<lparr>cp_pages := pp\<rparr>, w))
        })"
| "chunk_owner_step ga spurious (Dedicating t sz pc) cp w =
     (case pc of
        OwnerPanicked e \<Rightarrow> Some (ChunkIdle, None, cp, w)
      | _ \<Rightarrow> do {
          (pc', pp, w) \<leftarrow> owner_step pc (cp_pages cp) w;
          (case pc of
             OwnerTake buf \<Rightarrow>
               (case packed_new \<lparr>pk_buf = buf, pk_release = ReleasePool\<rparr> w of
                  (packed, w) \<Rightarrow> Some (Counting (count_ops DedicatedSize (tenant_cell t) sz)
                      (path_builder (Some packed) (tenant_cell t) 0 0 sz), None, cp\<lparr>cp_pages := pp\<rparr>, w))
           | _ \<Rightarrow> Some (Dedicating t sz pc', None, cp\<lparr>cp_pages := pp\<rparr>, w))
        })"
| "chunk_owner_step ga spurious (Oversizing t sz align) cp w =
     (case from_size_align sz (max align default_align) of
        Inl e \<Rightarrow> Some (ChunkIdle, None, cp, w)
      | Inr layout \<Rightarrow>
          (case alloc_zeroed ga layout (w_heap w) of
             (raw, h) \<Rightarrow>
               let w = w\<lparr>w_heap := h\<rparr>
               in if raw = 0 then Some (ChunkIdle, None, cp, w)
                  else (case packed_new \<lparr>pk_buf = raw, pk_release = ReleaseHeap layout\<rparr> w of
                    (packed, w) \<Rightarrow> Some (Counting (count_ops OversizedSize (tenant_cell t) sz)
                      (path_builder (Some packed) (tenant_cell t) sz 0 sz), None, cp, w))))"
| "chunk_owner_step ga spurious (Counting [] b) cp w = Some (ChunkIdle, Some b, cp, w)"
| "chunk_owner_step ga spurious (Counting (op # ops) b) cp w =
     (case count_step op w of (next_ops, w) \<Rightarrow> Some (Counting (next_ops @ ops) b, None, cp, w))"
| "chunk_owner_step ga spurious (ClosingPages pc) cp w = do {
     (pc, _, pp, w) \<leftarrow> pool_step pc (cp_pages cp) w;
     Some (if pc = PoolGone
           then (case cp_current cp of None \<Rightarrow> ChunkPoolGone | Some opn \<Rightarrow> ClosingOpen (Unref (op_shared opn)))
           else ClosingPages pc,
           None, cp\<lparr>cp_pages := pp, cp_current := (if pc = PoolGone then None else cp_current cp)\<rparr>, w)
   }"
| "chunk_owner_step ga spurious (ClosingOpen pc) cp w = do {
     (pc, w) \<leftarrow> chunk_drop_step spurious pc w;
     Some (if pc = DropFinished then ChunkPoolGone else ClosingOpen pc, None, cp, w)
   }"
| "chunk_owner_step ga spurious ChunkPoolGone cp w = Some (ChunkPoolGone, None, cp, w)"

section \<open>The machine\<close>

text \<open>The owner, the builders, which are each on one thread, and the threads that are dropping something; the chunks are
  in the table \<open>w_chunks\<close>. A builder writes to its own range only, so that its calls are one step each. \<open>seal\<close> makes the
  chunk and then drops the builder, which has lost its tenant.\<close>

record ct_state =
  ct_world :: chunk_world
  ct_pool :: chunk_pool
  ct_owner :: chunk_owner_pc
  ct_scrapers :: nat
  ct_builders :: "chunk_builder list"
  ct_threads :: "chunk_drop_pc list"

datatype ct_event =
    StartChunk tenant usize usize
  | StartChunkPoolDrop
  | ChunkOwnerRuns bool
  | ChunkThreadRuns nat bool
  | ReadRange nat
  | AppendRange nat "u8 list"
  | SetRangeLen nat usize
  | FillRange nat "unit init"
  | SealRange nat
  | StartRangeDrop nat
  | ReadChunkHandle chunk
  | CloneChunkHandle chunk
  | DropChunkHandle chunk
  | CloneChunkScraper
  | DropChunkScraper

text \<open>What ownership lets a client do. The owner's methods take \<open>&mut self\<close>: one at a time. The flag \<open>exact\<close> restricts
  requests to sizes below 4 GiB, as in \<open>Chunk_System\<close>.\<close>

fun ct_allowed :: "bool \<Rightarrow> ct_event \<Rightarrow> ct_state \<Rightarrow> bool" where
  "ct_allowed exact (StartChunk t sz align) s = (ct_owner s = ChunkIdle \<and> (exact \<longrightarrow> unat sz < 2 ^ 32))"
| "ct_allowed exact StartChunkPoolDrop s = (ct_owner s = ChunkIdle)"
| "ct_allowed exact (ChunkOwnerRuns spurious) s = True"
| "ct_allowed exact (ChunkThreadRuns i spurious) s = (i < length (ct_threads s))"
| "ct_allowed exact (ReadRange i) s = (i < length (ct_builders s))"
| "ct_allowed exact (AppendRange i data) s = (i < length (ct_builders s) \<and> length data \<le> isize_max)"
| "ct_allowed exact (SetRangeLen i len) s = (i < length (ct_builders s))"
| "ct_allowed exact (FillRange i f) s = (i < length (ct_builders s) \<and> keeps_length f)"
| "ct_allowed exact (SealRange i) s = (i < length (ct_builders s))"
| "ct_allowed exact (StartRangeDrop i) s = (i < length (ct_builders s))"
| "ct_allowed exact (ReadChunkHandle c) s = (get_chunk c (ct_world s) \<noteq> None)"
| "ct_allowed exact (CloneChunkHandle c) s = (get_chunk c (ct_world s) \<noteq> None)"
| "ct_allowed exact (DropChunkHandle c) s = (get_chunk c (ct_world s) \<noteq> None)"
| "ct_allowed exact CloneChunkScraper s = (ct_owner s = ChunkIdle \<or> ct_scrapers s \<noteq> 0)"
| "ct_allowed exact DropChunkScraper s = (ct_scrapers s \<noteq> 0)"

fun ct_step :: "placement \<Rightarrow> ct_event \<Rightarrow> ct_state \<Rightarrow> ct_state option" where
  "ct_step ga (StartChunk t sz align) s =
     Some (s\<lparr>ct_owner := chunk_dispatch t sz align (ct_pool s) (ct_world s)\<rparr>)"
| "ct_step ga StartChunkPoolDrop s = Some (s\<lparr>ct_owner := ClosingPages PoolWalk\<rparr>)"
| "ct_step ga (ChunkOwnerRuns spurious) s = do {
     (pc, b, cp, w) \<leftarrow> chunk_owner_step ga spurious (ct_owner s) (ct_pool s) (ct_world s);
     Some (s\<lparr>ct_owner := pc, ct_pool := cp, ct_world := w,
       ct_builders := (case b of None \<Rightarrow> ct_builders s | Some b \<Rightarrow> b # ct_builders s)\<rparr>)
   }"
| "ct_step ga (ChunkThreadRuns i spurious) s = do {
     (pc, w) \<leftarrow> chunk_drop_step spurious (ct_threads s ! i) (ct_world s);
     Some (s\<lparr>ct_threads := (ct_threads s)[i := pc], ct_world := w\<rparr>)
   }"
| "ct_step ga (ReadRange i) s = do { _ \<leftarrow> chunk_builder_as_slice (ct_builders s ! i) (ct_world s); Some s }"
| "ct_step ga (AppendRange i data) s = do {
     (r, b, w) \<leftarrow> chunk_builder_append data (ct_builders s ! i) (ct_world s);
     Some (s\<lparr>ct_builders := (ct_builders s)[i := b], ct_world := w\<rparr>)
   }"
| "ct_step ga (SetRangeLen i len) s =
     (case chunk_builder_set_len len (ct_builders s ! i) of
        (r, b) \<Rightarrow> Some (s\<lparr>ct_builders := (ct_builders s)[i := b]\<rparr>))"
| "ct_step ga (FillRange i f) s = do {
     (r, w) \<leftarrow> chunk_run_init f (ct_builders s ! i) (ct_world s);
     Some (s\<lparr>ct_world := w\<rparr>)
   }"
| "ct_step ga (SealRange i) s =
     (let b = ct_builders s ! i;
          s = s\<lparr>ct_builders := remove_nth i (ct_builders s),
            ct_threads := ct_threads s @ [builder_drop_pc (b\<lparr>cb_tenant := None\<rparr>)]\<rparr>
      in case cb_tenant b of
           None \<Rightarrow> Some s
         | Some t \<Rightarrow> do {
             w \<leftarrow> (case cb_packed b of None \<Rightarrow> Some (ct_world s) | Some j \<Rightarrow> packed_clone j (ct_world s));
             let inner = \<lparr>ci_packed = cb_packed b, ci_tenant = t, ci_oversized_bytes = cb_oversized_bytes b,
                          ci_offset = cb_offset b, ci_capacity = cb_capacity b, ci_length = cb_len b\<rparr>;
             Some (s\<lparr>ct_world := w\<lparr>w_chunks := w_chunks w @ [(inner, 1)]\<rparr>\<rparr>)
           })"
| "ct_step ga (StartRangeDrop i) s =
     Some (s\<lparr>ct_builders := remove_nth i (ct_builders s),
       ct_threads := ct_threads s @ [builder_drop_pc (ct_builders s ! i)]\<rparr>)"
| "ct_step ga (ReadChunkHandle c) s = do { _ \<leftarrow> chunk_as_slice c (ct_world s); Some s }"
| "ct_step ga (CloneChunkHandle c) s = do { (d, w) \<leftarrow> chunk_clone c (ct_world s); Some (s\<lparr>ct_world := w\<rparr>) }"
| "ct_step ga (DropChunkHandle c) s = do {
     (inner, n) \<leftarrow> get_chunk c (ct_world s);
     Some (s\<lparr>ct_world := (ct_world s)\<lparr>w_chunks := (w_chunks (ct_world s))[c := (inner, n - 1)]\<rparr>,
       ct_threads := ct_threads s @ (if n = 1 then [inner_drop_pc inner] else [])\<rparr>)
   }"
| "ct_step ga CloneChunkScraper s = do {
     _ \<leftarrow> get_shared (ct_world s);
     Some (s\<lparr>ct_scrapers := Suc (ct_scrapers s), ct_world := clone_shared (ct_world s)\<rparr>)
   }"
| "ct_step ga DropChunkScraper s =
     Some (s\<lparr>ct_scrapers := ct_scrapers s - 1, ct_threads := ct_threads s @ [Returning DecShared]\<rparr>)"

abbreviation ct_run :: "placement \<Rightarrow> bool \<Rightarrow> ct_state \<Rightarrow> ct_event list \<Rightarrow> ct_state \<Rightarrow> bool" where
  "ct_run ga exact \<equiv> run (ct_allowed exact) (ct_step ga)"

text \<open>The machine starts in any state of a program over the pool; from there on its handles may be on any thread.\<close>

definition ct_of :: "chunk_pool \<Rightarrow> chunk_sys \<Rightarrow> ct_state" where
  "ct_of cp s = \<lparr>ct_world = c_world s, ct_pool = cp, ct_owner = ChunkIdle, ct_scrapers = c_scrapers s,
     ct_builders = c_builders s, ct_threads = []\<rparr>"

section \<open>The invariant\<close>

text \<open>What the owner is for the pool and for the store, and what it holds: a builder that it is counting.\<close>

fun own_pc :: "chunk_owner_pc \<Rightarrow> pool_pc" where
  "own_pc (Opening t sz align pc) = PoolAlloc t pc"
| "own_pc (Dedicating t sz pc) = PoolAlloc t pc"
| "own_pc (ClosingPages pc) = pc"
| "own_pc (ClosingOpen pc) = PoolGone"
| "own_pc ChunkPoolGone = PoolGone"
| "own_pc _ = PoolIdle"

fun owner_drop :: "chunk_owner_pc \<Rightarrow> chunk_drop_pc" where
  "owner_drop (Retiring t sz align pc) = pc"
| "owner_drop (ClosingOpen pc) = pc"
| "owner_drop _ = DropFinished"

fun owner_builder :: "chunk_owner_pc \<Rightarrow> chunk_builder multiset" where
  "owner_builder (Counting ops b) = {#b#}"
| "owner_builder _ = {#}"

fun owner_ops :: "chunk_owner_pc \<Rightarrow> count_op list" where
  "owner_ops (Counting ops b) = ops"
| "owner_ops _ = []"

text \<open>What holds at each point of the owner's code, for a page size \<open>ps\<close> and an open page \<open>opn\<close>.\<close>

definition small_request :: "bool \<Rightarrow> usize \<Rightarrow> bool" where
  "small_request exact sz \<longleftrightarrow> (exact \<longrightarrow> unat sz < 2 ^ 32)"

definition packed_request :: "bool \<Rightarrow> usize \<Rightarrow> usize \<Rightarrow> usize \<Rightarrow> bool" where
  "packed_request exact ps sz align \<longleftrightarrow>
     small_request exact sz \<and> is_power_of_two align \<and> sz \<noteq> 0 \<and> packable ps sz align"

fun owner_ready :: "bool \<Rightarrow> usize \<Rightarrow> open_page option \<Rightarrow> chunk_owner_pc \<Rightarrow> bool" where
  "owner_ready exact ps opn (Fitting t sz align) = packed_request exact ps sz align"
| "owner_ready exact ps opn (Retiring t sz align pc) = (packed_request exact ps sz align \<and> opn = None \<and> pc \<noteq> DropFinished)"
| "owner_ready exact ps opn (Opening t sz align pc) = (packed_request exact ps sz align \<and> opn = None)"
| "owner_ready exact ps opn (Dedicating t sz pc) = (small_request exact sz \<and> unat sz \<le> unat ps)"
| "owner_ready exact ps opn (Oversizing t sz align) = (small_request exact sz \<and> is_power_of_two align)"
| "owner_ready exact ps opn (Counting ops b) = (tally count_rank ops < 19)"
| "owner_ready exact ps opn (ClosingPages pc) = (pc \<in> {PoolWalk, PoolDec, PoolFree})"
| "owner_ready exact ps opn (ClosingOpen pc) = (opn = None \<and> pc \<noteq> DropFinished)"
| "owner_ready exact ps opn ChunkPoolGone = (opn = None)"
| "owner_ready exact ps opn _ = True"

abbreviation ct_pcs :: "ct_state \<Rightarrow> chunk_drop_pc list" where
  "ct_pcs s \<equiv> owner_drop (ct_owner s) # ct_threads s"

abbreviation ct_held :: "ct_state \<Rightarrow> chunk_builder multiset" where
  "ct_held s \<equiv> owner_builder (ct_owner s) + mset (ct_builders s)"

abbreviation ct_size :: "ct_state \<Rightarrow> usize" where
  "ct_size s \<equiv> sh_page_size (w_shared (ct_world s))"

definition ct_memory :: "heap \<Rightarrow> ct_state \<Rightarrow> bool" where
  "ct_memory h0 s = drops_inv h0 (cp_pages (ct_pool s)) (own_pc (ct_owner s)) (ct_scrapers s) (cp_current (ct_pool s))
     (ct_world s) (chunk_claims (ct_world s) (ct_held s)) (ct_pcs s)"

text \<open>A counter and the operations on it that are still to come make up the charges of the live handles.\<close>

definition charges_use :: "use_counter \<Rightarrow> charge multiset \<Rightarrow> u64" where
  "charges_use c H = sum_mset (image_mset (charge_use c) H)"

definition ct_charges :: "stats_table \<Rightarrow> ct_state \<Rightarrow> bool" where
  "ct_charges base s \<longleftrightarrow> (\<forall>c. world_use (ct_world s) c + ops_use c (owner_ops (ct_owner s))
       + tally (\<lambda>pc. ops_use c (drop_ops pc)) (ct_pcs s)
     = use_value base chunk_pool_stats_default c + charges_use c (chunk_charges (ct_world s) (ct_held s)))"

definition ct_handles_ok :: "bool \<Rightarrow> ct_state \<Rightarrow> bool" where
  "ct_handles_ok exact s \<longleftrightarrow>
     (\<forall>b. b \<in># ct_held s \<longrightarrow> cbuilder_ok b) \<and> (\<forall>i. i \<in># live_cells (w_chunks (ct_world s)) \<longrightarrow> cinner_ok i) \<and>
     (\<forall>pc \<in> set (ct_pcs s). drop_pc_ok pc) \<and> owner_ready exact (ct_size s) (cp_current (ct_pool s)) (ct_owner s) \<and>
     pool_sizes (Some (ct_pool s)) (ct_size s)"

definition ct_inv :: "heap \<Rightarrow> stats_table \<Rightarrow> bool \<Rightarrow> ct_state \<Rightarrow> bool" where
  "ct_inv h0 base exact s \<longleftrightarrow> ct_memory h0 s \<and> (exact \<longrightarrow> ct_charges base s) \<and> ct_handles_ok exact s"

section \<open>Lemmas\<close>

lemma ct_inv_parts:
  assumes "ct_inv h0 base exact s"
  shows "ct_memory h0 s" and "exact \<Longrightarrow> ct_charges base s" and "ct_handles_ok exact s"
  using assms by (simp_all add: ct_inv_def)

lemma charges_use_simps [simp]:
  "charges_use c {#} = 0" "charges_use c (add_mset h H) = charge_use c h + charges_use c H"
  "charges_use c (H + H') = charges_use c H + charges_use c H'"
  by (simp_all add: charges_use_def)

lemma chunk_charges_plus: "chunk_charges w (A + B) = image_mset builder_charge A + chunk_charges w B"
  by (simp add: chunk_charges_def)

text \<open>With no operation to come, the counters are those of the live handles.\<close>

lemma use_tenant_charges:
  "charges_use (TenantChunks t) H = of_nat (size {#h \<in># H. fst h = t#})"
  "charges_use (TenantBytes t) H = sum_mset (image_mset (fst \<circ> snd) {#h \<in># H. fst h = t#})"
  "charges_use PoolChunks H = of_nat (size H)" "charges_use PoolOversized H = sum_mset (image_mset (snd \<circ> snd) H)"
  by (induction H) auto

lemma chunk_accounts_use: "chunk_accounts base w B \<longleftrightarrow>
  (\<forall>c. world_use w c = use_value base chunk_pool_stats_default c + charges_use c (chunk_charges w B))"
proof -
  have "(\<forall>c. P c) \<longleftrightarrow> (\<forall>t. P (TenantChunks t) \<and> P (TenantBytes t)) \<and> P PoolChunks \<and> P PoolOversized" for P
    by (metis use_counter.exhaust)
  then show ?thesis
    by (simp add: chunk_accounts_def chunk_charged_def use_tenant_charges chunk_pool_stats_default_def)
qed

lemma ct_readable:
  assumes "ct_inv h0 base exact s"
  shows "chunks_readable (ct_world s)"
proof -
  note parts = ct_inv_parts [OF assms]
  have "c \<in># tally drop_claim (ct_pcs s) + chunk_claims (ct_world s) (ct_held s)"
    if "i \<in># live_cells (w_chunks (ct_world s))" "c \<in># inner_claim i" for i c
    using inner_claims_sub [OF that, of "ct_held s"] by simp
  then show ?thesis using parts(3)
    by (intro conc_store.held_readable [OF parts(1) [unfolded ct_memory_def drops_inv_def]]) (auto simp: ct_handles_ok_def)
qed

lemma ct_stable:
  assumes "ct_inv h0 base exact s" and "w_chunks w' = w_chunks (ct_world s)" and "claims_kept (chunk_claims (ct_world s) B) (ct_world s) w'"
  shows "chunks_stable (ct_world s) w'"
  using readable_append [OF ct_readable [OF assms(1)], of w' "[]"] assms(2,3) inner_claims_sub by auto

definition ct_good :: "placement \<Rightarrow> heap \<Rightarrow> stats_table \<Rightarrow> bool \<Rightarrow> ct_event \<Rightarrow> ct_state \<Rightarrow> bool" where
  "ct_good ga h0 base exact e s \<longleftrightarrow>
     (\<exists>s'. ct_step ga e s = Some s' \<and> ct_inv h0 base exact s' \<and> chunks_stable (ct_world s) (ct_world s'))"

lemma ct_goodI:
  assumes "ct_step ga e s = Some s'" and "ct_memory h0 s'" and "exact \<Longrightarrow> ct_charges base s'" and "ct_handles_ok exact s'"
    and "chunks_stable (ct_world s) (ct_world s')"
  shows "ct_good ga h0 base exact e s"
  using assms by (auto simp: ct_good_def ct_inv_def)


subsection \<open>The store when the owner takes or gives up a block\<close>

lemma drops_retire:
  assumes "drops_inv h0 pp own k (Some opn) w C (DropFinished # pcs)"
  shows "drops_inv h0 pp own k None w C (Unref (op_shared opn) # pcs)"
proof -
  let ?C = "tally drop_claim pcs + C"
  note I = held_invD [OF assms [unfolded drops_inv_def]]
  have "get_packed (op_shared opn) w \<noteq> None" using claims_okD(3) [OF I(2)] by (auto simp: open_ok_def)
  then have "claims_ok None w (add_mset (op_shared opn, 0, 0) ?C)"
    using claims_ok_retire [OF I(2)] by (simp add: claims_ok_empty_claim)
  with I(1) show ?thesis by (simp add: drops_inv_def held_inv_def add.commute)
qed

lemma drops_own:
  assumes inv: "drops_inv h0 pp own k opn w C pcs" and own: "own_refs own = 1" "own_refs own' = 1"
    "owner_of own' = owner_of own \<or> owner_of own' = OwnerIdle \<and> (\<exists>e. owner_of own = OwnerPanicked e)" "own' \<noteq> PoolDec"
  shows "drops_inv h0 pp own' k opn w C pcs"
  by (rule drops_pool_step(1) [OF inv]) (use conc_owner [OF _ own(1-3)] own(4) in \<open>simp_all add: pool_frame_def\<close>)

text \<open>The owner takes a buffer.\<close>

lemma drops_take:
  assumes inv: "drops_inv h0 pp (PoolAlloc t (OwnerTake buf)) k opn w C pcs"
  defines "pk \<equiv> \<lparr>pk_buf = buf, pk_release = ReleasePool\<rparr>"
  obtains pp' w1 w' where "owner_step (OwnerTake buf) pp w = Some (OwnerIdle, pp', w1)"
    and "packed_new pk w1 = (length (w_packed w), w')" and "packed_keeps w w'" and "same_handles w w'"
    and "get_packed (length (w_packed w)) w' = Some (pk, 1)"
    and "store_inv (conc_life pp' PoolIdle k (map give_of pcs)) h0 (tally drop_block pcs) w'
      (add_mset (length (w_packed w)) (claim_refs opn (tally drop_claim pcs + C)))"
proof -
  let ?U = "pool_buffers (live_cells (w_packed w))" and ?ts = "map give_of pcs"
  note held = inv [unfolded drops_inv_def]
  note step = conc_alloc [of pp t "OwnerTake buf" k ?ts _ w, simplified]
  from inv obtain h1 where "conc_life pp (PoolAlloc t (OwnerTake buf)) k ?ts h1 w ?U" by (rule drops_life)
  from step [OF this] obtain pp' w1 where st: "owner_step (OwnerTake buf) pp w = Some (OwnerIdle, pp', w1)" "pool_frame w w1" by auto
  have life': "conc_life pp' PoolIdle k ?ts h1 w1 (add_mset buf ?U) \<and> (\<forall>y. y \<noteq> buf \<longrightarrow> w_heap w1 y = w_heap w y)"
    if "conc_life pp (PoolAlloc t (OwnerTake buf)) k ?ts h1 w ?U" for h1
    using step [OF that] st(1) conc_owner [of pp' "PoolAlloc t OwnerIdle" k ?ts h1 w1 "add_mset buf ?U" PoolIdle] by auto
  have L: "buffer_life (conc_life pp own k ts :: heap \<Rightarrow> chunk_world \<Rightarrow> addr multiset \<Rightarrow> bool)" for pp own k ts
    by (rule conc_store.buffer_life_axioms)
  note tk = store_taken [OF L L held_invD(1) [OF held] st(2) life']
  show thesis
  proof (rule that [OF st(1)])
    let ?w = "w1\<lparr>w_packed := w_packed w @ [(pk, 1)]\<rparr>"
    show "packed_new pk w1 = (length (w_packed w), ?w)" using tk(1) by (simp add: pk_def)
    show "packed_keeps w ?w" using tk(3) by (simp add: pk_def)
    show "same_handles w ?w" using st(2) pool_frame_packed(2) [OF st(2)] by (intro same_handlesI) (simp_all add: pool_frame_def)
    show "get_packed (length (w_packed w)) ?w = Some (pk, 1)" by (simp add: get_packed_def get_cell_def)
    show "store_inv (conc_life pp' PoolIdle k ?ts) h0 (tally drop_block pcs) ?w
        (add_mset (length (w_packed w)) (claim_refs opn (tally drop_claim pcs + C)))" using tk(2) by (simp add: pk_def)
  qed
qed


subsection \<open>Steps of the threads\<close>

lemma ct_drop_runs:
  assumes inv: "ct_inv h0 base exact s" and j: "j < length (ct_pcs s)"
  obtains pc w where "chunk_drop_step spurious (ct_pcs s ! j) (ct_world s) = Some (pc, w)" and "drop_pc_ok pc"
    and "drops_inv h0 (cp_pages (ct_pool s)) (own_pc (ct_owner s)) (ct_scrapers s) (cp_current (ct_pool s)) w
      (chunk_claims (ct_world s) (ct_held s)) ((ct_pcs s)[j := pc])"
    and "claims_kept (chunk_claims (ct_world s) (ct_held s)) (ct_world s) w" and "w_chunks w = w_chunks (ct_world s)"
    and "\<forall>c. world_use w c + ops_use c (drop_ops pc) = world_use (ct_world s) c + ops_use c (drop_ops (ct_pcs s ! j))"
proof -
  note parts = ct_inv_parts [OF inv]
  have "drop_pc_ok (ct_pcs s ! j)" using parts(3) nth_mem [OF j] by (auto simp: ct_handles_ok_def simp del: nth_Cons)
  from drop_step_good [OF parts(1) [unfolded ct_memory_def] j this] show thesis
    unfolding drop_good_def using that by (metis (no_types, lifting))
qed

lemma balance_moved:
  fixes a :: u64
  assumes "a + b + (d + (p + r)) = z" and "a' + p' = a + p"
  shows "a' + b + (d + (p' + r)) = z"
proof -
  have "a' + b + (d + (p' + r)) = (a' + p') + (b + (d + r))" by (simp add: ac_simps)
  also have "\<dots> = z" unfolding assms(2) assms(1) [symmetric] by (simp add: ac_simps)
  finally show ?thesis .
qed

lemma ct_thread_runs:
  assumes inv: "ct_inv h0 base exact s" and i: "i < length (ct_threads s)"
  shows "ct_good ga h0 base exact (ChunkThreadRuns i spurious) s"
proof -
  note parts = ct_inv_parts [OF inv]
  have j: "Suc i < length (ct_pcs s)" using i by simp
  from inv j obtain pc w where st: "chunk_drop_step spurious (ct_pcs s ! Suc i) (ct_world s) = Some (pc, w)" "drop_pc_ok pc"
    "drops_inv h0 (cp_pages (ct_pool s)) (own_pc (ct_owner s)) (ct_scrapers s) (cp_current (ct_pool s)) w
      (chunk_claims (ct_world s) (ct_held s)) ((ct_pcs s)[Suc i := pc])"
    "claims_kept (chunk_claims (ct_world s) (ct_held s)) (ct_world s) w" and ch: "w_chunks w = w_chunks (ct_world s)"
    and use: "\<forall>c. world_use w c + ops_use c (drop_ops pc) = world_use (ct_world s) c + ops_use c (drop_ops (ct_pcs s ! Suc i))"
    by (rule ct_drop_runs [where spurious = spurious])
  let ?s = "s\<lparr>ct_threads := (ct_threads s)[i := pc], ct_world := w\<rparr>"
  have size: "ct_size ?s = ct_size s" using st(4) by (simp add: claims_kept_def)
  show ?thesis
  proof (rule ct_goodI)
    show "ct_step ga (ChunkThreadRuns i spurious) s = Some ?s" using st(1) by simp
    show "ct_memory h0 ?s" using st(3) by (simp add: ct_memory_def chunk_claims_cong [OF ch])
    show "ct_charges base ?s" if exact
      unfolding ct_charges_def
    proof
      fix c
      note u = tally_update [OF i, of "\<lambda>pc. ops_use c (drop_ops pc)"]
      have "world_use (ct_world s) c + ops_use c (owner_ops (ct_owner s)) + tally (\<lambda>pc. ops_use c (drop_ops pc)) (ct_pcs s)
          = use_value base chunk_pool_stats_default c + charges_use c (chunk_charges (ct_world s) (ct_held s))"
        using parts(2) [OF that] unfolding ct_charges_def by blast
      with spec [OF use, of c] u show "world_use (ct_world ?s) c + ops_use c (owner_ops (ct_owner ?s)) + tally (\<lambda>pc. ops_use c (drop_ops pc)) (ct_pcs ?s)
          = use_value base chunk_pool_stats_default c + charges_use c (chunk_charges (ct_world ?s) (ct_held ?s))"
        by (simp add: chunk_charges_cong [OF ch]) (rule balance_moved)
    qed
    show "ct_handles_ok exact ?s"
      using parts(3) st(2) size ch set_update_subset_insert [of "ct_threads s" i pc] by (auto simp: ct_handles_ok_def)
    show "chunks_stable (ct_world s) (ct_world ?s)" using ct_stable [OF inv ch st(4)] by simp
  qed
qed

subsection \<open>Steps of the owner\<close>

lemma balance_moves:
  fixes a :: u64
  assumes "a + b + (d + r) = z + (e + h)" and "a' + b' + d' + e = a + b + d + e'"
  shows "a' + b' + (d' + r) = z + (e' + h)"
proof -
  have "(a' + b' + (d' + r)) + e = (a' + b' + d' + e) + r" by (simp add: ac_simps)
  also have "\<dots> = (a + b + (d + r)) + e'" unfolding assms(2) by (simp add: ac_simps)
  also have "\<dots> = (z + (e' + h)) + e" unfolding assms(1) by (simp add: ac_simps)
  finally show ?thesis by simp
qed

lemma owner_runs_step:
  "chunk_owner_step ga spurious (ct_owner s) (ct_pool s) (ct_world s) = Some (own', None, cp', w') \<Longrightarrow>
   ct_step ga (ChunkOwnerRuns spurious) s = Some (s\<lparr>ct_owner := own', ct_pool := cp', ct_world := w', ct_builders := ct_builders s\<rparr>)"
  by simp

lemma ct_owner_moves:
  assumes inv: "ct_inv h0 base exact s"
    and step: "ct_step ga e s = Some (s\<lparr>ct_owner := own', ct_pool := cp', ct_world := w', ct_builders := ct_builders s\<rparr>)"
    and mem: "drops_inv h0 (cp_pages cp') (own_pc own') (ct_scrapers s) (cp_current cp') w'
      (chunk_claims (ct_world s) (owner_builder own' + mset (ct_builders s))) (owner_drop own' # ct_threads s)"
    and ch: "w_chunks w' = w_chunks (ct_world s)" and thr: "cp_threshold cp' = cp_threshold (ct_pool s)"
    and kept: "claims_kept (chunk_claims (ct_world s) (mset (ct_builders s))) (ct_world s) w'"
    and use: "\<And>c. exact \<Longrightarrow> world_use w' c + ops_use c (owner_ops own') + ops_use c (drop_ops (owner_drop own'))
        + charges_use c (image_mset builder_charge (owner_builder (ct_owner s)))
      = world_use (ct_world s) c + ops_use c (owner_ops (ct_owner s)) + ops_use c (drop_ops (owner_drop (ct_owner s)))
        + charges_use c (image_mset builder_charge (owner_builder own'))"
    and ready: "owner_ready exact (ct_size s) (cp_current cp') own'" "drop_pc_ok (owner_drop own')"
      "\<And>b. b \<in># owner_builder own' \<Longrightarrow> cbuilder_ok b"
  shows "ct_good ga h0 base exact e s"
proof -
  note parts = ct_inv_parts [OF inv]
  let ?s = "s\<lparr>ct_owner := own', ct_pool := cp', ct_world := w', ct_builders := ct_builders s\<rparr>"
  have size: "sh_page_size (w_shared w') = ct_size s" using kept by (simp add: claims_kept_def)
  show ?thesis
  proof (rule ct_goodI)
    show "ct_step ga e s = Some ?s" by (rule step)
    show "ct_memory h0 ?s" using mem by (simp add: ct_memory_def chunk_claims_cong [OF ch])
    show "ct_charges base ?s" if exact
      unfolding ct_charges_def
    proof
      fix c
      let ?T = "tally (\<lambda>pc. ops_use c (drop_ops pc)) (ct_threads s)" and ?H = "charges_use c (chunk_charges (ct_world s) (mset (ct_builders s)))"
      have "world_use (ct_world s) c + ops_use c (owner_ops (ct_owner s)) + (ops_use c (drop_ops (owner_drop (ct_owner s))) + ?T)
          = use_value base chunk_pool_stats_default c + (charges_use c (image_mset builder_charge (owner_builder (ct_owner s))) + ?H)"
        using parts(2) [OF that] by (simp add: ct_charges_def chunk_charges_plus)
      with use [OF that, of c] show "world_use (ct_world ?s) c + ops_use c (owner_ops (ct_owner ?s)) + tally (\<lambda>pc. ops_use c (drop_ops pc)) (ct_pcs ?s)
          = use_value base chunk_pool_stats_default c + charges_use c (chunk_charges (ct_world ?s) (ct_held ?s))"
        by (simp add: chunk_charges_cong [OF ch] chunk_charges_plus) (rule balance_moves)
    qed
    show "ct_handles_ok exact ?s" using parts(3) ready size ch thr by (auto simp: ct_handles_ok_def)
    show "chunks_stable (ct_world s) (ct_world ?s)" using ct_stable [OF inv ch kept] by simp
  qed
qed


lemmas ct_owner_good = ct_owner_moves [where e = "ChunkOwnerRuns spurious" for spurious, OF _ owner_runs_step]

text \<open>A step that neither counts nor hands out anything.\<close>

definition quiet_owner :: "chunk_owner_pc \<Rightarrow> bool" where
  "quiet_owner own \<longleftrightarrow> owner_builder own = {#} \<and> owner_ops own = [] \<and> drop_ops (owner_drop own) = []"

lemma ct_owner_quiet:
  assumes inv: "ct_inv h0 base exact s" and quiet: "quiet_owner (ct_owner s)" "quiet_owner own'"
    and step: "chunk_owner_step ga spurious (ct_owner s) (ct_pool s) (ct_world s) = Some (own', None, cp', w')"
    and mem: "drops_inv h0 (cp_pages cp') (own_pc own') (ct_scrapers s) (cp_current cp') w'
      (chunk_claims (ct_world s) (mset (ct_builders s))) (owner_drop own' # ct_threads s)"
    and same: "same_handles (ct_world s) w'" and thr: "cp_threshold cp' = cp_threshold (ct_pool s)"
    and kept: "claims_kept (chunk_claims (ct_world s) (mset (ct_builders s))) (ct_world s) w'"
    and ready: "owner_ready exact (ct_size s) (cp_current cp') own'" "drop_pc_ok (owner_drop own')"
  shows "ct_good ga h0 base exact (ChunkOwnerRuns spurious) s"
  by (rule ct_owner_good [OF inv step _ _ thr kept _ ready])
    (use quiet mem same in \<open>auto simp: quiet_owner_def same_handles_def\<close>)

text \<open>The invariant while the owner is not dropping anything.\<close>

lemma ct_owner_memory:
  assumes "ct_inv h0 base exact s" and "quiet_owner (ct_owner s)" and "owner_drop (ct_owner s) = DropFinished"
  shows "drops_inv h0 (cp_pages (ct_pool s)) (own_pc (ct_owner s)) (ct_scrapers s) (cp_current (ct_pool s)) (ct_world s)
      (chunk_claims (ct_world s) (mset (ct_builders s))) (DropFinished # ct_threads s)"
    and "owner_ready exact (ct_size s) (cp_current (ct_pool s)) (ct_owner s)"
    and "unat (ct_size s) \<le> 2 ^ 32"
  using assms by (simp_all add: ct_inv_def ct_memory_def ct_handles_ok_def quiet_owner_def)

lemma ct_fitting:
  assumes inv: "ct_inv h0 base exact s" and own: "ct_owner s = Fitting t sz align"
  shows "ct_good ga h0 base exact (ChunkOwnerRuns spurious) s"
proof -
  let ?w = "ct_world s" and ?cp = "ct_pool s" and ?C = "chunk_claims (ct_world s) (mset (ct_builders s))"
  let ?D = "tally drop_claim (ct_threads s)" and ?Q = "tally drop_block (ct_threads s)"
  let ?life = "conc_life (cp_pages ?cp) PoolIdle (ct_scrapers s) (Dropped # map give_of (ct_threads s))"
  have q: "quiet_owner (ct_owner s)" "owner_drop (ct_owner s) = DropFinished" by (simp_all add: own quiet_owner_def)
  note M = ct_owner_memory [OF inv q, unfolded own, simplified]
  have held: "held_inv ?life h0 ?Q (cp_current ?cp) ?w (?D + ?C)" using M(1) by (simp add: drops_inv_def)
  have a: "is_power_of_two align" and sz: "sz \<noteq> 0" using M(2) by (simp_all add: packed_request_def)
  from conc_store.fit_defined [OF held] obtain fit where fit: "packed_fit sz align ?cp ?w = Some fit" by blast
  show ?thesis
  proof (cases fit)
    case None
    show ?thesis
    proof (cases "cp_current ?cp")
      case cur: None
      show ?thesis
        by (rule ct_owner_quiet [OF inv q(1), where own' = "Opening t sz align OwnerIdle" and cp' = ?cp and w' = ?w])
          (use own fit None cur M drops_own [OF M(1), of "PoolAlloc t OwnerIdle"] in \<open>simp_all add: quiet_owner_def\<close>)
    next
      case cur: (Some opn)
      show ?thesis
        by (rule ct_owner_quiet [OF inv q(1), where own' = "Retiring t sz align (Unref (op_shared opn))"
              and cp' = "?cp\<lparr>cp_current := None\<rparr>" and w' = ?w])
          (use own fit None cur M drops_retire [OF M(1) [unfolded cur]] in \<open>simp_all add: quiet_owner_def\<close>)
    qed
  next
    case (Some oo)
    then obtain opn off where f: "packed_fit sz align ?cp ?w = Some (Some (opn, off))" using fit by (cases oo) auto
    from conc_store.fit_hit [OF held a sz f] obtain w' where
      cl: "packed_clone (op_shared opn) ?w = Some w'"
        "held_inv ?life h0 ?Q (Some (opn\<lparr>op_write_offset := off + sz\<rparr>)) w' (add_mset (op_shared opn, unat off, unat sz) (?D + ?C))"
        "claims_kept (?D + ?C) ?w w'" "same_handles ?w w'" "unat off + unat sz \<le> unat (ct_size s)" by blast
    let ?b = "path_builder (Some (op_shared opn)) (tenant_cell t) 0 off sz"
    let ?own = "Counting (count_ops PackedSize (tenant_cell t) sz) ?b"
    note off = ucast_offset [OF cl(5) sz ct_owner_memory(3) [OF inv q]]
    have claim: "builder_claim ?b = {#(op_shared opn, unat off, unat (ucast sz :: u32))#}"
      by (simp add: builder_claim_def path_builder_def off(1))
    have "held_inv ?life h0 ?Q (Some (opn\<lparr>op_write_offset := off + sz\<rparr>)) w' (builder_claim ?b + (?D + ?C))"
      using cl(2) claims_ok_shorter [OF held_invD(2) [OF cl(2)] unat_ucast_u32_le] by (simp add: held_inv_def claim)
    then have mem: "drops_inv h0 (cp_pages ?cp) PoolIdle (ct_scrapers s) (Some (opn\<lparr>op_write_offset := off + sz\<rparr>)) w'
        (builder_claim ?b + ?C) (DropFinished # ct_threads s)" by (simp add: drops_inv_def ac_simps)
    have use: "ops_use c (count_ops PackedSize (tenant_cell t) sz) = charge_use c (builder_charge ?b)" if exact for c
      using M(2) that ucast_small [of sz]
      by (simp add: count_ops_use builder_charge_def path_builder_def packed_request_def small_request_def)
    show ?thesis
      by (rule ct_owner_good [OF inv, where own' = ?own and cp' = "?cp\<lparr>cp_current := Some (opn\<lparr>op_write_offset := off + sz\<rparr>)\<rparr>" and w' = w'])
        (use own f cl mem use in \<open>simp_all add: same_handles_def claims_kept_def cbuilder_ok_def path_builder_def\<close>)
  qed
qed

lemma ct_counting:
  assumes inv: "ct_inv h0 base exact s" and own: "ct_owner s = Counting ops b"
  shows "ct_good ga h0 base exact (ChunkOwnerRuns spurious) s"
proof (cases ops)
  case Nil
  let ?s = "s\<lparr>ct_owner := ChunkIdle, ct_pool := ct_pool s, ct_world := ct_world s, ct_builders := b # ct_builders s\<rparr>"
  have "ct_inv h0 base exact ?s" using inv own Nil
    by (simp add: ct_inv_def ct_memory_def ct_charges_def ct_handles_ok_def)
  then show ?thesis using own Nil by (simp add: ct_good_def chunks_stable_refl)
next
  case (Cons op ops')
  obtain ops2 w' where st: "count_step op (ct_world s) = (ops2, w')" by fastforce
  note fr = count_step_frame [OF st]
  note parts = ct_inv_parts [OF inv]
  show ?thesis
  proof (rule ct_owner_good [OF inv, where own' = "Counting (ops2 @ ops') b" and cp' = "ct_pool s" and w' = w'])
    show "chunk_owner_step ga spurious (ct_owner s) (ct_pool s) (ct_world s) = Some (Counting (ops2 @ ops') b, None, ct_pool s, w')"
      using own Cons st by simp
    show "claims_kept (chunk_claims (ct_world s) (mset (ct_builders s))) (ct_world s) w'"
      using claims_kept_cong(1) [OF fr(1,2,4), of _ "ct_world s"] by simp
    show "world_use w' c + ops_use c (owner_ops (Counting (ops2 @ ops') b)) + ops_use c (drop_ops (owner_drop (Counting (ops2 @ ops') b)))
        + charges_use c (image_mset builder_charge (owner_builder (ct_owner s)))
      = world_use (ct_world s) c + ops_use c (owner_ops (ct_owner s)) + ops_use c (drop_ops (owner_drop (ct_owner s)))
        + charges_use c (image_mset builder_charge (owner_builder (Counting (ops2 @ ops') b)))" for c
      using fr(6) [of c] own Cons by (simp add: add.assoc [symmetric])
    show "drops_inv h0 (cp_pages (ct_pool s)) (own_pc (Counting (ops2 @ ops') b)) (ct_scrapers s) (cp_current (ct_pool s)) w'
      (chunk_claims (ct_world s) (owner_builder (Counting (ops2 @ ops') b) + mset (ct_builders s)))
      (owner_drop (Counting (ops2 @ ops') b) # ct_threads s)"
      using parts(1) own drops_cong [OF fr(1-4)] by (simp add: ct_memory_def)
  qed (use parts(3) own fr Cons count_step_rank [OF st] in \<open>simp_all add: ct_handles_ok_def\<close>)
qed


lemma ct_owner_drops:
  assumes inv: "ct_inv h0 base exact s" and own: "(\<exists>t sz align. ct_owner s = Retiring t sz align pc) \<or> ct_owner s = ClosingOpen pc"
  shows "ct_good ga h0 base exact (ChunkOwnerRuns spurious) s"
proof -
  note parts = ct_inv_parts [OF inv]
  have drop: "owner_drop (ct_owner s) = pc" "owner_builder (ct_owner s) = {#}" "owner_ops (ct_owner s) = []" using own by auto
  have j: "0 < length (ct_pcs s)" by simp
  from inv j obtain pc' w where st: "chunk_drop_step spurious (ct_pcs s ! 0) (ct_world s) = Some (pc', w)" "drop_pc_ok pc'"
    and mem: "drops_inv h0 (cp_pages (ct_pool s)) (own_pc (ct_owner s)) (ct_scrapers s) (cp_current (ct_pool s)) w
      (chunk_claims (ct_world s) (ct_held s)) ((ct_pcs s)[0 := pc'])"
    and kept: "claims_kept (chunk_claims (ct_world s) (ct_held s)) (ct_world s) w" and ch: "w_chunks w = w_chunks (ct_world s)"
    and use: "\<forall>c. world_use w c + ops_use c (drop_ops pc') = world_use (ct_world s) c + ops_use c (drop_ops (ct_pcs s ! 0))"
    by (rule ct_drop_runs [where spurious = spurious])
  have good: ?thesis
    if step: "chunk_owner_step ga spurious (ct_owner s) (ct_pool s) (ct_world s) = Some (own', None, ct_pool s, w)"
      and e: "owner_drop own' = pc'" "owner_builder own' = {#}" "owner_ops own' = []"
      and idle: "own_pc own' = own_pc (ct_owner s) \<or> own_pc (ct_owner s) = PoolIdle \<and> (\<exists>t. own_pc own' = PoolAlloc t OwnerIdle)"
      and ready: "owner_ready exact (ct_size s) (cp_current (ct_pool s)) own'" for own'
  proof -
    have "drops_inv h0 (cp_pages (ct_pool s)) (own_pc own') (ct_scrapers s) (cp_current (ct_pool s)) w
        (chunk_claims (ct_world s) (mset (ct_builders s))) (pc' # ct_threads s)"
      using idle drops_own [OF mem, of "own_pc own'"] mem drop by auto
    then show ?thesis
      by (intro ct_owner_good [OF inv, where own' = own' and cp' = "ct_pool s" and w' = w])
        (use step e drop kept ch use st(2) ready in simp_all)
  qed
  have ready: "owner_ready exact (ct_size s) (cp_current (ct_pool s)) (ct_owner s)" using parts(3) by (simp add: ct_handles_ok_def)
  from own show ?thesis
  proof (elim disjE exE)
    fix t sz align assume o: "ct_owner s = Retiring t sz align pc"
    with st(1) ready show ?thesis
      by (intro good [of "if pc' = DropFinished then Opening t sz align OwnerIdle else Retiring t sz align pc'"]) auto
  next
    assume o: "ct_owner s = ClosingOpen pc"
    with st(1) ready show ?thesis by (intro good [of "if pc' = DropFinished then ChunkPoolGone else ClosingOpen pc'"]) auto
  qed
qed

text \<open>The owner is looking for a buffer.\<close>

lemma drops_alloc:
  assumes inv: "drops_inv h0 pp (PoolAlloc t pc) k opn w C pcs" and on: "\<forall>e. pc \<noteq> OwnerPanicked e" "\<forall>buf. pc \<noteq> OwnerTake buf"
  obtains pc' pp' w' where "owner_step pc pp w = Some (pc', pp', w')" and "drops_inv h0 pp' (PoolAlloc t pc') k opn w' C pcs"
    and "claims_kept C w w'" and "same_handles w w'"
proof -
  note step = conc_alloc [of pp t pc k "map give_of pcs"]
  from inv obtain h1 where "conc_life pp (PoolAlloc t pc) k (map give_of pcs) h1 w (pool_buffers (live_cells (w_packed w)))"
    by (rule drops_life)
  from step [OF this] obtain pc' pp' w' where st: "owner_step pc pp w = Some (pc', pp', w')" "pool_frame w w'" by blast
  have life: "conc_life pp' (PoolAlloc t pc') k (map give_of pcs) h1 w' U \<and> (\<forall>y. y \<in># U \<longrightarrow> w_heap w' y = w_heap w y)"
    if "conc_life pp (PoolAlloc t pc) k (map give_of pcs) h1 w U" for h1 U
    using step [OF that] st(1) on by (cases pc) auto
  show thesis by (rule that [OF st(1) drops_pool_step [OF inv st(2) life refl refl]])
qed

lemma owner_alloc_on:
  assumes "\<forall>e. pc \<noteq> OwnerPanicked e" and "\<forall>buf. pc \<noteq> OwnerTake buf" and "owner_step pc (cp_pages cp) w = Some (pc', pp, w')"
  shows "chunk_owner_step ga spurious (Opening t sz align pc) cp w = Some (Opening t sz align pc', None, cp\<lparr>cp_pages := pp\<rparr>, w')"
    and "chunk_owner_step ga spurious (Dedicating t sz pc) cp w = Some (Dedicating t sz pc', None, cp\<lparr>cp_pages := pp\<rparr>, w')"
  using assms by (cases pc; simp del: owner_step.simps)+

text \<open>The builder at the end of a path.\<close>

lemma path_claim: "builder_claim (path_builder (Some j) t m off sz) = {#(j, unat (ucast off :: u32), unat (ucast sz :: u32))#}"
  by (simp add: builder_claim_def path_builder_def)

lemma path_use:
  assumes "small_request exact sz" and "exact"
  shows "ops_use c (count_ops cl t sz)
    = charge_use c (builder_charge (path_builder j t (if cl = OversizedSize then sz else 0) off sz))"
  using assms ucast_small [of sz] by (simp add: count_ops_use builder_charge_def path_builder_def small_request_def)

lemma path_ok [simp]: "cbuilder_ok (path_builder (Some j) t m off sz)" "cbuilder_ok (path_builder None t m off 0)"
  by (simp_all add: cbuilder_ok_def path_builder_def)

lemma ct_opening:
  assumes inv: "ct_inv h0 base exact s" and own: "ct_owner s = Opening t sz align pc"
  shows "ct_good ga h0 base exact (ChunkOwnerRuns spurious) s"
proof -
  let ?w = "ct_world s" and ?cp = "ct_pool s" and ?C = "chunk_claims (ct_world s) (mset (ct_builders s))"
  have q: "quiet_owner (ct_owner s)" "owner_drop (ct_owner s) = DropFinished" by (simp_all add: own quiet_owner_def)
  note M = ct_owner_memory [OF inv q, unfolded own, simplified]
  consider (panic) e where "pc = OwnerPanicked e" | (take) buf where "pc = OwnerTake buf"
    | (on) "\<forall>e. pc \<noteq> OwnerPanicked e" "\<forall>buf. pc \<noteq> OwnerTake buf" by blast
  then show ?thesis
  proof cases
    case panic
    with own M drops_own [OF M(1), of PoolIdle] show ?thesis
      by (intro ct_owner_quiet [OF inv q(1), where own' = ChunkIdle and cp' = ?cp and w' = ?w]) (simp_all add: quiet_owner_def)
  next
    case take
    let ?len = "length (w_packed ?w)"
    from M(1) [unfolded take] obtain pp w1 w' where
      tk: "owner_step (OwnerTake buf) (cp_pages ?cp) ?w = Some (OwnerIdle, pp, w1)"
        "packed_new \<lparr>pk_buf = buf, pk_release = ReleasePool\<rparr> w1 = (?len, w')" "packed_keeps ?w w'" "same_handles ?w w'"
        "get_packed ?len w' = Some (\<lparr>pk_buf = buf, pk_release = ReleasePool\<rparr>, 1)"
      and store: "store_inv (conc_life pp PoolIdle (ct_scrapers s) (map give_of (DropFinished # ct_threads s))) h0
        (tally drop_block (DropFinished # ct_threads s)) w'
        (add_mset ?len (claim_refs (cp_current ?cp) (tally drop_claim (DropFinished # ct_threads s) + ?C)))" by (rule drops_take)
    note held = M(1) [unfolded drops_inv_def]
    have cur: "cp_current ?cp = None" using M(2) by simp
    note new = conc_store.held_open_new [OF held_invD(2) [OF held, unfolded cur] tk(3)
        conc_store.held_index_old [OF held, unfolded cur] store [unfolded cur] tk(5)]
    show ?thesis
      by (rule ct_owner_quiet [OF inv q(1), where own' = "Fitting t sz align" and w' = w'
            and cp' = "?cp\<lparr>cp_pages := pp, cp_current := Some \<lparr>op_shared = ?len, op_write_offset = 0\<rparr>\<rparr>"])
        (use own take tk new M(2) in \<open>simp_all add: quiet_owner_def drops_inv_def claims_kept_def\<close>)
  next
    case on
    from M(1) on obtain pc' pp w' where st: "owner_step pc (cp_pages ?cp) ?w = Some (pc', pp, w')"
      "drops_inv h0 pp (PoolAlloc t pc') (ct_scrapers s) (cp_current ?cp) w' ?C (DropFinished # ct_threads s)"
      "claims_kept ?C ?w w'" "same_handles ?w w'" by (rule drops_alloc)
    show ?thesis
      by (rule ct_owner_quiet [OF inv q(1), where own' = "Opening t sz align pc'" and cp' = "?cp\<lparr>cp_pages := pp\<rparr>" and w' = w'])
        (use own owner_alloc_on(1) [OF on st(1)] st M(2) in \<open>simp_all add: quiet_owner_def\<close>)
  qed
qed

lemma ct_dedicating:
  assumes inv: "ct_inv h0 base exact s" and own: "ct_owner s = Dedicating t sz pc"
  shows "ct_good ga h0 base exact (ChunkOwnerRuns spurious) s"
proof -
  let ?w = "ct_world s" and ?cp = "ct_pool s" and ?C = "chunk_claims (ct_world s) (mset (ct_builders s))"
  have q: "quiet_owner (ct_owner s)" "owner_drop (ct_owner s) = DropFinished" by (simp_all add: own quiet_owner_def)
  note M = ct_owner_memory [OF inv q, unfolded own, simplified]
  consider (panic) e where "pc = OwnerPanicked e" | (take) buf where "pc = OwnerTake buf"
    | (on) "\<forall>e. pc \<noteq> OwnerPanicked e" "\<forall>buf. pc \<noteq> OwnerTake buf" by blast
  then show ?thesis
  proof cases
    case panic
    with own M drops_own [OF M(1), of PoolIdle] show ?thesis
      by (intro ct_owner_quiet [OF inv q(1), where own' = ChunkIdle and cp' = ?cp and w' = ?w]) (simp_all add: quiet_owner_def)
  next
    case take
    let ?len = "length (w_packed ?w)" and ?pk = "\<lparr>pk_buf = buf, pk_release = ReleasePool\<rparr>"
    from M(1) [unfolded take] obtain pp w1 w' where
      tk: "owner_step (OwnerTake buf) (cp_pages ?cp) ?w = Some (OwnerIdle, pp, w1)"
        "packed_new ?pk w1 = (?len, w')" "packed_keeps ?w w'" "same_handles ?w w'" "get_packed ?len w' = Some (?pk, 1)"
      and store: "store_inv (conc_life pp PoolIdle (ct_scrapers s) (map give_of (DropFinished # ct_threads s))) h0
        (tally drop_block (DropFinished # ct_threads s)) w'
        (add_mset ?len (claim_refs (cp_current ?cp) (tally drop_claim (DropFinished # ct_threads s) + ?C)))" by (rule drops_take)
    note held = M(1) [unfolded drops_inv_def]
    have "unat (ucast sz :: u32) \<le> block_size (sh_page_size (w_shared w')) ?pk"
      using M(2) unat_ucast_u32_le [of sz] tk(3) by (simp add: block_size_def packed_keeps_def)
    note new = conc_store.held_add_new [OF held_invD(2) [OF held] tk(3) conc_store.held_index_old [OF held] store tk(5) this]
    let ?own = "Counting (count_ops DedicatedSize (tenant_cell t) sz) (path_builder (Some ?len) (tenant_cell t) 0 0 sz)"
    show ?thesis
      by (rule ct_owner_good [OF inv, where own' = ?own and w' = w' and cp' = "?cp\<lparr>cp_pages := pp\<rparr>"])
        (use own take tk new path_use [of exact sz _ DedicatedSize "tenant_cell t" "Some ?len" 0] M(2) in
          \<open>simp_all add: drops_inv_def claims_kept_def same_handles_def path_claim\<close>)
  next
    case on
    from M(1) on obtain pc' pp w' where st: "owner_step pc (cp_pages ?cp) ?w = Some (pc', pp, w')"
      "drops_inv h0 pp (PoolAlloc t pc') (ct_scrapers s) (cp_current ?cp) w' ?C (DropFinished # ct_threads s)"
      "claims_kept ?C ?w w'" "same_handles ?w w'" by (rule drops_alloc)
    show ?thesis
      by (rule ct_owner_quiet [OF inv q(1), where own' = "Dedicating t sz pc'" and cp' = "?cp\<lparr>cp_pages := pp\<rparr>" and w' = w'])
        (use own owner_alloc_on(2) [OF on st(1)] st M(2) in \<open>simp_all add: quiet_owner_def\<close>)
  qed
qed

lemma ct_oversizing:
  assumes inv: "ct_inv h0 base exact s" and own: "ct_owner s = Oversizing t sz align"
  shows "ct_good ga h0 base exact (ChunkOwnerRuns spurious) s"
proof -
  let ?w = "ct_world s" and ?cp = "ct_pool s" and ?C = "chunk_claims (ct_world s) (mset (ct_builders s))"
  have q: "quiet_owner (ct_owner s)" "owner_drop (ct_owner s) = DropFinished" by (simp_all add: own quiet_owner_def)
  note M = ct_owner_memory [OF inv q, unfolded own, simplified]
  have fails: ?thesis if "chunk_owner_step ga spurious (ct_owner s) ?cp ?w = Some (ChunkIdle, None, ?cp, ?w)"
    by (rule ct_owner_quiet [OF inv q(1) _ that]) (use M own in \<open>simp_all add: quiet_owner_def\<close>)
  show ?thesis
  proof (cases "from_size_align sz (max align default_align)")
    case (Inl e)
    with own show ?thesis by (intro fails) simp
  next
    case (Inr l)
    obtain x h where al: "alloc_zeroed ga l (w_heap ?w) = (x, h)" by fastforce
    show ?thesis
    proof (cases "x = 0")
      case True
      with alloc_zeroed_cases [OF al] have "h = w_heap ?w" by (auto simp: placeable_def)
      with own Inr al True show ?thesis by (intro fails) simp
    next
      case False
      let ?len = "length (w_packed ?w)" and ?pk = "\<lparr>pk_buf = x, pk_release = ReleaseHeap l\<rparr>"
      let ?w' = "?w\<lparr>w_heap := h, w_packed := w_packed ?w @ [(?pk, 1)]\<rparr>"
      note held = M(1) [unfolded drops_inv_def]
      note st = conc_store.store_alloc_heap [OF held_invD(1) [OF held] al False]
      have g: "get_packed ?len ?w' = Some (?pk, 1)" by (simp add: get_packed_def get_cell_def)
      have "l = \<lparr>l_size = sz, l_align = max align default_align\<rparr>" using Inr by (simp add: from_size_align_eq_Inr)
      then have "unat (ucast sz :: u32) \<le> block_size (sh_page_size (w_shared ?w')) ?pk"
        using unat_ucast_u32_le [of sz] by (simp add: block_size_def)
      note new = conc_store.held_add_new [OF held_invD(2) [OF held] st(2) conc_store.held_index_old [OF held] st(1) g this]
      let ?own = "Counting (count_ops OversizedSize (tenant_cell t) sz) (path_builder (Some ?len) (tenant_cell t) sz 0 sz)"
      show ?thesis
        by (rule ct_owner_good [OF inv, where own' = ?own and w' = ?w' and cp' = ?cp])
          (use own Inr al False new path_use [of exact sz _ OversizedSize "tenant_cell t" "Some ?len" 0] M(2) in
            \<open>simp_all add: drops_inv_def claims_kept_def packed_new_def path_claim\<close>)
    qed
  qed
qed

lemma ct_closing:
  assumes inv: "ct_inv h0 base exact s" and own: "ct_owner s = ClosingPages pc"
  shows "ct_good ga h0 base exact (ChunkOwnerRuns spurious) s"
proof -
  let ?w = "ct_world s" and ?cp = "ct_pool s" and ?C = "chunk_claims (ct_world s) (mset (ct_builders s))"
  let ?pcs = "DropFinished # ct_threads s" and ?k = "ct_scrapers s"
  have q: "quiet_owner (ct_owner s)" "owner_drop (ct_owner s) = DropFinished" by (simp_all add: own quiet_owner_def)
  note M = ct_owner_memory [OF inv q, unfolded own, simplified]
  have pc: "pc \<in> {PoolIdle, PoolWalk, PoolDec, PoolFree, PoolGone}" "pc \<noteq> PoolIdle" using M(2) by auto
  note step = conc_close [OF _ pc(1)]
  from M(1) obtain h1 where "conc_life (cp_pages ?cp) pc ?k (map give_of ?pcs) h1 ?w (pool_buffers (live_cells (w_packed ?w)))"
    by (rule drops_life)
  from step [OF this] pc(2) obtain pc' pp w' where st: "pool_step pc (cp_pages ?cp) ?w = Some (pc', None, pp, w')"
    "pool_frame ?w w'" and pc': "pc' \<in> {PoolWalk, PoolDec, PoolFree, PoolGone}" by auto
  have life: "conc_life pp pc' ?k ts h1 w' U \<and> (\<forall>y. y \<in># U \<longrightarrow> w_heap w' y = w_heap ?w y)"
    if "conc_life (cp_pages ?cp) pc ?k ts h1 ?w U" for h1 ts U using step [OF that] st(1) by auto
  note new = drops_pool_step [OF M(1) st(2) life refl refl]
  let ?own = "if pc' = PoolGone then (case cp_current ?cp of None \<Rightarrow> ChunkPoolGone | Some opn \<Rightarrow> ClosingOpen (Unref (op_shared opn)))
    else ClosingPages pc'"
  let ?cp' = "?cp\<lparr>cp_pages := pp, cp_current := (if pc' = PoolGone then None else cp_current ?cp)\<rparr>"
  have mem: "drops_inv h0 pp (own_pc ?own) ?k (cp_current ?cp') w' ?C (owner_drop ?own # ct_threads s)"
    using new(1) drops_retire by (cases "cp_current ?cp") auto
  show ?thesis
    by (rule ct_owner_quiet [OF inv q(1), where own' = ?own and w' = w' and cp' = ?cp'])
      (use own st(1) mem new(2,3) pc' in \<open>auto simp: quiet_owner_def split: option.splits\<close>)
qed

lemma ct_owner_runs:
  assumes inv: "ct_inv h0 base exact s"
  shows "ct_good ga h0 base exact (ChunkOwnerRuns spurious) s"
proof (cases "ct_owner s")
  have idle: ?thesis if "chunk_owner_step ga spurious (ct_owner s) (ct_pool s) (ct_world s) = Some (ct_owner s, None, ct_pool s, ct_world s)"
  proof -
    have "s\<lparr>ct_owner := ct_owner s, ct_pool := ct_pool s, ct_world := ct_world s, ct_builders := ct_builders s\<rparr> = s" by (cases s) simp
    with that inv show ?thesis by (simp add: ct_good_def chunks_stable_refl)
  qed
  { case ChunkIdle then show ?thesis by (intro idle) simp }
  { case ChunkPoolGone then show ?thesis by (intro idle) simp }
qed (auto intro: ct_fitting [OF inv] ct_owner_drops [OF inv] ct_opening [OF inv] ct_dedicating [OF inv] ct_oversizing [OF inv]
    ct_counting [OF inv] ct_closing [OF inv])


subsection \<open>Starting a call of the owner\<close>

lemma dispatch_ready:
  assumes sz: "small_request exact sz" and thr: "cp_threshold cp = sh_page_size (w_shared w) div 2"
    and ps: "unat (sh_page_size (w_shared w)) \<le> 2 ^ 32"
  shows "owner_ready exact (sh_page_size (w_shared w)) opn (chunk_dispatch t sz align cp w)"
proof -
  let ?ps = "sh_page_size (w_shared w)"
  have half: "sz \<le> ?ps div 2 \<Longrightarrow> unat sz \<le> unat ?ps" by (simp add: word_le_nat_alt unat_div)
  have pad: "unat (align - 1) = unat align - 1" if "is_power_of_two align"
    using power_of_two_pos [OF that] by (subst unat_sub_usize) (simp_all add: word_le_nat_alt)
  have "packable ?ps sz align"
    if "is_power_of_two align" "sz \<le> ?ps div 2" "align \<le> 8 \<or> usize_saturating_add sz (align - 1) \<le> ?ps"
    using that half pad usize_saturating_add_le [of ?ps sz "align - 1"] ps by (auto simp: packable_def)
  then show ?thesis using sz
    by (auto simp: chunk_dispatch_def packed_request_def pool_page_size_def default_align_def ptr_size_def thr not_less word_le_nat_alt)
qed

lemma ct_start_owner:
  assumes inv: "ct_inv h0 base exact s" and idle: "ct_owner s = ChunkIdle"
  shows "small_request exact sz \<Longrightarrow> ct_good ga h0 base exact (StartChunk t sz align) s"
    and "ct_good ga h0 base exact StartChunkPoolDrop s"
proof -
  let ?w = "ct_world s" and ?cp = "ct_pool s" and ?C = "chunk_claims (ct_world s) (mset (ct_builders s))"
  note parts = ct_inv_parts [OF inv]
  have q: "quiet_owner (ct_owner s)" "owner_drop (ct_owner s) = DropFinished" by (simp_all add: idle quiet_owner_def)
  note M = ct_owner_memory [OF inv q, unfolded idle, simplified]
  have same: "s\<lparr>ct_owner := own, ct_pool := ?cp, ct_world := ?w, ct_builders := ct_builders s\<rparr> = s\<lparr>ct_owner := own\<rparr>" for own
    by (cases s) simp
  show "ct_good ga h0 base exact StartChunkPoolDrop s"
    by (rule ct_owner_moves [OF inv, where own' = "ClosingPages PoolWalk" and cp' = ?cp and w' = ?w])
      (use M drops_own [OF M(1), of PoolWalk] idle in \<open>simp_all add: same\<close>)
  show "ct_good ga h0 base exact (StartChunk t sz align) s" if sz: "small_request exact sz"
  proof -
    let ?own = "chunk_dispatch t sz align ?cp ?w"
    have "owner_ready exact (ct_size s) (cp_current ?cp) ?own"
      using parts(3) by (intro dispatch_ready [OF sz]) (simp_all add: ct_handles_ok_def)
    moreover have "drops_inv h0 (cp_pages ?cp) (own_pc ?own) (ct_scrapers s) (cp_current ?cp) ?w
        (chunk_claims ?w (owner_builder ?own + mset (ct_builders s))) (owner_drop ?own # ct_threads s)"
      using M(1) drops_own [OF M(1), of "PoolAlloc t OwnerIdle"]
      by (simp add: chunk_dispatch_def builder_claim_def path_builder_def)
    moreover have "drop_pc_ok (owner_drop ?own)" "\<And>b. b \<in># owner_builder ?own \<Longrightarrow> cbuilder_ok b"
      by (simp_all add: chunk_dispatch_def split: if_splits)
    moreover have "ops_use c (owner_ops ?own) + ops_use c (drop_ops (owner_drop ?own)) = charges_use c (image_mset builder_charge (owner_builder ?own))" for c
      by (simp add: chunk_dispatch_def count_ops_use builder_charge_def path_builder_def)
    ultimately show ?thesis
      by (intro ct_owner_moves [OF inv, where own' = ?own and cp' = ?cp and w' = ?w]) (simp_all add: same idle add.assoc)
  qed
qed

lemma ct_scraper:
  assumes inv: "ct_inv h0 base exact s"
  shows "ct_owner s = ChunkIdle \<or> ct_scrapers s \<noteq> 0 \<Longrightarrow> ct_good ga h0 base exact CloneChunkScraper s"
    and "ct_scrapers s \<noteq> 0 \<Longrightarrow> ct_good ga h0 base exact DropChunkScraper s"
proof -
  note parts = ct_inv_parts [OF inv] and mem = ct_inv_parts(1) [OF inv, unfolded ct_memory_def]
  show "ct_good ga h0 base exact CloneChunkScraper s" if "ct_owner s = ChunkIdle \<or> ct_scrapers s \<noteq> 0"
  proof -
    have nz: "conc_refs (own_pc (ct_owner s)) (ct_scrapers s) ts U \<noteq> 0" for ts U using that by (auto simp: conc_refs_def)
    from mem obtain h1 where "conc_life (cp_pages (ct_pool s)) (own_pc (ct_owner s)) (ct_scrapers s) (map give_of (ct_pcs s)) h1 (ct_world s)
      (pool_buffers (live_cells (w_packed (ct_world s))))" by (rule drops_life)
    from conc_lifeD(2) [OF this nz] have sh: "get_shared (ct_world s) = Some (w_shared (ct_world s))" .
    have fr: "pool_frame (ct_world s) (clone_shared (ct_world s))" by (simp add: pool_frame_def clone_shared_def)
    note new = drops_pool_step [OF mem fr conjI [OF conc_scrape [OF _ nz]] refl refl]
    let ?s = "s\<lparr>ct_scrapers := Suc (ct_scrapers s), ct_world := clone_shared (ct_world s)\<rparr>"
    have ch: "w_chunks (clone_shared (ct_world s)) = w_chunks (ct_world s)" by (simp add: clone_shared_def)
    show ?thesis
    proof (rule ct_goodI)
      show "ct_step ga CloneChunkScraper s = Some ?s" using sh by simp
      show "ct_memory h0 ?s" using new(1) by (simp add: ct_memory_def chunk_claims_cong [OF ch])
      show "chunks_stable (ct_world s) (ct_world ?s)" using ct_stable [OF inv ch new(2)] by simp
    qed (use parts new(3) in \<open>simp_all add: ct_charges_def ct_handles_ok_def same_handles_def chunk_charges_cong [OF ch] ch\<close>)
  qed
  show "ct_good ga h0 base exact DropChunkScraper s" if "ct_scrapers s \<noteq> 0"
  proof -
    from that obtain k where k: "ct_scrapers s = Suc k" by (cases "ct_scrapers s") auto
    let ?s = "s\<lparr>ct_scrapers := k, ct_threads := ct_threads s @ [Returning DecShared]\<rparr>"
    show ?thesis
    proof (rule ct_goodI)
      show "ct_step ga DropChunkScraper s = Some ?s" using k by simp
      show "ct_memory h0 ?s" using drops_unscrape [OF mem [unfolded k]] by (simp add: ct_memory_def)
    qed (use parts in \<open>auto simp: ct_charges_def ct_handles_ok_def chunks_stable_refl\<close>)
  qed
qed


subsection \<open>Calls on a builder\<close>

lemma ct_builder_split:
  assumes "i < length (ct_builders s)"
  shows "ct_held s = add_mset (ct_builders s ! i) (owner_builder (ct_owner s) + mset (remove_nth i (ct_builders s)))"
  by (simp add: mset_remove_nth [OF assms])

text \<open>The state as a builder sees it that writes to its range.\<close>

abbreviation ct_range :: "heap \<Rightarrow> ct_state \<Rightarrow> nat \<Rightarrow> chunk_builder \<Rightarrow> chunk_world \<Rightarrow> bool" where
  "ct_range h0 s i \<equiv> range_step (conc_life (cp_pages (ct_pool s)) (own_pc (ct_owner s)) (ct_scrapers s) (map give_of (ct_pcs s))) h0
     (tally drop_block (ct_pcs s)) (cp_current (ct_pool s))
     (tally drop_claim (ct_pcs s) + chunk_claims (ct_world s) (owner_builder (ct_owner s) + mset (remove_nth i (ct_builders s))))
     (ct_builders s ! i) (ct_world s)"

lemma ct_range_start:
  assumes "ct_inv h0 base exact s" and "i < length (ct_builders s)"
  shows "ct_range h0 s i (ct_builders s ! i) (ct_world s)" and "cbuilder_ok (ct_builders s ! i)"
proof -
  note parts = ct_inv_parts [OF assms(1)]
  show ok: "cbuilder_ok (ct_builders s ! i)" using parts(3) assms(2) by (simp add: ct_handles_ok_def)
  with parts(1) show "ct_range h0 s i (ct_builders s ! i) (ct_world s)"
    by (simp add: range_step_def ct_memory_def drops_inv_def ct_builder_split [OF assms(2)] ac_simps)
qed

lemma ct_range_end:
  assumes inv: "ct_inv h0 base exact s" and i: "i < length (ct_builders s)" and st: "ct_range h0 s i b' w'"
  shows "ct_inv h0 base exact (s\<lparr>ct_builders := (ct_builders s)[i := b'], ct_world := w'\<rparr>)" and "chunks_stable (ct_world s) w'"
proof -
  note parts = ct_inv_parts [OF inv] and b' = range_stepD [OF st]
  let ?B = "owner_builder (ct_owner s) + mset (remove_nth i (ct_builders s))"
  have split': "owner_builder (ct_owner s) + mset ((ct_builders s)[i := b']) = add_mset b' ?B" by (simp add: mset_update_nth [OF i])
  note split = ct_builder_split [OF i]
  have same: "same_handles (ct_world s) w'" and ch: "w_chunks w' = w_chunks (ct_world s)"
    and kept: "claims_kept (tally drop_claim (ct_pcs s) + chunk_claims (ct_world s) ?B) (ct_world s) w'" and ok: "cbuilder_ok b'"
    using st by (simp_all add: range_step_def same_handles_def)
  have kept': "claims_kept (chunk_claims (ct_world s) ?B) (ct_world s) w'" using kept by (simp add: claims_kept_def)
  show "chunks_stable (ct_world s) w'" by (rule ct_stable [OF inv ch kept'])
  have size: "sh_page_size (w_shared w') = ct_size s" using kept by (simp add: claims_kept_def)
  have charges: "chunk_charges w' (add_mset b' ?B) = chunk_charges (ct_world s) (ct_held s)"
    using b'(3) by (simp add: split chunk_charges_add chunk_charges_cong [OF ch])
  show "ct_inv h0 base exact (s\<lparr>ct_builders := (ct_builders s)[i := b'], ct_world := w'\<rparr>)"
    unfolding ct_inv_def
  proof (intro conjI impI)
    show "ct_memory h0 (s\<lparr>ct_builders := (ct_builders s)[i := b'], ct_world := w'\<rparr>)"
      using st by (simp add: ct_memory_def drops_inv_def range_step_def split' chunk_claims_cong [OF ch] ac_simps)
    show "ct_charges base (s\<lparr>ct_builders := (ct_builders s)[i := b'], ct_world := w'\<rparr>)" if exact
      using parts(2) [OF that] same charges by (simp add: ct_charges_def split' same_handles_def)
    show "ct_handles_ok exact (s\<lparr>ct_builders := (ct_builders s)[i := b'], ct_world := w'\<rparr>)"
      using parts(3) ok size ch set_update_subset_insert [of "ct_builders s" i b'] by (auto simp: ct_handles_ok_def)
  qed
qed

lemma ct_write:
  assumes inv: "ct_inv h0 base exact s" and i: "i < length (ct_builders s)"
  shows "ct_good ga h0 base exact (ReadRange i) s"
    and "length data \<le> isize_max \<Longrightarrow> ct_good ga h0 base exact (AppendRange i data) s"
    and "ct_good ga h0 base exact (SetRangeLen i len) s"
    and "keeps_length f \<Longrightarrow> ct_good ga h0 base exact (FillRange i f) s"
proof -
  note start = ct_range_start [OF inv i] and fin = ct_range_end [OF inv i]
  from start(1) obtain X where X: "builder_bytes (ct_builders s ! i) (ct_world s) = Some X"
    by (rule conc_store.range_writes.writableE)
  from builder_slice [OF start(2) X] inv show "ct_good ga h0 base exact (ReadRange i) s"
    by (simp add: ct_good_def chunks_stable_refl)
  show "ct_good ga h0 base exact (AppendRange i data) s" if "length data \<le> isize_max"
    using conc_store.range_writes.append_ok [OF start(1) that] fin by (fastforce simp: ct_good_def)
  obtain r b' where "chunk_builder_set_len len (ct_builders s ! i) = (r, b')" by fastforce
  with fin(1) [OF conc_store.range_writes.set_len [OF start(1) this]] show "ct_good ga h0 base exact (SetRangeLen i len) s"
    by (simp add: ct_good_def chunks_stable_refl)
  show "ct_good ga h0 base exact (FillRange i f) s" if "keeps_length f"
    using conc_store.range_writes.run_init [OF start(1) that X] fin by (fastforce simp: ct_good_def)
qed

subsection \<open>Calls that end a handle\<close>

text \<open>A handle with the claim of a range and its charge goes, and a thread starts to drop it.\<close>

lemma ct_drop_builder:
  assumes inv: "ct_inv h0 base exact s" and i: "i < length (ct_builders s)"
  shows "ct_good ga h0 base exact (StartRangeDrop i) s"
proof -
  note parts = ct_inv_parts [OF inv] and split = ct_builder_split [OF i]
  let ?b = "ct_builders s ! i" and ?B = "owner_builder (ct_owner s) + mset (remove_nth i (ct_builders s))"
  let ?pc = "builder_drop_pc ?b"
  let ?s = "s\<lparr>ct_builders := remove_nth i (ct_builders s), ct_threads := ct_threads s @ [?pc]\<rparr>"
  have ok: "cbuilder_ok ?b" using parts(3) i by (simp add: ct_handles_ok_def)
  then obtain t where t: "cb_tenant ?b = Some t" by (auto simp: cbuilder_ok_def)
  show ?thesis
  proof (rule ct_goodI)
    show "ct_memory h0 ?s"
      using parts(1) drops_end [where pcs = "ct_pcs s" and p = "cb_packed ?b" and a = "unat (cb_offset ?b)" and n = "unat (cb_capacity ?b)"]
      by (simp add: ct_memory_def split builder_claim_def builder_drop_pc_def)
    show "ct_charges base ?s" if exact
      using parts(2) [OF that]
      by (simp add: ct_charges_def split chunk_charges_add builder_drop_pc_def t uncount_ops_use builder_charge_def algebra_simps)
    show "ct_handles_ok exact ?s"
      using parts(3) set_remove_nth_subset [of i "ct_builders s"] by (auto simp: ct_handles_ok_def builder_drop_pc_def split: option.splits)
  qed (simp_all add: chunks_stable_refl)
qed


lemma ct_seal:
  assumes inv: "ct_inv h0 base exact s" and i: "i < length (ct_builders s)"
  shows "ct_good ga h0 base exact (SealRange i) s"
proof -
  note parts = ct_inv_parts [OF inv] and split = ct_builder_split [OF i]
  let ?b = "ct_builders s ! i" and ?B = "owner_builder (ct_owner s) + mset (remove_nth i (ct_builders s))" and ?w = "ct_world s"
  have ok: "cbuilder_ok ?b" using parts(3) i by (simp add: ct_handles_ok_def)
  then obtain t where t: "cb_tenant ?b = Some t" by (auto simp: cbuilder_ok_def)
  let ?inner = "\<lparr>ci_packed = cb_packed ?b, ci_tenant = t, ci_oversized_bytes = cb_oversized_bytes ?b, ci_offset = cb_offset ?b,
    ci_capacity = cb_capacity ?b, ci_length = cb_len ?b\<rparr>"
  let ?pc = "uncounted [] (cb_packed ?b)"
  have claim: "inner_claim ?inner = builder_claim ?b" by (simp add: inner_claim_def builder_claim_def split: option.split)
  have "\<exists>w'. (case cb_packed ?b of None \<Rightarrow> Some ?w | Some j \<Rightarrow> packed_clone j ?w) = Some w' \<and> same_handles ?w w'
      \<and> claims_kept (chunk_claims ?w (ct_held s)) ?w w'
      \<and> drops_inv h0 (cp_pages (ct_pool s)) (own_pc (ct_owner s)) (ct_scrapers s) (cp_current (ct_pool s)) w'
          (chunk_claims ?w (ct_held s)) (ct_pcs s @ [?pc])"
  proof (cases "cb_packed ?b")
    case None
    with drops_new [of h0 _ _ _ _ ?w ?pc "chunk_claims ?w (ct_held s)" "ct_pcs s"] parts(1) show ?thesis by (simp add: ct_memory_def)
  next
    case (Some j)
    have "(j, unat (cb_offset ?b), unat (cb_capacity ?b)) \<in># tally drop_claim (ct_pcs s) + chunk_claims ?w (ct_held s)"
      by (simp add: split builder_claim_def Some)
    with parts(1) [unfolded ct_memory_def drops_inv_def] obtain pk n where g: "get_packed j ?w = Some (pk, n)"
      by (rule conc_store.held_live)
    note cl = drops_clone [OF parts(1) [unfolded ct_memory_def] g]
    from drops_new [of h0 _ _ _ _ _ ?pc "chunk_claims ?w (ct_held s)" "ct_pcs s"] cl Some show ?thesis
      by (intro exI conjI) (assumption | simp add: same_handles_def)+
  qed
  then obtain w' where w': "(case cb_packed ?b of None \<Rightarrow> Some ?w | Some j \<Rightarrow> packed_clone j ?w) = Some w'" "same_handles ?w w'"
    "claims_kept (chunk_claims ?w (ct_held s)) ?w w'"
    "drops_inv h0 (cp_pages (ct_pool s)) (own_pc (ct_owner s)) (ct_scrapers s) (cp_current (ct_pool s)) w'
       (chunk_claims ?w (ct_held s)) (ct_pcs s @ [?pc])" by blast
  have ch: "w_chunks w' = w_chunks ?w" using w'(2) by (simp add: same_handles_def)
  let ?w2 = "w'\<lparr>w_chunks := w_chunks w' @ [(?inner, 1)]\<rparr>"
  let ?s = "s\<lparr>ct_builders := remove_nth i (ct_builders s), ct_threads := ct_threads s @ [?pc], ct_world := ?w2\<rparr>"
  have cells: "live_cells (w_chunks ?w2) = add_mset ?inner (live_cells (w_chunks ?w))" by (simp add: ch)
  have claims: "chunk_claims ?w2 ?B = chunk_claims ?w (ct_held s)"
    by (simp add: chunk_claims_def split claim ch ac_simps)
  have charges: "chunk_charges ?w2 ?B = chunk_charges ?w (ct_held s)"
    by (simp add: chunk_charges_def split ch inner_charge_def builder_charge_def t)
  have kept2: "claims_kept D ?w ?w2 = claims_kept D ?w w'" for D by (rule claims_kept_cong(1)) simp_all
  have same: "drops_inv h0 pp own k opn ?w2 C pcs = drops_inv h0 pp own k opn w' C pcs" for pp own k opn C pcs
    by (rule drops_cong) simp_all
  show ?thesis
  proof (rule ct_goodI)
    show "ct_step ga (SealRange i) s = Some ?s" using w'(1) t by (cases "cb_packed ?b") (simp_all add: Let_def builder_drop_pc_def)
    show "ct_memory h0 ?s" using w'(4) claims same by (simp add: ct_memory_def)
    show "ct_charges base ?s" if exact using parts(2) [OF that] charges w'(2) by (simp add: ct_charges_def same_handles_def)
    show "ct_handles_ok exact ?s"
      using parts(3) ok w'(3) cells set_remove_nth_subset [of i "ct_builders s"]
      by (auto simp: ct_handles_ok_def claims_kept_def cinner_ok_def cbuilder_ok_def)
    show "chunks_stable ?w (ct_world ?s)"
      using readable_append [OF ct_readable [OF inv], of ?w2 "[(?inner, 1)]" "chunk_claims ?w (ct_held s)"] w'(3) kept2 ch inner_claims_sub by simp
  qed
qed

lemma ct_handle:
  assumes inv: "ct_inv h0 base exact s" and g: "get_chunk c (ct_world s) = Some (i, n)"
  shows "ct_good ga h0 base exact (ReadChunkHandle c) s" and "ct_good ga h0 base exact (CloneChunkHandle c) s"
    and "ct_good ga h0 base exact (DropChunkHandle c) s"
proof -
  note parts = ct_inv_parts [OF inv] and readable = ct_readable [OF inv]
  let ?w = "ct_world s"
  let ?w' = "\<lambda>m. ?w\<lparr>w_chunks := (w_chunks ?w)[c := (i, m)]\<rparr>"
  have q: "c < length (w_chunks ?w)" "w_chunks ?w ! c = (i, n)" "n \<noteq> 0" using g by (simp_all add: get_chunk_Some)
  from live_cells_split [OF q] obtain L where L: "live_cells (w_chunks ?w) = add_mset i L"
    "\<And>m. live_cells ((w_chunks ?w)[c := (i, m)]) = (if m = 0 then L else add_mset i L)" by metis
  from readable_slice [OF readable, of i] L(1) g inv show "ct_good ga h0 base exact (ReadChunkHandle c) s"
    by (auto simp: ct_good_def chunk_as_slice_def chunks_stable_refl)
  have kept: "claims_kept D ?w (?w' m)" for D m using claims_kept_cong(1) [of "?w' m" ?w D ?w] by simp
  have stable: "chunks_stable ?w (?w' m)" for m
    using readable_update [OF readable g, of "?w' m" m "chunk_claims (?w' m) {#}"] kept inner_claims_sub by simp
  have same: "drops_inv h0 pp own k opn (?w' m) C pcs = drops_inv h0 pp own k opn ?w C pcs" for pp own k opn C pcs m
    by (rule drops_cong) simp_all
  have more: "ct_inv h0 base exact (s\<lparr>ct_world := ?w' m\<rparr>)" if "m \<noteq> 0" for m
    using inv that by (simp add: ct_inv_def ct_memory_def ct_charges_def ct_handles_ok_def same chunk_claims_def chunk_charges_def L)
  show "ct_good ga h0 base exact (CloneChunkHandle c) s"
    using g more [of "Suc n"] stable by (simp add: ct_good_def chunk_clone_def)
  show "ct_good ga h0 base exact (DropChunkHandle c) s"
  proof (cases "n = 1")
    case False
    then have "ct_inv h0 base exact (s\<lparr>ct_world := ?w' (n - 1), ct_threads := ct_threads s\<rparr>)"
      using more [of "n - 1"] q(3) by (cases s) simp
    with g False stable show ?thesis by (simp add: ct_good_def)
  next
    case True
    let ?s = "s\<lparr>ct_world := ?w' 0, ct_threads := ct_threads s @ [inner_drop_pc i]\<rparr>"
    have claims: "chunk_claims ?w (ct_held s) = inner_claim i + chunk_claims (?w' 0) (ct_held s)"
      by (simp add: chunk_claims_def L ac_simps)
    have charges: "chunk_charges ?w (ct_held s) = add_mset (inner_charge i) (chunk_charges (?w' 0) (ct_held s))"
      by (simp add: chunk_charges_def L)
    show ?thesis
    proof (rule ct_goodI)
      show "ct_step ga (DropChunkHandle c) s = Some ?s" using g True by simp
      show "ct_memory h0 ?s"
        using parts(1) drops_end [where pcs = "ct_pcs s" and p = "ci_packed i" and a = "unat (ci_offset i)" and n = "unat (ci_capacity i)"]
        by (simp add: ct_memory_def claims same inner_claim_def inner_drop_pc_def)
      show "ct_charges base ?s" if exact
        using parts(2) [OF that] by (simp add: ct_charges_def charges inner_drop_pc_def uncount_ops_use inner_charge_def algebra_simps)
      show "ct_handles_ok exact ?s" using parts(3) L by (auto simp: ct_handles_ok_def inner_drop_pc_def)
    qed (use stable in simp)
  qed
qed

lemma ct_step_good:
  assumes "ct_inv h0 base exact s" and "ct_allowed exact e s"
  shows "ct_good ga h0 base exact e s"
  using assms
  by (cases e) (auto simp: small_request_def intro: ct_start_owner ct_owner_runs ct_thread_runs ct_write ct_seal ct_drop_builder
      ct_handle ct_scraper)

interpretation chunk_threads: safe_client "ct_allowed exact" "ct_step ga" "ct_inv h0 base exact"
    "\<lambda>s s'. chunks_stable (ct_world s) (ct_world s')" for exact ga h0 base
proof
  show "\<exists>s'. ct_step ga c s = Some s' \<and> ct_inv h0 base exact s' \<and> chunks_stable (ct_world s) (ct_world s')"
    if "ct_inv h0 base exact s" and "ct_allowed exact c s" for c s
    using ct_step_good [OF that] by (simp add: ct_good_def)
qed (rule chunks_stable_refl, erule (1) chunks_stable_trans)

end
