(* ===== verification/Chunk_Progress.thy ===== *)
theory Chunk_Progress
  imports Chunk_Threads Pool_Progress
begin

text \<open>
  Progress of the machine of \<open>Chunk_Threads\<close>: a thread that runs without interference finishes its drop within a fixed
  number of steps, the owner finishes its call and the drop of the pool, and every state can be brought to an end
  where nothing is left.
\<close>

section \<open>Running alone\<close>

fun chunk_drop_alone :: "nat \<Rightarrow> chunk_drop_pc \<Rightarrow> chunk_world \<Rightarrow> (chunk_drop_pc \<times> chunk_world) option" where
  "chunk_drop_alone 0 pc w = Some (pc, w)"
| "chunk_drop_alone (Suc n) pc w = do { (pc, w) \<leftarrow> chunk_drop_step False pc w; chunk_drop_alone n pc w }"

text \<open>How many steps a thread has to go when no other interferes.\<close>

fun chunk_drop_rank :: "chunk_drop_pc \<Rightarrow> chunk_world \<Rightarrow> nat" where
  "chunk_drop_rank (Uncounting ops j) w = (if ops = [] then 9 else length ops + 8)"
| "chunk_drop_rank (Unref j) w = 8"
| "chunk_drop_rank (Returning pc) w = drop_rank pc w"
| "chunk_drop_rank (Freeing pk) w = 1"
| "chunk_drop_rank DropFinished w = 0"

section \<open>Threads\<close>

lemma chunk_drop_rank_le: "drop_pc_ok pc \<Longrightarrow> chunk_drop_rank pc w \<le> 12"
  using drop_rank_le [of "give_of pc" w] by (cases pc) auto

lemma chunk_drop_rank_0: "drop_pc_ok pc \<Longrightarrow> chunk_drop_rank pc w = 0 \<Longrightarrow> pc = DropFinished"
proof (cases pc)
  case (Returning d)
  assume "drop_pc_ok pc" "chunk_drop_rank pc w = 0"
  with Returning show ?thesis by (cases "(d, w)" rule: drop_rank.cases) (auto split: if_splits)
qed (auto split: if_splits)

lemma uncounted_rank: "chunk_drop_rank (uncounted ops j) w \<le> length ops + 8"
  by (cases ops; cases j) simp_all

lemma chunk_drop_step_rank:
  assumes "chunk_drop_step False pc w = Some (pc', w')" and "drop_pc_ok pc" and "pc \<noteq> DropFinished"
  shows "chunk_drop_rank pc' w' < chunk_drop_rank pc w"
proof (cases pc)
  case (Uncounting ops j)
  show ?thesis
  proof (cases ops)
    case Nil
    then show ?thesis using assms(1) Uncounting uncounted_rank [of "[]" j w] by simp
  next
    case (Cons op ops')
    then have "fst (count_step op w) = []" using assms(2) Uncounting by (simp add: release_op_step)
    then have "pc' = uncounted ops' j" using assms(1) Uncounting Cons by (auto split: prod.splits)
    then show ?thesis using Uncounting Cons uncounted_rank [of ops' j w'] by simp
  qed
next
  case (Returning d)
  then have nd: "d \<noteq> Dropped" using assms(2) by auto
  from assms(1) Returning obtain d' where st: "drop_step False d w = Some (d', w')"
    "pc' = (if d' = Dropped then DropFinished else Returning d')" by (auto simp: bind_eq_Some_conv)
  from drop_step_rank [OF st(1) nd] st(2) Returning show ?thesis by simp
next
  case (Unref j)
  from assms(1) Unref obtain pk n where "get_packed j w = Some (pk, n)" by (auto simp: bind_eq_Some_conv)
  with assms(1) Unref show ?thesis by (cases "pk_release pk") (auto simp: Let_def split: if_splits)
qed (use assms in \<open>auto simp: bind_eq_Some_conv\<close>)

text \<open>A thread of a reachable state runs to its end, whatever the others are in the middle of.\<close>

lemma ct_thread_finishes:
  assumes "ct_inv h0 base exact s" and "i < length (ct_threads s)" and "chunk_drop_rank (ct_threads s ! i) (ct_world s) \<le> n"
  shows "\<exists>w. chunk_drop_alone n (ct_threads s ! i) (ct_world s) = Some (DropFinished, w) \<and> w_chunks w = w_chunks (ct_world s)
    \<and> ct_run ga exact s (replicate n (ChunkThreadRuns i False)) (s\<lparr>ct_threads := (ct_threads s)[i := DropFinished], ct_world := w\<rparr>)"
  using assms
proof (induction n arbitrary: s)
  case 0
  have "drop_pc_ok (ct_threads s ! i)" using 0 by (simp add: ct_inv_def ct_handles_ok_def)
  with 0 have "ct_threads s ! i = DropFinished" by (intro chunk_drop_rank_0) auto
  moreover from this have "s\<lparr>ct_threads := (ct_threads s)[i := DropFinished], ct_world := ct_world s\<rparr> = s"
    by (metis (no_types, lifting) list_update_id ct_state.surjective ct_state.update_convs(1,6))
  ultimately show ?case using run_none [of "ct_allowed exact" "ct_step ga" s] by auto
next
  case (Suc n)
  let ?e = "ChunkThreadRuns i False" and ?pc = "ct_threads s ! i"
  have al: "ct_allowed exact ?e s" and ok: "drop_pc_ok ?pc" using Suc.prems by (simp_all add: ct_inv_def ct_handles_ok_def)
  from chunk_threads.call_defined [OF Suc.prems(1) al] obtain s1 where
    s1: "ct_step ga ?e s = Some s1" "ct_inv h0 base exact s1" by blast
  then obtain pc w where st: "chunk_drop_step False ?pc (ct_world s) = Some (pc, w)"
    and eq: "s1 = s\<lparr>ct_threads := (ct_threads s)[i := pc], ct_world := w\<rparr>" by (auto simp: bind_eq_Some_conv)
  have j: "Suc i < length (ct_pcs s)" using Suc.prems(2) by simp
  from Suc.prems(1) j have ch: "w_chunks w = w_chunks (ct_world s)"
    by (rule ct_drop_runs [where spurious = False]) (use st in simp)
  have "chunk_drop_rank pc w \<le> n"
  proof (cases "?pc = DropFinished")
    case True
    then show ?thesis using st by simp
  next
    case False
    from chunk_drop_step_rank [OF st ok this] Suc.prems(3) show ?thesis by simp
  qed
  with Suc.IH [OF s1(2)] Suc.prems(2) obtain w' where
    "chunk_drop_alone n pc w = Some (DropFinished, w')" "w_chunks w' = w_chunks (ct_world s)"
    "ct_run ga exact s1 (replicate n ?e) (s\<lparr>ct_threads := (ct_threads s)[i := DropFinished], ct_world := w'\<rparr>)" by (auto simp: eq ch)
  with st s1(1) al show ?case by (auto simp: run_eq_exec_all)
qed

section \<open>The owner\<close>

text \<open>How far the owner has to go in its call. A page that was just opened has room, so that the loop of the packed path
  ends.\<close>

definition fresh_open :: "chunk_pool \<Rightarrow> bool" where
  "fresh_open cp \<longleftrightarrow> (case cp_current cp of None \<Rightarrow> False | Some opn \<Rightarrow> op_write_offset opn = 0)"

fun chunk_call_rank :: "chunk_owner_pc \<Rightarrow> chunk_pool \<Rightarrow> chunk_world \<Rightarrow> nat" where
  "chunk_call_rank (Fitting t sz align) cp w = (if fresh_open cp then 20 else 60)"
| "chunk_call_rank (Retiring t sz align pc) cp w = 40 + chunk_drop_rank pc w"
| "chunk_call_rank (Opening t sz align pc) cp w = 20 + owner_rank pc"
| "chunk_call_rank (Dedicating t sz pc) cp w = 20 + owner_rank pc"
| "chunk_call_rank (Oversizing t sz align) cp w = 20"
| "chunk_call_rank (Counting ops b) cp w = 1 + tally count_rank ops"
| "chunk_call_rank _ cp w = 0"

lemma owner_rank_le: "owner_rank pc \<le> 7"
  by (cases pc) simp_all


lemma ct_owner_step:
  assumes "ct_inv h0 base exact s"
  obtains pc b cp w s' where "chunk_owner_step ga False (ct_owner s) (ct_pool s) (ct_world s) = Some (pc, b, cp, w)"
    and "ct_run ga exact s [ChunkOwnerRuns False] s'" and "ct_inv h0 base exact s'"
    and "ct_owner s' = pc" and "ct_pool s' = cp" and "ct_world s' = w" and "ct_scrapers s' = ct_scrapers s"
proof -
  from chunk_threads.call_defined [OF assms, of "ChunkOwnerRuns False" ga] obtain s' where
    s': "ct_step ga (ChunkOwnerRuns False) s = Some s'" "ct_inv h0 base exact s'" by auto
  from s'(1) obtain pc b cp w where st: "chunk_owner_step ga False (ct_owner s) (ct_pool s) (ct_world s) = Some (pc, b, cp, w)"
    by (auto simp: bind_eq_Some_conv)
  with s' show thesis by (intro that [of pc b cp w s']) (auto intro: run_single simp del: ct_step.simps, auto)
qed

lemma ct_fresh_fits:
  assumes inv: "ct_inv h0 base exact s" and own: "ct_owner s = Fitting t sz align" and fresh: "fresh_open (ct_pool s)"
  shows "\<exists>opn off. packed_fit sz align (ct_pool s) (ct_world s) = Some (Some (opn, off))"
proof -
  have q: "quiet_owner (ct_owner s)" "owner_drop (ct_owner s) = DropFinished" by (simp_all add: own quiet_owner_def)
  note M = ct_owner_memory [OF inv q, unfolded own, simplified]
  from fresh obtain opn where opn: "cp_current (ct_pool s) = Some opn" "op_write_offset opn = 0"
    by (auto simp: fresh_open_def split: option.splits)
  then have "cp_current (ct_pool s) = Some \<lparr>op_shared = op_shared opn, op_write_offset = 0\<rparr>" by (cases opn) simp
  from conc_store.fresh_fits [OF M(1) [unfolded drops_inv_def] this, of align sz] M(2) show ?thesis
    unfolding packed_request_def by blast
qed

lemma chunk_call_rank_step:
  assumes inv: "ct_inv h0 base exact s" and st: "chunk_owner_step ga False (ct_owner s) (ct_pool s) (ct_world s) = Some (pc, b, cp, w)"
    and nz: "chunk_call_rank (ct_owner s) (ct_pool s) (ct_world s) \<noteq> 0"
  shows "chunk_call_rank pc cp w < chunk_call_rank (ct_owner s) (ct_pool s) (ct_world s)"
proof (cases "ct_owner s")
  case (Fitting t sz align)
  show ?thesis
  proof (cases "fresh_open (ct_pool s)")
    case True
    from ct_fresh_fits [OF inv Fitting this] st Fitting True count_ops_rank [of PackedSize "tenant_cell t" sz] show ?thesis
      by (auto simp: bind_eq_Some_conv simp del: count_ops_rank)
  next
    case False
    with st Fitting count_ops_rank [of PackedSize "tenant_cell t" sz] show ?thesis
      by (auto simp: bind_eq_Some_conv simp del: count_ops_rank split: option.splits prod.splits)
  qed
next
  case (Retiring t sz align d)
  then have "drop_pc_ok d" "d \<noteq> DropFinished" using ct_inv_parts(3) [OF inv] by (simp_all add: ct_handles_ok_def)
  with chunk_drop_step_rank [of d "ct_world s"] st Retiring show ?thesis by (auto simp: bind_eq_Some_conv split: if_splits)
next
  case (Opening t sz align q)
  then show ?thesis using st owner_step_rank [of q "cp_pages (ct_pool s)" "ct_world s"]
    by (cases q) (auto simp: bind_eq_Some_conv fresh_open_def packed_new_def simp del: owner_step.simps split: prod.splits)
next
  case (Dedicating t sz q)
  then show ?thesis using st owner_step_rank [of q "cp_pages (ct_pool s)" "ct_world s"] count_ops_rank [of DedicatedSize "tenant_cell t" sz]
    by (cases q) (auto simp: bind_eq_Some_conv packed_new_def simp del: owner_step.simps count_ops_rank split: prod.splits)
next
  case (Oversizing t sz align)
  then show ?thesis using st count_ops_rank [of OversizedSize "tenant_cell t" sz]
    by (auto simp: Let_def simp del: count_ops_rank split: sum.splits prod.splits if_splits)
next
  case (Counting ops b')
  then show ?thesis using st count_step_rank [of "hd ops" "ct_world s"] by (cases ops) (auto split: prod.splits)
qed (use nz in auto)

lemma ct_call_ends:
  assumes "ct_inv h0 base exact s"
  shows "\<exists>es s'. ct_run ga exact s es s' \<and> ct_inv h0 base exact s' \<and> chunk_call_rank (ct_owner s') (ct_pool s') (ct_world s') = 0"
proof (rule run_reaches [where P = "ct_inv h0 base exact" and m = "\<lambda>s. chunk_call_rank (ct_owner s) (ct_pool s) (ct_world s)", OF assms])
  fix s assume inv: "ct_inv h0 base exact s" and nz: "chunk_call_rank (ct_owner s) (ct_pool s) (ct_world s) \<noteq> 0"
  from inv obtain pc b cp w s' where st: "chunk_owner_step ga False (ct_owner s) (ct_pool s) (ct_world s) = Some (pc, b, cp, w)"
    "ct_run ga exact s [ChunkOwnerRuns False] s'" "ct_inv h0 base exact s'" "ct_owner s' = pc" "ct_pool s' = cp" "ct_world s' = w"
    by (rule ct_owner_step)
  with chunk_call_rank_step [OF inv st(1) nz]
  show "\<exists>es s'. ct_run ga exact s es s' \<and> ct_inv h0 base exact s'
      \<and> chunk_call_rank (ct_owner s') (ct_pool s') (ct_world s') < chunk_call_rank (ct_owner s) (ct_pool s) (ct_world s)" by blast
qed


subsection \<open>The drop of the pool\<close>

fun chunk_end_rank :: "chunk_owner_pc \<Rightarrow> nat" where
  "chunk_end_rank ChunkPoolGone = 0"
| "chunk_end_rank (ClosingOpen pc) = 1"
| "chunk_end_rank (ClosingPages PoolFree) = 2"
| "chunk_end_rank (ClosingPages PoolDec) = 3"
| "chunk_end_rank (ClosingPages pc) = 4"
| "chunk_end_rank _ = 5"

lemma ct_walk_ends:
  assumes "ct_inv h0 base exact s" and "ct_owner s = ClosingPages PoolWalk"
    and "chain (w_heap (ct_world s)) (pp_local_head (cp_pages (ct_pool s))) ys"
  shows "\<exists>es s'. ct_run ga exact s es s' \<and> ct_inv h0 base exact s' \<and> ct_owner s' = ClosingPages PoolDec"
  using assms
proof (induction ys arbitrary: s)
  case (Nil s)
  from Nil.prems(1) obtain pc b cp w s' where
    st: "chunk_owner_step ga False (ct_owner s) (ct_pool s) (ct_world s) = Some (pc, b, cp, w)"
    "ct_run ga exact s [ChunkOwnerRuns False] s'" "ct_inv h0 base exact s'" "ct_owner s' = pc" by (rule ct_owner_step)
  with Nil.prems have "pc = ClosingPages PoolDec" by auto
  with st(2-4) show ?case by blast
next
  case (Cons x ys s)
  have q: "quiet_owner (ct_owner s)" "owner_drop (ct_owner s) = DropFinished" by (simp_all add: Cons.prems(2) quiet_owner_def)
  note M = ct_owner_memory [OF Cons.prems(1) q, unfolded Cons.prems(2), simplified]
  from Cons.prems(1) obtain pc b cp w s' where
    st: "chunk_owner_step ga False (ct_owner s) (ct_pool s) (ct_world s) = Some (pc, b, cp, w)"
    "ct_run ga exact s [ChunkOwnerRuns False] s'" "ct_inv h0 base exact s'" "ct_owner s' = pc" "ct_pool s' = cp" "ct_world s' = w"
    by (rule ct_owner_step)
  from st(1) Cons.prems(2) obtain q b pp where ps: "pool_step PoolWalk (cp_pages (ct_pool s)) (ct_world s) = Some (q, b, pp, w)"
    "cp_pages cp = pp" "q \<noteq> PoolGone \<Longrightarrow> pc = ClosingPages q" by (auto simp: bind_eq_Some_conv simp del: pool_step.simps split: if_splits)
  from M(1) obtain h1 where life: "conc_life (cp_pages (ct_pool s)) PoolWalk (ct_scrapers s) (map give_of (DropFinished # ct_threads s)) h1
    (ct_world s) (pool_buffers (live_cells (w_packed (ct_world s))))" by (rule drops_life)
  from conc_walk_chain(2) [OF life Cons.prems(3) ps(1)] ps(2,3) st(4-6)
  have "ct_owner s' = ClosingPages PoolWalk" "chain (w_heap (ct_world s')) (pp_local_head (cp_pages (ct_pool s'))) ys" by auto
  from Cons.IH [OF st(3) this] run_append [OF st(2)] show ?case by blast
qed

lemma ct_close_ends:
  assumes "ct_inv h0 base exact s" and "ct_owner s = ClosingOpen pc"
  shows "\<exists>es s'. ct_run ga exact s es s' \<and> ct_inv h0 base exact s' \<and> ct_owner s' = ChunkPoolGone"
proof -
  let ?P = "\<lambda>s. ct_inv h0 base exact s \<and> (ct_owner s = ChunkPoolGone \<or> (\<exists>pc. ct_owner s = ClosingOpen pc))"
  let ?m = "\<lambda>s. chunk_drop_rank (owner_drop (ct_owner s)) (ct_world s)"
  have "\<exists>es s'. ct_run ga exact s es s' \<and> ?P s' \<and> ?m s' = 0"
  proof (rule run_reaches [where P = ?P and m = ?m])
    fix s assume P: "?P s" and nz: "?m s \<noteq> 0"
    then have inv: "ct_inv h0 base exact s" by simp
    from P nz obtain d where d: "ct_owner s = ClosingOpen d" by auto
    then have ok: "drop_pc_ok d" "d \<noteq> DropFinished" using ct_inv_parts(3) [OF inv] by (simp_all add: ct_handles_ok_def)
    from inv obtain pc b cp w s' where
      st: "chunk_owner_step ga False (ct_owner s) (ct_pool s) (ct_world s) = Some (pc, b, cp, w)"
      "ct_run ga exact s [ChunkOwnerRuns False] s'" "ct_inv h0 base exact s'" "ct_owner s' = pc" "ct_world s' = w"
      by (rule ct_owner_step)
    from st(1) d obtain d' where "chunk_drop_step False d (ct_world s) = Some (d', w)"
      "pc = (if d' = DropFinished then ChunkPoolGone else ClosingOpen d')" by (auto simp: bind_eq_Some_conv)
    with chunk_drop_step_rank [OF _ ok] st(2-5) d show "\<exists>es s'. ct_run ga exact s es s' \<and> ?P s' \<and> ?m s' < ?m s" by fastforce
  qed (use assms in auto)
  then obtain es s' where s': "ct_run ga exact s es s'" "?P s'" "?m s' = 0" by blast
  have "ct_owner s' \<noteq> ClosingOpen d" for d
    using s'(2,3) ct_inv_parts(3) [of h0 base exact s'] chunk_drop_rank_0 [of d "ct_world s'"] by (auto simp: ct_handles_ok_def)
  with s' show ?thesis by blast
qed


lemma ct_owner_ends:
  assumes "ct_inv h0 base exact s"
  shows "\<exists>es s'. ct_run ga exact s es s' \<and> ct_inv h0 base exact s' \<and> ct_owner s' = ChunkPoolGone"
proof -
  let ?P = "\<lambda>s. ct_inv h0 base exact s \<and> chunk_call_rank (ct_owner s) (ct_pool s) (ct_world s) = 0"
  let ?goal = "\<lambda>s. \<exists>es s'. ct_run ga exact s es s' \<and> ?P s' \<and> chunk_end_rank (ct_owner s') < chunk_end_rank (ct_owner s)"
  from ct_call_ends [OF assms] obtain es s1 where s1: "ct_run ga exact s es s1" "?P s1" by blast
  have "\<exists>es s'. ct_run ga exact s1 es s' \<and> ?P s' \<and> chunk_end_rank (ct_owner s') = 0"
  proof (rule run_reaches [where P = ?P and m = "\<lambda>s. chunk_end_rank (ct_owner s)", OF s1(2)])
    fix s assume P: "?P s" and nz: "chunk_end_rank (ct_owner s) \<noteq> 0"
    then have inv: "ct_inv h0 base exact s" by simp
    from inv obtain pc b cp w s' where
      st: "chunk_owner_step ga False (ct_owner s) (ct_pool s) (ct_world s) = Some (pc, b, cp, w)"
      "ct_run ga exact s [ChunkOwnerRuns False] s'" "ct_inv h0 base exact s'" "ct_owner s' = pc" by (rule ct_owner_step)
    show "?goal s"
    proof (cases "ct_owner s")
      case ChunkIdle
      let ?s = "s\<lparr>ct_owner := ClosingPages PoolWalk\<rparr>"
      have "ct_inv h0 base exact ?s" using chunk_threads.call_inv [OF inv, of StartChunkPoolDrop ga ?s] ChunkIdle by simp
      moreover have "ct_run ga exact s [StartChunkPoolDrop] ?s" by (rule run_single) (simp_all add: ChunkIdle)
      ultimately show ?thesis using ChunkIdle by (intro exI [of _ "[StartChunkPoolDrop]"] exI [of _ ?s]) simp
    next
      case (ClosingPages q)
      have "q \<in> {PoolWalk, PoolDec, PoolFree}" using ct_inv_parts(3) [OF inv] ClosingPages by (simp add: ct_handles_ok_def)
      then consider "q = PoolWalk" | "q = PoolDec" | "q = PoolFree" by blast
      then show ?thesis
      proof cases
        case 1
        note own = ClosingPages [unfolded 1]
        have qo: "quiet_owner (ct_owner s)" "owner_drop (ct_owner s) = DropFinished" by (simp_all add: own quiet_owner_def)
        from ct_owner_memory(1) [OF inv qo, unfolded own, simplified] obtain h1 where
          "conc_life (cp_pages (ct_pool s)) PoolWalk (ct_scrapers s) (map give_of (DropFinished # ct_threads s)) h1
            (ct_world s) (pool_buffers (live_cells (w_packed (ct_world s))))" by (rule drops_life)
        from conc_walk_chain(1) [OF this] ct_walk_ends [OF inv own] obtain es s' where
          "ct_run ga exact s es s'" "ct_inv h0 base exact s'" "ct_owner s' = ClosingPages PoolDec" by blast
        then show ?thesis by (intro exI [of _ es] exI [of _ s']) (simp add: own)
      next
        case 2
        from st(1) have "pc \<in> {ClosingPages PoolFree, ChunkPoolGone} \<union> range ClosingOpen"
          by (auto simp: ClosingPages 2 bind_eq_Some_conv split: if_splits option.splits)
        with st(2-4) show ?thesis by (intro exI [of _ "[ChunkOwnerRuns False]"] exI [of _ s']) (auto simp: ClosingPages 2)
      next
        case 3
        from st(1) have "pc \<in> {ChunkPoolGone} \<union> range ClosingOpen"
          by (auto simp: ClosingPages 3 bind_eq_Some_conv split: if_splits option.splits)
        with st(2-4) show ?thesis by (intro exI [of _ "[ChunkOwnerRuns False]"] exI [of _ s']) (auto simp: ClosingPages 3)
      qed
    next
      case (ClosingOpen d)
      from ct_close_ends [OF inv ClosingOpen] obtain es s' where
        "ct_run ga exact s es s'" "ct_inv h0 base exact s'" "ct_owner s' = ChunkPoolGone" by blast
      then show ?thesis by (intro exI [of _ es] exI [of _ s']) (simp add: ClosingOpen)
    qed (use P nz in \<open>auto split: if_splits\<close>)
  qed
  then obtain es' s' where "ct_run ga exact s1 es' s'" "ct_inv h0 base exact s'" "chunk_end_rank (ct_owner s') = 0" by blast
  moreover from this(3) have "ct_owner s' = ChunkPoolGone" by (cases "ct_owner s'" rule: chunk_end_rank.cases) auto
  ultimately show ?thesis using run_append [OF s1(1)] by blast
qed

section \<open>Clients and threads\<close>

definition ct_client_rank :: "ct_state \<Rightarrow> nat" where
  "ct_client_rank s = length (ct_builders s) + ct_scrapers s + sum_list (map snd (w_chunks (ct_world s)))"

lemma ct_client_rank_step:
  assumes "ct_client_rank s \<noteq> 0"
  shows "\<exists>e s'. ct_allowed exact e s \<and> ct_step ga e s = Some s' \<and> ct_owner s' = ct_owner s \<and> ct_client_rank s' < ct_client_rank s"
proof -
  consider "ct_scrapers s \<noteq> 0" | "ct_builders s \<noteq> []" | "sum_list (map snd (w_chunks (ct_world s))) \<noteq> 0"
    using assms by (auto simp: ct_client_rank_def)
  then show ?thesis
  proof cases
    case 1
    then show ?thesis by (intro exI [of _ DropChunkScraper]) (auto simp: ct_client_rank_def)
  next
    case 2
    then show ?thesis by (intro exI [of _ "StartRangeDrop 0"]) (auto simp: ct_client_rank_def remove_nth_def)
  next
    case 3
    then obtain c where c: "c < length (w_chunks (ct_world s))" "snd (w_chunks (ct_world s) ! c) \<noteq> 0"
      by (auto simp: in_set_conv_nth)
    obtain inner n where g: "w_chunks (ct_world s) ! c = (inner, n)" by fastforce
    with c have gc: "get_chunk c (ct_world s) = Some (inner, n)" by (simp add: get_chunk_Some)
    from sum_list_update_less [OF c(1), of "n - 1" inner] g c(2) gc show ?thesis
      by (intro exI [of _ "DropChunkHandle c"]) (auto simp: ct_client_rank_def)
  qed
qed

lemma ct_clients_end:
  assumes "ct_inv h0 base exact s" and "ct_owner s = ChunkPoolGone"
  shows "\<exists>es s'. ct_run ga exact s es s' \<and> (ct_inv h0 base exact s' \<and> ct_owner s' = ChunkPoolGone) \<and> ct_client_rank s' = 0"
proof (rule run_reaches [where m = ct_client_rank], simp add: assms)
  fix s assume P: "ct_inv h0 base exact s \<and> ct_owner s = ChunkPoolGone" and nz: "ct_client_rank s \<noteq> 0"
  from ct_client_rank_step [OF nz, of exact ga] P obtain e s' where e: "ct_allowed exact e s" "ct_step ga e s = Some s'"
    "ct_owner s' = ChunkPoolGone" "ct_client_rank s' < ct_client_rank s" by metis
  from e(1,2) have "ct_run ga exact s [e] s'" by (rule run_single)
  with chunk_threads.call_inv [OF conjunct1 [OF P] e(1,2)] e(3,4)
  show "\<exists>es s'. ct_run ga exact s es s' \<and> (ct_inv h0 base exact s' \<and> ct_owner s' = ChunkPoolGone) \<and> ct_client_rank s' < ct_client_rank s" by blast
qed

definition ct_done :: "ct_state \<Rightarrow> bool" where
  "ct_done s \<longleftrightarrow> ct_owner s = ChunkPoolGone \<and> ct_builders s = [] \<and> ct_scrapers s = 0
     \<and> live_cells (w_chunks (ct_world s)) = {#} \<and> set (ct_threads s) \<subseteq> {DropFinished}"

lemma ct_threads_end:
  assumes "ct_inv h0 base exact s" and "ct_owner s = ChunkPoolGone" and "ct_client_rank s = 0"
  shows "\<exists>es s'. ct_run ga exact s es s' \<and> ct_inv h0 base exact s' \<and> ct_done s'"
proof -
  let ?P = "\<lambda>s. ct_inv h0 base exact s \<and> ct_owner s = ChunkPoolGone \<and> ct_client_rank s = 0"
  let ?m = "\<lambda>s. length (filter (\<lambda>pc. pc \<noteq> DropFinished) (ct_threads s))"
  have "\<exists>es s'. ct_run ga exact s es s' \<and> ?P s' \<and> ?m s' = 0"
  proof (rule run_reaches [where P = ?P and m = ?m], simp add: assms)
    fix s assume P: "?P s" and "?m s \<noteq> 0"
    then obtain i where i: "i < length (ct_threads s)" "ct_threads s ! i \<noteq> DropFinished"
      by (auto simp: filter_empty_conv in_set_conv_nth)
    from ct_thread_finishes [OF conjunct1 [OF P] i(1) order_refl, of ga] obtain n w where ch: "w_chunks w = w_chunks (ct_world s)"
      and r: "ct_run ga exact s (replicate n (ChunkThreadRuns i False)) (s\<lparr>ct_threads := (ct_threads s)[i := DropFinished], ct_world := w\<rparr>)" by blast
    let ?s = "s\<lparr>ct_threads := (ct_threads s)[i := DropFinished], ct_world := w\<rparr>"
    have "ct_inv h0 base exact ?s" using chunk_threads.run_inv [OF r] P by blast
    moreover have "ct_client_rank ?s = ct_client_rank s" by (simp add: ct_client_rank_def ch)
    moreover have "?m ?s < ?m s"
      using i by (simp add: id_take_nth_drop [OF i(1), THEN arg_cong, of "filter _"] upd_conv_take_nth_drop)
    ultimately show "\<exists>es s'. ct_run ga exact s es s' \<and> ?P s' \<and> ?m s' < ?m s" using r P by fastforce
  qed
  then obtain es s' where s': "ct_run ga exact s es s'" "?P s'" "?m s' = 0" by blast
  from s'(3) have "set (ct_threads s') \<subseteq> {DropFinished}" by (auto simp: filter_empty_conv)
  moreover have "live_cells (w_chunks (ct_world s')) = {#}"
    using s'(2) by (fastforce simp: ct_client_rank_def live_cells_def filter_empty_conv)
  ultimately have "ct_done s'" using s'(2) by (simp add: ct_done_def ct_client_rank_def)
  with s' show ?thesis by blast
qed

lemma ct_can_end:
  assumes "ct_inv h0 base exact s"
  shows "\<exists>es s'. ct_run ga exact s es s' \<and> ct_inv h0 base exact s' \<and> ct_done s'"
proof -
  from ct_owner_ends [OF assms] obtain es1 s1 where s1: "ct_run ga exact s es1 s1" "ct_inv h0 base exact s1" "ct_owner s1 = ChunkPoolGone" by blast
  from ct_clients_end [OF s1(2,3)] obtain es2 s2 where s2: "ct_run ga exact s1 es2 s2" "ct_inv h0 base exact s2"
    "ct_owner s2 = ChunkPoolGone" "ct_client_rank s2 = 0" by blast
  from ct_threads_end [OF s2(2-4)] obtain es3 s3 where s3: "ct_run ga exact s2 es3 s3" "ct_inv h0 base exact s3" "ct_done s3" by blast
  from run_append [OF run_append [OF s1(1) s2(1)] s3(1)] s3(2,3) show ?thesis by blast
qed

end
