(* ===== verification/Chunk_Lifetimes.thy ===== *)
theory Chunk_Lifetimes
  imports Chunk_Progress
begin

text \<open>
  Properties of the concurrent machine of \<open>Chunk_Threads\<close> over whole lifetimes: what holds in every state that any
  interleaving can reach, how the machine's steps relate to the operations of the sequential model, and that every
  run can be brought to its end.
\<close>

section \<open>Running alone\<close>

text \<open>The owner through a call of \<open>allocate_aligned\<close>, without interference: the builder, or nothing when the call
  panics.\<close>

fun chunk_alloc_alone :: "placement \<Rightarrow> nat \<Rightarrow> chunk_owner_pc \<Rightarrow> chunk_pool \<Rightarrow> chunk_world
    \<Rightarrow> (chunk_builder option \<times> chunk_pool \<times> chunk_world) option" where
  "chunk_alloc_alone ga 0 pc cp w = None"
| "chunk_alloc_alone ga (Suc n) pc cp w =
     (if pc = ChunkIdle then Some (None, cp, w)
      else do {
        (pc, b, cp, w) \<leftarrow> chunk_owner_step ga False pc cp w;
        (case b of Some b \<Rightarrow> Some (Some b, cp, w) | None \<Rightarrow> chunk_alloc_alone ga n pc cp w)
      })"

section \<open>Lemmas\<close>

subsection \<open>Drops\<close>

lemma chunk_drop_alone_finished [simp]: "chunk_drop_alone n DropFinished w = Some (DropFinished, w)"
  by (induction n) auto

lemma chunk_drop_alone_returning:
  "d \<noteq> Dropped \<Longrightarrow> chunk_drop_alone n (Returning d) w
     = map_option (\<lambda>(d, w). (if d = Dropped then DropFinished else Returning d, w)) (drop_alone n d w)"
proof (induction n arbitrary: d w)
  case (Suc n)
  show ?case
  proof (cases "drop_step False d w")
    case (Some dw)
    obtain d' w' where "dw = (d', w')" by (cases dw)
    with Some Suc.IH [of d' w'] show ?thesis by (cases "d' = Dropped") simp_all
  qed simp
qed simp

lemma chunk_drop_alone_unref:
  "chunk_drop_alone (8 + n) (Unref j) w = map_option (Pair DropFinished) (packed_drop j w)"
proof (cases "get_packed j w")
  case None
  have "8 + n = Suc (7 + n)" by simp
  then show ?thesis by (simp only: chunk_drop_alone.simps(2) chunk_drop_step.simps packed_drop_def None) simp
next
  case (Some pkn)
  obtain pk m where pkn: "pkn = (pk, m)" by (cases pkn)
  let ?w = "w\<lparr>w_packed := (w_packed w)[j := (pk, m - 1)]\<rparr>"
  have eight: "8 + n = Suc (7 + n)" "7 + n = Suc (Suc (Suc (Suc (Suc (Suc (Suc n))))))" by simp_all
  have push: "chunk_drop_alone (7 + n) (Returning (Pushing (LoadHead raw))) v
      = map_option (Pair DropFinished) (do { v \<leftarrow> push_return raw v; drop_shared v })" for raw v
  proof -
    have "drop_alone (7 + n) (Pushing (LoadHead raw)) v = map_option (Pair Dropped) (do { v \<leftarrow> push_return raw v; drop_shared v })"
      unfolding eight(2) drop_alone_push drop_alone_shared by (cases "push_return raw v") simp_all
    moreover have "chunk_drop_alone (7 + n) (Returning (Pushing (LoadHead raw))) v
        = map_option (\<lambda>(d, w). (if d = Dropped then DropFinished else Returning d, w)) (drop_alone (7 + n) (Pushing (LoadHead raw)) v)"
      by (rule chunk_drop_alone_returning) simp
    ultimately show ?thesis by (simp add: option.map_comp comp_def)
  qed
  have free: "chunk_drop_alone (7 + n) (Freeing pk) ?w
      = map_option (Pair DropFinished) (do { h \<leftarrow> dealloc (pk_buf pk) (release_layout (pk_release pk)) (w_heap w); Some (?w\<lparr>w_heap := h\<rparr>) })"
    unfolding eight(2) by (simp split: Option.bind_split)
  have "chunk_drop_alone (8 + n) (Unref j) w = chunk_drop_alone (7 + n) (if m = 1 then (case pk_release pk of
      ReleasePool \<Rightarrow> Returning (Pushing (LoadHead (pk_buf pk))) | ReleaseHeap layout \<Rightarrow> Freeing pk) else DropFinished) ?w"
    unfolding eight(1) chunk_drop_alone.simps(2) chunk_drop_step.simps Some pkn Let_def by simp
  moreover have "packed_drop j w = (if m = 1 then packed_page_drop pk ?w else Some ?w)"
    by (simp add: packed_drop_def Some pkn)
  ultimately show ?thesis
    using push [of "pk_buf pk" ?w] free by (cases "pk_release pk"; cases "m = 1") (simp_all add: packed_page_drop_def)
qed

lemma chunk_drop_alone_field:
  "chunk_drop_alone (8 + n) (uncounted [] j) w = map_option (Pair DropFinished) (drop_packed_field j w)"
  by (cases j) (simp_all add: drop_packed_field_def chunk_drop_alone_unref)

lemma chunk_drop_alone_uncount:
  "chunk_drop_alone 12 (uncounted (uncount_ops t cap m) j) w
     = map_option (Pair DropFinished) (drop_packed_field j (uncount_chunk t cap m w))"
proof -
  have "chunk_drop_alone (Suc n) (uncounted (op # ops) j) w = chunk_drop_alone n (uncounted ops j) (snd (count_step op w))"
    if "release_op op" for n op ops w
    using release_op_step [OF that, of w] by (cases "count_step op w") simp
  note step = this
  have twelve: "(12 :: nat) = Suc (Suc (Suc (Suc (8 + 0))))" "Suc (8 + 0) = (8 + 1 :: nat)" by simp_all
  have rel: "upd_tenant t (\<lambda>s. s\<lparr>t_chunks_in_use := fetch_sub (t_chunks_in_use s) 1\<rparr>)
      (upd_tenant t (\<lambda>s. s\<lparr>t_bytes_in_use := fetch_sub (t_bytes_in_use s) (ucast cap)\<rparr>) w) = upd_tenant t (record_chunk_release (ucast cap)) w"
    by (simp add: upd_tenant_def record_chunk_release_def Let_def)
  show ?thesis
  proof (cases "m > 0")
    case True
    then show ?thesis unfolding twelve(1) uncount_ops_def
      by (simp only: append_Cons append_Nil if_True step release_op.simps chunk_drop_alone_field)
        (simp add: rel uncount_chunk_def Let_def)
  next
    case False
    then show ?thesis unfolding twelve(1) uncount_ops_def
      by (simp only: append_Cons append_Nil if_False step release_op.simps)
        (simp only: twelve(2) chunk_drop_alone_field, simp add: rel uncount_chunk_def Let_def)
  qed
qed


subsection \<open>Allocation\<close>

lemma chunk_alloc_alone_step:
  assumes "chunk_owner_step ga False pc cp w = Some (pc', None, cp', w')" and "pc \<noteq> ChunkIdle"
    and "\<exists>n. chunk_alloc_alone ga n pc' cp' w' = Some r"
  shows "\<exists>n. chunk_alloc_alone ga n pc cp w = Some r"
proof -
  from assms(3) obtain n where "chunk_alloc_alone ga n pc' cp' w' = Some r" by blast
  with assms(1,2) have "chunk_alloc_alone ga (Suc n) pc cp w = Some r" by simp
  then show ?thesis by blast
qed

lemma chunk_alloc_alone_idle: "\<exists>n. chunk_alloc_alone ga n ChunkIdle cp w = Some (None, cp, w)"
  by (rule exI [of _ "Suc 0"]) simp

text \<open>Counting.\<close>

fun count_all :: "nat \<Rightarrow> count_op list \<Rightarrow> chunk_world \<Rightarrow> chunk_world" where
  "count_all 0 ops w = w"
| "count_all (Suc n) [] w = w"
| "count_all (Suc n) (op # ops) w = (case count_step op w of (next_ops, w) \<Rightarrow> count_all n (next_ops @ ops) w)"

lemma chunk_alloc_alone_counting:
  "tally count_rank ops \<le> n \<Longrightarrow> \<exists>m. chunk_alloc_alone ga m (Counting ops b) cp w = Some (Some b, cp, count_all n ops w)"
proof (induction n arbitrary: ops w)
  case 0
  have "count_rank op \<noteq> 0" for op by (cases op) simp_all
  with 0 have "ops = []" by (cases ops) simp_all
  then show ?case by (intro exI [of _ "Suc 0"]) simp
next
  case (Suc n)
  show ?case
  proof (cases ops)
    case Nil
    then show ?thesis by (intro exI [of _ "Suc 0"]) simp
  next
    case (Cons op ops')
    obtain ops2 w' where st: "count_step op w = (ops2, w')" by fastforce
    have "tally count_rank (ops2 @ ops') \<le> n" using Suc.prems Cons count_step_rank [OF st] by simp
    from Suc.IH [OF this] have ex: "\<exists>m. chunk_alloc_alone ga m (Counting (ops2 @ ops') b) cp w' = Some (Some b, cp, count_all n (ops2 @ ops') w')" .
    have eq: "count_all (Suc n) ops w = count_all n (ops2 @ ops') w'" by (simp add: Cons st)
    show ?thesis unfolding eq by (rule chunk_alloc_alone_step [OF _ _ ex]) (simp_all add: Cons st)
  qed
qed


lemma count_ops_all:
  "count_all 20 (count_ops c t sz) w = (let w = count_chunk t sz w in case c of
       ZeroSize \<Rightarrow> w
     | PackedSize \<Rightarrow> upd_cstats (\<lambda>s. s\<lparr>cs_packed_allocations := fetch_add (cs_packed_allocations s) 1\<rparr>) w
     | DedicatedSize \<Rightarrow> upd_cstats (\<lambda>s. s\<lparr>cs_dedicated_allocations := fetch_add (cs_dedicated_allocations s) 1\<rparr>) w
     | OversizedSize \<Rightarrow> upd_cstats (\<lambda>s. s\<lparr>cs_oversized_bytes_in_use := fetch_add (cs_oversized_bytes_in_use s) sz\<rparr>)
         (upd_cstats (\<lambda>s. s\<lparr>cs_oversized_allocations := fetch_add (cs_oversized_allocations s) 1\<rparr>) w))"
  by (cases c) (simp_all add: eval_nat_numeral count_ops_def count_chunk_def upd_tenant_def record_chunk_allocate_def upd_cstats_def
      fetch_add_def Let_def)


text \<open>A path that calls \<open>allocate_raw_page\<close>: \<open>F\<close> is where it stands during the call, and \<open>G\<close> and \<open>H\<close> how it goes on
  with a buffer.\<close>

lemma path_call_alone:
  assumes on: "\<And>pc cp w pc' pp w'. \<forall>e. pc \<noteq> OwnerPanicked e \<Longrightarrow> \<forall>buf. pc \<noteq> OwnerTake buf \<Longrightarrow>
      owner_step pc (cp_pages cp) w = Some (pc', pp, w') \<Longrightarrow> chunk_owner_step ga False (F pc) cp w = Some (F pc', None, cp\<lparr>cp_pages := pp\<rparr>, w')"
    and panic: "\<And>e cp w. chunk_owner_step ga False (F (OwnerPanicked e)) cp w = Some (ChunkIdle, None, cp, w)"
    and take: "\<And>buf cp w q pp w'. owner_step (OwnerTake buf) (cp_pages cp) w = Some (q, pp, w') \<Longrightarrow>
      chunk_owner_step ga False (F (OwnerTake buf)) cp w = Some (G w', None, H (cp\<lparr>cp_pages := pp\<rparr>) w',
        snd (packed_new \<lparr>pk_buf = buf, pk_release = ReleasePool\<rparr> w'))"
    and busy: "\<And>pc. F pc \<noteq> ChunkIdle"
    and call: "owner_call m pc (cp_pages cp) w = Some (r, pp, w')"
    and res: "case r of Inl e \<Rightarrow> res = (None, cp\<lparr>cp_pages := pp\<rparr>, w')
      | Inr buf \<Rightarrow> \<exists>n. chunk_alloc_alone ga n (G w') (H (cp\<lparr>cp_pages := pp\<rparr>) w')
          (snd (packed_new \<lparr>pk_buf = buf, pk_release = ReleasePool\<rparr> w')) = Some res"
  shows "\<exists>n. chunk_alloc_alone ga n (F pc) cp w = Some res"
  using call res
proof (induction m arbitrary: pc cp w)
  case (Suc m)
  from Suc.prems(1) obtain pc1 pp1 w1 where st: "owner_step pc (cp_pages cp) w = Some (pc1, pp1, w1)" by (auto simp: bind_eq_Some_conv)
  consider (panic) e where "pc = OwnerPanicked e" | (take) buf where "pc = OwnerTake buf"
    | (on) "\<forall>e. pc \<noteq> OwnerPanicked e" "\<forall>buf. pc \<noteq> OwnerTake buf" by blast
  then show ?case
  proof cases
    case panic
    with Suc.prems have "res = (None, cp, w)" by auto
    with chunk_alloc_alone_step [OF assms(2) busy chunk_alloc_alone_idle] show ?thesis unfolding panic by simp
  next
    case take
    note st' = st [unfolded take]
    have "r = Inr buf" "pp = pp1" "w' = w1" using Suc.prems(1) st' unfolding take by (auto simp: bind_eq_Some_conv)
    with Suc.prems(2) show ?thesis unfolding take by (intro chunk_alloc_alone_step [OF assms(3) [OF st'] busy]) simp
  next
    case on
    have "owner_call m pc1 (cp_pages (cp\<lparr>cp_pages := pp1\<rparr>)) w1 = Some (r, pp, w')"
      using Suc.prems(1) st on by (cases pc) (simp_all del: owner_step.simps)
    moreover have "(cp\<lparr>cp_pages := pp1\<rparr>)\<lparr>cp_pages := pp\<rparr> = cp\<lparr>cp_pages := pp\<rparr>" by simp
    ultimately have "\<exists>n. chunk_alloc_alone ga n (F pc1) (cp\<lparr>cp_pages := pp1\<rparr>) w1 = Some res"
      using Suc.IH [of pc1 "cp\<lparr>cp_pages := pp1\<rparr>" w1] Suc.prems(2) by metis
    with chunk_alloc_alone_step [OF assms(1) [OF on st] busy] show ?thesis by blast
  qed
qed simp

lemma retiring_alone:
  assumes "chunk_drop_alone n pc w = Some (DropFinished, w')" and "pc \<noteq> DropFinished"
    and "\<exists>n. chunk_alloc_alone ga n (Opening t sz align OwnerIdle) cp w' = Some res"
  shows "\<exists>n. chunk_alloc_alone ga n (Retiring t sz align pc) cp w = Some res"
  using assms(1,2)
proof (induction n arbitrary: pc w)
  case (Suc n)
  from Suc.prems(1) obtain pc1 w1 where st: "chunk_drop_step False pc w = Some (pc1, w1)" "chunk_drop_alone n pc1 w1 = Some (DropFinished, w')"
    by (auto simp: bind_eq_Some_conv)
  show ?case
  proof (cases "pc1 = DropFinished")
    case True
    then have "w' = w1" using st(2) by simp
    from chunk_alloc_alone_step [OF _ _ assms(3) [unfolded this], of "Retiring t sz align pc" cp w] st(1) True show ?thesis by simp
  next
    case False
    from chunk_alloc_alone_step [OF _ _ Suc.IH [OF st(2) False], of "Retiring t sz align pc" cp w] st(1) False show ?thesis by simp
  qed
qed simp

lemma core_strong: "pool_core h0 cp k w C \<Longrightarrow> 0 < w_strong w"
proof -
  assume "pool_core h0 cp k w C"
  then have "packed_inv h0 (Some (cp_pages cp)) k w (claim_refs (cp_current cp) C)" by (simp add: core_inv_def)
  then obtain h1 where "pool_life h1 (Some (cp_pages cp)) k w (pool_buffers (live_cells (w_packed w)))"
    unfolding packed_inv_def by (rule pool_store.store_invE)
  from pool_life_shared [OF this] show ?thesis by (auto simp: get_shared_def split: if_splits)
qed


lemma opening_alone:
  assumes strong: "0 < w_strong w" and new: "open_new_page cp w = Some (r, cp', w')"
    and res: "case r of Inl e \<Rightarrow> res = (None, cp', w') | Inr _ \<Rightarrow> \<exists>n. chunk_alloc_alone ga n (Fitting t sz align) cp' w' = Some res"
  shows "\<exists>n. chunk_alloc_alone ga n (Opening t sz align OwnerIdle) cp w = Some res"
proof -
  from new obtain q pp v where raw: "allocate_raw_page (cp_pages cp) w = Some (q, pp, v)" by (auto simp: open_new_page_def bind_eq_Some_conv)
  with strong have call: "owner_call 6 OwnerIdle (cp_pages cp) w = Some (q, pp, v)" by (simp add: owner_call_eq)
  let ?H = "\<lambda>cp w. cp\<lparr>cp_current := Some \<lparr>op_shared = length (w_packed w), op_write_offset = 0\<rparr>\<rparr>"
  show ?thesis
  proof (rule path_call_alone [where F = "Opening t sz align" and G = "\<lambda>_. Fitting t sz align" and H = ?H, OF owner_alloc_on(1) _ _ _ call])
    show "case q of Inl e \<Rightarrow> res = (None, cp\<lparr>cp_pages := pp\<rparr>, v)
      | Inr buf \<Rightarrow> \<exists>n. chunk_alloc_alone ga n (Fitting t sz align) (?H (cp\<lparr>cp_pages := pp\<rparr>) v)
          (snd (packed_new \<lparr>pk_buf = buf, pk_release = ReleasePool\<rparr> v)) = Some res"
      using new raw res by (cases q) (auto simp: open_new_page_def packed_new_def)
  qed (simp_all add: packed_new_def del: owner_step.simps)
qed

text \<open>A round of the loop of the packed path: the open page has room, or it is retired and another one opened.\<close>

lemma fitting_alone:
  assumes "packed_fit sz align cp w = Some (Some (opn, off))" and "packed_clone (op_shared opn) w = Some w'"
  shows "\<exists>n. chunk_alloc_alone ga n (Fitting t sz align) cp w
    = Some (Some (path_builder (Some (op_shared opn)) (tenant_cell t) 0 off sz),
        cp\<lparr>cp_current := Some (opn\<lparr>op_write_offset := off + sz\<rparr>)\<rparr>, count_all 20 (count_ops PackedSize (tenant_cell t) sz) w')"
proof -
  have "tally count_rank (count_ops PackedSize (tenant_cell t) sz) \<le> 20" by (simp add: count_ops_def)
  from chunk_alloc_alone_step [OF _ _ chunk_alloc_alone_counting [OF this], of ga "Fitting t sz align" cp w] assms
  show ?thesis by simp
qed

lemma refitting_alone:
  assumes fit: "packed_fit sz align cp w = Some None" and ret: "retire_current cp w = Some (cp1, w1)"
    and open_alone: "\<exists>n. chunk_alloc_alone ga n (Opening t sz align OwnerIdle) cp1 w1 = Some res"
  shows "\<exists>n. chunk_alloc_alone ga n (Fitting t sz align) cp w = Some res"
proof (cases "cp_current cp")
  case None
  with ret have "cp1 = cp" "w1 = w" by (simp_all add: retire_current_def)
  with chunk_alloc_alone_step [OF _ _ open_alone, of "Fitting t sz align" cp w] fit None show ?thesis by (cases cp) simp
next
  case (Some opn)
  with ret have dr: "packed_drop (op_shared opn) w = Some w1" and cp1: "cp1 = cp\<lparr>cp_current := None\<rparr>"
    by (auto simp: retire_current_def bind_eq_Some_conv)
  from chunk_drop_alone_unref [of 0 "op_shared opn" w] dr
  have "chunk_drop_alone 8 (Unref (op_shared opn)) w = Some (DropFinished, w1)" by simp
  from retiring_alone [OF this _ open_alone]
  have "\<exists>n. chunk_alloc_alone ga n (Retiring t sz align (Unref (op_shared opn))) cp1 w = Some res" by simp
  from chunk_alloc_alone_step [OF _ _ this, of "Fitting t sz align" cp w] fit Some cp1 show ?thesis by simp
qed

lemma packed_alone:
  assumes "packed_loop sz align cp w = Some res" and "pool_core h0 cp k w C"
  shows "\<exists>n. chunk_alloc_alone ga n (Fitting t sz align) cp w = Some (case res of
      (Inl e, cp', w') \<Rightarrow> (None, cp', w')
    | (Inr (j, off), cp', w') \<Rightarrow> (Some (path_builder (Some j) (tenant_cell t) 0 off sz), cp',
        count_all 20 (count_ops PackedSize (tenant_cell t) sz) w'))"
  using assms
proof (induction sz align cp w res rule: packed_loop.raw_induct [rotated, consumes 1])
  case (1 loop sz align cp w res)
  note inv = 1(3) and body = 1(2)
  let ?out = "\<lambda>res. case res of (Inl e, cp', w') \<Rightarrow> (None, cp', w')
    | (Inr (j, off), cp', w') \<Rightarrow> (Some (path_builder (Some j) (tenant_cell t) 0 off sz), cp',
        count_all 20 (count_ops PackedSize (tenant_cell t) sz) w')"
  from packed_fit_defined [OF inv] obtain fit where fit: "packed_fit sz align cp w = Some fit" by blast
  show ?case
  proof (cases fit)
    case (Some oo)
    obtain opn off where oo: "oo = (opn, off)" by (cases oo)
    from body fit Some oo obtain w' where cl: "packed_clone (op_shared opn) w = Some w'"
      and res: "res = (Inr (op_shared opn, off), cp\<lparr>cp_current := Some (opn\<lparr>op_write_offset := off + sz\<rparr>)\<rparr>, w')"
      by (auto simp: bind_eq_Some_conv)
    from fitting_alone [OF fit [unfolded Some oo] cl] res show ?thesis by simp
  next
    case None
    from body fit None obtain cp1 w1 r2 cp2 w2 where ret: "retire_current cp w = Some (cp1, w1)"
      and opn: "open_new_page cp1 w1 = Some (r2, cp2, w2)"
      and go: "case r2 of Inl e \<Rightarrow> res = (Inl e, cp2, w2) | Inr _ \<Rightarrow> loop sz align cp2 w2 = Some res"
      by (fastforce simp: bind_eq_Some_conv split: sum.splits)
    have cur: "pool_core h0 cp1 k w1 C \<and> cp_current cp1 = None"
    proof (cases "cp_current cp")
      case (Some o')
      with core_retire [of h0 "Some (cp_pages cp)" o' k w C] inv ret show ?thesis by (auto simp: retire_current_def)
    qed (use inv ret in \<open>auto simp: retire_current_def\<close>)
    from open_new_page_ok [OF conjunct1 [OF cur] conjunct2 [OF cur]] opn have core2: "pool_core h0 cp2 k w2 C" by auto
    have "\<exists>n. chunk_alloc_alone ga n (Opening t sz align OwnerIdle) cp1 w1 = Some (?out res)"
    proof (rule opening_alone [OF core_strong [OF conjunct1 [OF cur]] opn])
      show "case r2 of Inl e \<Rightarrow> ?out res = (None, cp2, w2) | Inr _ \<Rightarrow> \<exists>n. chunk_alloc_alone ga n (Fitting t sz align) cp2 w2 = Some (?out res)"
        using go 1(1) [OF _ core2] by (cases r2) simp_all
    qed
    from refitting_alone [OF fit [unfolded None] ret this] show ?thesis .
  qed
qed

lemma counting_alone: "\<exists>n. chunk_alloc_alone ga n (Counting (count_ops c u sz) b) cp w = Some (Some b, cp, count_all 20 (count_ops c u sz) w)"
  by (rule chunk_alloc_alone_counting) (rule less_imp_le [OF less_trans [OF count_ops_rank]], simp)

lemma dedicated_alone:
  assumes strong: "0 < w_strong w" and al: "allocate_dedicated t sz cp w = Some (r, cp', w')"
  shows "\<exists>n. chunk_alloc_alone ga n (Dedicating t sz OwnerIdle) cp w = Some (case r of Inl e \<Rightarrow> None | Inr b \<Rightarrow> Some b, cp', w')"
proof -
  from al obtain q pp v where raw: "allocate_raw_page (cp_pages cp) w = Some (q, pp, v)" by (auto simp: allocate_dedicated_def bind_eq_Some_conv)
  with strong have call: "owner_call 6 OwnerIdle (cp_pages cp) w = Some (q, pp, v)" by (simp add: owner_call_eq)
  let ?G = "\<lambda>w. Counting (count_ops DedicatedSize (tenant_cell t) sz) (path_builder (Some (length (w_packed w))) (tenant_cell t) 0 0 sz)"
  show ?thesis
  proof (rule path_call_alone [where F = "Dedicating t sz" and G = ?G and H = "\<lambda>cp _. cp", OF owner_alloc_on(2) _ _ _ call])
    show "case q of Inl e \<Rightarrow> (case r of Inl e \<Rightarrow> None | Inr b \<Rightarrow> Some b, cp', w') = (None, cp\<lparr>cp_pages := pp\<rparr>, v)
      | Inr buf \<Rightarrow> \<exists>n. chunk_alloc_alone ga n (?G v) (cp\<lparr>cp_pages := pp\<rparr>) (snd (packed_new \<lparr>pk_buf = buf, pk_release = ReleasePool\<rparr> v))
          = Some (case r of Inl e \<Rightarrow> None | Inr b \<Rightarrow> Some b, cp', w')"
      using al raw counting_alone [of ga DedicatedSize "tenant_cell t" sz] by (cases q)
        (auto simp: allocate_dedicated_def packed_new_def count_ops_all path_builder_def Let_def simp del: chunk_alloc_alone.simps)
  qed (simp_all add: packed_new_def del: owner_step.simps)
qed

lemma oversized_alone:
  assumes "allocate_oversized ga t sz align cp w = Some (r, cp', w')"
  shows "\<exists>n. chunk_alloc_alone ga n (Oversizing t sz align) cp w = Some (case r of Inl e \<Rightarrow> None | Inr b \<Rightarrow> Some b, cp', w')"
proof -
  let ?res = "(case r of Inl e \<Rightarrow> None | Inr b \<Rightarrow> Some b, cp', w')"
  have idle: ?thesis if "chunk_owner_step ga False (Oversizing t sz align) cp w = Some (ChunkIdle, None, cp', w')" "r = Inl e" for e
    using chunk_alloc_alone_step [OF that(1) _ chunk_alloc_alone_idle] that(2) by simp
  show ?thesis
  proof (cases "from_size_align sz (max align default_align)")
    case (Inl e)
    with assms idle show ?thesis by (auto simp: allocate_oversized_def Let_def)
  next
    case (Inr l)
    obtain x h where al: "alloc_zeroed ga l (w_heap w) = (x, h)" by fastforce
    show ?thesis
    proof (cases "x = 0")
      case True
      with Inr al assms idle show ?thesis by (auto simp: allocate_oversized_def Let_def)
    next
      case False
      let ?pk = "\<lparr>pk_buf = x, pk_release = ReleaseHeap l\<rparr>"
      let ?w = "w\<lparr>w_heap := h, w_packed := w_packed w @ [(?pk, 1)]\<rparr>"
      let ?b = "path_builder (Some (length (w_packed w))) (tenant_cell t) sz 0 sz"
      have st: "chunk_owner_step ga False (Oversizing t sz align) cp w
          = Some (Counting (count_ops OversizedSize (tenant_cell t) sz) ?b, None, cp, ?w)"
        using Inr al False by (simp add: packed_new_def)
      have "?res = (Some ?b, cp, count_all 20 (count_ops OversizedSize (tenant_cell t) sz) ?w)"
        using assms Inr al False by (auto simp: allocate_oversized_def packed_new_def count_ops_all path_builder_def Let_def)
      with chunk_alloc_alone_step [OF st _ counting_alone] show ?thesis by simp
    qed
  qed
qed

lemma chunk_allocate_alone_eq:
  assumes inv: "chunk_inv h0 (Some cp) k w B" and al: "allocate_aligned ga t sz align cp w = Some (r, cp', w')"
  shows "\<exists>n. chunk_alloc_alone ga n (chunk_dispatch t sz align cp w) cp w = Some (case r of Inl e \<Rightarrow> None | Inr b \<Rightarrow> Some b, cp', w')"
proof -
  let ?res = "(case r of Inl e \<Rightarrow> None | Inr b \<Rightarrow> Some b, cp', w')"
  have core: "pool_core h0 cp k w (chunk_claims w B)" using chunk_invD(1) [OF inv] by simp
  note strong = core_strong [OF core]
  have packed: "\<exists>n. chunk_alloc_alone ga n (Fitting t sz align) cp w = Some ?res"
    if "allocate_packed t sz align cp w = Some (r, cp', w')"
  proof -
    from that obtain q cp1 w1 where loop: "packed_loop sz align cp w = Some (q, cp1, w1)" by (auto simp: allocate_packed_def bind_eq_Some_conv)
    from packed_alone [OF loop core, of ga t] that loop show ?thesis
      by (cases q) (auto simp: allocate_packed_def count_ops_all path_builder_def Let_def simp del: chunk_alloc_alone.simps)
  qed
  show ?thesis
  proof (cases "is_power_of_two align \<and> sz \<noteq> 0")
    case False
    then show ?thesis
      using al chunk_alloc_alone_idle [of ga cp w] counting_alone [of ga ZeroSize "tenant_cell t" 0 "path_builder None (tenant_cell t) 0 0 0" cp w]
      by (cases "is_power_of_two align") (auto simp: allocate_aligned_def chunk_dispatch_def allocate_zero_def count_ops_all path_builder_def Let_def
          simp del: chunk_alloc_alone.simps)
  next
    case True
    then show ?thesis using al packed dedicated_alone [OF strong, of t sz cp r cp' w' ga] oversized_alone [of ga t sz align cp w r cp' w']
      by (auto simp: allocate_aligned_def chunk_dispatch_def Let_def simp del: chunk_alloc_alone.simps split: if_splits)
  qed
qed


subsection \<open>Completion\<close>

lemma chunk_alloc_stays:
  assumes "chunk_owner_step ga False pc cp w = Some (pc', None, cp', w')" and "chunk_call_rank pc cp w \<noteq> 0"
  shows "pc' = ChunkIdle \<or> chunk_call_rank pc' cp' w' \<noteq> 0"
proof (cases pc)
  case (Opening t sz align q)
  with assms show ?thesis by (cases q) (auto simp: bind_eq_Some_conv packed_new_def simp del: owner_step.simps split: prod.splits if_splits)
next
  case (Dedicating t sz q)
  with assms show ?thesis by (cases q) (auto simp: bind_eq_Some_conv packed_new_def simp del: owner_step.simps split: prod.splits if_splits)
next
  case (Counting ops b)
  with assms show ?thesis by (cases ops) (auto split: prod.splits)
qed (use assms in \<open>auto simp: bind_eq_Some_conv Let_def split: option.splits sum.splits prod.splits if_splits\<close>)

lemma ct_owner_finishes:
  assumes "ct_inv h0 base exact s" and "ct_owner s = ChunkIdle \<or> chunk_call_rank (ct_owner s) (ct_pool s) (ct_world s) \<noteq> 0"
    and "chunk_call_rank (ct_owner s) (ct_pool s) (ct_world s) \<le> n"
  shows "\<exists>r. chunk_alloc_alone ga (Suc n) (ct_owner s) (ct_pool s) (ct_world s) = Some r"
  using assms
proof (induction n arbitrary: s)
  case (Suc n)
  show ?case
  proof (cases "ct_owner s = ChunkIdle")
    case False
    then have nz: "chunk_call_rank (ct_owner s) (ct_pool s) (ct_world s) \<noteq> 0" using Suc.prems(2) by blast
    from Suc.prems(1) obtain pc b cp w s' where
      st: "chunk_owner_step ga False (ct_owner s) (ct_pool s) (ct_world s) = Some (pc, b, cp, w)"
      "ct_inv h0 base exact s'" "ct_owner s' = pc" "ct_pool s' = cp" "ct_world s' = w" by (rule ct_owner_step)
    from chunk_call_rank_step [OF Suc.prems(1) st(1) nz] Suc.prems(3) have le: "chunk_call_rank pc cp w \<le> n" by simp
    show ?thesis
    proof (cases b)
      case None
      with chunk_alloc_stays [OF st(1) [unfolded None] nz] Suc.IH [OF st(2)] st le False show ?thesis by simp
    qed (use st(1) False in simp)
  qed simp
qed auto

lemma ct_call_rank_le: "ct_inv h0 base exact s \<Longrightarrow> chunk_call_rank (ct_owner s) (ct_pool s) (ct_world s) \<le> 60"
proof -
  assume inv: "ct_inv h0 base exact s"
  from ct_inv_parts(3) [OF inv] have ok: "drop_pc_ok (owner_drop (ct_owner s))"
    and ready: "owner_ready exact (ct_size s) (cp_current (ct_pool s)) (ct_owner s)" by (auto simp: ct_handles_ok_def)
  show ?thesis
    using ready chunk_drop_rank_le [OF ok, of "ct_world s"] owner_rank_le le_trans [OF add_left_mono [OF owner_rank_le, of 20], of 60]
    by (cases "ct_owner s") auto
qed


subsection \<open>The start and the end\<close>

lemma ct_of_inv:
  assumes sys: "chunk_sys_inv h0 base exact s" and pool: "c_pool s = Some cp"
  shows "ct_inv h0 base exact (ct_of cp s)"
proof -
  let ?w = "c_world s" and ?B = "mset (c_builders s)"
  have inv: "chunk_inv h0 (Some cp) (c_scrapers s) ?w ?B" using assms by (simp add: chunk_sys_inv_def)
  have held: "held_inv (\<lambda>h w U. pool_life h (Some (cp_pages cp)) (c_scrapers s) w U) h0 {#} (cp_current cp) ?w (chunk_claims ?w ?B)"
    using chunk_invD(1) [OF inv] by (simp add: core_held)
  have "store_inv (conc_life (cp_pages cp) PoolIdle (c_scrapers s) [Dropped]) h0 {#} ?w (claim_refs (cp_current cp) (chunk_claims ?w ?B))"
  proof (rule store_change(1) [OF pool_store.buffer_life_axioms conc_store.buffer_life_axioms held_invD(1) [OF held]])
    fix h1 assume "pool_life h1 (Some (cp_pages cp)) (c_scrapers s) ?w (pool_buffers (live_cells (w_packed ?w)))"
    then show "conc_life (cp_pages cp) PoolIdle (c_scrapers s) [Dropped] h1 ?w (pool_buffers (live_cells (w_packed ?w)))
        \<and> (\<forall>y. y \<in># pool_buffers (live_cells (w_packed ?w)) \<longrightarrow> w_heap ?w y = w_heap ?w y)"
      using conc_thread_new [OF conc_life_start, of h1 "cp_pages cp" "c_scrapers s" ?w _ Dropped] by simp
  qed (simp add: pool_frame_def)
  then have "ct_memory h0 (ct_of cp s)"
    using held_invD(2) [OF held] by (simp add: ct_memory_def ct_of_def drops_inv_def held_inv_def)
  moreover have "ct_charges base (ct_of cp s)" if exact
    using sys that by (simp add: chunk_sys_inv_def chunk_accounts_use ct_charges_def ct_of_def)
  moreover have "ct_handles_ok exact (ct_of cp s)"
    using chunk_invD(2-4) [OF inv] by (simp add: ct_handles_ok_def ct_of_def)
  ultimately show ?thesis by (simp add: ct_inv_def)
qed

lemma ct_run_inv:
  assumes "page_source_contract src" and "chunk_with_source src w = (Inr cp0, w')"
    and "w_packed w = []" and "w_chunks w = []" and "unat (sh_page_size (w_shared w')) \<le> 2 ^ 32"
    and "chunk_program ga exact (chunk_sys_start cp0 w') cs s0" and "c_pool s0 = Some cp"
    and "ct_run ga exact (ct_of cp s0) es s"
  shows "ct_inv (w_heap w) (w_tenants w) exact s"
proof -
  have "chunk_sys_inv (w_heap w) (w_tenants w) exact s0"
    using chunk_client.run_inv [OF assms(6) chunk_sys_start_inv [OF assms(1-5)]] by blast
  from chunk_threads.run_inv [OF assms(8) ct_of_inv [OF this assms(7)]] show ?thesis by blast
qed

lemma finished_tally:
  assumes "set pcs \<subseteq> {DropFinished}"
  shows "tally drop_claim pcs = {#}" "tally drop_block pcs = {#}" "set (map give_of pcs) \<subseteq> {Dropped}"
    "tally (\<lambda>pc. ops_use c (drop_ops pc)) pcs = 0"
  using assms by (induction pcs) auto

lemma ct_done_memory:
  assumes inv: "ct_inv h0 base exact s" and fin: "ct_done s"
  shows "w_heap (ct_world s) = h0" and "w_strong (ct_world s) = 0"
    and "exact \<Longrightarrow> world_use (ct_world s) c = use_value base chunk_pool_stats_default c"
proof -
  note parts = ct_inv_parts [OF inv]
  have pcs: "set (ct_pcs s) \<subseteq> {DropFinished}" using fin by (simp add: ct_done_def)
  note e = finished_tally [OF pcs]
  have cur: "cp_current (ct_pool s) = None" using parts(3) fin by (simp add: ct_handles_ok_def ct_done_def)
  have claims: "chunk_claims (ct_world s) (ct_held s) = {#}" "chunk_charges (ct_world s) (ct_held s) = {#}"
    using fin by (simp_all add: ct_done_def chunk_claims_def chunk_charges_def)
  have own: "own_pc (ct_owner s) = PoolGone" "owner_ops (ct_owner s) = []" and k: "ct_scrapers s = 0" using fin by (simp_all add: ct_done_def)
  have "store_inv (conc_life (cp_pages (ct_pool s)) PoolGone 0 (map give_of (ct_pcs s))) h0 {#} (ct_world s) {#}"
    using parts(1) unfolding ct_memory_def drops_inv_def e(1,2) cur claims own k by (simp add: held_inv_def)
  from conc_life_end [OF conc_store.store_end [OF this] e(3)]
  show "w_heap (ct_world s) = h0" and "w_strong (ct_world s) = 0" by simp_all
  show "world_use (ct_world s) c = use_value base chunk_pool_stats_default c" if exact
    using spec [OF parts(2) [OF that, unfolded ct_charges_def claims own], of c] e(4) [of c] by simp
qed


section \<open>A concrete run\<close>

text \<open>A program has made one chunk; its only handle is dropped on another thread while the pool is still there.\<close>

lemma ct_demo:
  obtains s0 cp s where "chunk_program first_fit_alloc exact (chunk_sys_start chunk_demo_pool chunk_demo) [ChunkAllocFrom demo_tenant [1, 2, 3]] s0"
    and "c_pool s0 = Some cp" and "ct_run first_fit_alloc exact (ct_of cp s0) [DropChunkHandle 0] s" and "length (ct_threads s) = 1"
    and "chunk_as_slice 0 (ct_world (ct_of cp s0)) = Some [1, 2, 3]" and "get_chunk 0 (ct_world (ct_of cp s0)) \<noteq> None"
proof -
  from chunk_demo_chunk chunk_alloc_from_result [OF chunk_demo_inv(1), of "[1, 2, 3]" first_fit_alloc demo_tenant]
  obtain cp w where al: "chunk_alloc_from first_fit_alloc demo_tenant [1, 2, 3] chunk_demo_pool chunk_demo = Some (Inr 0, cp, w)"
    "chunk_as_slice 0 w = Some [1, 2, 3]" "chunk_ref_count 0 w = Some 1" by auto
  then obtain i where g: "get_chunk 0 w = Some (i, 1)" by (auto simp: chunk_ref_count_def bind_eq_Some_conv)
  let ?init = "(chunk_sys_start chunk_demo_pool chunk_demo)\<lparr>c_pool := Some cp, c_world := w\<rparr>"
  have r0: "chunk_program first_fit_alloc exact (chunk_sys_start chunk_demo_pool chunk_demo) [ChunkAllocFrom demo_tenant [1, 2, 3]] ?init"
    by (rule run_single) (use al(1) in \<open>simp_all add: chunk_sys_start_def after_chunk_alloc_def isize_max_def\<close>)
  let ?s = "(ct_of cp ?init)\<lparr>ct_world := w\<lparr>w_chunks := (w_chunks w)[0 := (i, 0)]\<rparr>, ct_threads := [inner_drop_pc i]\<rparr>"
  have "ct_run first_fit_alloc exact (ct_of cp ?init) [DropChunkHandle 0] ?s"
    by (rule run_single) (use g in \<open>simp_all add: ct_of_def\<close>)
  with r0 al g show thesis by (intro that [of ?init cp ?s]) (simp_all add: ct_of_def)
qed

lemmas ct_demo_start = chunk_demo_facts chunk_demo_rest

section \<open>Properties\<close>

text \<open>C13: Memory safety of the chunk layer under concurrency. Builders and chunks of a program over a chunk pool are spread
  over threads that write, seal, read, clone and drop them, while the owner allocates chunks of any size and
  alignment, retires and opens pages, and drops the pool; each step is a single access to shared memory (or the
  release of the shared part by its last owner), and any interleaving is possible. Whatever has happened, the next step of every thread, of the owner and of every client is
  defined: no access to memory that is not live or outside a block, no block released twice, and no use of the shared
  part after its release.\<close>

theorem chunk_threads_safe:
  assumes "page_source_contract src" and "chunk_with_source src w = (Inr cp0, w')"
    and "w_packed w = []" and "w_chunks w = []" and "unat (sh_page_size (w_shared w')) \<le> 2 ^ 32"
    and "chunk_program ga False (chunk_sys_start cp0 w') cs s0" and "c_pool s0 = Some cp"
    and "ct_run ga False (ct_of cp s0) es s" and "ct_allowed False e s"
  shows "\<exists>s'. ct_step ga e s = Some s'"
  using chunk_threads.call_defined [OF ct_run_inv [OF assms(1-8)] assms(9)] by blast

theorem chunk_threads_safe_witness:
  "\<exists>s0 cp s s'. ct_run first_fit_alloc False (ct_of cp s0) [DropChunkHandle 0] s
     \<and> ct_step first_fit_alloc (ChunkThreadRuns 0 True) s = Some s'"
proof -
  obtain s0 cp s where r: "chunk_program first_fit_alloc False (chunk_sys_start chunk_demo_pool chunk_demo) [ChunkAllocFrom demo_tenant [1, 2, 3]] s0"
    "c_pool s0 = Some cp" "ct_run first_fit_alloc False (ct_of cp s0) [DropChunkHandle 0] s" "length (ct_threads s) = 1" by (rule ct_demo)
  have "ct_allowed False (ChunkThreadRuns 0 True) s" using r(4) by simp
  from chunk_threads_safe [OF ct_demo_start r(1-3) this] r(3) show ?thesis by blast
qed

text \<open>C14: Nothing leaks from the chunk layer under concurrency, and the end can always be reached. When the pool, every
  builder, every chunk and every scraper's clone are gone and every thread has finished, memory is what it was before
  the pool and, if no request reached 4 GiB, each tenant's bytes and chunks in use are what they were and the pool's
  are zero, whatever the interleaving; and from every state that can occur, some continuation leads to such an end.\<close>

theorem chunk_threads_leak_free:
  assumes "page_source_contract src" and "chunk_with_source src w = (Inr cp0, w')"
    and "w_packed w = []" and "w_chunks w = []" and "unat (sh_page_size (w_shared w')) \<le> 2 ^ 32"
    and "chunk_program ga exact (chunk_sys_start cp0 w') cs s0" and "c_pool s0 = Some cp"
    and "ct_run ga exact (ct_of cp s0) es s"
  shows "(\<exists>es' s'. ct_run ga exact s es' s' \<and> ct_done s')
    \<and> (ct_done s \<longrightarrow> w_heap (ct_world s) = w_heap w \<and> w_strong (ct_world s) = 0
        \<and> (exact \<longrightarrow> cs_chunks_in_use (w_cstats (ct_world s)) = 0 \<and> cs_oversized_bytes_in_use (w_cstats (ct_world s)) = 0
             \<and> (\<forall>t. t_bytes_in_use (w_tenants (ct_world s) t) = t_bytes_in_use (w_tenants w t)
                  \<and> t_chunks_in_use (w_tenants (ct_world s) t) = t_chunks_in_use (w_tenants w t))))"
proof -
  note inv = ct_run_inv [OF assms]
  note use = ct_done_memory(3) [OF inv]
  have "cs_chunks_in_use (w_cstats (ct_world s)) = 0 \<and> cs_oversized_bytes_in_use (w_cstats (ct_world s)) = 0
      \<and> (\<forall>t. t_bytes_in_use (w_tenants (ct_world s) t) = t_bytes_in_use (w_tenants w t)
          \<and> t_chunks_in_use (w_tenants (ct_world s) t) = t_chunks_in_use (w_tenants w t))" if "ct_done s" exact
    using use [OF that, of PoolChunks] use [OF that, of PoolOversized] use [OF that, of "TenantBytes t" for t]
      use [OF that, of "TenantChunks t" for t] by (simp add: chunk_pool_stats_default_def)
  with ct_can_end [OF inv] ct_done_memory(1,2) [OF inv] show ?thesis by blast
qed

theorem chunk_threads_leak_free_witness:
  "\<exists>s0 cp es s. ct_run first_fit_alloc True (ct_of cp s0) (DropChunkHandle 0 # es) s \<and> ct_done s
     \<and> w_heap (ct_world s) = Map.empty \<and> cs_chunks_in_use (w_cstats (ct_world s)) = 0"
proof -
  obtain s0 cp s where r: "chunk_program first_fit_alloc True (chunk_sys_start chunk_demo_pool chunk_demo) [ChunkAllocFrom demo_tenant [1, 2, 3]] s0"
    "c_pool s0 = Some cp" "ct_run first_fit_alloc True (ct_of cp s0) [DropChunkHandle 0] s" by (rule ct_demo)
  from chunk_threads_leak_free [OF ct_demo_start r] obtain es s' where s': "ct_run first_fit_alloc True s es s'" "ct_done s'" by blast
  from run_append [OF r(3) s'(1)] have run: "ct_run first_fit_alloc True (ct_of cp s0) (DropChunkHandle 0 # es) s'" by simp
  from chunk_threads_leak_free [OF ct_demo_start r(1,2) run] s'(2) have "w_heap (ct_world s') = Map.empty"
    "cs_chunks_in_use (w_cstats (ct_world s')) = 0" by (simp_all add: chunk_start_def)
  with run s'(2) show ?thesis by blast
qed

text \<open>C15: A sealed chunk is immutable across threads: at any two moments at which it has a handle it shows the same bytes,
  although other threads write to the same page, recycle buffers and end the pool in between.\<close>

theorem chunk_threads_immutable:
  assumes "page_source_contract src" and "chunk_with_source src w = (Inr cp0, w')"
    and "w_packed w = []" and "w_chunks w = []" and "unat (sh_page_size (w_shared w')) \<le> 2 ^ 32"
    and "chunk_program ga False (chunk_sys_start cp0 w') cs s0" and "c_pool s0 = Some cp"
    and "ct_run ga False (ct_of cp s0) es s" and "ct_run ga False s es' s'"
    and "get_chunk c (ct_world s) \<noteq> None" and "get_chunk c (ct_world s') \<noteq> None"
  shows "chunk_as_slice c (ct_world s') = chunk_as_slice c (ct_world s) \<and> chunk_len c (ct_world s') = chunk_len c (ct_world s)
    \<and> chunk_capacity c (ct_world s') = chunk_capacity c (ct_world s)"
proof -
  have "chunks_stable (ct_world s) (ct_world s')"
    using chunk_threads.run_inv [OF assms(9) ct_run_inv [OF assms(1-8)]] by blast
  moreover have "c < length (w_chunks (ct_world s))" using assms(10) by (auto simp: get_chunk_Some)
  ultimately show ?thesis using assms(11) by (auto simp: chunks_stable_def)
qed

theorem chunk_threads_immutable_witness:
  "\<exists>s0 cp s. ct_run first_fit_alloc False (ct_of cp s0) [StartChunkPoolDrop] s \<and> chunk_as_slice 0 (ct_world s) = Some [1, 2, 3]"
proof -
  obtain s0 cp where r: "chunk_program first_fit_alloc False (chunk_sys_start chunk_demo_pool chunk_demo) [ChunkAllocFrom demo_tenant [1, 2, 3]] s0"
    "c_pool s0 = Some cp" "chunk_as_slice 0 (ct_world (ct_of cp s0)) = Some [1, 2, 3]" "get_chunk 0 (ct_world (ct_of cp s0)) \<noteq> None"
    by (rule ct_demo)
  have run: "ct_run first_fit_alloc False (ct_of cp s0) [StartChunkPoolDrop] ((ct_of cp s0)\<lparr>ct_owner := ClosingPages PoolWalk\<rparr>)"
    by (rule run_single) (simp_all add: ct_of_def)
  from chunk_threads_immutable [OF ct_demo_start r(1,2) run_none run r(4)] r run show ?thesis by fastforce
qed

text \<open>C16: No two live handles overlap, whatever the interleaving: every builder, every live chunk and the builder that the
  owner is about to hand out own byte ranges inside live blocks, and any two of these ranges lie in blocks at different
  addresses or do not meet, also while an allocation, the retirement of a page or a drop is under way.\<close>

theorem chunk_threads_disjoint:
  assumes "page_source_contract src" and "chunk_with_source src w = (Inr cp0, w')"
    and "w_packed w = []" and "w_chunks w = []" and "unat (sh_page_size (w_shared w')) \<le> 2 ^ 32"
    and "chunk_program ga False (chunk_sys_start cp0 w') cs s0" and "c_pool s0 = Some cp"
    and "ct_run ga False (ct_of cp s0) es s"
  shows "disjoint_in_memory (ct_world s) (chunk_claims (ct_world s) (ct_held s))"
proof -
  have "drops_inv (w_heap w) (cp_pages (ct_pool s)) (own_pc (ct_owner s)) (ct_scrapers s) (cp_current (ct_pool s)) (ct_world s)
      (chunk_claims (ct_world s) (ct_held s)) (ct_pcs s)"
    using ct_run_inv [OF assms] by (simp add: ct_inv_def ct_memory_def)
  from conc_store.held_disjoint [OF this [unfolded drops_inv_def]] show ?thesis by (rule disjoint_in_memory_sub)
qed

theorem chunk_threads_disjoint_witness:
  "\<exists>s0 cp s. ct_run first_fit_alloc False (ct_of cp s0) [DropChunkHandle 0] s
     \<and> disjoint_in_memory (ct_world s) (chunk_claims (ct_world s) (ct_held s))"
proof -
  obtain s0 cp s where r: "chunk_program first_fit_alloc False (chunk_sys_start chunk_demo_pool chunk_demo) [ChunkAllocFrom demo_tenant [1, 2, 3]] s0"
    "c_pool s0 = Some cp" "ct_run first_fit_alloc False (ct_of cp s0) [DropChunkHandle 0] s" by (rule ct_demo)
  from chunk_threads_disjoint [OF ct_demo_start r] r(3) show ?thesis by blast
qed

text \<open>What the counters mean while threads run. In every state reachable with requests below 4 GiB, each in-use counter,
  of a tenant or of the pool, together with the atomic operations on it that calls under way have still to make, is
  the charge of the live builders and chunks on top of what it was; so with no call under way it is exact.\<close>

theorem chunk_threads_counters:
  assumes "page_source_contract src" and "chunk_with_source src w = (Inr cp0, w')"
    and "w_packed w = []" and "w_chunks w = []" and "unat (sh_page_size (w_shared w')) \<le> 2 ^ 32"
    and "chunk_program ga True (chunk_sys_start cp0 w') cs s0" and "c_pool s0 = Some cp"
    and "ct_run ga True (ct_of cp s0) es s"
  shows "world_use (ct_world s) c + ops_use c (owner_ops (ct_owner s) @ concat (map drop_ops (ct_pcs s)))
      = use_value (w_tenants w) chunk_pool_stats_default c + charges_use c (chunk_charges (ct_world s) (ct_held s))
    \<and> (ct_owner s \<in> {ChunkIdle, ChunkPoolGone} \<and> set (ct_threads s) \<subseteq> {DropFinished} \<longrightarrow>
        chunk_accounts (w_tenants w) (ct_world s) (mset (ct_builders s)))"
proof -
  have ch: "\<forall>c. world_use (ct_world s) c + ops_use c (owner_ops (ct_owner s)) + tally (\<lambda>pc. ops_use c (drop_ops pc)) (ct_pcs s)
      = use_value (w_tenants w) chunk_pool_stats_default c + charges_use c (chunk_charges (ct_world s) (ct_held s))"
    using ct_run_inv [OF assms] by (simp add: ct_inv_def ct_charges_def)
  have "tally (op_use c) (concat (map drop_ops pcs)) = tally (\<lambda>pc. ops_use c (drop_ops pc)) pcs" for c pcs
    by (induction pcs) simp_all
  moreover have "chunk_accounts (w_tenants w) (ct_world s) (mset (ct_builders s))"
    if "ct_owner s \<in> {ChunkIdle, ChunkPoolGone}" "set (ct_threads s) \<subseteq> {DropFinished}"
    using ch that finished_tally(4) [OF that(2)] by (auto simp: chunk_accounts_use)
  ultimately show ?thesis using spec [OF ch, of c] by (simp add: add.assoc)
qed

theorem chunk_threads_counters_witness:
  "\<exists>s0 cp s. ct_run first_fit_alloc True (ct_of cp s0) [DropChunkHandle 0] s
     \<and> cs_chunks_in_use (w_cstats (ct_world s)) + ops_use PoolChunks (owner_ops (ct_owner s) @ concat (map drop_ops (ct_pcs s)))
       = charges_use PoolChunks (chunk_charges (ct_world s) (ct_held s))"
proof -
  obtain s0 cp s where r: "chunk_program first_fit_alloc True (chunk_sys_start chunk_demo_pool chunk_demo) [ChunkAllocFrom demo_tenant [1, 2, 3]] s0"
    "c_pool s0 = Some cp" "ct_run first_fit_alloc True (ct_of cp s0) [DropChunkHandle 0] s" by (rule ct_demo)
  from chunk_threads_counters [OF ct_demo_start r, of PoolChunks] r(3) show ?thesis
    by (intro exI [of _ s0] exI [of _ cp] exI [of _ s]) (simp add: chunk_pool_stats_default_def)
qed

text \<open>C20: No call of the chunk layer can be held up. From wherever a thread stands in a drop, in any state that can occur,
  twelve steps without interference complete it (the release of the shared part, when no one else has a reference to
  it any more, counts as one step); and wherever the owner stands in an allocation, also in the loop of the packed
  path or in the drop of the page it retires, 61 steps of its own complete it, with a builder or with a panic.\<close>

theorem chunk_threads_obstruction_free:
  assumes "page_source_contract src" and "chunk_with_source src w = (Inr cp0, w')"
    and "w_packed w = []" and "w_chunks w = []" and "unat (sh_page_size (w_shared w')) \<le> 2 ^ 32"
    and "chunk_program ga False (chunk_sys_start cp0 w') cs s0" and "c_pool s0 = Some cp"
    and "ct_run ga False (ct_of cp s0) es s"
  shows "(i < length (ct_threads s) \<longrightarrow> (\<exists>v. chunk_drop_alone 12 (ct_threads s ! i) (ct_world s) = Some (DropFinished, v)))
    \<and> (chunk_call_rank (ct_owner s) (ct_pool s) (ct_world s) \<noteq> 0 \<longrightarrow>
        (\<exists>r. chunk_alloc_alone ga 61 (ct_owner s) (ct_pool s) (ct_world s) = Some r))"
proof -
  note inv = ct_run_inv [OF assms]
  have "\<exists>v. chunk_drop_alone 12 (ct_threads s ! i) (ct_world s) = Some (DropFinished, v)" if "i < length (ct_threads s)"
    using ct_thread_finishes [OF inv that chunk_drop_rank_le, of ga] ct_inv_parts(3) [OF inv] that by (auto simp: ct_handles_ok_def)
  moreover have "\<exists>r. chunk_alloc_alone ga (Suc 60) (ct_owner s) (ct_pool s) (ct_world s) = Some r"
    if "chunk_call_rank (ct_owner s) (ct_pool s) (ct_world s) \<noteq> 0"
    using ct_owner_finishes [OF inv disjI2 [OF that] ct_call_rank_le [OF inv]] .
  ultimately show ?thesis by simp
qed

theorem chunk_threads_obstruction_free_witness:
  "\<exists>s0 cp s v. ct_run first_fit_alloc False (ct_of cp s0) [DropChunkHandle 0] s
     \<and> chunk_drop_alone 12 (ct_threads s ! 0) (ct_world s) = Some (DropFinished, v)"
proof -
  obtain s0 cp s where r: "chunk_program first_fit_alloc False (chunk_sys_start chunk_demo_pool chunk_demo) [ChunkAllocFrom demo_tenant [1, 2, 3]] s0"
    "c_pool s0 = Some cp" "ct_run first_fit_alloc False (ct_of cp s0) [DropChunkHandle 0] s" "length (ct_threads s) = 1" by (rule ct_demo)
  from chunk_threads_obstruction_free [OF ct_demo_start r(1-3), of 0] r(3,4) show ?thesis by auto
qed

text \<open>C21: The steps of the machine compute the calls of the sequential model. Run without interference, the drop of a chunk's
  last handle and the drop of a builder end where \<open>chunk_inner_drop\<close> and \<open>chunk_builder_drop\<close> do, undefined behaviour
  included; and a call of \<open>allocate_aligned\<close> on a pool that satisfies the invariant, on whichever of its paths, comes
  back with the builder or the panic, the pool and the memory of the sequential call.\<close>

theorem chunk_threads_sequential:
  assumes "chunk_inv h0 (Some cp) k w B" and "allocate_aligned ga t sz align cp w = Some (r, cp', w')"
  shows "(\<exists>n. chunk_alloc_alone ga n (chunk_dispatch t sz align cp w) cp w = Some (case r of Inl e \<Rightarrow> None | Inr b \<Rightarrow> Some b, cp', w'))
    \<and> chunk_drop_alone 12 (inner_drop_pc i) v = map_option (Pair DropFinished) (chunk_inner_drop i v)
    \<and> chunk_drop_alone 12 (builder_drop_pc b) v = map_option (Pair DropFinished) (chunk_builder_drop b v)"
proof (intro conjI)
  show "\<exists>n. chunk_alloc_alone ga n (chunk_dispatch t sz align cp w) cp w = Some (case r of Inl e \<Rightarrow> None | Inr b \<Rightarrow> Some b, cp', w')"
    by (rule chunk_allocate_alone_eq [OF assms])
  show "chunk_drop_alone 12 (inner_drop_pc i) v = map_option (Pair DropFinished) (chunk_inner_drop i v)"
    by (simp add: inner_drop_pc_def chunk_inner_drop_def chunk_drop_alone_uncount)
  show "chunk_drop_alone 12 (builder_drop_pc b) v = map_option (Pair DropFinished) (chunk_builder_drop b v)"
    using chunk_drop_alone_field [of 4 "cb_packed b" v]
    by (cases "cb_tenant b") (simp_all add: builder_drop_pc_def chunk_builder_drop_def chunk_drop_alone_uncount)
qed

theorem chunk_threads_sequential_witness:
  "\<exists>n b cp w. chunk_alloc_alone first_fit_alloc n (chunk_dispatch demo_tenant 3 16 chunk_demo_pool chunk_demo) chunk_demo_pool chunk_demo
       = Some (Some b, cp, w) \<and> allocate_aligned first_fit_alloc demo_tenant 3 16 chunk_demo_pool chunk_demo = Some (Inr b, cp, w)
     \<and> chunk_drop_alone 12 (builder_drop_pc b) w = map_option (Pair DropFinished) (chunk_builder_drop b w)"
proof -
  from chunk_demo_aligned obtain b cp w where
    al: "allocate_aligned first_fit_alloc demo_tenant 3 16 chunk_demo_pool chunk_demo = Some (Inr b, cp, w)" by blast
  from chunk_threads_sequential [OF chunk_demo_inv(1) al, where b = b and v = w] al show ?thesis by auto
qed

end
