(* ===== verification/Reports.thy ===== *)
theory Reports
  imports Page_System Chunk_System
begin

text \<open>
  What the crate shows its users: the accessors of the counters and slices, the messages of the error types, and the
  \<open>Debug\<close> texts of pools, builders, pages and chunks. The text of \<open>f.debug_struct(...)\<close> is given by a tree of
  numbers and structs, printed the way the standard library does it on one line; a reader for that format
  shows that nothing is lost in print.
\<close>

section \<open>Accessors\<close>

definition tenant_bytes_in_use :: "tenant_stats \<Rightarrow> u64" where
  "tenant_bytes_in_use s = t_bytes_in_use s"

definition tenant_pages_in_use :: "tenant_stats \<Rightarrow> u64" where
  "tenant_pages_in_use s = t_pages_in_use s"

definition tenant_total_pages_allocated :: "tenant_stats \<Rightarrow> u64" where
  "tenant_total_pages_allocated s = t_total_pages_allocated s"

definition tenant_peak_bytes_in_use :: "tenant_stats \<Rightarrow> u64" where
  "tenant_peak_bytes_in_use s = t_peak_bytes_in_use s"

definition tenant_chunks_in_use :: "tenant_stats \<Rightarrow> u64" where
  "tenant_chunks_in_use s = t_chunks_in_use s"

definition tenant_total_chunks_allocated :: "tenant_stats \<Rightarrow> u64" where
  "tenant_total_chunks_allocated s = t_total_chunks_allocated s"

definition pool_allocations_from_heap :: "pool_stats \<Rightarrow> u64" where
  "pool_allocations_from_heap s = ps_allocations_from_heap s"

definition pool_pages_in_use :: "pool_stats \<Rightarrow> u64" where
  "pool_pages_in_use s = ps_pages_in_use s"

definition pool_free_pages :: "pool_stats \<Rightarrow> u64" where
  "pool_free_pages s = ps_free_pages s"

definition pool_return_queue_drains :: "pool_stats \<Rightarrow> u64" where
  "pool_return_queue_drains s = ps_return_queue_drains s"

definition pool_prewarmed_pages :: "pool_stats \<Rightarrow> u64" where
  "pool_prewarmed_pages s = ps_prewarmed_pages s"

definition stats_total_chunks :: "chunk_pool_stats \<Rightarrow> u64" where
  "stats_total_chunks s = cs_total_chunks s"

definition stats_chunks_in_use :: "chunk_pool_stats \<Rightarrow> u64" where
  "stats_chunks_in_use s = cs_chunks_in_use s"

definition stats_packed_allocations :: "chunk_pool_stats \<Rightarrow> u64" where
  "stats_packed_allocations s = cs_packed_allocations s"

definition stats_dedicated_allocations :: "chunk_pool_stats \<Rightarrow> u64" where
  "stats_dedicated_allocations s = cs_dedicated_allocations s"

definition stats_oversized_allocations :: "chunk_pool_stats \<Rightarrow> u64" where
  "stats_oversized_allocations s = cs_oversized_allocations s"

definition stats_oversized_bytes_in_use :: "chunk_pool_stats \<Rightarrow> u64" where
  "stats_oversized_bytes_in_use s = cs_oversized_bytes_in_use s"

text \<open>\<open>PagePool::stats\<close> and \<open>PoolShared::stats\<close>, through the live shared part; \<open>ChunkPool::stats\<close>,
  \<open>ChunkPool::page_stats\<close>, \<open>ChunkPool::page_size\<close> and \<open>ChunkPool::pack_threshold\<close>.\<close>

definition page_pool_stats :: "'z pool_world_scheme \<Rightarrow> pool_stats option" where
  "page_pool_stats w = do { sh \<leftarrow> get_shared w; Some (sh_stats sh) }"

definition chunk_pool_stats_of :: "chunk_world \<Rightarrow> chunk_pool_stats" where
  "chunk_pool_stats_of w = w_cstats w"

definition chunk_pool_page_stats :: "chunk_world \<Rightarrow> pool_stats option" where
  "chunk_pool_page_stats w = page_pool_stats w"

definition chunk_pool_page_size :: "chunk_world \<Rightarrow> usize" where
  "chunk_pool_page_size w = pool_page_size w"

definition pack_threshold :: "chunk_pool \<Rightarrow> usize" where
  "pack_threshold cp = cp_threshold cp"

text \<open>\<open>PageBuilder::len\<close>, and the \<open>Deref\<close> and \<open>AsRef\<close> impls through which pages and chunks are read as slices.\<close>

definition page_builder_len :: "page_builder \<Rightarrow> usize" where
  "page_builder_len b = pb_len b"

definition page_deref :: "page \<Rightarrow> page_world \<Rightarrow> (panic + u8 list) option" where
  "page_deref p w = page_as_slice p w"

definition page_as_ref :: "page \<Rightarrow> page_world \<Rightarrow> (panic + u8 list) option" where
  "page_as_ref p w = page_as_slice p w"

definition chunk_deref :: "chunk \<Rightarrow> chunk_world \<Rightarrow> u8 list option" where
  "chunk_deref c w = chunk_as_slice c w"

definition chunk_as_ref :: "chunk \<Rightarrow> chunk_world \<Rightarrow> u8 list option" where
  "chunk_as_ref c w = chunk_as_slice c w"

lemmas deref_defs [simp] = page_deref_def chunk_deref_def

lemmas accessor_defs = tenant_bytes_in_use_def tenant_pages_in_use_def tenant_total_pages_allocated_def
  tenant_peak_bytes_in_use_def tenant_chunks_in_use_def tenant_total_chunks_allocated_def
  pool_allocations_from_heap_def pool_pages_in_use_def pool_free_pages_def pool_return_queue_drains_def
  pool_prewarmed_pages_def stats_total_chunks_def stats_chunks_in_use_def stats_packed_allocations_def
  stats_dedicated_allocations_def stats_oversized_allocations_def stats_oversized_bytes_in_use_def
  page_pool_stats_def chunk_pool_stats_of_def chunk_pool_page_stats_def chunk_pool_page_size_def pack_threshold_def

section \<open>Printing\<close>

text \<open>Integers in decimal.\<close>

definition digit :: "nat \<Rightarrow> char" where
  "digit d = char_of (48 + d)"

fun decimal :: "nat \<Rightarrow> string" where
  "decimal n = (if n < 10 then [digit n] else decimal (n div 10) @ [digit (n mod 10)])"

declare decimal.simps [simp del]

text \<open>\<open>f.debug_struct(name).field(...)...finish()\<close>, without the alternate flag.\<close>

datatype debug_value = DebugInt nat | DebugStruct string "(string \<times> debug_value) list"

fun join :: "string \<Rightarrow> string list \<Rightarrow> string" where
  "join sep [] = []"
| "join sep [s] = s"
| "join sep (s # t # ss) = s @ sep @ join sep (t # ss)"

fun debug_text :: "debug_value \<Rightarrow> string" where
  "debug_text (DebugInt n) = decimal n"
| "debug_text (DebugStruct name fs) =
     (if fs = [] then name
      else name @ '' { '' @ join '', '' (map (\<lambda>(k, v). k @ '': '' @ debug_text v) fs) @ '' }'')"

abbreviation debug_uint :: "'a::len word \<Rightarrow> debug_value" where
  "debug_uint x \<equiv> DebugInt (unat x)"

subsection \<open>Display\<close>

definition page_full_display :: "page_full \<Rightarrow> string" where
  "page_full_display e = ''page full: attempted to append '' @ decimal (unat (pf_attempted e))
     @ '' bytes to page with '' @ decimal (unat (pf_len e)) @ ''/'' @ decimal (unat (pf_capacity e)) @ '' used''"

definition chunk_full_display :: "chunk_full \<Rightarrow> string" where
  "chunk_full_display e = ''chunk full: attempted to append '' @ decimal (unat (cf_attempted e))
     @ '' bytes to chunk with '' @ decimal (unat (cf_len e)) @ ''/'' @ decimal (unat (cf_capacity e)) @ '' used''"

definition tenant_id_display :: "tenant_id \<Rightarrow> string" where
  "tenant_id_display i = as_str i"

subsection \<open>Debug\<close>

definition page_full_debug :: "page_full \<Rightarrow> debug_value" where
  "page_full_debug e = DebugStruct ''PageFull''
     [(''capacity'', debug_uint (pf_capacity e)), (''len'', debug_uint (pf_len e)), (''attempted'', debug_uint (pf_attempted e))]"

definition chunk_full_debug :: "chunk_full \<Rightarrow> debug_value" where
  "chunk_full_debug e = DebugStruct ''ChunkFull''
     [(''capacity'', debug_uint (cf_capacity e)), (''len'', debug_uint (cf_len e)), (''attempted'', debug_uint (cf_attempted e))]"

definition tenant_stats_debug :: "tenant_stats \<Rightarrow> debug_value" where
  "tenant_stats_debug s = DebugStruct ''TenantStats''
     [(''bytes_in_use'', debug_uint (tenant_bytes_in_use s)),
      (''pages_in_use'', debug_uint (tenant_pages_in_use s)),
      (''total_pages_allocated'', debug_uint (tenant_total_pages_allocated s)),
      (''peak_bytes_in_use'', debug_uint (tenant_peak_bytes_in_use s)),
      (''chunks_in_use'', debug_uint (tenant_chunks_in_use s)),
      (''total_chunks_allocated'', debug_uint (tenant_total_chunks_allocated s))]"

definition pool_stats_debug :: "pool_stats \<Rightarrow> debug_value" where
  "pool_stats_debug s = DebugStruct ''PoolStats''
     [(''allocations_from_heap'', debug_uint (pool_allocations_from_heap s)),
      (''pages_in_use'', debug_uint (pool_pages_in_use s)),
      (''free_pages'', debug_uint (pool_free_pages s)),
      (''return_queue_drains'', debug_uint (pool_return_queue_drains s)),
      (''prewarmed_pages'', debug_uint (pool_prewarmed_pages s))]"

definition pool_shared_debug :: "pool_shared \<Rightarrow> debug_value" where
  "pool_shared_debug sh = DebugStruct ''PoolShared''
     [(''page_size'', debug_uint (sh_page_size sh)), (''stats'', pool_stats_debug (sh_stats sh))]"

definition page_pool_debug :: "page_pool \<Rightarrow> 'z pool_world_scheme \<Rightarrow> debug_value option" where
  "page_pool_debug pp w = do {
     sh \<leftarrow> get_shared w;
     free \<leftarrow> local_free_pages pp w;
     Some (DebugStruct ''PagePool'' [(''shared'', pool_shared_debug sh), (''local_free_pages'', debug_uint free)])
   }"

definition page_builder_debug :: "page_builder \<Rightarrow> 'z pool_world_scheme \<Rightarrow> debug_value option" where
  "page_builder_debug b w = do {
     cap \<leftarrow> page_builder_capacity w;
     Some (DebugStruct ''PageBuilder'' [(''capacity'', debug_uint cap), (''len'', debug_uint (pb_len b))])
   }"

definition page_debug :: "page \<Rightarrow> page_world \<Rightarrow> debug_value option" where
  "page_debug p w = do {
     len \<leftarrow> page_len p w;
     cap \<leftarrow> page_capacity p w;
     refs \<leftarrow> page_ref_count p w;
     Some (DebugStruct ''Page'' [(''len'', debug_uint len), (''capacity'', debug_uint cap), (''ref_count'', DebugInt refs)])
   }"

definition chunk_pool_stats_debug :: "chunk_pool_stats \<Rightarrow> debug_value" where
  "chunk_pool_stats_debug s = DebugStruct ''ChunkPoolStats''
     [(''total_chunks'', debug_uint (stats_total_chunks s)),
      (''chunks_in_use'', debug_uint (stats_chunks_in_use s)),
      (''packed_allocations'', debug_uint (stats_packed_allocations s)),
      (''dedicated_allocations'', debug_uint (stats_dedicated_allocations s)),
      (''oversized_allocations'', debug_uint (stats_oversized_allocations s)),
      (''oversized_bytes_in_use'', debug_uint (stats_oversized_bytes_in_use s))]"

definition chunk_pool_debug :: "chunk_pool \<Rightarrow> chunk_world \<Rightarrow> debug_value option" where
  "chunk_pool_debug cp w = do {
     ps \<leftarrow> chunk_pool_page_stats w;
     Some (DebugStruct ''ChunkPool''
       [(''page_size'', debug_uint (chunk_pool_page_size w)), (''threshold'', debug_uint (cp_threshold cp)),
        (''chunk_stats'', chunk_pool_stats_debug (chunk_pool_stats_of w)), (''page_stats'', pool_stats_debug ps)])
   }"

definition chunk_builder_debug :: "chunk_builder \<Rightarrow> debug_value" where
  "chunk_builder_debug b = DebugStruct ''ChunkBuilder''
     [(''capacity'', debug_uint (chunk_builder_capacity b)), (''len'', debug_uint (cb_len b))]"

definition chunk_debug :: "chunk \<Rightarrow> chunk_world \<Rightarrow> debug_value option" where
  "chunk_debug c w = do {
     len \<leftarrow> chunk_len c w;
     cap \<leftarrow> chunk_capacity c w;
     refs \<leftarrow> chunk_ref_count c w;
     Some (DebugStruct ''Chunk'' [(''len'', debug_uint len), (''capacity'', debug_uint cap), (''ref_count'', DebugInt refs)])
   }"

lemmas debug_defs = page_full_debug_def chunk_full_debug_def tenant_stats_debug_def pool_stats_debug_def pool_shared_debug_def
  chunk_pool_stats_debug_def chunk_builder_debug_def

section \<open>Reading back\<close>

definition is_digit :: "char \<Rightarrow> bool" where
  "is_digit c \<longleftrightarrow> 48 \<le> (of_char c :: nat) \<and> (of_char c :: nat) \<le> 57"

definition undecimal :: "string \<Rightarrow> nat" where
  "undecimal s = foldl (\<lambda>n c. 10 * n + (of_char c - 48)) 0 s"

definition is_name :: "char \<Rightarrow> bool" where
  "is_name c \<longleftrightarrow> c \<notin> set '' :,{}''"

definition strip :: "string \<Rightarrow> string \<Rightarrow> string option" where
  "strip p s = (if take (length p) s = p then Some (drop (length p) s) else None)"

text \<open>\<open>parse_value\<close> and \<open>parse_fields\<close> read a value or the fields of a struct off the front of a text. The
  first argument bounds the nesting; the length of the text is always enough.\<close>

fun parse_value :: "nat \<Rightarrow> string \<Rightarrow> (debug_value \<times> string) option"
  and parse_fields :: "nat \<Rightarrow> string \<Rightarrow> ((string \<times> debug_value) list \<times> string) option" where
  "parse_value 0 s = None"
| "parse_value (Suc n) s =
     (if s \<noteq> [] \<and> is_digit (hd s) then Some (DebugInt (undecimal (takeWhile is_digit s)), dropWhile is_digit s)
      else case strip '' { '' (dropWhile is_name s) of
             None \<Rightarrow> Some (DebugStruct (takeWhile is_name s) [], dropWhile is_name s)
           | Some s' \<Rightarrow> map_option (apfst (DebugStruct (takeWhile is_name s))) (parse_fields n s'))"
| "parse_fields 0 s = None"
| "parse_fields (Suc n) s = do {
     r \<leftarrow> strip '': '' (dropWhile is_name s);
     (v, r) \<leftarrow> parse_value n r;
     (case strip '', '' r of
        Some r' \<Rightarrow> map_option (apfst ((#) (takeWhile is_name s, v))) (parse_fields n r')
      | None \<Rightarrow> map_option (Pair [(takeWhile is_name s, v)]) (strip '' }'' r))
   }"

definition read_debug :: "string \<Rightarrow> debug_value option" where
  "read_debug s = (case parse_value (length s) s of Some (v, []) \<Rightarrow> Some v | _ \<Rightarrow> None)"

text \<open>Names as the crate uses them.\<close>

definition name_ok :: "string \<Rightarrow> bool" where
  "name_ok s \<longleftrightarrow> s \<noteq> [] \<and> list_all is_name s \<and> \<not> is_digit (hd s)"

fun debug_ok :: "debug_value \<Rightarrow> bool" where
  "debug_ok (DebugInt n) = True"
| "debug_ok (DebugStruct name fs) = (name_ok name \<and> list_all (\<lambda>(k, v). name_ok k \<and> debug_ok v) fs)"


section \<open>Lemmas\<close>

lemma digit_char [simp]: "d < 10 \<Longrightarrow> of_char (digit d) = 48 + d"
  by (simp add: digit_def of_char_of)

lemma decimal_induct [case_names small step]:
  assumes "\<And>n. n < 10 \<Longrightarrow> P n" and "\<And>n. 10 \<le> n \<Longrightarrow> P (n div 10) \<Longrightarrow> P n"
  shows "P (n :: nat)"
  by (induction n rule: less_induct) (metis assms div_less_dividend leI less_le_trans one_less_numeral_iff semiring_norm(76) zero_less_numeral)

lemma decimal_simps: "n < 10 \<Longrightarrow> decimal n = [digit n]" "10 \<le> n \<Longrightarrow> decimal n = decimal (n div 10) @ [digit (n mod 10)]"
  by (subst decimal.simps, simp)+

lemma decimal_digits [simp]: "c \<in> set (decimal n) \<Longrightarrow> is_digit c"
  by (induction n arbitrary: c rule: decimal_induct) (auto simp: decimal_simps is_digit_def)

lemma decimal_nonempty [simp]: "decimal n \<noteq> []"
  by (cases "n < 10") (simp_all add: decimal_simps)

lemma undecimal_decimal [simp]: "undecimal (decimal n) = n"
  by (induction n rule: decimal_induct) (simp_all add: decimal_simps undecimal_def)

lemma decimal_inj [simp]: "decimal m = decimal n \<longleftrightarrow> m = n"
  by (metis undecimal_decimal)

text \<open>What the next character of a text is.\<close>

lemma span_append:
  assumes "\<And>c. c \<in> set xs \<Longrightarrow> P c" and "ys = [] \<or> \<not> P (hd ys)"
  shows "takeWhile P (xs @ ys) = xs" and "dropWhile P (xs @ ys) = ys"
  using assms by (cases ys; simp)+

lemma strip_append [simp]: "strip p (p @ s) = Some s"
  by (simp add: strip_def)

definition text_end :: "string \<Rightarrow> bool" where
  "text_end r \<longleftrightarrow> r = [] \<or> take 2 r = '', '' \<or> take 2 r = '' }''"

lemma text_end_simps [simp]: "text_end []" "text_end ('', '' @ r)" "text_end ('' }'' @ r)"
  by (simp_all add: text_end_def)

lemma text_endD:
  assumes "text_end r"
  shows "r = [] \<or> \<not> is_digit (hd r)" and "r = [] \<or> \<not> is_name (hd r)" and "strip '' { '' r = None"
  using assms by (cases r; cases "tl r"; auto simp: text_end_def is_digit_def is_name_def strip_def)+

lemma name_okD: "name_ok s \<Longrightarrow> c \<in> set s \<Longrightarrow> is_name c" "name_ok s \<Longrightarrow> s \<noteq> [] \<and> \<not> is_digit (hd s)"
  by (auto simp: name_ok_def list_all_iff)

abbreviation field_text :: "string \<times> debug_value \<Rightarrow> string" where
  "field_text \<equiv> \<lambda>(k, v). k @ '': '' @ debug_text v"

text \<open>Fields are read back if their values are.\<close>

lemma parse_fields_text:
  assumes "fs \<noteq> []" and "\<And>k v. (k, v) \<in> set fs \<Longrightarrow> name_ok k"
    and "\<And>k v n r. (k, v) \<in> set fs \<Longrightarrow> text_end r \<Longrightarrow> length (debug_text v) \<le> n \<Longrightarrow> parse_value n (debug_text v @ r) = Some (v, r)"
    and "length (join '', '' (map field_text fs)) \<le> n"
  shows "parse_fields n (join '', '' (map field_text fs) @ '' }'' @ r) = Some (fs, r)"
  using assms
proof (induction fs arbitrary: n)
  case (Cons f fs)
  obtain k v where f: "f = (k, v)" by (cases f)
  have k: "c \<in> set k \<Longrightarrow> is_name c" for c using Cons.prems(2) f name_okD(1) by auto
  let ?tl = "(if fs = [] then '' }'' @ r else '', '' @ join '', '' (map field_text fs) @ '' }'' @ r)"
  have text_eq: "join '', '' (map field_text (f # fs)) @ '' }'' @ r = k @ '': '' @ debug_text v @ ?tl"
    using f by (cases fs) simp_all
  have len: "length (join '', '' (map field_text (f # fs)))
      = length k + 2 + length (debug_text v) + (if fs = [] then 0 else 2 + length (join '', '' (map field_text fs)))"
    using f by (cases fs) simp_all
  then obtain m where m: "n = Suc m" using Cons.prems(4) by (cases n) simp_all
  have span: "takeWhile is_name (k @ '': '' @ s) = k" "dropWhile is_name (k @ '': '' @ s) = '': '' @ s" for s
    using span_append [of k is_name "'': '' @ s"] k by (simp_all add: is_name_def)
  have v: "parse_value m (debug_text v @ ?tl) = Some (v, ?tl)"
  proof (rule Cons.prems(3))
    show "(k, v) \<in> set (f # fs)" using f by simp
    show "text_end ?tl" by (simp only: text_end_simps split: if_split) simp
    show "length (debug_text v) \<le> m" using Cons.prems(4) unfolding len m by simp
  qed
  show ?case
  proof (cases "fs = []")
    case True
    have "strip '', '' ('' }'' @ r) = None" by (simp add: strip_def)
    with v True f show ?thesis unfolding text_eq m using span strip_append [of "'' }''" r] strip_append [of "'': ''"] by simp
  next
    case False
    have "parse_fields m (join '', '' (map field_text fs) @ '' }'' @ r) = Some (fs, r)"
    proof (rule Cons.IH [OF False])
      show "name_ok k'" if "(k', v') \<in> set fs" for k' v' using Cons.prems(2) that by auto
      show "parse_value n' (debug_text v' @ r') = Some (v', r')"
        if "(k', v') \<in> set fs" "text_end r'" "length (debug_text v') \<le> n'" for k' v' n' r'
        by (rule Cons.prems(3) [of k' v' r' n']) (use that in simp_all)
      show "length (join '', '' (map field_text fs)) \<le> m" using Cons.prems(4) False unfolding len m by simp
    qed
    with v False f show ?thesis unfolding text_eq m using span strip_append [of "'', ''"] strip_append [of "'': ''"] by simp
  qed
qed simp

lemma parse_value_text:
  "debug_ok v \<Longrightarrow> text_end r \<Longrightarrow> length (debug_text v) \<le> n \<Longrightarrow> parse_value n (debug_text v @ r) = Some (v, r)"
proof (induction v arbitrary: n r rule: debug_text.induct)
  case (1 x)
  then obtain m where m: "n = Suc m" by (cases n) auto
  have "hd (decimal x @ r) = hd (decimal x)" by simp
  moreover have "is_digit (hd (decimal x))" by (rule decimal_digits [of _ x]) simp
  ultimately show ?case using span_append [of "decimal x" is_digit r] text_endD(1) [OF 1(2)] by (simp add: m)
next
  case (2 name fs)
  have nm: "c \<in> set name \<Longrightarrow> is_name c" "name \<noteq> []" "\<not> is_digit (hd name)" for c
    using 2(2) name_okD by auto
  then obtain m where m: "n = Suc m" using 2(4) by (cases n) (auto split: if_splits)
  show ?case
  proof (cases "fs = []")
    case True
    with nm text_endD [OF 2(3)] span_append [of name is_name r] show ?thesis by (simp add: m)
  next
    case False
    let ?body = "join '', '' (map field_text fs) @ '' }'' @ r"
    have "parse_fields m ?body = Some (fs, r)"
    proof (rule parse_fields_text [OF False])
      show "name_ok k" if "(k, v) \<in> set fs" for k v using 2(2) that by (auto simp: list_all_iff)
      show "parse_value n (debug_text v @ r) = Some (v, r)"
        if "(k, v) \<in> set fs" "text_end r" "length (debug_text v) \<le> n" for k v n r
        using 2(1) [OF False that(1) refl _ that(2,3)] 2(2) that(1) by (auto simp: list_all_iff)
      show "length (join '', '' (map field_text fs)) \<le> m" using 2(4) False m by simp
    qed
    moreover have "takeWhile is_name (name @ '' { '' @ ?body) = name" "dropWhile is_name (name @ '' { '' @ ?body) = '' { '' @ ?body"
      using span_append [of name is_name "'' { '' @ ?body"] nm(1) by (simp_all add: is_name_def)
    ultimately show ?thesis using False nm strip_append [of "'' { ''" ?body] by (simp add: m)
  qed
qed

lemma read_debug_text: "debug_ok v \<Longrightarrow> read_debug (debug_text v) = Some v"
  using parse_value_text [of v "[]" "length (debug_text v)"] by (simp add: read_debug_def)

lemma split_number:
  assumes "decimal m @ s = decimal n @ t" and "s \<noteq> [] \<and> \<not> is_digit (hd s)" and "t \<noteq> [] \<and> \<not> is_digit (hd t)"
  shows "m = n" and "s = t"
proof -
  have "takeWhile is_digit (decimal m @ s) = decimal m" "dropWhile is_digit (decimal m @ s) = s"
    using assms(2) by (intro span_append; simp)+
  moreover have "takeWhile is_digit (decimal n @ t) = decimal n" "dropWhile is_digit (decimal n @ t) = t"
    using assms(3) by (intro span_append; simp)+
  ultimately show "m = n" "s = t" using assms(1) by auto
qed


text \<open>Every value that the crate prints can be read back.\<close>

lemma debug_names [simp]: "name_ok (c # s) \<longleftrightarrow> \<not> is_digit c \<and> list_all is_name (c # s)"
  by (auto simp: name_ok_def)

lemma debug_values_ok [simp]:
  "debug_ok (page_full_debug pf)" "debug_ok (chunk_full_debug cf)" "debug_ok (tenant_stats_debug ts)" "debug_ok (pool_stats_debug ps)"
  "debug_ok (pool_shared_debug sh)" "debug_ok (chunk_pool_stats_debug cs)" "debug_ok (chunk_builder_debug cb)"
  by (simp_all add: debug_defs is_digit_def is_name_def)

lemma page_pool_debug_ok: "page_pool_debug pp w = Some v \<Longrightarrow> debug_ok v"
  by (auto simp: page_pool_debug_def bind_eq_Some_conv is_digit_def is_name_def)

lemma handle_debug_ok:
  "page_debug p w = Some v \<Longrightarrow> debug_ok v" "page_builder_debug b pw = Some v \<Longrightarrow> debug_ok v"
  "chunk_debug c cw = Some v \<Longrightarrow> debug_ok v" "chunk_pool_debug cp cw = Some v \<Longrightarrow> debug_ok v"
  by (auto simp: page_debug_def page_builder_debug_def chunk_debug_def chunk_pool_debug_def bind_eq_Some_conv is_digit_def is_name_def)

text \<open>A list of buffers without repetition is short enough to be counted.\<close>

lemma distinct_words_bounded:
  assumes "distinct (xs :: 'a::len word list)" and "x \<notin> set xs"
  shows "length xs < 2 ^ LENGTH('a)"
proof -
  have "length xs = card (set xs)" using assms(1) by (simp add: distinct_card)
  also have "\<dots> < card (UNIV :: 'a word set)" using assms(2) by (intro psubset_card_mono) auto
  finally show ?thesis by (simp add: card_word)
qed

lemma local_free_pages_exact:
  assumes "pool_inv (Some pp) w a U"
  shows "\<exists>n. local_free_pages pp w = Some n \<and> unat n = length (a_local a)"
proof -
  have "distinct (a_local a)" using assms chain.rep_distinct by (auto simp: pool_inv_def)
  moreover have "buffer_ok (w_heap w) (unat (sh_page_size (w_shared w))) (sh_source (w_shared w)) x" if "x \<in> set (a_local a)" for x
    using assms that by (auto simp: pool_inv_def a_free_def)
  then have "0 \<notin> set (a_local a)" by (auto simp: buffer_ok_def)
  ultimately have "distinct (a_local a)" "0 \<notin> set (a_local a)" .
  from distinct_words_bounded [OF this] have "unat (of_nat (length (a_local a)) :: usize) = length (a_local a)"
    by (simp add: unsigned_of_nat take_bit_nat_eq_self)
  with local_free_pages_counts [OF assms] show ?thesis by blast
qed


lemma message_numbers:
  assumes "s \<noteq> [] \<and> \<not> is_digit (hd s)" and "t \<noteq> [] \<and> \<not> is_digit (hd t)"
    and eq: "decimal a @ s @ decimal b @ ''/'' @ decimal c @ t = decimal a' @ s @ decimal b' @ ''/'' @ decimal c' @ t"
  shows "a = a' \<and> b = b' \<and> c = c'"
proof -
  have sl: "hd (''/'' @ u) = CHR ''/''" "\<not> is_digit CHR ''/''" for u by (simp_all add: is_digit_def)
  have a: "a = a'" by (rule split_number(1) [OF eq]) (use assms(1) in simp_all)
  have "s @ decimal b @ ''/'' @ decimal c @ t = s @ decimal b' @ ''/'' @ decimal c' @ t"
    by (rule split_number(2) [OF eq]) (use assms(1) in simp_all)
  then have r: "decimal b @ ''/'' @ decimal c @ t = decimal b' @ ''/'' @ decimal c' @ t" by (simp only: same_append_eq)
  have b: "b = b'" by (rule split_number(1) [OF r]) (use sl in simp_all)
  have "''/'' @ decimal c @ t = ''/'' @ decimal c' @ t" by (rule split_number(2) [OF r]) (use sl in simp_all)
  then have "decimal c @ t = decimal c' @ t" by simp
  with a b show ?thesis by simp
qed

section \<open>Properties\<close>

text \<open>Error messages lose nothing. Two refused page appends have the same message exactly if all three
  numbers agree, likewise for chunks, and no message of one kind is a message of the other; the same holds
  for the derived debug texts, which a reader turns back into the numbers.\<close>

theorem full_messages_faithful:
  "(page_full_display e = page_full_display e' \<longleftrightarrow> e = e')
   \<and> (chunk_full_display f = chunk_full_display f' \<longleftrightarrow> f = f')
   \<and> page_full_display e \<noteq> chunk_full_display f
   \<and> read_debug (debug_text (page_full_debug e)) = Some (page_full_debug e)
   \<and> read_debug (debug_text (chunk_full_debug f)) = Some (chunk_full_debug f)"
proof -
  have "e = e'" if "page_full_display e = page_full_display e'"
  proof -
    from that have "decimal (unat (pf_attempted e)) @ '' bytes to page with '' @ decimal (unat (pf_len e)) @ ''/''
        @ decimal (unat (pf_capacity e)) @ '' used'' = decimal (unat (pf_attempted e')) @ '' bytes to page with ''
        @ decimal (unat (pf_len e')) @ ''/'' @ decimal (unat (pf_capacity e')) @ '' used''"
      unfolding page_full_display_def by (simp only: same_append_eq)
    from message_numbers [OF _ _ this] show ?thesis by (simp add: is_digit_def flip: word_unat_eq_iff)
  qed
  moreover have "f = f'" if "chunk_full_display f = chunk_full_display f'"
  proof -
    from that have "decimal (unat (cf_attempted f)) @ '' bytes to chunk with '' @ decimal (unat (cf_len f)) @ ''/''
        @ decimal (unat (cf_capacity f)) @ '' used'' = decimal (unat (cf_attempted f')) @ '' bytes to chunk with ''
        @ decimal (unat (cf_len f')) @ ''/'' @ decimal (unat (cf_capacity f')) @ '' used''"
      unfolding chunk_full_display_def by (simp only: same_append_eq)
    from message_numbers [OF _ _ this] show ?thesis by (simp add: is_digit_def flip: word_unat_eq_iff)
  qed
  moreover have "page_full_display e \<noteq> chunk_full_display f" by (simp add: page_full_display_def chunk_full_display_def)
  ultimately show ?thesis by (auto simp: read_debug_text)
qed

text \<open>C33: The debug text of a pool is safe to print and says what is there. In every state that a program over
  a page pool reaches, formatting the pool, which walks the local free list in memory, ends with a defined
  result; reading the text back gives the page size, the five counters with the number of live handles
  as \<open>pages_in_use\<close>, and the length of the local list; and every live page prints its length, its capacity,
  which is the page size, and its number of handles.\<close>

theorem page_pool_debug_reports:
  assumes "page_source_contract src" and "with_source src w = (Inr pp, w')" and "w_pages w = []"
    and "page_program (page_sys_start pp w') cs s" and "s_pool s = Some pp'"
  defines "W \<equiv> s_world s"
  shows "(\<exists>v xs. page_pool_debug pp' W = Some v \<and> chain (w_heap W) (pp_local_head pp') xs \<and>
      read_debug (debug_text v) = Some (DebugStruct ''PagePool''
        [(''shared'', DebugStruct ''PoolShared''
           [(''page_size'', debug_uint (sh_page_size (w_shared W))), (''stats'', DebugStruct ''PoolStats''
              [(''allocations_from_heap'', debug_uint (ps_allocations_from_heap (sh_stats (w_shared W)))),
               (''pages_in_use'', debug_uint (of_nat (length (s_builders s) + size (live_cells (w_pages W))) :: u64)),
               (''free_pages'', debug_uint (ps_free_pages (sh_stats (w_shared W)))),
               (''return_queue_drains'', debug_uint (ps_return_queue_drains (sh_stats (w_shared W)))),
               (''prewarmed_pages'', debug_uint (ps_prewarmed_pages (sh_stats (w_shared W))))])]),
         (''local_free_pages'', DebugInt (length xs))]))
    \<and> (\<forall>p i n. get_page p W = Some (i, n) \<longrightarrow> (\<exists>v. page_debug p W = Some v \<and>
         read_debug (debug_text v) = Some (DebugStruct ''Page''
           [(''len'', debug_uint (pi_len i)), (''capacity'', debug_uint (sh_page_size (w_shared W))), (''ref_count'', DebugInt n)])))"
proof -
  have "page_sys_inv (w_heap w) (w_tenants w) s"
    using page_client.run_inv [OF assms(4) page_sys_start_inv [OF assms(1-3)]] by blast
  with assms(5) have inv: "page_inv (w_heap w) (w_tenants w) (Some pp') (s_scrapers s) W (mset (s_builders s))"
    by (simp add: page_sys_inv_def W_def)
  from page_inv_life [OF inv] obtain a where own: "pool_inv (Some pp') W a (page_buffers W (mset (s_builders s)))"
    by (auto simp: pool_life_some dest: pool_owned_inv)
  from local_free_pages_exact [OF own] obtain n where n: "local_free_pages pp' W = Some n" "unat n = length (a_local a)" by blast
  have ch: "chain (w_heap W) (pp_local_head pp') (a_local a)" using own by (simp add: pool_inv_def)
  let ?v = "DebugStruct ''PagePool'' [(''shared'', pool_shared_debug (w_shared W)), (''local_free_pages'', debug_uint n)]"
  have v: "page_pool_debug pp' W = Some ?v" using n(1) page_inv_shared [OF inv] by (simp add: page_pool_debug_def)
  note read = read_debug_text [OF page_pool_debug_ok [OF v]]
  have "ps_pages_in_use (sh_stats (w_shared W)) = of_nat (length (s_builders s) + size (live_cells (w_pages W)))"
    using page_inv_pages_in_use [OF inv] by (simp add: page_holds_def)
  note exact = this [symmetric]
  have page: "\<exists>v. page_debug p W = Some v \<and> read_debug (debug_text v) = Some (DebugStruct ''Page''
      [(''len'', debug_uint (pi_len i)), (''capacity'', debug_uint (sh_page_size (w_shared W))), (''ref_count'', DebugInt m)])"
    if g: "get_page p W = Some (i, m)" for p i m
  proof -
    have "i \<in># live_cells (w_pages W)" using g by (auto simp: get_page_def dest: get_cell_live)
    then have "pi_capacity i = sh_page_size (w_shared W)" using inv by (auto simp: page_inv_def inner_ok_def)
    with g have d: "page_debug p W = Some (DebugStruct ''Page''
      [(''len'', debug_uint (pi_len i)), (''capacity'', debug_uint (sh_page_size (w_shared W))), (''ref_count'', DebugInt m)])"
      by (simp add: page_debug_def page_len_def page_capacity_def page_ref_count_def)
    with read_debug_text [OF handle_debug_ok(1) [OF d]] show ?thesis by blast
  qed
  have pool: "?v = DebugStruct ''PagePool''
        [(''shared'', DebugStruct ''PoolShared''
           [(''page_size'', debug_uint (sh_page_size (w_shared W))), (''stats'', DebugStruct ''PoolStats''
              [(''allocations_from_heap'', debug_uint (ps_allocations_from_heap (sh_stats (w_shared W)))),
               (''pages_in_use'', debug_uint (of_nat (length (s_builders s) + size (live_cells (w_pages W))) :: u64)),
               (''free_pages'', debug_uint (ps_free_pages (sh_stats (w_shared W)))),
               (''return_queue_drains'', debug_uint (ps_return_queue_drains (sh_stats (w_shared W)))),
               (''prewarmed_pages'', debug_uint (ps_prewarmed_pages (sh_stats (w_shared W))))])]),
         (''local_free_pages'', DebugInt (length (a_local a)))]"
    unfolding pool_shared_debug_def pool_stats_debug_def exact by (simp only: accessor_defs n(2))
  show ?thesis
    by (intro conjI exI [of _ ?v] exI [of _ "a_local a"] allI impI v ch page) (use read pool in simp)
qed

theorem page_pool_debug_reports_witness:
  "\<exists>s p. page_program (page_sys_start demo_pool page_demo) [AllocFrom demo_tenant [1, 2, 3]] s \<and> s_pool s = Some p
     \<and> (\<exists>v. page_pool_debug p (s_world s) = Some v)"
proof -
  from page_demo_page obtain pp1 w1 where
    al: "page_alloc_from demo_tenant [1, 2, 3] demo_pool page_demo = Some (Inr 0, pp1, w1)" by blast
  let ?s = "(page_sys_start demo_pool page_demo)\<lparr>s_pool := Some pp1, s_world := w1\<rparr>"
  have r: "page_program (page_sys_start demo_pool page_demo) [AllocFrom demo_tenant [1, 2, 3]] ?s"
    by (rule run_single) (use al in \<open>simp_all add: page_sys_start_def after_alloc_def isize_max_def\<close>)
  have p: "s_pool ?s = Some pp1" by simp
  from page_pool_debug_reports [OF demo_start(1-3) r p] have "\<exists>v. page_pool_debug pp1 (s_world ?s) = Some v" by blast
  with r p show ?thesis by blast
qed

text \<open>The same for chunk pools, which print their counters and the page size only.\<close>

theorem chunk_pool_debug_reports:
  assumes "page_source_contract src" and "chunk_with_source src w = (Inr cp, w')"
    and "w_packed w = []" and "w_chunks w = []" and "unat (sh_page_size (w_shared w')) \<le> 2 ^ 32"
    and "chunk_program ga exact (chunk_sys_start cp w') cs s" and "c_pool s = Some cp'"
  shows "(\<exists>v. chunk_pool_debug cp' (c_world s) = Some v \<and> read_debug (debug_text v) = Some v)
    \<and> (\<forall>c i n. get_chunk c (c_world s) = Some (i, n) \<longrightarrow> (\<exists>v. chunk_debug c (c_world s) = Some v \<and>
         read_debug (debug_text v) = Some (DebugStruct ''Chunk''
           [(''len'', debug_uint (ci_length i)), (''capacity'', debug_uint (ci_capacity i)), (''ref_count'', DebugInt n)])))"
proof -
  have "chunk_inv (w_heap w) (Some cp') (c_scrapers s) (c_world s) (mset (c_builders s))"
    using chunk_client.run_inv [OF assms(6) chunk_sys_start_inv [OF assms(1-5)]] assms(7) by (simp add: chunk_sys_inv_def)
  then have "get_shared (c_world s) = Some (w_shared (c_world s))"
    by (auto simp: chunk_inv_def core_inv_def packed_inv_def store_inv_def Chunk_Builders.pool_pages_def dest: pool_life_shared)
  then obtain v where v: "chunk_pool_debug cp' (c_world s) = Some v" by (simp add: chunk_pool_debug_def accessor_defs)
  have wide: "unat (ucast (x :: u32) :: usize) = unat x" for x by (rule unat_ucast_up)
  have "chunk_debug c (c_world s) = Some (DebugStruct ''Chunk''
      [(''len'', debug_uint (ci_length i)), (''capacity'', debug_uint (ci_capacity i)), (''ref_count'', DebugInt n)])"
    if "get_chunk c (c_world s) = Some (i, n)" for c i n
    using that by (simp add: chunk_debug_def chunk_len_def chunk_capacity_def chunk_ref_count_def wide)
  with v read_debug_text [OF handle_debug_ok(4) [OF v]] read_debug_text [OF handle_debug_ok(3)] show ?thesis by blast
qed

end
