(* ===== verification/Chunk_Shares.thy ===== *)
theory Chunk_Shares
  imports Chunk_System
begin

text \<open>
  Chunks as shared values: what a client that keeps handles in its own data structures has to know. The
  invariant \<open>shares\<close> has the handles as a parameter: \<open>H\<close> lists every handle of a chunk that exists
  anywhere, and the strong count of each chunk is its multiplicity in \<open>H\<close>. Allocation adds a handle,
  a clone adds one, a drop takes one away, and no operation changes the bytes of a chunk of which a handle
  is left.
\<close>

definition chunk_refs :: "chunk \<Rightarrow> chunk_world \<Rightarrow> nat" where
  "chunk_refs c w = (if c < length (w_chunks w) then snd (w_chunks w ! c) else 0)"

definition shares :: "heap \<Rightarrow> stats_table \<Rightarrow> chunk_pool \<Rightarrow> chunk_world \<Rightarrow> chunk multiset \<Rightarrow> bool" where
  "shares h0 base cp w H \<longleftrightarrow>
     chunk_inv h0 (Some cp) 0 w {#} \<and> chunk_accounts base w {#} \<and> (\<forall>c. chunk_refs c w = count H c)"

lemma sharesD:
  assumes "shares h0 base cp w H"
  shows "chunk_inv h0 (Some cp) 0 w {#}" and "chunk_accounts base w {#}" and "chunk_refs c w = count H c"
  using assms by (auto simp: shares_def)

lemma shares_get:
  assumes "shares h0 base cp w H" and "c \<in># H"
  shows "\<exists>i. get_chunk c w = Some (i, count H c)"
proof -
  have "chunk_refs c w = count H c" "0 < count H c" using sharesD(3) [OF assms(1)] assms(2) by simp_all
  then show ?thesis
    by (cases "w_chunks w ! c") (auto simp: chunk_refs_def get_chunk_def get_cell_def simp del: count_greater_zero_iff split: if_splits)
qed

text \<open>The bytes of a chunk of which a handle is left.\<close>

lemma shares_stable:
  assumes "chunks_stable w w'" and "shares h0 base cp' w' H'" and "c \<in># H'" and "chunk_as_slice c w = Some bs"
  shows "chunk_as_slice c w' = Some bs"
proof -
  have "get_chunk c w' \<noteq> None" using shares_get [OF assms(2,3)] by auto
  moreover have "c < length (w_chunks w)" using assms(4)
    by (auto simp: chunk_as_slice_def get_chunk_def get_cell_def split: if_splits)
  ultimately show ?thesis using assms(1,4) by (auto simp: chunks_stable_def)
qed

lemma shares_read:
  assumes "shares h0 base cp w H" and "c \<in># H"
  shows "\<exists>bs. chunk_as_slice c w = Some bs \<and> chunk_len c w = Some (of_nat (length bs))"
proof -
  from shares_get [OF assms] obtain i n where g: "get_chunk c w = Some (i, n)" by blast
  then have "i \<in># live_cells (w_chunks w)" by (auto simp: get_chunk_def dest: get_cell_live)
  from inner_slice_live [OF sharesD(1) [OF assms(1)] this] obtain bs where
    "inner_as_slice i w = Some bs" "length bs = unat (ci_length i)" by blast
  with g show ?thesis by (simp add: chunk_as_slice_def chunk_len_def)
qed

lemma shares_clone:
  assumes inv: "shares h0 base cp w H" and c: "c \<in># H"
  shows "\<exists>w'. chunk_clone c w = Some (c, w') \<and> shares h0 base cp w' (add_mset c H) \<and> chunks_stable w w'"
proof -
  from shares_get [OF inv c] obtain i where g: "get_chunk c w = Some (i, count H c)" by blast
  let ?w = "w\<lparr>w_chunks := (w_chunks w)[c := (i, Suc (count H c))]\<rparr>"
  note cl = chunk_clone_inv [OF sharesD(1) [OF inv] g]
  have "chunk_refs d ?w = count (add_mset c H) d" for d
    using sharesD(3) [OF inv, of d] g by (auto simp: chunk_refs_def get_chunk_Some)
  then have "shares h0 base cp ?w (add_mset c H)" using cl(2,3) sharesD(2) [OF inv] by (simp add: shares_def)
  moreover have "claims_kept C w ?w = claims_kept C w w" for C by (rule claims_kept_cong(1)) simp_all
  then have "chunks_stable w ?w" by (intro chunks_stable_update [OF sharesD(1) [OF inv] g]) (simp_all add: claims_kept_refl)
  ultimately show ?thesis using cl(1) by blast
qed

lemma shares_drop:
  assumes inv: "shares h0 base cp w (add_mset c H)"
  shows "\<exists>w'. chunk_drop c w = Some w' \<and> shares h0 base cp w' H \<and> chunks_stable w w'"
proof -
  from shares_get [OF inv, of c] obtain i where g: "get_chunk c w = Some (i, Suc (count H c))" by auto
  from chunk_drop_inv [OF sharesD(1) [OF inv] g] obtain w' where d: "chunk_drop c w = Some w'"
    "chunk_inv h0 (Some cp) 0 w' {#}" "claims_kept (chunk_claims w' {#}) w w'"
    "w_chunks w' = (w_chunks w)[c := (i, count H c)]" "chunk_accounts base w' {#}"
    using sharesD(2) [OF inv] by auto
  have "chunk_refs x w' = count H x" for x
    using sharesD(3) [OF inv, of x] g d(4) by (auto simp: chunk_refs_def get_chunk_Some split: if_splits)
  then have "shares h0 base cp w' H" using d by (simp add: shares_def)
  with d(1) chunks_stable_update [OF sharesD(1) [OF inv] g d(4,3)] show ?thesis by blast
qed

text \<open>A call of one of the helpers: a handle more and the charge, or a failure that leaves the handles.\<close>

lemma shares_alloc_fill:
  assumes inv: "shares h0 base cp w H" and fill: "chunk_fill_ok fill" and sz: "unat sz < 2 ^ 32"
  shows "\<exists>r cp' w'. chunk_alloc_fill fill ga t sz cp w = Some (r, cp', w') \<and> chunks_stable w w'
    \<and> (case r of
         Inl e \<Rightarrow> shares h0 base cp' w' H
       | Inr c \<Rightarrow> shares h0 base cp' w' (add_mset c H) \<and> c = length (w_chunks w)
           \<and> w_tenants w' = (w_tenants w)(tenant_cell t := record_chunk_allocate sz (w_tenants w (tenant_cell t))))"
proof -
  note ci = sharesD(1) [OF inv]
  from chunk_alloc_fill_inv [OF ci fill, of ga t sz] obtain r cp' w' where
    a: "chunk_alloc_fill fill ga t sz cp w = Some (r, cp', w')" "chunk_filled h0 0 {#} w r cp' w'"
    and acc: "chunk_accounts base w' {#}" using sharesD(2) [OF inv] sz by blast
  have st: "chunks_stable w w'"
    using a(2) by (cases r) (auto simp: chunk_filled_def intro: chunks_stable_same [OF ci] chunks_stable_append [OF ci])
  show ?thesis
  proof (cases r)
    case (Inl e)
    then have "chunk_refs d w' = chunk_refs d w" for d using a(2) by (simp add: chunk_filled_def chunk_refs_def)
    with Inl a acc st sharesD(3) [OF inv] show ?thesis by (simp add: shares_def chunk_filled_def)
  next
    case (Inr c)
    from a(2) Inr obtain i where ci': "chunk_inv h0 (Some cp') 0 w' {#}" and c: "c = length (w_chunks w)"
      and ch: "w_chunks w' = w_chunks w @ [(i, 1)]" by (auto simp: chunk_filled_def)
    have "chunk_refs d w' = count (add_mset c H) d" for d
      using sharesD(3) [OF inv, of d] by (auto simp: chunk_refs_def ch c nth_append)
    then have sh: "shares h0 base cp' w' (add_mset c H)" using ci' acc by (simp add: shares_def)
    from a(1) Inr obtain b cp1 w1 where al: "chunk_allocate ga t sz cp w = Some (Inr b, cp1, w1)"
      by (auto simp: chunk_alloc_fill_def split: Option.bind_split_asm sum.split_asm)
    from allocate_aligned_inv [OF ci is_power_of_two_default, of ga t sz] al obtain k where
      ok: "chunk_allocated h0 0 {#} k (tenant_cell t) sz default_align w (Inr b) cp1 w1"
      by (auto simp: chunk_allocate_def)
    then have inv1: "chunk_inv h0 (Some cp1) 0 w1 (add_mset b {#})" by (simp add: chunk_allocated_def)
    with fill obtain r2 b2 w2 where f: "fill b w1 = Some (r2, b2, w2)"
      and step: "builder_step h0 (Some cp1) 0 {#} b w1 b2 w2" unfolding chunk_fill_ok_def by metis
    then have inv2: "chunk_inv h0 (Some cp1) 0 w2 (add_mset b2 {#})" and t2: "w_tenants w2 = w_tenants w1"
      by (simp_all add: builder_step_def same_handles_def)
    have "w_tenants w' = w_tenants w2"
      using a(1) Inr al f chunk_builder_seal_eq [OF inv2]
      by (auto simp: chunk_alloc_fill_def split: Option.bind_split_asm sum.split_asm)
    then have "w_tenants w' = (w_tenants w)(tenant_cell t := record_chunk_allocate sz (w_tenants w (tenant_cell t)))"
      using t2 ok by (simp add: chunk_allocated_def)
    with a(1) st Inr sh c show ?thesis by simp
  qed
qed

lemma shares_alloc_from:
  assumes inv: "shares h0 base cp w H" and data: "length data < 2 ^ 32"
  shows "\<exists>r cp' w'. chunk_alloc_from ga t data cp w = Some (r, cp', w') \<and> chunks_stable w w'
    \<and> (case r of
         Inl e \<Rightarrow> shares h0 base cp' w' H
       | Inr c \<Rightarrow> shares h0 base cp' w' (add_mset c H) \<and> chunk_as_slice c w' = Some data
           \<and> w_tenants w' = (w_tenants w)(tenant_cell t := record_chunk_allocate (of_nat (length data)) (w_tenants w (tenant_cell t))))"
proof -
  have "unat (of_nat (length data) :: usize) < 2 ^ 32" using data by (simp add: unat_of_nat_small)
  from shares_alloc_fill [OF inv chunk_fill_from_ok [of data] this, of ga t] obtain r cp' w' where
    a: "chunk_alloc_from ga t data cp w = Some (r, cp', w')" "chunks_stable w w'" and res: "case r of
         Inl e \<Rightarrow> shares h0 base cp' w' H
       | Inr c \<Rightarrow> shares h0 base cp' w' (add_mset c H) \<and> c = length (w_chunks w)
           \<and> w_tenants w' = (w_tenants w)(tenant_cell t := record_chunk_allocate (of_nat (length data)) (w_tenants w (tenant_cell t)))"
    unfolding chunk_alloc_from_def by blast
  have "chunk_as_slice c w' = Some data" if "r = Inr c" for c
    using chunk_alloc_from_result [OF sharesD(1) [OF inv] data, of ga t] a(1) that by auto
  with a res show ?thesis by (cases r) auto
qed

text \<open>\<open>alloc_with\<close> is \<open>alloc_with_len\<close> with a closure that reports the whole size.\<close>

lemma chunk_alloc_with_eq:
  "chunk_alloc_with ga t sz f cp w
     = chunk_alloc_with_len ga t sz (\<lambda>bs. (fst (f bs), map_option (\<lambda>_. sz) (snd (f bs)))) cp w"
proof -
  have "chunk_fill_with sz f = chunk_fill_with_len (\<lambda>bs. (fst (f bs), map_option (\<lambda>_. sz) (snd (f bs))))"
    by (intro ext)
      (auto simp: chunk_fill_with_def chunk_fill_with_len_def chunk_run_init_def run_init_def Let_def
        split: Option.bind_splits prod.splits option.splits)
  then show ?thesis by (simp add: chunk_alloc_with_def chunk_alloc_with_len_def)
qed

lemma shares_alloc_with:
  assumes inv: "shares h0 base cp w H" and f: "keeps_length f" "\<And>bs. snd (f bs) = Some ()" and sz: "unat sz < 2 ^ 32"
  shows "\<exists>r cp' w'. chunk_alloc_with ga t sz f cp w = Some (r, cp', w') \<and> chunks_stable w w'
    \<and> (case r of
         Inl e \<Rightarrow> shares h0 base cp' w' H
       | Inr c \<Rightarrow> shares h0 base cp' w' (add_mset c H)
           \<and> (\<exists>X. length X = unat sz \<and> chunk_as_slice c w' = Some (fst (f X))))"
proof -
  let ?g = "\<lambda>bs. (fst (f bs), map_option (\<lambda>_. sz) (snd (f bs)))"
  note ci = sharesD(1) [OF inv]
  have g: "keeps_length ?g" using f(1) by (simp add: keeps_length_def)
  from shares_alloc_fill [OF inv chunk_fill_with_len_ok [OF g] sz, of ga t] obtain r cp' w' where
    a: "chunk_alloc_with_len ga t sz ?g cp w = Some (r, cp', w')" "chunks_stable w w'"
    and res: "case r of Inl e \<Rightarrow> shares h0 base cp' w' H
      | Inr c \<Rightarrow> shares h0 base cp' w' (add_mset c H) \<and> c = length (w_chunks w)"
    unfolding chunk_alloc_with_len_def by (fastforce split: sum.splits)
  have "\<exists>X. length X = unat sz \<and> chunk_as_slice c w' = Some (fst (f X))" if Inr: "r = Inr c" for c
  proof -
    from a(1) Inr obtain b cp1 w1 where al: "chunk_allocate ga t sz cp w = Some (Inr b, cp1, w1)"
      by (auto simp: chunk_alloc_with_len_def chunk_alloc_fill_def split: Option.bind_split_asm sum.split_asm)
    from allocate_aligned_inv [OF ci is_power_of_two_default, of ga t sz] al obtain k where
      ok: "chunk_allocated h0 0 {#} k (tenant_cell t) sz default_align w (Inr b) cp1 w1"
      by (auto simp: chunk_allocate_def)
    then have inv1: "chunk_inv h0 (Some cp1) 0 w1 (add_mset b {#})" and cap: "cb_capacity b = ucast sz"
      by (simp_all add: chunk_allocated_def new_builder_def)
    from builder_bytes_some [OF inv1] obtain X where X: "builder_bytes b w1 = Some X" "length X = unat (cb_capacity b)" by blast
    then have len: "length X = unat sz" using cap ucast_small [OF sz] by (metis unat_ucast_up)
    then have "length (fst (f X)) = unat sz" using f(1) by (simp add: keeps_length_def)
    with chunk_alloc_with_len_result [OF ci g sz al X(1)] a(1) res Inr f(2) have "chunk_as_slice c w' = Some (fst (f X))" by auto
    with len show ?thesis by blast
  qed
  with a res show ?thesis by (cases r) (auto simp: chunk_alloc_with_eq)
qed

text \<open>The helper succeeds if the allocation does.\<close>

lemma shares_alloc_with_ok:
  assumes inv: "chunk_inv h0 (Some cp) 0 w {#}" and f: "keeps_length f" "\<And>bs. snd (f bs) = Some ()" and sz: "unat sz < 2 ^ 32"
    and al: "chunk_allocate ga t sz cp w = Some (Inr b, cp1, w1)"
  shows "\<exists>c w'. chunk_alloc_with ga t sz f cp w = Some (Inr c, cp1, w')"
proof -
  let ?g = "\<lambda>bs. (fst (f bs), map_option (\<lambda>_. sz) (snd (f bs)))"
  have g: "keeps_length ?g" using f(1) by (simp add: keeps_length_def)
  from allocate_aligned_inv [OF inv is_power_of_two_default, of ga t sz] al obtain k where
    "chunk_allocated h0 0 {#} k (tenant_cell t) sz default_align w (Inr b) cp1 w1" by (auto simp: chunk_allocate_def)
  then have "chunk_inv h0 (Some cp1) 0 w1 (add_mset b {#})" by (simp add: chunk_allocated_def)
  from builder_bytes_some [OF this] obtain X where "builder_bytes b w1 = Some X" by blast
  from chunk_alloc_with_len_result [OF inv g sz al this, of undefined] f(2) show ?thesis by (auto simp: chunk_alloc_with_eq)
qed

text \<open>A client that drops the handles of a list.\<close>

fun drop_all :: "chunk list \<Rightarrow> chunk_world \<Rightarrow> chunk_world option" where
  "drop_all [] w = Some w"
| "drop_all (c # cs) w = do { w \<leftarrow> chunk_drop c w; drop_all cs w }"

lemma shares_drop_all:
  "shares h0 base cp w (mset cs + H) \<Longrightarrow> \<exists>w'. drop_all cs w = Some w' \<and> shares h0 base cp w' H \<and> chunks_stable w w'"
proof (induction cs arbitrary: w)
  case Nil
  then show ?case by (simp add: chunks_stable_refl)
next
  case (Cons c cs)
  from Cons.prems have "shares h0 base cp w (add_mset c (mset cs + H))" by simp
  from shares_drop [OF this] obtain w1 where w1: "chunk_drop c w = Some w1" "shares h0 base cp w1 (mset cs + H)"
    "chunks_stable w w1" by blast
  from Cons.IH [OF w1(2)] w1(1,3) show ?case by (auto intro: chunks_stable_trans)
qed

text \<open>When no handle is left, the charges are those of before.\<close>

lemma shares_no_cells:
  assumes "shares h0 base cp w {#}"
  shows "live_cells (w_chunks w) = {#}"
proof (rule live_cells_empty)
  show "snd (w_chunks w ! j) = 0" if "j < length (w_chunks w)" for j
    using sharesD(3) [OF assms, of j] that by (simp add: chunk_refs_def)
qed

lemma shares_end:
  assumes "shares h0 base cp w {#}"
  shows "t_chunks_in_use (w_tenants w t) = t_chunks_in_use (base t)" and "t_bytes_in_use (w_tenants w t) = t_bytes_in_use (base t)"
    and "cs_chunks_in_use (w_cstats w) = 0" and "cs_oversized_bytes_in_use (w_cstats w) = 0"
  using sharesD(2) [OF assms] shares_no_cells [OF assms]
  by (simp_all add: chunk_accounts_def chunk_charged_def chunk_charges_def)

text \<open>The one page still in use then is the pool's open page.\<close>

lemma shares_end_pages:
  assumes "shares h0 base cp w {#}"
  shows "ps_pages_in_use (sh_stats (w_shared w)) = (case cp_current cp of None \<Rightarrow> 0 | Some opn \<Rightarrow> 1)"
proof -
  have "live_cells (w_chunks w) = {#}" by (rule shares_no_cells [OF assms])
  then have "chunk_claims w {#} = {#}" by (simp add: chunk_claims_def)
  then have core: "core_inv h0 (Some (cp_pages cp)) (cp_current cp) 0 w {#}"
    using sharesD(1) [OF assms] by (simp add: chunk_inv_def pool_pages_def pool_open_def)
  then have cnt: "\<forall>j. count (open_ref (cp_current cp)) j = (if j < length (w_packed w) then snd (w_packed w ! j) else 0)"
    and life: "\<exists>h1. pool_life h1 (Some (cp_pages cp)) 0 w (pool_buffers (live_cells (w_packed w)))"
    and opn: "open_ok (cp_current cp) w {#}" by (auto simp: core_inv_def claims_ok_def packed_inv_def store_inv_def claim_refs_def)
  have "size (pool_buffers (live_cells (w_packed w))) = (case cp_current cp of None \<Rightarrow> 0 | Some opn \<Rightarrow> 1)"
  proof (cases "cp_current cp")
    case None
    then have "snd (w_packed w ! j) = 0" if "j < length (w_packed w)" for j
      using cnt [rule_format, of j] that by (simp add: open_ref_def)
    then have "live_cells (w_packed w) = {#}" by (rule live_cells_empty)
    with None show ?thesis by simp
  next
    case (Some op)
    let ?j = "op_shared op"
    from opn Some obtain pk n where g: "get_packed ?j w = Some (pk, n)" "pk_release pk = ReleasePool"
      by (auto simp: open_ok_def)
    then have j: "?j < length (w_packed w)" "w_packed w ! ?j = (pk, n)" "n \<noteq> 0" by (auto simp: get_packed_def get_cell_Some)
    from live_cells_split [OF j] obtain L where L: "live_cells (w_packed w) = add_mset pk L"
      "\<And>m. live_cells ((w_packed w)[?j := (pk, m)]) = (if m = 0 then L else add_mset pk L)" by metis
    have "snd ((w_packed w)[?j := (pk, 0)] ! k) = 0" if "k < length (w_packed w)" for k
      using cnt [rule_format, of k] Some that by (cases "k = ?j") (auto simp: open_ref_def)
    then have "live_cells ((w_packed w)[?j := (pk, 0)]) = {#}" by (intro live_cells_empty) simp
    with L(2) [of 0] L(1) g(2) Some show ?thesis by simp
  qed
  moreover have "ps_pages_in_use (sh_stats (w_shared w)) = of_nat (size (pool_buffers (live_cells (w_packed w))))"
    using life by (auto simp: pool_life_some pool_owned_def pool_inv_def)
  ultimately show ?thesis by (simp split: option.split)
qed

text \<open>When the pool is dropped after the last handle, memory is as before.\<close>

lemma shares_pool_drop:
  assumes "shares h0 base cp w {#}"
  shows "\<exists>w'. chunk_pool_drop cp w = Some w' \<and> w_heap w' = h0 \<and> w_tenants w' = w_tenants w"
proof -
  from chunk_pool_drop_inv [OF sharesD(1) [OF assms]] obtain w' where
    w': "chunk_pool_drop cp w = Some w'" "chunk_inv h0 None 0 w' {#}" "same_handles w w'" by blast
  then have "live_cells (w_chunks w') = {#}" using shares_no_cells [OF assms] by (simp add: same_handles_def)
  from chunk_inv_end [OF w'(2) this] w' show ?thesis by (simp add: same_handles_def)
qed

text \<open>A new tenant before the first allocation.\<close>

lemma shares_new_tenant:
  assumes sh: "shares h0 base cp w {#}" and w': "w' = w\<lparr>w_tenants := tab\<rparr>"
  shows "shares h0 tab cp w' {#}"
proof -
  have "core_inv h0 pp opn k w' C = core_inv h0 pp opn k w C" for pp opn k C by (rule core_inv_cong) (simp_all add: w')
  moreover have "chunk_claims w' {#} = chunk_claims w {#}" by (rule chunk_claims_cong) (simp add: w')
  ultimately have "chunk_inv h0 (Some cp) 0 w' {#}" using sharesD(1) [OF sh] by (simp add: chunk_inv_def w')
  moreover have "chunk_accounts tab w' {#}"
    using sharesD(2) [OF sh] shares_no_cells [OF sh] by (simp add: chunk_accounts_def chunk_charged_def chunk_charges_def w')
  moreover have "chunk_refs c w' = chunk_refs c w" for c by (simp add: chunk_refs_def w')
  ultimately show ?thesis using sharesD(3) [OF sh] by (simp add: shares_def)
qed

lemma from_pool_shares:
  assumes "pool_life (w_heap w0) (Some pp) 0 w {#}" and "w_packed w = []" and "w_chunks w = []"
    and "unat (sh_page_size (w_shared w)) \<le> 2 ^ 32" and fp: "from_pool pp w = (cp, w')"
  shows "shares (w_heap w0) (w_tenants w) cp w' {#}"
proof -
  have "w_chunks w' = []" using fp assms(3) by (auto simp: from_pool_def)
  then show ?thesis
    using from_pool_inv [OF assms(1,4,2,3) fp] from_pool_accounts [OF assms(3) fp] by (simp add: shares_def chunk_refs_def)
qed

text \<open>A pool made by \<open>ChunkPool::with_capacity\<close> starts without handles.\<close>

lemma with_capacity_shares:
  assumes new: "chunk_with_capacity ga ps n w = Some (Inr cp, w')" and none: "w_packed w = []" "w_chunks w = []"
    and sz: "unat ps \<le> 2 ^ 32"
  shows "shares (w_heap w) (w_tenants w) cp w' {#}"
proof -
  from new obtain pp w2 where wc: "with_capacity ga ps n w = Some (Inr pp, w2)" and fp: "from_pool pp w2 = (cp, w')"
    by (auto simp: chunk_with_capacity_def split: Option.bind_split_asm sum.split_asm prod.split_asm)
  from wc obtain pp1 w1 where np: "page_pool_new ga ps w = (Inr pp1, w1)" and pre: "prewarm n pp1 w1 = Some (Inr (), pp, w2)"
    by (auto simp: with_capacity_def split: Option.bind_split_asm sum.split_asm prod.split_asm)
  have src: "page_source_contract (heap_vtable ga \<lparr>hs_page_size = ps, hs_layout = \<lparr>l_size = ps, l_align = 8\<rparr>\<rparr>)"
    by (rule heap_src.page_source_contract_axioms)
  have ws: "with_source (heap_vtable ga \<lparr>hs_page_size = ps, hs_layout = \<lparr>l_size = ps, l_align = 8\<rparr>\<rparr>) w = (Inr pp1, w1)"
    using np by (auto simp: page_pool_new_def heap_source_new_eq split: if_splits)
  have w1: "w_packed w1 = w_packed w" "w_chunks w1 = w_chunks w" "w_tenants w1 = w_tenants w" "sh_page_size (w_shared w1) = ps"
    using ws by (auto simp: with_source_def Let_def heap_vtable_def split: if_splits)
  from pool_life_prewarm [OF pool_life_new [OF src ws], of n] pre have
    life: "pool_life (w_heap w) (Some pp) 0 w2 {#}" and fr: "pool_frame w1 w2" by auto
  have w2: "w_packed w2 = []" "w_chunks w2 = []" "w_tenants w2 = w_tenants w" "sh_page_size (w_shared w2) = ps"
    using pool_frame_handles [OF fr] pool_frame_packed [OF fr] fr w1 none by (simp_all add: same_handles_def pool_frame_def)
  show ?thesis using from_pool_shares [OF life w2(1,2) _ fp] w2(3,4) sz by simp
qed

lemma chunk_new_shares:
  assumes "w_packed w = []" and "w_chunks w = []"
  obtains cp w' where "chunk_new ga w = (Inr cp, w')" and "shares (w_heap w) (w_tenants w) cp w' {#}" and "w_tenants w' = w_tenants w"
proof -
  let ?src = "heap_vtable ga \<lparr>hs_page_size = default_page_size, hs_layout = \<lparr>l_size = default_page_size, l_align = 8\<rparr>\<rparr>"
  have new: "page_pool_new ga default_page_size w = with_source ?src w"
    by (simp add: page_pool_new_def heap_source_new_eq isize_max_def default_page_size_def)
  have ct: "page_source_contract ?src" by (rule heap_src.page_source_contract_axioms)
  obtain pp w1 where ws: "with_source ?src w = (Inr pp, w1)"
    by (auto simp: with_source_def Let_def heap_vtable_def ptr_size_def default_page_size_def)
  have w1: "w_packed w1 = []" "w_chunks w1 = []" "w_tenants w1 = w_tenants w" "sh_page_size (w_shared w1) = default_page_size"
    using ws assms by (auto simp: with_source_def Let_def heap_vtable_def split: if_splits)
  obtain cp w' where fp: "from_pool pp w1 = (cp, w')" by fastforce
  have "unat (sh_page_size (w_shared w1)) \<le> 2 ^ 32" using w1(4) by (simp add: default_page_size_def)
  from from_pool_shares [OF pool_life_new [OF ct ws] w1(1,2) this fp] w1(3)
  have "shares (w_heap w) (w_tenants w) cp w' {#}" by simp
  moreover have "w_tenants w' = w_tenants w" using fp w1(3) by (auto simp: from_pool_def)
  ultimately show thesis using that new ws fp by (simp add: chunk_new_def chunk_with_page_size_def)
qed

end
