(* ===== verification/Append_Log.thy ===== *)
theory Append_Log
  imports Chunk_Shares "HOL-Library.AList"
begin

text \<open>
  \<open>examples/append_log.rs\<close>: a writer thread that owns a chunk pool and publishes records in a shared index,
  and reader threads that look records up, clone their chunks, read them and drop the clones. The threads
  are interleaved: a step is an iteration's access to shared data, the index under its lock. The program
  stops when an allocation fails, as the process does. The counter \<open>lsn\<close> wraps after \<open>2 ^ 64\<close> records, as in a build
  without overflow checks.
\<close>

section \<open>The program\<close>

definition lcg :: "u64 \<Rightarrow> u64" where
  "lcg s = s * 6364136223846793005 + 1442695040888963407"

definition avg_record_size :: usize where
  "avg_record_size = 256"

definition record_size_jitter :: usize where
  "record_size_jitter = 192"

definition record_size :: "u64 \<Rightarrow> usize" where
  "record_size rng = avg_record_size - record_size_jitter + rng mod (2 * record_size_jitter + 1)"

definition writer_seed :: u64 where
  "writer_seed = 0xC6BC279692B5C323"

text \<open>The closure of the writer, and what it leaves in a buffer of \<open>n\<close> bytes.\<close>

definition record_bytes :: "u64 \<Rightarrow> nat \<Rightarrow> u8 list" where
  "record_bytes lsn n = map (\<lambda>i. ucast ((of_nat i :: u64) XOR lsn)) [0..<n]"

definition fill_record :: "u64 \<Rightarrow> unit init" where
  "fill_record lsn buf = (record_bytes lsn (length buf), Some ())"

text \<open>\<open>BTreeMap<Lsn, Chunk>\<close>; \<open>insert\<close> returns the value it replaces, which the writer drops.\<close>

type_synonym log_index = "(u64 \<times> chunk) list"

definition log_insert :: "u64 \<Rightarrow> chunk \<Rightarrow> log_index \<Rightarrow> chunk option \<times> log_index" where
  "log_insert lsn c m = (map_of m lsn, AList.update lsn c m)"

datatype writer_pc =
    WriterLoop
  | WriterInsert chunk
  | WriterStore
  | WriterDone
  | WriterAborted panic

datatype reader_pc =
    ReaderLoop
  | ReaderLoad
  | ReaderGet u64
  | ReaderRead u64 chunk
  | ReaderDrop chunk
  | ReaderDone

record log_reader =
  rd_pc :: reader_pc
  rd_rng :: u64
  rd_reads :: u64
  rd_bytes :: u64
  rd_checksum :: u64

definition reader_new :: "u64 \<Rightarrow> log_reader" where
  "reader_new reader_id = \<lparr>rd_pc = ReaderLoop, rd_rng = reader_id * 0x9E3779B97F4A7C15 + 0xFEEDBEEFDEADC0DE,
     rd_reads = 0, rd_bytes = 0, rd_checksum = 0\<rparr>"

text \<open>\<open>lg_log\<close> is \<open>None\<close> once \<open>main\<close> has dropped the index.\<close>

record log_state =
  lg_pool :: chunk_pool
  lg_world :: chunk_world
  lg_log :: "log_index option"
  lg_high_water :: u64
  lg_running :: bool
  lg_writer :: writer_pc
  lg_lsn :: u64
  lg_rng :: u64
  lg_readers :: "log_reader list"

definition log_start :: "nat \<Rightarrow> chunk_pool \<Rightarrow> chunk_world \<Rightarrow> log_state" where
  "log_start num_readers cp w = \<lparr>lg_pool = cp, lg_world = w, lg_log = Some [], lg_high_water = 0, lg_running = True,
     lg_writer = WriterLoop, lg_lsn = 0, lg_rng = writer_seed,
     lg_readers = map (\<lambda>i. reader_new (of_nat i)) [0..<num_readers]\<rparr>"

definition writer_step :: "placement \<Rightarrow> tenant \<Rightarrow> log_state \<Rightarrow> log_state option" where
  "writer_step ga tenant s =
     (case lg_writer s of
        WriterLoop \<Rightarrow>
          if \<not> lg_running s then Some (s\<lparr>lg_writer := WriterDone\<rparr>)
          else do {
            let rng = lcg (lg_rng s);
            let sz = record_size rng;
            (r, cp, w) \<leftarrow> chunk_alloc_with ga tenant sz (fill_record (lg_lsn s)) (lg_pool s) (lg_world s);
            Some (s\<lparr>lg_rng := rng, lg_pool := cp, lg_world := w,
              lg_writer := (case r of Inl e \<Rightarrow> WriterAborted e | Inr c \<Rightarrow> WriterInsert c)\<rparr>)
          }
      | WriterInsert c \<Rightarrow> do {
          m \<leftarrow> lg_log s;
          let (old, m) = log_insert (lg_lsn s) c m;
          w \<leftarrow> (case old of None \<Rightarrow> Some (lg_world s) | Some d \<Rightarrow> chunk_drop d (lg_world s));
          Some (s\<lparr>lg_log := Some m, lg_world := w, lg_writer := WriterStore\<rparr>)
        }
      | WriterStore \<Rightarrow> Some (s\<lparr>lg_high_water := lg_lsn s, lg_lsn := lg_lsn s + 1, lg_writer := WriterLoop\<rparr>)
      | WriterDone \<Rightarrow> Some s
      | WriterAborted e \<Rightarrow> Some s)"

definition sum_bytes :: "u8 list \<Rightarrow> u64" where
  "sum_bytes bs = foldl (\<lambda>s b. s + ucast b) 0 bs"

definition reader_step :: "log_state \<Rightarrow> log_reader \<Rightarrow> (log_reader \<times> chunk_world) option" where
  "reader_step s rd =
     (case rd_pc rd of
        ReaderLoop \<Rightarrow> Some (rd\<lparr>rd_pc := (if lg_running s then ReaderLoad else ReaderDone)\<rparr>, lg_world s)
      | ReaderLoad \<Rightarrow>
          let hw = lg_high_water s
          in if hw = 0 then Some (rd\<lparr>rd_pc := ReaderLoop\<rparr>, lg_world s)
             else let rng = lcg (rd_rng rd)
               in Some (rd\<lparr>rd_rng := rng, rd_pc := ReaderGet (rng mod hw)\<rparr>, lg_world s)
      | ReaderGet target \<Rightarrow> do {
          m \<leftarrow> lg_log s;
          (case map_of m target of
             None \<Rightarrow> Some (rd\<lparr>rd_pc := ReaderLoop\<rparr>, lg_world s)
           | Some c \<Rightarrow> do {
               (c, w) \<leftarrow> chunk_clone c (lg_world s);
               Some (rd\<lparr>rd_pc := ReaderRead target c\<rparr>, w)
             })
        }
      | ReaderRead target c \<Rightarrow> do {
          bs \<leftarrow> chunk_as_slice c (lg_world s);
          len \<leftarrow> chunk_len c (lg_world s);
          Some (rd\<lparr>rd_checksum := rd_checksum rd + sum_bytes bs, rd_reads := rd_reads rd + 1,
            rd_bytes := rd_bytes rd + len, rd_pc := ReaderDrop c\<rparr>, lg_world s)
        }
      | ReaderDrop c \<Rightarrow> do {
          w \<leftarrow> chunk_drop c (lg_world s);
          Some (rd\<lparr>rd_pc := ReaderLoop\<rparr>, w)
        }
      | ReaderDone \<Rightarrow> Some (rd, lg_world s))"

text \<open>\<open>main\<close> clears the flag, joins the threads and drops the index.\<close>

datatype log_event = WriterStep | ReaderStep nat | StopAll | DropLog

fun log_allowed :: "log_event \<Rightarrow> log_state \<Rightarrow> bool" where
  "log_allowed WriterStep s = True"
| "log_allowed (ReaderStep i) s = (i < length (lg_readers s))"
| "log_allowed StopAll s = True"
| "log_allowed DropLog s = (lg_log s \<noteq> None \<and> lg_writer s = WriterDone
     \<and> (\<forall>rd \<in> set (lg_readers s). rd_pc rd = ReaderDone))"

fun log_step :: "placement \<Rightarrow> tenant \<Rightarrow> log_event \<Rightarrow> log_state \<Rightarrow> log_state option" where
  "log_step ga tenant WriterStep s = writer_step ga tenant s"
| "log_step ga tenant (ReaderStep i) s = do {
     (rd, w) \<leftarrow> reader_step s (lg_readers s ! i);
     Some (s\<lparr>lg_readers := (lg_readers s)[i := rd], lg_world := w\<rparr>)
   }"
| "log_step ga tenant StopAll s = Some (s\<lparr>lg_running := False\<rparr>)"
| "log_step ga tenant DropLog s = do {
     m \<leftarrow> lg_log s;
     w \<leftarrow> drop_all (map snd m) (lg_world s);
     Some (s\<lparr>lg_log := None, lg_world := w\<rparr>)
   }"

abbreviation log_run :: "placement \<Rightarrow> tenant \<Rightarrow> log_state \<Rightarrow> log_event list \<Rightarrow> log_state \<Rightarrow> bool" where
  "log_run ga tenant \<equiv> run log_allowed (log_step ga tenant)"

section \<open>The invariant\<close>

text \<open>The handles of the index, of the writer and of the readers.\<close>

fun writer_handles :: "writer_pc \<Rightarrow> chunk multiset" where
  "writer_handles (WriterInsert c) = {#c#}"
| "writer_handles _ = {#}"

fun reader_handles :: "reader_pc \<Rightarrow> chunk multiset" where
  "reader_handles (ReaderRead target c) = {#c#}"
| "reader_handles (ReaderDrop c) = {#c#}"
| "reader_handles _ = {#}"

definition log_entries :: "log_state \<Rightarrow> log_index" where
  "log_entries s = (case lg_log s of None \<Rightarrow> [] | Some m \<Rightarrow> m)"

definition log_handles :: "log_state \<Rightarrow> chunk multiset" where
  "log_handles s = mset (map snd (log_entries s)) + writer_handles (lg_writer s)
     + tally (reader_handles \<circ> rd_pc) (lg_readers s)"

text \<open>The size that the writer draws for the record \<open>lsn\<close>: the generator has made one step for it and one for each
  record before. A chunk that shows this record.\<close>

definition record_len :: "u64 \<Rightarrow> nat" where
  "record_len lsn = unat (record_size ((lcg ^^ Suc (unat lsn)) writer_seed))"

definition is_record :: "chunk_world \<Rightarrow> u64 \<Rightarrow> chunk \<Rightarrow> bool" where
  "is_record w lsn c \<longleftrightarrow> chunk_as_slice c w = Some (record_bytes lsn (record_len lsn))"

definition writer_draws :: "log_state \<Rightarrow> bool" where
  "writer_draws s \<longleftrightarrow> (case lg_writer s of
       WriterLoop \<Rightarrow> lg_rng s = (lcg ^^ unat (lg_lsn s)) writer_seed
     | WriterStore \<Rightarrow> lg_rng s = (lcg ^^ Suc (unat (lg_lsn s))) writer_seed
     | WriterInsert c \<Rightarrow> lg_rng s = (lcg ^^ Suc (unat (lg_lsn s))) writer_seed
     | _ \<Rightarrow> True)"

definition has_lsn :: "log_state \<Rightarrow> u64 \<Rightarrow> bool" where
  "has_lsn s lsn \<longleftrightarrow> lsn \<in> fst ` set (log_entries s)"

fun writer_ok :: "log_state \<Rightarrow> writer_pc \<Rightarrow> bool" where
  "writer_ok s (WriterInsert c) = is_record (lg_world s) (lg_lsn s) c"
| "writer_ok s WriterStore = has_lsn s (lg_lsn s)"
| "writer_ok s _ = True"

fun reader_ok :: "log_state \<Rightarrow> reader_pc \<Rightarrow> bool" where
  "reader_ok s (ReaderGet target) = has_lsn s target"
| "reader_ok s (ReaderRead target c) = is_record (lg_world s) target c"
| "reader_ok s _ = True"

definition log_ok :: "log_state \<Rightarrow> bool" where
  "log_ok s \<longleftrightarrow>
     distinct (map fst (log_entries s)) \<and>
     (\<forall>(l, c) \<in> set (log_entries s). is_record (lg_world s) l c) \<and>
     writer_ok s (lg_writer s) \<and>
     (\<forall>rd \<in> set (lg_readers s). reader_ok s (rd_pc rd)) \<and>
     (if lg_log s = None then lg_writer s = WriterDone \<and> (\<forall>rd \<in> set (lg_readers s). rd_pc rd = ReaderDone)
      else (\<forall>l < lg_lsn s. has_lsn s l) \<and> (\<forall>l < lg_high_water s. has_lsn s l))"

definition log_inv :: "heap \<Rightarrow> stats_table \<Rightarrow> log_state \<Rightarrow> bool" where
  "log_inv h0 base s \<longleftrightarrow> shares h0 base (lg_pool s) (lg_world s) (log_handles s) \<and> log_ok s \<and> writer_draws s"

section \<open>Lemmas\<close>

lemma record_size_bounds: "64 \<le> unat (record_size rng)" "unat (record_size rng) \<le> 448"
proof -
  have "unat (rng mod 385) = unat rng mod 385" by (simp add: unat_mod_distrib)
  then have m: "unat (rng mod 385) < 385" by simp
  have "record_size rng = 64 + rng mod 385"
    by (simp add: record_size_def avg_record_size_def record_size_jitter_def)
  moreover have "unat (64 + rng mod 385) = 64 + unat (rng mod 385)"
    using m by (subst unat_add_lem [THEN iffD1]) auto
  ultimately show "64 \<le> unat (record_size rng)" "unat (record_size rng) \<le> 448" using m by auto
qed

lemma record_len_bounds: "64 \<le> record_len l" "record_len l \<le> 448"
  by (simp_all add: record_len_def record_size_bounds)

text \<open>The generator has a period that divides \<open>2 ^ 64\<close>, so that a record number that comes around again gets the same
  size. Its \<open>2 ^ k\<close>-fold iteration is affine, with a factor that is one and a summand that is zero modulo \<open>2 ^ k\<close>.\<close>

lemma lcg_power: "\<exists>u v. \<forall>x. (lcg ^^ (2 ^ k)) x = (1 + 2 ^ Suc k * u) * x + 2 ^ k * v"
proof (induction k)
  case 0
  have "lcg x = (1 + 2 * 3182068111923396502) * x + 1442695040888963407" for x by (simp add: lcg_def mult.commute)
  then show ?case by (intro exI [of _ 3182068111923396502] exI [of _ 1442695040888963407]) simp
next
  case (Suc k)
  then obtain u v where uv: "\<And>x. (lcg ^^ (2 ^ k)) x = (1 + 2 ^ Suc k * u) * x + 2 ^ k * v" by blast
  have "(lcg ^^ (2 ^ Suc k)) x = (1 + 2 ^ Suc (Suc k) * (u + 2 ^ k * u * u)) * x + 2 ^ Suc k * (v + 2 ^ k * u * v)" for x
  proof -
    have "(lcg ^^ (2 ^ Suc k)) x = (lcg ^^ (2 ^ k)) ((lcg ^^ (2 ^ k)) x)" by (simp add: funpow_add mult_2)
    then show ?thesis by (simp add: uv algebra_simps)
  qed
  then show ?case by blast
qed

lemma lcg_period: "(lcg ^^ (2 ^ 64)) s = s"
proof -
  have z: "(2 :: u64) ^ 64 = 0" by simp
  obtain u v where e: "\<And>x. (lcg ^^ (2 ^ 64)) x = (1 + 2 ^ Suc 64 * u) * x + 2 ^ 64 * v" using lcg_power [of 64] by blast
  show ?thesis unfolding e power_Suc z by simp
qed

lemma lcg_next: "(lcg ^^ Suc (unat (l :: u64))) s = (lcg ^^ unat (l + 1)) s"
proof (cases "Suc (unat l) < 2 ^ 64")
  case True
  then have "unat (l + 1) = Suc (unat l)" using unat_add_usize [of l 1] by simp
  then show ?thesis by simp
next
  case False
  moreover have "unat l < 2 ^ 64" by simp
  ultimately have m: "Suc (unat l) = 2 ^ 64" by linarith
  then have "unat (l + 1) = 0" by (simp add: unat_word_ariths)
  then show ?thesis unfolding m lcg_period by simp
qed

lemma fill_record_simps [simp]: "keeps_length (fill_record lsn)" "snd (fill_record lsn bs) = Some ()"
  "fst (fill_record lsn bs) = record_bytes lsn (length bs)"
  by (simp_all add: keeps_length_def fill_record_def record_bytes_def)

lemma log_insert_fresh:
  "map_of m l = None \<Longrightarrow> mset (map snd (AList.update l c m)) = add_mset c (mset (map snd m))"
  by (induction m) auto

lemma log_insert_old:
  "map_of m l = Some d \<Longrightarrow> add_mset d (mset (map snd (AList.update l c m))) = add_mset c (mset (map snd m))"
  by (induction m) (auto split: if_splits)

lemma keys_update: "fst ` set (AList.update l c m) = insert l (fst ` set m)"
  by (induction m) auto

lemma set_update_alist:
  "x \<in> set (AList.update l c m) \<Longrightarrow> x = (l, c) \<or> x \<in> set m"
  by (induction m) (auto split: if_splits)

lemma is_record_stable:
  "is_record w l c \<Longrightarrow> chunks_stable w w' \<Longrightarrow> shares h0 base cp w' H \<Longrightarrow> c \<in># H \<Longrightarrow> is_record w' l c"
  unfolding is_record_def using shares_stable by metis

text \<open>What is known of the records survives every step of the chunk layer.\<close>

lemma log_ok_moved:
  assumes ok: "log_ok (s\<lparr>lg_world := w\<rparr>)" and st: "chunks_stable w (lg_world s)"
    and sh: "shares h0 base cp (lg_world s) H" and H: "log_handles s \<subseteq># H"
  shows "log_ok s"
proof -
  have mv: "is_record (lg_world s) l c" if "is_record w l c" "c \<in># log_handles s" for l c
    using is_record_stable [OF that(1) st sh] mset_subset_eqD [OF H that(2)] by blast
  have ent: "log_entries (s\<lparr>lg_world := w\<rparr>) = log_entries s" by (simp add: log_entries_def)
  then have has: "has_lsn (s\<lparr>lg_world := w\<rparr>) l = has_lsn s l" for l by (simp add: has_lsn_def)
  have "is_record (lg_world s) l c" if "(l, c) \<in> set (log_entries s)" for l c
    using ok that by (intro mv) (force simp: log_ok_def ent log_handles_def)+
  moreover have "writer_ok s (lg_writer s)"
    using ok by (cases "lg_writer s") (auto simp: log_ok_def has log_handles_def intro: mv)
  moreover have "reader_ok s (rd_pc rd)" if "rd \<in> set (lg_readers s)" for rd
  proof -
    have "reader_ok (s\<lparr>lg_world := w\<rparr>) (rd_pc rd)" using ok that by (simp add: log_ok_def)
    moreover have "c \<in># log_handles s" if "c \<in># reader_handles (rd_pc rd)" for c
      using tally_mem [of rd "lg_readers s" c "reader_handles \<circ> rd_pc"] that \<open>rd \<in> set (lg_readers s)\<close>
      by (simp add: log_handles_def)
    ultimately show ?thesis by (cases "rd_pc rd") (auto simp: has intro: mv)
  qed
  ultimately show ?thesis using ok by (auto simp: log_ok_def ent has)
qed

lemma log_invI:
  assumes "log_ok (s\<lparr>lg_world := w\<rparr>)" and "chunks_stable w (lg_world s)"
    and "shares h0 base (lg_pool s) (lg_world s) (log_handles s)" and "writer_draws s"
  shows "log_inv h0 base s"
  using log_ok_moved [OF assms(1-3)] assms(3,4) by (simp add: log_inv_def)

subsection \<open>Readers\<close>

lemma log_reader_ok:
  assumes ok: "log_ok s" and i: "i < length (lg_readers s)" and rd: "reader_ok s (rd_pc rd)"
    and fin: "lg_log s = None \<Longrightarrow> rd_pc rd = ReaderDone"
  shows "log_ok (s\<lparr>lg_readers := (lg_readers s)[i := rd]\<rparr>)"
proof -
  let ?s = "s\<lparr>lg_readers := (lg_readers s)[i := rd]\<rparr>"
  have ent: "log_entries ?s = log_entries s" by (simp add: log_entries_def)
  then have has: "has_lsn ?s l = has_lsn s l" for l by (simp add: has_lsn_def)
  have set: "x = rd \<or> x \<in> set (lg_readers s)" if "x \<in> set ((lg_readers s)[i := rd])" for x
    using that set_update_nth [OF i] set_remove_nth_subset by fastforce
  have w: "writer_ok ?s pc = writer_ok s pc" for pc by (cases pc) (simp_all add: has)
  have r: "reader_ok ?s pc = reader_ok s pc" for pc by (cases pc) (simp_all add: has)
  have fin': "rd_pc x = ReaderDone" if "lg_log s = None" "x \<in> set ((lg_readers s)[i := rd])" for x
    using set [OF that(2)] fin [OF that(1)] ok that(1) by (auto simp: log_ok_def)
  show ?thesis using ok rd set fin' unfolding log_ok_def by (auto simp: ent has w r)
qed

lemma log_handles_reader:
  assumes "i < length (lg_readers s)"
  obtains R where "log_handles s = reader_handles (rd_pc (lg_readers s ! i)) + R"
    and "\<And>rd w. log_handles (s\<lparr>lg_readers := (lg_readers s)[i := rd], lg_world := w\<rparr>) = reader_handles (rd_pc rd) + R"
proof
  let ?R = "mset (map snd (log_entries s)) + writer_handles (lg_writer s)
    + tally (reader_handles \<circ> rd_pc) (remove_nth i (lg_readers s))"
  note tot = tally_update [OF assms, of "reader_handles \<circ> rd_pc"]
  show "log_handles s = reader_handles (rd_pc (lg_readers s ! i)) + ?R" using tot(1) by (simp add: log_handles_def)
  show "log_handles (s\<lparr>lg_readers := (lg_readers s)[i := rd], lg_world := w\<rparr>) = reader_handles (rd_pc rd) + ?R" for rd w
    using tot(2) [of rd] by (simp add: log_handles_def log_entries_def)
qed

text \<open>A step of a reader: it ends with the handle it has, a new one or none, and its record is still right.\<close>

lemma log_reader_step:
  assumes inv: "log_inv h0 base s" and i: "i < length (lg_readers s)"
    and st: "reader_step s (lg_readers s ! i) = Some (rd, w)" and stable: "chunks_stable (lg_world s) w"
    and sh: "\<And>R. log_handles s = reader_handles (rd_pc (lg_readers s ! i)) + R \<Longrightarrow>
      shares h0 base (lg_pool s) w (reader_handles (rd_pc rd) + R)"
    and rd: "reader_ok s (rd_pc rd)" "lg_log s = None \<Longrightarrow> rd_pc rd = ReaderDone"
  shows "\<exists>s'. log_step ga t (ReaderStep i) s = Some s' \<and> log_inv h0 base s'"
proof -
  let ?s = "s\<lparr>lg_readers := (lg_readers s)[i := rd], lg_world := w\<rparr>"
  from i obtain R where R: "log_handles s = reader_handles (rd_pc (lg_readers s ! i)) + R"
    "log_handles ?s = reader_handles (rd_pc rd) + R" by (rule log_handles_reader) blast
  have "?s\<lparr>lg_world := lg_world s\<rparr> = s\<lparr>lg_readers := (lg_readers s)[i := rd]\<rparr>" by simp
  then have "log_ok (?s\<lparr>lg_world := lg_world s\<rparr>)" using log_reader_ok [OF _ i rd] inv by (simp add: log_inv_def)
  moreover have "writer_draws ?s" using inv by (simp add: log_inv_def writer_draws_def cong: writer_pc.case_cong)
  ultimately have "log_inv h0 base ?s" using log_invI [where s = ?s and w = "lg_world s"] stable sh [OF R(1)] R(2) by simp
  with st show ?thesis by simp
qed

lemma log_step_reader:
  assumes inv: "log_inv h0 base s" and i: "i < length (lg_readers s)"
  shows "\<exists>s'. log_step ga t (ReaderStep i) s = Some s' \<and> log_inv h0 base s'"
proof -
  let ?rd = "lg_readers s ! i" and ?w = "lg_world s"
  have sh: "shares h0 base (lg_pool s) ?w (log_handles s)" and ok: "log_ok s" using inv by (simp_all add: log_inv_def)
  have rd: "reader_ok s (rd_pc ?rd)" and fin: "lg_log s = None \<Longrightarrow> rd_pc ?rd = ReaderDone"
    using ok i by (auto simp: log_ok_def)
  note step = log_reader_step [OF inv i] and refl = chunks_stable_refl
  from i obtain R where R: "log_handles s = reader_handles (rd_pc ?rd) + R" by (rule log_handles_reader)
  show ?thesis
  proof (cases "rd_pc ?rd")
    case ReaderLoop
    with sh fin refl show ?thesis by (intro step) (auto simp: reader_step_def)
  next
    case ReaderLoad
    have "has_lsn s (lcg (rd_rng ?rd) mod lg_high_water s)" if "lg_high_water s \<noteq> 0"
    proof -
      have "lcg (rd_rng ?rd) mod lg_high_water s < lg_high_water s" using that by (simp add: word_mod_less_divisor word_gt_0)
      then show ?thesis using ok fin ReaderLoad by (auto simp: log_ok_def split: if_splits)
    qed
    with ReaderLoad sh fin refl show ?thesis
      by (cases "lg_high_water s = 0"; intro step) (auto simp: reader_step_def Let_def)
  next
    case (ReaderGet target)
    with fin obtain m where m: "lg_log s = Some m" by (cases "lg_log s") auto
    with rd ReaderGet have "target \<in> fst ` set m" by (simp add: has_lsn_def log_entries_def)
    then obtain c where c: "map_of m target = Some c" by (metis map_of_eq_None_iff not_Some_eq)
    then have mem: "(target, c) \<in> set m" by (rule map_of_SomeD)
    then have "c \<in># log_handles s" using m by (force simp: log_handles_def log_entries_def)
    from shares_clone [OF sh this] obtain w' where w': "chunk_clone c ?w = Some (c, w')"
      "shares h0 base (lg_pool s) w' (add_mset c (log_handles s))" "chunks_stable ?w w'" by blast
    have "is_record ?w target c" using ok mem m by (auto simp: log_ok_def log_entries_def)
    with ReaderGet m c w' show ?thesis
      by (intro step [where w = w']) (auto simp: reader_step_def)
  next
    case (ReaderRead target c)
    then have "c \<in># log_handles s" using R by simp
    from shares_read [OF sh this] obtain bs where
      "chunk_as_slice c ?w = Some bs" "chunk_len c ?w = Some (of_nat (length bs))" by blast
    with ReaderRead sh fin refl show ?thesis by (intro step) (auto simp: reader_step_def)
  next
    case (ReaderDrop c)
    then have "shares h0 base (lg_pool s) ?w (add_mset c R)" using sh R by simp
    from shares_drop [OF this] obtain w' where w': "chunk_drop c ?w = Some w'"
      "shares h0 base (lg_pool s) w' R" "chunks_stable ?w w'" by blast
    with ReaderDrop R fin show ?thesis by (intro step [where w = w']) (auto simp: reader_step_def)
  next
    case ReaderDone
    with sh refl show ?thesis by (intro step [where w = ?w]) (auto simp: reader_step_def)
  qed
qed

subsection \<open>The writer and the main thread\<close>

lemma log_ok_cong:
  assumes "lg_log s' = lg_log s" and "lg_world s' = lg_world s" and "lg_writer s' = lg_writer s"
    and "lg_readers s' = lg_readers s" and "lg_lsn s' = lg_lsn s" and "lg_high_water s' = lg_high_water s"
  shows "log_ok s' = log_ok s"
proof -
  have ent: "log_entries s' = log_entries s" by (simp add: log_entries_def assms)
  then have has: "has_lsn s' l = has_lsn s l" for l by (simp add: has_lsn_def)
  have "writer_ok s' pc = writer_ok s pc" for pc by (cases pc) (simp_all add: has assms)
  moreover have "reader_ok s' pc = reader_ok s pc" for pc by (cases pc) (simp_all add: has assms)
  ultimately show ?thesis by (simp add: log_ok_def ent has assms)
qed

lemma log_writer_ok:
  assumes ok: "log_ok s" and pc: "writer_ok s pc" and fin: "lg_log s = None \<Longrightarrow> pc = WriterDone"
  shows "log_ok (s\<lparr>lg_writer := pc\<rparr>)"
proof -
  let ?s = "s\<lparr>lg_writer := pc\<rparr>"
  have ent: "log_entries ?s = log_entries s" by (simp add: log_entries_def)
  then have has: "has_lsn ?s l = has_lsn s l" for l by (simp add: has_lsn_def)
  have "writer_ok ?s p = writer_ok s p" for p by (cases p) (simp_all add: has)
  moreover have "reader_ok ?s p = reader_ok s p" for p by (cases p) (simp_all add: has)
  ultimately show ?thesis using ok pc fin by (auto simp: log_ok_def ent has)
qed

lemma log_writer_alloc:
  assumes inv: "log_inv h0 base s" and pc: "lg_writer s = WriterLoop" and run: "lg_running s"
  shows "\<exists>s'. log_step ga t WriterStep s = Some s' \<and> log_inv h0 base s'"
proof -
  let ?g = "lcg (lg_rng s)"
  have sh: "shares h0 base (lg_pool s) (lg_world s) (log_handles s)" and ok: "log_ok s" using inv by (simp_all add: log_inv_def)
  have live: "lg_log s \<noteq> None" using ok pc by (auto simp: log_ok_def split: if_splits)
  have sz: "unat (record_size ?g) < 2 ^ 32" using record_size_bounds(2) [of ?g] by simp
  from shares_alloc_with [OF sh fill_record_simps(1) [of "lg_lsn s"] fill_record_simps(2) sz, where ga = ga and t = t] obtain r cp w where
    al: "chunk_alloc_with ga t (record_size ?g) (fill_record (lg_lsn s)) (lg_pool s) (lg_world s) = Some (r, cp, w)"
    and st: "chunks_stable (lg_world s) w"
    and res: "case r of Inl e \<Rightarrow> shares h0 base cp w (log_handles s)
      | Inr c \<Rightarrow> shares h0 base cp w (add_mset c (log_handles s))
         \<and> (\<exists>X. length X = unat (record_size ?g) \<and> chunk_as_slice c w = Some (fst (fill_record (lg_lsn s) X)))" by blast
  let ?pc = "case r of Inl e \<Rightarrow> WriterAborted e | Inr c \<Rightarrow> WriterInsert c"
  let ?s0 = "s\<lparr>lg_rng := ?g, lg_pool := cp, lg_world := w\<rparr>"
  have H: "log_handles ?s0 = log_handles s" "log_handles (?s0\<lparr>lg_writer := ?pc\<rparr>) = log_handles s + writer_handles ?pc"
    using pc by (simp_all add: log_handles_def log_entries_def)
  have shp: "shares h0 base cp w (log_handles s + writer_handles ?pc)" using res by (cases r) auto
  have "log_ok (?s0\<lparr>lg_world := lg_world s\<rparr>)" using ok by (subst log_ok_cong [of _ s]) simp_all
  from log_ok_moved [OF this, of h0 base cp] st shp H(1) have ok0: "log_ok ?s0" by simp
  have g: "?g = (lcg ^^ Suc (unat (lg_lsn s))) writer_seed" using inv pc by (simp add: log_inv_def writer_draws_def)
  have "writer_ok ?s0 ?pc"
    using res by (cases r) (auto simp: is_record_def record_len_def g simp del: funpow.simps)
  from log_writer_ok [OF ok0 this] live have "log_ok (?s0\<lparr>lg_writer := ?pc\<rparr>)" by simp
  moreover have "writer_draws (?s0\<lparr>lg_writer := ?pc\<rparr>)"
    using g by (cases r) (simp_all add: writer_draws_def del: funpow.simps)
  ultimately have "log_inv h0 base (?s0\<lparr>lg_writer := ?pc\<rparr>)" using shp H(2) by (simp add: log_inv_def)
  with al pc run show ?thesis by (simp add: writer_step_def Let_def)
qed

lemma log_writer_insert:
  assumes inv: "log_inv h0 base s" and pc: "lg_writer s = WriterInsert c"
  shows "\<exists>s'. log_step ga t WriterStep s = Some s' \<and> log_inv h0 base s'"
proof -
  let ?l = "lg_lsn s"
  have sh: "shares h0 base (lg_pool s) (lg_world s) (log_handles s)" and ok: "log_ok s" using inv by (simp_all add: log_inv_def)
  from ok pc obtain m where m: "lg_log s = Some m" by (cases "lg_log s") (auto simp: log_ok_def)
  let ?m = "AList.update ?l c m"
  let ?T = "tally (reader_handles \<circ> rd_pc) (lg_readers s)"
  have H: "log_handles s = add_mset c (mset (map snd m)) + ?T" using pc m by (simp add: log_handles_def log_entries_def)
  have "\<exists>w. (case map_of m ?l of None \<Rightarrow> Some (lg_world s) | Some d \<Rightarrow> chunk_drop d (lg_world s)) = Some w
    \<and> shares h0 base (lg_pool s) w (mset (map snd ?m) + ?T) \<and> chunks_stable (lg_world s) w"
  proof (cases "map_of m ?l")
    case None
    then show ?thesis using sh H log_insert_fresh [OF None, of c] chunks_stable_refl by simp
  next
    case (Some d)
    have "log_handles s = add_mset d (mset (map snd ?m) + ?T)" using H log_insert_old [OF Some, of c] by simp
    with sh shares_drop [of h0 base "lg_pool s" "lg_world s" d "mset (map snd ?m) + ?T"] Some show ?thesis by auto
  qed
  then obtain w where w: "(case map_of m ?l of None \<Rightarrow> Some (lg_world s) | Some d \<Rightarrow> chunk_drop d (lg_world s)) = Some w"
    "shares h0 base (lg_pool s) w (mset (map snd ?m) + ?T)" "chunks_stable (lg_world s) w" by blast
  let ?s = "s\<lparr>lg_log := Some ?m, lg_world := w, lg_writer := WriterStore\<rparr>"
  let ?s1 = "s\<lparr>lg_log := Some ?m, lg_writer := WriterStore\<rparr>"
  have s1: "?s\<lparr>lg_world := lg_world s\<rparr> = ?s1" by simp
  have ent: "log_entries ?s1 = ?m" "log_entries s = m" by (simp_all add: log_entries_def m)
  have dom: "has_lsn ?s1 l \<longleftrightarrow> l = ?l \<or> has_lsn s l" for l
    by (simp add: has_lsn_def ent keys_update)
  have rec: "is_record (lg_world s) l d" if "(l, d) \<in> set ?m" for l d
    using set_update_alist [OF that] ok pc by (auto simp: log_ok_def ent)
  have "reader_ok ?s1 p" if "reader_ok s p" for p using that by (cases p) (auto simp: dom)
  then have "log_ok ?s1" using ok rec dom pc m
    by (auto simp: log_ok_def ent distinct_update)
  then have "log_ok (?s\<lparr>lg_world := lg_world s\<rparr>)" by (simp only: s1)
  moreover have "writer_draws ?s" using inv pc by (simp add: log_inv_def writer_draws_def)
  ultimately have "log_inv h0 base ?s" using log_invI [where s = ?s and w = "lg_world s"] w(2,3) by (simp add: log_handles_def log_entries_def)
  with w(1) m pc show ?thesis by (simp add: writer_step_def log_insert_def)
qed

lemma log_writer_store:
  assumes inv: "log_inv h0 base s" and pc: "lg_writer s = WriterStore"
  shows "\<exists>s'. log_step ga t WriterStep s = Some s' \<and> log_inv h0 base s'"
proof -
  let ?s = "s\<lparr>lg_high_water := lg_lsn s, lg_lsn := lg_lsn s + 1, lg_writer := WriterLoop\<rparr>"
  have ok: "log_ok s" using inv by (simp add: log_inv_def)
  have ent: "log_entries ?s = log_entries s" by (simp add: log_entries_def)
  then have has: "has_lsn ?s l = has_lsn s l" for l by (simp add: has_lsn_def)
  have r: "reader_ok ?s p = reader_ok s p" for p by (cases p) (simp_all add: has)
  have "has_lsn s l" if "l < lg_lsn s + 1" for l
  proof -
    have "unat (lg_lsn s + 1) \<le> Suc (unat (lg_lsn s))" by (simp add: unat_word_ariths)
    with that have "l \<le> lg_lsn s" by (simp add: word_less_nat_alt word_le_nat_alt)
    then show ?thesis using ok pc by (auto simp: log_ok_def le_less split: if_splits)
  qed
  then have "log_ok ?s" using ok pc by (auto simp: log_ok_def ent has r split: if_splits)
  moreover have "log_handles ?s = log_handles s" using pc by (simp add: log_handles_def log_entries_def)
  moreover have "writer_draws ?s"
    using inv pc lcg_next [of "lg_lsn s" writer_seed] by (simp add: log_inv_def writer_draws_def del: funpow.simps)
  ultimately have "log_inv h0 base ?s" using inv by (simp add: log_inv_def)
  with pc show ?thesis by (simp add: writer_step_def)
qed

lemma log_step_writer:
  assumes inv: "log_inv h0 base s"
  shows "\<exists>s'. log_step ga t WriterStep s = Some s' \<and> log_inv h0 base s'"
proof (cases "lg_writer s")
  case WriterLoop
  show ?thesis
  proof (cases "lg_running s")
    case True
    with inv WriterLoop show ?thesis by (intro log_writer_alloc)
  next
    case False
    have "log_ok (s\<lparr>lg_writer := WriterDone\<rparr>)" using inv by (intro log_writer_ok) (simp_all add: log_inv_def)
    moreover have "log_handles (s\<lparr>lg_writer := WriterDone\<rparr>) = log_handles s"
      using WriterLoop by (simp add: log_handles_def log_entries_def)
    ultimately show ?thesis using False WriterLoop inv by (simp add: writer_step_def log_inv_def writer_draws_def)
  qed
next
  case (WriterInsert c)
  with inv show ?thesis by (intro log_writer_insert)
next
  case WriterStore
  with inv show ?thesis by (intro log_writer_store)
qed (use inv in \<open>simp_all add: writer_step_def\<close>)

lemma log_step_main:
  assumes inv: "log_inv h0 base s"
  shows "\<exists>s'. log_step ga t StopAll s = Some s' \<and> log_inv h0 base s'"
    and "log_allowed DropLog s \<Longrightarrow> \<exists>s'. log_step ga t DropLog s = Some s' \<and> log_inv h0 base s'"
proof -
  have sh: "shares h0 base (lg_pool s) (lg_world s) (log_handles s)" and ok: "log_ok s" using inv by (simp_all add: log_inv_def)
  have "log_ok (s\<lparr>lg_running := False\<rparr>) = log_ok s" by (rule log_ok_cong) simp_all
  moreover have "log_handles (s\<lparr>lg_running := False\<rparr>) = log_handles s" by (simp add: log_handles_def log_entries_def)
  ultimately show "\<exists>s'. log_step ga t StopAll s = Some s' \<and> log_inv h0 base s'"
    using sh ok inv by (simp add: log_inv_def writer_draws_def cong: writer_pc.case_cong)
  assume "log_allowed DropLog s"
  then obtain m where m: "lg_log s = Some m" "lg_writer s = WriterDone" "\<forall>rd \<in> set (lg_readers s). rd_pc rd = ReaderDone" by auto
  then have none: "tally (reader_handles \<circ> rd_pc) (lg_readers s) = {#}"
    by (simp add: tally_def sum_list_0 cong: map_cong)
  then have "shares h0 base (lg_pool s) (lg_world s) (mset (map snd m) + {#})"
    using sh m by (simp add: log_handles_def log_entries_def)
  from shares_drop_all [OF this] obtain w where w: "drop_all (map snd m) (lg_world s) = Some w"
    "shares h0 base (lg_pool s) w {#}" by blast
  let ?s = "s\<lparr>lg_log := None, lg_world := w\<rparr>"
  have "log_handles ?s = {#}" using none m by (simp add: log_handles_def log_entries_def)
  moreover have "log_ok ?s" using m by (simp add: log_ok_def log_entries_def)
  ultimately show "\<exists>s'. log_step ga t DropLog s = Some s' \<and> log_inv h0 base s'"
    using w m by (simp add: log_inv_def writer_draws_def)
qed

interpretation append_log: safe_client log_allowed "log_step ga t" "log_inv h0 base" "\<lambda>_ _. True" for ga t h0 base
proof unfold_locales
  show "\<exists>s'. log_step ga t e s = Some s' \<and> log_inv h0 base s' \<and> True" if "log_inv h0 base s" "log_allowed e s" for e s
    using that log_step_writer [OF that(1), of ga t] log_step_reader [OF that(1), of _ ga t] log_step_main [OF that(1), of ga t]
    by (cases e) auto
qed simp_all

lemma log_start_inv:
  assumes "chunk_with_capacity ga ps n w = Some (Inr cp, w')" and "w_packed w = []" and "w_chunks w = []"
    and "unat ps \<le> 2 ^ 32"
  shows "log_inv (w_heap w) (w_tenants w) (log_start k cp w')"
proof -
  have "tally (reader_handles \<circ> rd_pc) (map (\<lambda>i. reader_new (of_nat i)) is) = {#}" for "is" :: "nat list"
    by (induction "is") (simp_all add: reader_new_def)
  then have "log_handles (log_start k cp w') = {#}" by (simp add: log_handles_def log_entries_def log_start_def)
  moreover have "log_ok (log_start k cp w')" by (auto simp: log_ok_def log_entries_def log_start_def reader_new_def)
  moreover have "writer_draws (log_start k cp w')" by (simp add: writer_draws_def log_start_def)
  ultimately show ?thesis using with_capacity_shares [OF assms] by (simp add: log_inv_def) (simp add: log_start_def)
qed

text \<open>A concrete start: one reader, pages of 64 bytes.\<close>

lemma log_demo: "chunk_with_capacity first_fit_alloc 64 0 chunk_start = Some (Inr chunk_demo_pool, chunk_demo)"
proof -
  have new: "page_pool_new first_fit_alloc 64 chunk_start = with_source chunk_source chunk_start"
    by (simp add: page_pool_new_def heap_source_new_eq isize_max_def)
  obtain pp w where ws: "with_source chunk_source chunk_start = (Inr pp, w)" "from_pool pp w = (chunk_demo_pool, chunk_demo)"
    using chunk_demo_eq by (auto simp: chunk_with_source_def split: prod.splits sum.splits)
  have "upd_stats (\<lambda>s. s) v = v" for v :: chunk_world by (simp add: upd_stats_def)
  then have "prewarm 0 pp w = Some (Inr (), pp, w)" by (simp add: prewarm_def fetch_add_def)
  with new ws show ?thesis by (simp add: chunk_with_capacity_def with_capacity_def)
qed

section \<open>Properties\<close>

text \<open>C24: The append log. In every state that the writer, the readers and the main thread reach, in any
  interleaving, every next step is defined; every published record shows the bytes of its number, as many as the writer
  drew for it, which are between 64 and 448; every number below the published high-water mark is found; and a reader
  that has looked a number up and is going to read it sees exactly that record, in its full length.\<close>

theorem append_log_reads_records:
  assumes "chunk_with_capacity ga ps n w = Some (Inr cp, w')" and "w_packed w = []" and "w_chunks w = []"
    and "unat ps \<le> 2 ^ 32" and "log_run ga t (log_start k cp w') es s"
  shows "(\<forall>e. log_allowed e s \<longrightarrow> (\<exists>s'. log_step ga t e s = Some s'))
    \<and> (\<forall>(l, c) \<in> set (log_entries s). chunk_as_slice c (lg_world s) = Some (record_bytes l (record_len l)))
    \<and> (\<forall>l. 64 \<le> record_len l \<and> record_len l \<le> 448)
    \<and> (\<forall>m l. lg_log s = Some m \<longrightarrow> l < lg_high_water s \<longrightarrow> map_of m l \<noteq> None)
    \<and> (\<forall>rd l c. rd \<in> set (lg_readers s) \<longrightarrow> rd_pc rd = ReaderRead l c \<longrightarrow>
        chunk_as_slice c (lg_world s) = Some (record_bytes l (record_len l)))"
proof -
  have inv: "log_inv (w_heap w) (w_tenants w) s"
    using append_log.run_inv [OF assms(5) log_start_inv [OF assms(1-4)]] by blast
  then have ok: "log_ok s" by (simp add: log_inv_def)
  have "map_of m l \<noteq> None" if "lg_log s = Some m" "l < lg_high_water s" for m l
    using ok that by (auto simp: log_ok_def has_lsn_def log_entries_def map_of_eq_None_iff)
  moreover have "chunk_as_slice c (lg_world s) = Some (record_bytes l (record_len l))"
    if "rd \<in> set (lg_readers s)" "rd_pc rd = ReaderRead l c" for rd l c
    using ok that by (fastforce simp: log_ok_def is_record_def)
  moreover have "\<exists>s'. log_step ga t e s = Some s'" if "log_allowed e s" for e
    using append_log.call_defined [OF inv that] by blast
  ultimately show ?thesis using ok record_len_bounds by (simp add: log_ok_def is_record_def)
qed

theorem append_log_reads_records_witness:
  "\<exists>s'. log_step first_fit_alloc demo_tenant WriterStep (log_start 1 chunk_demo_pool chunk_demo) = Some s'"
proof -
  have "unat (64 :: usize) \<le> 2 ^ 32" by simp
  from append_log_reads_records [OF log_demo chunk_demo_rest(1,2) this run_none, of 1 demo_tenant]
  show ?thesis by (metis log_allowed.simps(1))
qed

text \<open>What the program prints at its end: after the threads have been joined and the index dropped, every
  chunk is gone and each tenant's chunks and bytes in use are what they were before the pool was made.\<close>

theorem append_log_drained:
  assumes "chunk_with_capacity ga ps n w = Some (Inr cp, w')" and "w_packed w = []" and "w_chunks w = []"
    and "unat ps \<le> 2 ^ 32" and "log_run ga t (log_start k cp w') es s" and "lg_log s = None"
  shows "t_chunks_in_use (w_tenants (lg_world s) x) = t_chunks_in_use (w_tenants w x)
    \<and> t_bytes_in_use (w_tenants (lg_world s) x) = t_bytes_in_use (w_tenants w x)
    \<and> cs_chunks_in_use (w_cstats (lg_world s)) = 0"
proof -
  have inv: "log_inv (w_heap w) (w_tenants w) s"
    using append_log.run_inv [OF assms(5) log_start_inv [OF assms(1-4)]] by blast
  then have fin: "lg_writer s = WriterDone" "\<forall>rd \<in> set (lg_readers s). rd_pc rd = ReaderDone"
    using assms(6) by (auto simp: log_inv_def log_ok_def)
  then have "tally (reader_handles \<circ> rd_pc) (lg_readers s) = {#}"
    by (simp add: tally_def sum_list_0 cong: map_cong)
  with fin assms(6) have "log_handles s = {#}" by (simp add: log_handles_def log_entries_def)
  with inv have "shares (w_heap w) (w_tenants w) (lg_pool s) (lg_world s) {#}" by (simp add: log_inv_def)
  from shares_end [OF this] show ?thesis by blast
qed

end
