(* ===== verification/File_Cache.thy ===== *)
theory File_Cache
  imports Append_Log
begin

text \<open>
  \<open>examples/file_cache.rs\<close>: one thread fills a cache with files of varying sizes, each a chunk; then reader
  threads look files up at random, clone their chunks, read them and drop the clones, in any interleaving, and
  at the end the cache is dropped. What a reader is to return is also given by a plain computation on the file
  contents, \<open>cache_reads\<close>. The knobs at the top of \<open>main\<close> that only scale the workload are parameters.
\<close>

section \<open>The program\<close>

definition avg_file_size :: usize where
  "avg_file_size = 8 * 1024"

definition file_size_jitter :: usize where
  "file_size_jitter = 4 * 1024"

definition file_size :: "u64 \<Rightarrow> usize" where
  "file_size rng = avg_file_size - file_size_jitter + rng mod (2 * file_size_jitter + 1)"

text \<open>The closure that fills a file.\<close>

definition file_bytes :: "u64 \<Rightarrow> nat \<Rightarrow> u8 list" where
  "file_bytes fid n = map (\<lambda>i. ucast ((of_nat i :: u64) XOR fid)) [0..<n]"

definition fill_file :: "u64 \<Rightarrow> unit init" where
  "fill_file fid buf = (file_bytes fid (length buf), Some ())"

text \<open>The loop \<open>for id in 0..num_files\<close>, with \<open>n\<close> files to go. The result of \<open>HashMap::insert\<close>, a file with
  the same number, would be dropped.\<close>

type_synonym file_map = "(u64 \<times> chunk) list"

fun populate :: "placement \<Rightarrow> tenant \<Rightarrow> nat \<Rightarrow> u64 \<Rightarrow> u64 \<Rightarrow> file_map \<Rightarrow> chunk_pool \<Rightarrow> chunk_world
    \<Rightarrow> ((panic + file_map) \<times> chunk_pool \<times> chunk_world) option" where
  "populate ga tenant 0 fid rng cache cp w = Some (Inr cache, cp, w)"
| "populate ga tenant (Suc n) fid rng cache cp w = do {
     let rng = lcg rng;
     (r, cp, w) \<leftarrow> chunk_alloc_with ga tenant (file_size rng) (fill_file fid) cp w;
     (case r of
        Inl e \<Rightarrow> Some (Inl e, cp, w)
      | Inr c \<Rightarrow> do {
          let old = map_of cache fid;
          w \<leftarrow> (case old of None \<Rightarrow> Some w | Some d \<Rightarrow> chunk_drop d w);
          populate ga tenant n (fid + 1) rng (AList.update fid c cache) cp w
        })
   }"

definition cache_seed :: u64 where
  "cache_seed = 0x9E3779B97F4A7C15"

definition build_cache :: "placement \<Rightarrow> tenant \<Rightarrow> u64 \<Rightarrow> chunk_pool \<Rightarrow> chunk_world
    \<Rightarrow> ((panic + file_map) \<times> chunk_pool \<times> chunk_world) option" where
  "build_cache ga tenant num_files cp w = populate ga tenant (unat num_files) 0 cache_seed [] cp w"

text \<open>A reader thread: what it still has to read, its random state and its three results.\<close>

datatype cache_pc =
    CacheLoop
  | CacheGet u64
  | CacheRead u64 chunk
  | CacheDrop chunk
  | CacheDone

record cache_reader =
  cr_pc :: cache_pc
  cr_left :: nat
  cr_rng :: u64
  cr_hits :: u64
  cr_bytes :: u64
  cr_checksum :: u64

definition cache_reader_rng :: "u64 \<Rightarrow> u64" where
  "cache_reader_rng worker_id = worker_id * 0x9E3779B97F4A7C15 + 0xDEADBEEFCAFEBABE"

definition cache_reader_new :: "u64 \<Rightarrow> nat \<Rightarrow> cache_reader" where
  "cache_reader_new worker_id reads = \<lparr>cr_pc = CacheLoop, cr_left = reads, cr_rng = cache_reader_rng worker_id,
     cr_hits = 0, cr_bytes = 0, cr_checksum = 0\<rparr>"

text \<open>\<open>fc_cache\<close> is \<open>None\<close> once \<open>main\<close> has dropped the map.\<close>

record cache_state =
  fc_world :: chunk_world
  fc_cache :: "file_map option"
  fc_readers :: "cache_reader list"

definition cache_reader_step :: "u64 \<Rightarrow> cache_state \<Rightarrow> cache_reader \<Rightarrow> (cache_reader \<times> chunk_world) option" where
  "cache_reader_step num_files s cr =
     (case cr_pc cr of
        CacheLoop \<Rightarrow>
          (case cr_left cr of
             0 \<Rightarrow> Some (cr\<lparr>cr_pc := CacheDone\<rparr>, fc_world s)
           | Suc n \<Rightarrow>
               let rng = lcg (cr_rng cr)
               in Some (cr\<lparr>cr_left := n, cr_rng := rng, cr_pc := CacheGet (rng mod num_files)\<rparr>, fc_world s))
      | CacheGet file_id \<Rightarrow> do {
          m \<leftarrow> fc_cache s;
          (case map_of m file_id of
             None \<Rightarrow> Some (cr\<lparr>cr_pc := CacheLoop\<rparr>, fc_world s)
           | Some c \<Rightarrow> do {
               (c, w) \<leftarrow> chunk_clone c (fc_world s);
               Some (cr\<lparr>cr_pc := CacheRead file_id c\<rparr>, w)
             })
        }
      | CacheRead file_id c \<Rightarrow> do {
          bs \<leftarrow> chunk_as_slice c (fc_world s);
          len \<leftarrow> chunk_len c (fc_world s);
          Some (cr\<lparr>cr_checksum := cr_checksum cr + sum_bytes bs, cr_hits := cr_hits cr + 1,
            cr_bytes := cr_bytes cr + len, cr_pc := CacheDrop c\<rparr>, fc_world s)
        }
      | CacheDrop c \<Rightarrow> do {
          w \<leftarrow> chunk_drop c (fc_world s);
          Some (cr\<lparr>cr_pc := CacheLoop\<rparr>, w)
        }
      | CacheDone \<Rightarrow> Some (cr, fc_world s))"

text \<open>\<open>main\<close> joins the readers and then drops the cache.\<close>

datatype cache_event = CacheReader nat | DropCache

fun cache_allowed :: "cache_event \<Rightarrow> cache_state \<Rightarrow> bool" where
  "cache_allowed (CacheReader i) s = (i < length (fc_readers s))"
| "cache_allowed DropCache s = (fc_cache s \<noteq> None \<and> (\<forall>cr \<in> set (fc_readers s). cr_pc cr = CacheDone))"

fun cache_step :: "u64 \<Rightarrow> cache_event \<Rightarrow> cache_state \<Rightarrow> cache_state option" where
  "cache_step num_files (CacheReader i) s = do {
     (cr, w) \<leftarrow> cache_reader_step num_files s (fc_readers s ! i);
     Some (s\<lparr>fc_readers := (fc_readers s)[i := cr], fc_world := w\<rparr>)
   }"
| "cache_step num_files DropCache s = do {
     m \<leftarrow> fc_cache s;
     w \<leftarrow> drop_all (map snd m) (fc_world s);
     Some (s\<lparr>fc_cache := None, fc_world := w\<rparr>)
   }"

abbreviation cache_run :: "u64 \<Rightarrow> cache_state \<Rightarrow> cache_event list \<Rightarrow> cache_state \<Rightarrow> bool" where
  "cache_run num_files \<equiv> run cache_allowed (cache_step num_files)"

definition cache_start :: "nat \<Rightarrow> nat \<Rightarrow> file_map \<Rightarrow> chunk_world \<Rightarrow> cache_state" where
  "cache_start num_readers reads cache w = \<lparr>fc_world = w, fc_cache = Some cache,
     fc_readers = map (\<lambda>i. cache_reader_new (of_nat i) reads) [0..<num_readers]\<rparr>"

text \<open>The totals that \<open>main\<close> adds up after joining.\<close>

definition cache_totals :: "cache_state \<Rightarrow> u64 \<times> u64 \<times> u64" where
  "cache_totals s = foldl (\<lambda>(r, b, k) cr. (r + cr_hits cr, b + cr_bytes cr, k + cr_checksum cr)) (0, 0, 0) (fc_readers s)"

section \<open>The reference computation\<close>

text \<open>The contents of file \<open>fid\<close>, and what a reader that starts with \<open>rng\<close> makes of \<open>n\<close> of them.\<close>

definition file_of :: "u64 \<Rightarrow> u8 list" where
  "file_of fid = file_bytes fid (unat (file_size ((lcg ^^ Suc (unat fid)) cache_seed)))"

fun cache_reads :: "u64 \<Rightarrow> nat \<Rightarrow> u64 \<Rightarrow> u64 \<times> u64 \<times> u64 \<Rightarrow> u64 \<times> u64 \<times> u64" where
  "cache_reads num_files 0 rng res = res"
| "cache_reads num_files (Suc n) rng (r, b, k) =
     (let rng = lcg rng; f = file_of (rng mod num_files)
      in cache_reads num_files n rng (r + 1, b + of_nat (length f), k + sum_bytes f))"

section \<open>The invariant\<close>

fun cache_reader_handles :: "cache_pc \<Rightarrow> chunk multiset" where
  "cache_reader_handles (CacheRead fid c) = {#c#}"
| "cache_reader_handles (CacheDrop c) = {#c#}"
| "cache_reader_handles _ = {#}"

definition cache_entries :: "cache_state \<Rightarrow> file_map" where
  "cache_entries s = (case fc_cache s of None \<Rightarrow> [] | Some m \<Rightarrow> m)"

definition cache_handles :: "cache_state \<Rightarrow> chunk multiset" where
  "cache_handles s = mset (map snd (cache_entries s)) + tally (cache_reader_handles \<circ> cr_pc) (fc_readers s)"

abbreviation is_file :: "chunk_world \<Rightarrow> u64 \<Rightarrow> chunk \<Rightarrow> bool" where
  "is_file w fid c \<equiv> chunk_as_slice c w = Some (file_of fid)"

definition cache_holds :: "u64 \<Rightarrow> chunk_world \<Rightarrow> file_map \<Rightarrow> bool" where
  "cache_holds n w m \<longleftrightarrow> (\<forall>(fid, c) \<in> set m. is_file w fid c) \<and> (\<forall>fid. fid < n \<longrightarrow> fid \<in> fst ` set m)"

text \<open>The results of a reader plus what is to come.\<close>

definition reader_outcome :: "u64 \<Rightarrow> cache_reader \<Rightarrow> u64 \<times> u64 \<times> u64" where
  "reader_outcome num_files cr =
     (let res = (cr_hits cr, cr_bytes cr, cr_checksum cr);
          read = (\<lambda>fid. (cr_hits cr + 1, cr_bytes cr + of_nat (length (file_of fid)), cr_checksum cr + sum_bytes (file_of fid)))
      in cache_reads num_files (cr_left cr) (cr_rng cr)
           (case cr_pc cr of CacheGet fid \<Rightarrow> read fid | CacheRead fid c \<Rightarrow> read fid | _ \<Rightarrow> res))"

fun cache_reader_ok :: "u64 \<Rightarrow> cache_state \<Rightarrow> cache_pc \<Rightarrow> bool" where
  "cache_reader_ok n s (CacheGet fid) = (fid < n)"
| "cache_reader_ok n s (CacheRead fid c) = is_file (fc_world s) fid c"
| "cache_reader_ok n s _ = True"

definition cache_inv :: "u64 \<Rightarrow> nat \<Rightarrow> heap \<Rightarrow> stats_table \<Rightarrow> chunk_pool \<Rightarrow> cache_state \<Rightarrow> bool" where
  "cache_inv n reads h0 base cp s \<longleftrightarrow> 0 < n \<and>
     shares h0 base cp (fc_world s) (cache_handles s) \<and>
     (case fc_cache s of
        None \<Rightarrow> \<forall>cr \<in> set (fc_readers s). cr_pc cr = CacheDone
      | Some m \<Rightarrow> cache_holds n (fc_world s) m) \<and>
     (\<forall>i < length (fc_readers s).
        cache_reader_ok n s (cr_pc (fc_readers s ! i))
        \<and> (cr_pc (fc_readers s ! i) = CacheDone \<longrightarrow> cr_left (fc_readers s ! i) = 0)
        \<and> reader_outcome n (fc_readers s ! i) = cache_reads n reads (cache_reader_rng (of_nat i)) (0, 0, 0))"

section \<open>Lemmas\<close>

lemma file_size_bounds: "4096 \<le> unat (file_size rng)" "unat (file_size rng) \<le> 12288"
proof -
  have "unat (rng mod 8193) = unat rng mod 8193" by (simp add: unat_mod_distrib)
  then have m: "unat (rng mod 8193) < 8193" by simp
  have "file_size rng = 4096 + rng mod 8193"
    by (simp add: file_size_def avg_file_size_def file_size_jitter_def)
  moreover have "unat (4096 + rng mod 8193) = 4096 + unat (rng mod 8193)"
    using m by (subst unat_add_lem [THEN iffD1]) auto
  ultimately show "4096 \<le> unat (file_size rng)" "unat (file_size rng) \<le> 12288" using m by auto
qed

lemma fill_file_simps [simp]: "keeps_length (fill_file fid)" "snd (fill_file fid bs) = Some ()"
  "fst (fill_file fid bs) = file_bytes fid (length bs)" "length (file_bytes fid n) = n"
  by (simp_all add: keeps_length_def fill_file_def file_bytes_def)

lemma is_file_stable:
  "chunks_stable w w' \<Longrightarrow> shares h0 base cp w' H \<Longrightarrow> c \<in># H \<Longrightarrow> is_file w fid c \<Longrightarrow> is_file w' fid c"
  using shares_stable by blast

lemma cache_holds_stable:
  assumes "cache_holds n w m" and "chunks_stable w w'" and "shares h0 base cp w' H" and "mset (map snd m) \<subseteq># H"
  shows "cache_holds n w' m"
proof -
  have "is_file w' fid c" if "(fid, c) \<in> set m" for fid c
  proof (rule is_file_stable [OF assms(2,3)])
    have "c \<in># mset (map snd m)" using that by force
    then show "c \<in># H" using assms(4) by (rule mset_subset_eqD [rotated])
    show "is_file w fid c" using assms(1) that by (auto simp: cache_holds_def)
  qed
  with assms(1) show ?thesis by (auto simp: cache_holds_def)
qed

subsection \<open>Populating\<close>

lemma populate_ok:
  assumes "shares h0 base cp w (mset (map snd m))" and "cache_holds fid w m" and "fid \<notin> fst ` set m"
    and "\<forall>k \<in> fst ` set m. k < fid" and "unat fid + n < 2 ^ 64" and "rng = (lcg ^^ unat fid) cache_seed"
  shows "\<exists>r cp' w'. populate ga t n fid rng m cp w = Some (r, cp', w')
    \<and> (case r of Inl e \<Rightarrow> True
       | Inr m' \<Rightarrow> shares h0 base cp' w' (mset (map snd m')) \<and> cache_holds (fid + of_nat n) w' m')"
  using assms
proof (induction n arbitrary: fid rng m cp w)
  case 0
  then show ?case by simp
next
  case (Suc n)
  let ?g = "lcg rng"
  have sz: "unat (file_size ?g) < 2 ^ 32" using file_size_bounds(2) [of ?g] by simp
  from shares_alloc_with [OF Suc.prems(1) fill_file_simps(1) [of fid] fill_file_simps(2) sz, where ga = ga and t = t] obtain r cp1 w1 where
    al: "chunk_alloc_with ga t (file_size ?g) (fill_file fid) cp w = Some (r, cp1, w1)" and st: "chunks_stable w w1"
    and res: "case r of Inl e \<Rightarrow> shares h0 base cp1 w1 (mset (map snd m))
      | Inr c \<Rightarrow> shares h0 base cp1 w1 (add_mset c (mset (map snd m)))
         \<and> (\<exists>X. length X = unat (file_size ?g) \<and> chunk_as_slice c w1 = Some (fst (fill_file fid X)))" by blast
  show ?case
  proof (cases r)
    case (Inl e)
    with al show ?thesis by (simp add: Let_def)
  next
    case (Inr c)
    let ?m = "AList.update fid c m"
    have fresh: "map_of m fid = None" using Suc.prems(3) by (simp add: map_of_eq_None_iff)
    have sh: "shares h0 base cp1 w1 (mset (map snd ?m))" using res Inr log_insert_fresh [OF fresh, of c] by simp
    have old: "cache_holds fid w1 m"
      using cache_holds_stable [OF Suc.prems(2) st sh] log_insert_fresh [OF fresh, of c] by (simp add: subset_mset.add_increasing2)
    have "file_of fid = file_bytes fid (unat (file_size ?g))" by (simp add: file_of_def Suc.prems(6))
    then have new: "is_file w1 fid c" using res Inr by auto
    have one: "unat (fid + 1) = Suc (unat fid)" using Suc.prems(5) by (simp add: unat_word_ariths)
    have lt: "\<not> fid + 1 < fid" using one by (simp add: word_less_nat_alt)
    have next_fid: "k < fid + 1 \<longleftrightarrow> k = fid \<or> k < fid" for k
      using one by (auto simp: word_less_nat_alt less_Suc_eq word_unat_eq_iff)
    have holds: "cache_holds (fid + 1) w1 ?m"
      using old new set_update_alist [of _ fid c m] by (fastforce simp: cache_holds_def keys_update next_fid)
    have "fid + 1 \<noteq> fid" by simp
    then have "fid + 1 \<notin> fst ` set ?m" and "\<forall>k \<in> fst ` set ?m. k < fid + 1"
      using Suc.prems(4) lt by (auto simp: keys_update next_fid simp del: add_cancel_left_right)
    moreover have "unat (fid + 1) + n < 2 ^ 64" using Suc.prems(5) one by simp
    moreover have "?g = (lcg ^^ unat (fid + 1)) cache_seed" by (simp add: one Suc.prems(6))
    ultimately obtain r' cp' w' where "populate ga t n (fid + 1) ?g ?m cp1 w1 = Some (r', cp', w')"
      "case r' of Inl e \<Rightarrow> True | Inr m' \<Rightarrow> shares h0 base cp' w' (mset (map snd m')) \<and> cache_holds (fid + 1 + of_nat n) w' m'"
      using Suc.IH [OF sh holds] by blast
    with al Inr fresh show ?thesis by (simp add: Let_def ac_simps cong: sum.case_cong)
  qed
qed

lemma build_cache_ok:
  assumes "shares h0 base cp w {#}"
  shows "\<exists>r cp' w'. build_cache ga t n cp w = Some (r, cp', w')
    \<and> (case r of Inl e \<Rightarrow> True | Inr m \<Rightarrow> shares h0 base cp' w' (mset (map snd m)) \<and> cache_holds n w' m)"
proof -
  have "cache_holds 0 w []" by (simp add: cache_holds_def)
  with populate_ok [where fid = 0 and m = "[]" and n = "unat n" and rng = cache_seed, of h0 base cp w ga t] assms
  show ?thesis by (simp add: build_cache_def cong: sum.case_cong)
qed

subsection \<open>Reading\<close>

lemma cache_handles_reader:
  assumes "i < length (fc_readers s)"
  obtains R where "cache_handles s = cache_reader_handles (cr_pc (fc_readers s ! i)) + R"
    and "\<And>cr w. cache_handles (s\<lparr>fc_readers := (fc_readers s)[i := cr], fc_world := w\<rparr>) = cache_reader_handles (cr_pc cr) + R"
    and "mset (map snd (cache_entries s)) \<subseteq># R"
proof
  let ?R = "mset (map snd (cache_entries s)) + tally (cache_reader_handles \<circ> cr_pc) (remove_nth i (fc_readers s))"
  note tot = tally_update [OF assms, of "cache_reader_handles \<circ> cr_pc"]
  show "cache_handles s = cache_reader_handles (cr_pc (fc_readers s ! i)) + ?R" using tot(1) by (simp add: cache_handles_def)
  show "cache_handles (s\<lparr>fc_readers := (fc_readers s)[i := cr], fc_world := w\<rparr>) = cache_reader_handles (cr_pc cr) + ?R" for cr w
    using tot(2) [of cr] by (simp add: cache_handles_def cache_entries_def)
qed simp

text \<open>A step of a reader: it ends with the handle it has, a new one or none; its outcome stays the same.\<close>

lemma cache_reader_moves:
  assumes inv: "cache_inv n reads h0 base cp s" and i: "i < length (fc_readers s)"
    and st: "cache_reader_step n s (fc_readers s ! i) = Some (cr, w)" and stable: "chunks_stable (fc_world s) w"
    and sh: "\<And>R. cache_handles s = cache_reader_handles (cr_pc (fc_readers s ! i)) + R \<Longrightarrow>
      shares h0 base cp w (cache_reader_handles (cr_pc cr) + R)"
    and ok: "cache_reader_ok n (s\<lparr>fc_world := w\<rparr>) (cr_pc cr)" "cr_pc cr = CacheDone \<Longrightarrow> cr_left cr = 0"
    and fin: "fc_cache s = None \<Longrightarrow> cr_pc cr = CacheDone"
    and out: "reader_outcome n cr = reader_outcome n (fc_readers s ! i)"
  shows "\<exists>s'. cache_step n (CacheReader i) s = Some s' \<and> cache_inv n reads h0 base cp s'"
proof -
  let ?s = "s\<lparr>fc_readers := (fc_readers s)[i := cr], fc_world := w\<rparr>"
  from i obtain R where R: "cache_handles s = cache_reader_handles (cr_pc (fc_readers s ! i)) + R"
    "cache_handles ?s = cache_reader_handles (cr_pc cr) + R" "mset (map snd (cache_entries s)) \<subseteq># R"
    by (rule cache_handles_reader) blast
  note sh' = sh [OF R(1)]
  have old: "cache_reader_ok n ?s (cr_pc (fc_readers s ! j))" if "j < length (fc_readers s)" "j \<noteq> i" for j
  proof (cases "cr_pc (fc_readers s ! j)")
    case (CacheRead fid c)
    have "c \<in># cache_handles ?s"
      using tally_mem [of "fc_readers s ! j" "(fc_readers s)[i := cr]" c "cache_reader_handles \<circ> cr_pc"] CacheRead that
      by (simp add: cache_handles_def) (metis length_list_update nth_list_update_neq nth_mem)
    moreover have "is_file (fc_world s) fid c" using inv that CacheRead by (fastforce simp: cache_inv_def)
    ultimately show ?thesis using is_file_stable [OF stable sh', of c] CacheRead R(2) by simp
  qed (use inv that in \<open>auto simp: cache_inv_def\<close>)
  have cache: "case fc_cache ?s of None \<Rightarrow> \<forall>cr \<in> set (fc_readers ?s). cr_pc cr = CacheDone
      | Some m \<Rightarrow> cache_holds n (fc_world ?s) m"
  proof (cases "fc_cache s")
    case None
    then show ?thesis using inv fin set_update_subset_insert [of "fc_readers s" i cr] by (auto simp: cache_inv_def)
  next
    case (Some m)
    then show ?thesis using cache_holds_stable [OF _ stable sh', of n m] inv R(3)
      by (simp add: cache_inv_def cache_entries_def subset_mset.add_increasing)
  qed
  have "cache_inv n reads h0 base cp ?s"
    unfolding cache_inv_def
  proof (intro conjI allI impI)
    show "case fc_cache ?s of None \<Rightarrow> \<forall>cr \<in> set (fc_readers ?s). cr_pc cr = CacheDone
      | Some m \<Rightarrow> cache_holds n (fc_world ?s) m" by (fact cache)
  next
    fix j assume j: "j < length (fc_readers ?s)"
    have all: "cache_reader_ok n s (cr_pc (fc_readers s ! j))
        \<and> (cr_pc (fc_readers s ! j) = CacheDone \<longrightarrow> cr_left (fc_readers s ! j) = 0)
        \<and> reader_outcome n (fc_readers s ! j) = cache_reads n reads (cache_reader_rng (of_nat j)) (0, 0, 0)"
      using inv j by (simp add: cache_inv_def)
    have ok': "cache_reader_ok n ?s (cr_pc cr)" using ok(1) by (cases "cr_pc cr") simp_all
    show "cache_reader_ok n ?s (cr_pc (fc_readers ?s ! j))" using ok' old [of j] j by (cases "j = i") simp_all
    show "reader_outcome n (fc_readers ?s ! j) = cache_reads n reads (cache_reader_rng (of_nat j)) (0, 0, 0)"
      using all out j by (cases "j = i") simp_all
    show "cr_left (fc_readers ?s ! j) = 0" if "cr_pc (fc_readers ?s ! j) = CacheDone"
      using all that ok(2) j by (cases "j = i") simp_all
  qed (use inv sh' R(2) in \<open>simp_all add: cache_inv_def\<close>)
  with st show ?thesis by simp
qed

lemma cache_step_reader:
  assumes inv: "cache_inv n reads h0 base cp s" and i: "i < length (fc_readers s)"
  shows "\<exists>s'. cache_step n (CacheReader i) s = Some s' \<and> cache_inv n reads h0 base cp s'"
proof -
  let ?cr = "fc_readers s ! i" and ?w = "fc_world s"
  have sh: "shares h0 base cp ?w (cache_handles s)" using inv by (simp add: cache_inv_def)
  have cr: "cache_reader_ok n s (cr_pc ?cr)" "cr_pc ?cr = CacheDone \<Longrightarrow> cr_left ?cr = 0"
    and fin: "fc_cache s = None \<Longrightarrow> cr_pc ?cr = CacheDone" using inv i by (auto simp: cache_inv_def)
  note step = cache_reader_moves [OF inv i] and refl = chunks_stable_refl
  from i obtain R where R: "cache_handles s = cache_reader_handles (cr_pc ?cr) + R" by (rule cache_handles_reader)
  show ?thesis
  proof (cases "cr_pc ?cr")
    case CacheLoop
    show ?thesis
    proof (cases "cr_left ?cr")
      case 0
      with CacheLoop sh fin refl show ?thesis
        by (intro step [where cr = "?cr\<lparr>cr_pc := CacheDone\<rparr>" and w = ?w]) (auto simp: cache_reader_step_def reader_outcome_def)
    next
      case (Suc k)
      have "lcg (cr_rng ?cr) mod n < n" using inv by (simp add: cache_inv_def word_mod_less_divisor)
      with Suc CacheLoop sh fin refl show ?thesis
        by (intro step [where cr = "?cr\<lparr>cr_left := k, cr_rng := lcg (cr_rng ?cr), cr_pc := CacheGet (lcg (cr_rng ?cr) mod n)\<rparr>"
              and w = ?w]) (auto simp: cache_reader_step_def reader_outcome_def Let_def)
    qed
  next
    case (CacheGet fid)
    with fin obtain m where m: "fc_cache s = Some m" by (cases "fc_cache s") auto
    have holds: "cache_holds n ?w m" using inv m by (simp add: cache_inv_def)
    with cr CacheGet have "fid \<in> fst ` set m" by (simp add: cache_holds_def)
    then obtain c where c: "map_of m fid = Some c" by (metis map_of_eq_None_iff not_Some_eq)
    then have mem: "(fid, c) \<in> set m" by (rule map_of_SomeD)
    then have "c \<in># cache_handles s" using m by (force simp: cache_handles_def cache_entries_def)
    from shares_clone [OF sh this] obtain w' where w': "chunk_clone c ?w = Some (c, w')"
      "shares h0 base cp w' (add_mset c (cache_handles s))" "chunks_stable ?w w'" by blast
    have "is_file ?w fid c" using holds mem by (auto simp: cache_holds_def)
    then have "is_file w' fid c" by (intro is_file_stable [OF w'(3,2)]) simp_all
    with CacheGet m c w' show ?thesis
      by (intro step [where w = w']) (auto simp: cache_reader_step_def reader_outcome_def Let_def)
  next
    case (CacheRead fid c)
    then have "c \<in># cache_handles s" using R by simp
    from shares_read [OF sh this] obtain bs where
      bs: "chunk_as_slice c ?w = Some bs" "chunk_len c ?w = Some (of_nat (length bs))" by blast
    have "bs = file_of fid" using bs(1) cr CacheRead by simp
    with bs CacheRead sh fin refl show ?thesis
      by (intro step) (auto simp: cache_reader_step_def reader_outcome_def Let_def)
  next
    case (CacheDrop c)
    then have "shares h0 base cp ?w (add_mset c R)" using sh R by simp
    from shares_drop [OF this] obtain w' where w': "chunk_drop c ?w = Some w'"
      "shares h0 base cp w' R" "chunks_stable ?w w'" by blast
    with CacheDrop R fin show ?thesis
      by (intro step [where w = w']) (auto simp: cache_reader_step_def reader_outcome_def)
  next
    case CacheDone
    with sh refl cr show ?thesis by (intro step [where w = ?w]) (auto simp: cache_reader_step_def)
  qed
qed

lemma cache_quiet_handles:
  assumes "\<forall>cr \<in> set rs. cr_pc cr = CacheDone"
  shows "tally (cache_reader_handles \<circ> cr_pc) rs = {#}"
  using assms by (simp add: tally_def sum_list_0 cong: map_cong)

lemma cache_step_drop:
  assumes inv: "cache_inv n reads h0 base cp s" and al: "cache_allowed DropCache s"
  shows "\<exists>s'. cache_step n DropCache s = Some s' \<and> cache_inv n reads h0 base cp s'"
proof -
  from al obtain m where m: "fc_cache s = Some m" "\<forall>cr \<in> set (fc_readers s). cr_pc cr = CacheDone" by auto
  have "shares h0 base cp (fc_world s) (mset (map snd m) + {#})"
    using inv m cache_quiet_handles [OF m(2)] by (simp add: cache_inv_def cache_handles_def cache_entries_def)
  from shares_drop_all [OF this] obtain w where w: "drop_all (map snd m) (fc_world s) = Some w" "shares h0 base cp w {#}" by blast
  let ?s = "s\<lparr>fc_cache := None, fc_world := w\<rparr>"
  have ok: "cache_reader_ok n ?s (cr_pc (fc_readers s ! i))" if "i < length (fc_readers s)" for i
    using m(2) that by simp
  have "cache_handles ?s = {#}" using cache_quiet_handles [OF m(2)] by (simp add: cache_handles_def cache_entries_def)
  with inv w m ok have "cache_inv n reads h0 base cp ?s" by (simp add: cache_inv_def)
  with w m show ?thesis by simp
qed

interpretation file_cache: safe_client cache_allowed "cache_step n" "cache_inv n reads h0 base cp" "\<lambda>_ _. True"
    for n reads h0 base cp
proof unfold_locales
  show "\<exists>s'. cache_step n e s = Some s' \<and> cache_inv n reads h0 base cp s' \<and> True"
    if "cache_inv n reads h0 base cp s" "cache_allowed e s" for e s
    using that cache_step_reader [OF that(1)] cache_step_drop [OF that(1)] by (cases e) auto
qed simp_all

lemma cache_run_readers:
  "cache_run n s es s' \<Longrightarrow> length (fc_readers s') = length (fc_readers s)"
proof (induction rule: run.induct)
  case (run_more s cs s' c s'')
  then show ?case by (cases c) (auto simp: bind_eq_Some_conv)
qed simp

lemma cache_start_inv:
  assumes "shares h0 base cp w (mset (map snd m))" and "cache_holds n w m" and "0 < n"
  shows "cache_inv n reads h0 base cp (cache_start k reads m w)"
proof -
  have "\<forall>cr \<in> set (fc_readers (cache_start k reads m w)). cache_reader_handles (cr_pc cr) = {#}"
    by (auto simp: cache_start_def cache_reader_new_def)
  then have "tally (cache_reader_handles \<circ> cr_pc) (fc_readers (cache_start k reads m w)) = {#}"
    by (simp add: tally_def sum_list_0 cong: map_cong)
  then have "cache_handles (cache_start k reads m w) = mset (map snd m)"
    by (simp add: cache_handles_def cache_entries_def) (simp add: cache_start_def)
  with assms show ?thesis
    by (simp add: cache_inv_def) (auto simp: cache_start_def cache_reader_new_def reader_outcome_def)
qed

section \<open>A concrete cache\<close>

text \<open>One file in a pool with pages of 64 bytes: the file is an allocation of its own.\<close>

lemma cache_demo_allocate:
  "\<exists>b w. chunk_allocate first_fit_alloc demo_tenant (file_size g) chunk_demo_pool chunk_demo = Some (Inr b, chunk_demo_pool, w)"
proof -
  note sz = file_size_bounds [of g]
  have "file_size g \<noteq> 0" using sz by auto
  moreover have "64 < file_size g" using sz by (simp add: word_less_nat_alt)
  moreover have "from_size_align (file_size g) default_align = Inr \<lparr>l_size = file_size g, l_align = default_align\<rparr>"
    using sz is_power_of_two_default
    by (simp add: from_size_align_def default_align_def ptr_size_def isize_max_def word_le_nat_alt)
  moreover have "placeable Map.empty \<lparr>l_size = file_size g, l_align = default_align\<rparr> 4096"
    using sz by (simp add: placeable_def isize_max_def aligned_to_def default_align_def ptr_size_def)
  ultimately show ?thesis
    by (simp add: chunk_allocate_def allocate_aligned_def is_power_of_two_default pool_page_size_def chunk_demo_size
        allocate_oversized_def alloc_zeroed_def chunk_demo_empty first_fit_alloc_def first_fit_empty Let_def split: prod.split)
qed

lemma cache_demo: "\<exists>m w. build_cache first_fit_alloc demo_tenant 1 chunk_demo_pool chunk_demo = Some (Inr m, chunk_demo_pool, w)"
proof -
  have sz: "unat (file_size g) < 2 ^ 32" for g using file_size_bounds(2) [of g] by simp
  have "\<exists>c w. chunk_alloc_with first_fit_alloc demo_tenant (file_size g) (fill_file 0) chunk_demo_pool chunk_demo
      = Some (Inr c, chunk_demo_pool, w)" for g
  proof -
    from cache_demo_allocate obtain b w where
      al: "chunk_allocate first_fit_alloc demo_tenant (file_size g) chunk_demo_pool chunk_demo = Some (Inr b, chunk_demo_pool, w)" by blast
    from shares_alloc_with_ok [OF chunk_demo_inv(1) fill_file_simps(1,2) sz al] show ?thesis .
  qed
  from this [of "lcg cache_seed"] show ?thesis by (auto simp: build_cache_def)
qed

section \<open>Properties\<close>

text \<open>C25: The file cache gives the same answers in every interleaving. Unless an allocation fails, the cache
  that is built holds every file with its contents; then, in every state that the readers and the main thread
  reach in any order of steps, every next step is defined, no lookup misses, and a reader that has finished
  has counted all its reads and has exactly the number of bytes and the checksum of the reference computation
  on the file contents.\<close>

theorem file_cache_deterministic:
  assumes "chunk_with_capacity ga ps k w = Some (Inr cp, w1)" and "w_packed w = []" and "w_chunks w = []"
    and "unat ps \<le> 2 ^ 32" and "0 < n" and "build_cache ga t n cp w1 = Some (r, cp', w')"
  shows "case r of Inl e \<Rightarrow> True
    | Inr m \<Rightarrow> (\<forall>fid. fid < n \<longrightarrow> (\<exists>c. map_of m fid = Some c \<and> chunk_as_slice c w' = Some (file_of fid)))
        \<and> (\<forall>es s. cache_run n (cache_start readers reads m w') es s \<longrightarrow>
             (\<forall>e. cache_allowed e s \<longrightarrow> (\<exists>s'. cache_step n e s = Some s'))
             \<and> (\<forall>i < readers. cr_pc (fc_readers s ! i) = CacheDone \<longrightarrow>
                 (cr_hits (fc_readers s ! i), cr_bytes (fc_readers s ! i), cr_checksum (fc_readers s ! i))
                   = cache_reads n reads (cache_reader_rng (of_nat i)) (0, 0, 0)))"
proof (cases r)
  case (Inr m)
  from build_cache_ok [OF with_capacity_shares [OF assms(1-4)], of ga t n] assms(6) Inr have
    sh: "shares (w_heap w) (w_tenants w) cp' w' (mset (map snd m))" and holds: "cache_holds n w' m" by auto
  have found: "\<exists>c. map_of m fid = Some c \<and> is_file w' fid c" if "fid < n" for fid
  proof -
    have "map_of m fid \<noteq> None" using holds that by (simp add: cache_holds_def map_of_eq_None_iff)
    with holds show ?thesis by (fastforce simp: cache_holds_def dest: map_of_SomeD)
  qed
  have run: "(\<forall>e. cache_allowed e s \<longrightarrow> (\<exists>s'. cache_step n e s = Some s'))
      \<and> (\<forall>i < readers. cr_pc (fc_readers s ! i) = CacheDone \<longrightarrow>
           (cr_hits (fc_readers s ! i), cr_bytes (fc_readers s ! i), cr_checksum (fc_readers s ! i))
             = cache_reads n reads (cache_reader_rng (of_nat i)) (0, 0, 0))"
    if run: "cache_run n (cache_start readers reads m w') es s" for es s
  proof -
    have inv: "cache_inv n reads (w_heap w) (w_tenants w) cp' s"
      using file_cache.run_inv [OF run cache_start_inv [OF sh holds assms(5)]] by blast
    have len: "length (fc_readers s) = readers" using cache_run_readers [OF run] by (simp add: cache_start_def)
    show ?thesis using file_cache.call_defined [OF inv] inv len by (fastforce simp: cache_inv_def reader_outcome_def)
  qed
  with found Inr show ?thesis by simp
qed simp

theorem file_cache_deterministic_witness:
  "\<exists>m w c. build_cache first_fit_alloc demo_tenant 1 chunk_demo_pool chunk_demo = Some (Inr m, chunk_demo_pool, w)
     \<and> map_of m 0 = Some c \<and> chunk_as_slice c w = Some (file_of 0)"
proof -
  from cache_demo obtain m w where
    b: "build_cache first_fit_alloc demo_tenant 1 chunk_demo_pool chunk_demo = Some (Inr m, chunk_demo_pool, w)" by blast
  have "unat (64 :: usize) \<le> 2 ^ 32" "(0 :: u64) < 1" by simp_all
  from file_cache_deterministic [OF log_demo chunk_demo_rest(1,2) this b, of 1 1] b show ?thesis by auto
qed

text \<open>What the program shows at its end. After the readers have been joined and the cache dropped, each
  tenant's chunks and bytes in use are what they were before the pool was made and no chunk is in use; one page
  stays in use if the pool has an open page, although the program's comment expects the pool's counters at zero.\<close>

theorem file_cache_drained:
  assumes "chunk_with_capacity ga ps k w = Some (Inr cp, w1)" and "w_packed w = []" and "w_chunks w = []"
    and "unat ps \<le> 2 ^ 32" and "0 < n" and "build_cache ga t n cp w1 = Some (Inr m, cp', w')"
    and "cache_run n (cache_start readers reads m w') es s" and "fc_cache s = None"
  shows "t_chunks_in_use (w_tenants (fc_world s) x) = t_chunks_in_use (w_tenants w x)
    \<and> t_bytes_in_use (w_tenants (fc_world s) x) = t_bytes_in_use (w_tenants w x)
    \<and> cs_chunks_in_use (w_cstats (fc_world s)) = 0
    \<and> ps_pages_in_use (sh_stats (w_shared (fc_world s))) = (case cp_current cp' of None \<Rightarrow> 0 | Some opn \<Rightarrow> 1)"
proof -
  from build_cache_ok [OF with_capacity_shares [OF assms(1-4)], of ga t n] assms(6) have
    sh: "shares (w_heap w) (w_tenants w) cp' w' (mset (map snd m))" and holds: "cache_holds n w' m" by auto
  have inv: "cache_inv n reads (w_heap w) (w_tenants w) cp' s"
    using file_cache.run_inv [OF assms(7) cache_start_inv [OF sh holds assms(5)]] by blast
  then have "\<forall>cr \<in> set (fc_readers s). cr_pc cr = CacheDone" using assms(8) by (simp add: cache_inv_def)
  from cache_quiet_handles [OF this] assms(8) have "cache_handles s = {#}" by (simp add: cache_handles_def cache_entries_def)
  with inv have "shares (w_heap w) (w_tenants w) cp' (fc_world s) {#}" by (simp add: cache_inv_def)
  from shares_end [OF this] shares_end_pages [OF this] show ?thesis by blast
qed

theorem file_cache_drained_witness:
  "\<exists>m w s. build_cache first_fit_alloc demo_tenant 1 chunk_demo_pool chunk_demo = Some (Inr m, chunk_demo_pool, w)
     \<and> cache_run 1 (cache_start 1 0 m w) [CacheReader 0, DropCache] s \<and> t_bytes_in_use (w_tenants (fc_world s) 0) = 0"
proof -
  from cache_demo obtain m w where
    b: "build_cache first_fit_alloc demo_tenant 1 chunk_demo_pool chunk_demo = Some (Inr m, chunk_demo_pool, w)" by blast
  have one: "unat (64 :: usize) \<le> 2 ^ 32" "(0 :: u64) < 1" by simp_all
  note sh0 = with_capacity_shares [OF log_demo chunk_demo_rest(1,2) one(1)]
  from build_cache_ok [OF sh0, of first_fit_alloc demo_tenant 1] b have
    sh: "shares (w_heap chunk_start) (w_tenants chunk_start) chunk_demo_pool w (mset (map snd m))" by auto
  then have "shares (w_heap chunk_start) (w_tenants chunk_start) chunk_demo_pool w (mset (map snd m) + {#})" by simp
  from shares_drop_all [OF this] obtain w' where "drop_all (map snd m) w = Some w'" by blast
  then have "\<exists>s. cache_run 1 (cache_start 1 0 m w) [CacheReader 0, DropCache] s \<and> fc_cache s = None"
    by (simp add: run_eq_exec_all cache_start_def cache_reader_step_def cache_reader_new_def)
  then obtain s where s: "cache_run 1 (cache_start 1 0 m w) [CacheReader 0, DropCache] s" "fc_cache s = None" by blast
  from file_cache_drained [OF log_demo chunk_demo_rest(1,2) one b s, of 0] b s(1) show ?thesis
    by (auto simp: chunk_start_def tenant_stats_default_def)
qed

end
