(* ===== verification/Examples.thy ===== *)
theory Examples
  imports Reports File_Cache
begin

text \<open>
  The short programs under \<open>examples\<close>, each \<open>main\<close> as one definition: what a call panics with ends the program, an
  \<open>assert_eq!\<close> that fails is the panic \<open>AssertFailed\<close>, \<open>unwrap\<close> of an error is \<open>ExpectFailed\<close>, and the result is what
  the program shows. Clocks and output are left out. Each program is shown to run to its end without a
  failing assertion unless memory is short.
\<close>

section \<open>Panics end a program\<close>

definition unless_panic :: "((panic + 'a) \<times> 'p \<times> 'w) option \<Rightarrow> ('a \<Rightarrow> 'p \<Rightarrow> 'w \<Rightarrow> ((panic + 'b) \<times> 'w) option)
    \<Rightarrow> ((panic + 'b) \<times> 'w) option" where
  "unless_panic m f = do { (r, p, w) \<leftarrow> m; (case r of Inl e \<Rightarrow> Some (Inl e, w) | Inr x \<Rightarrow> f x p w) }"

definition unwrap :: "panic + ('e + 'a) \<Rightarrow> panic + 'a" where
  "unwrap r = (case r of Inl e \<Rightarrow> Inl e | Inr (Inl _) \<Rightarrow> Inl ExpectFailed | Inr (Inr x) \<Rightarrow> Inr x)"

lemma unless_panic_simps [simp]: "unless_panic None f = None"
  "unless_panic (Some (Inl e, p, w)) f = Some (Inl e, w)" "unless_panic (Some (Inr x, p, w)) f = f x p w"
  by (simp_all add: unless_panic_def)

lemma unwrap_simps [simp]: "unwrap (Inl e) = Inl e" "unwrap (Inr (Inl d)) = Inl ExpectFailed" "unwrap (Inr (Inr x)) = Inr x"
  by (simp_all add: unwrap_def)

definition ascii :: "string \<Rightarrow> u8 list" where
  "ascii s = map of_char s"

text \<open>\<open>Tenant::new\<close> in a program state, with the cell it gets.\<close>

definition new_tenant :: "nat \<Rightarrow> string \<Rightarrow> 'z pool_world_scheme \<Rightarrow> tenant \<times> 'z pool_world_scheme" where
  "new_tenant fresh s w = (case tenant_new fresh s (w_tenants w) of (t, tab) \<Rightarrow> (t, w\<lparr>w_tenants := tab\<rparr>))"

section \<open>examples/pages.rs\<close>

text \<open>The result is the first eight bytes of the page and the heap allocations before and after the second
  allocation. At the end \<open>_p2\<close> and the pool are dropped.\<close>

definition block_bytes :: "u8 list" where
  "block_bytes = ascii (''block 0'' @ [CHR 0x0A])"

definition pages_reuse :: "u8 list \<Rightarrow> tenant \<Rightarrow> page_pool \<Rightarrow> page_world \<Rightarrow> ((panic + u8 list \<times> u64 \<times> u64) \<times> page_world) option" where
  "pages_reuse shown tenant pool w = do {
     before \<leftarrow> page_pool_stats w;
     let stats_before = pool_allocations_from_heap before;
     unless_panic (page_allocate tenant pool w) (\<lambda>builder pool w.
       unless_panic (map_option (\<lambda>(r, w). (r, (), w)) (page_builder_seal builder w)) (\<lambda>p2 _ w. do {
         after \<leftarrow> page_pool_stats w;
         let stats_after = pool_allocations_from_heap after;
         if stats_before \<noteq> stats_after then Some (Inl AssertFailed, w)
         else do {
           w \<leftarrow> page_drop p2 w;
           w \<leftarrow> page_pool_drop pool w;
           Some (Inr (shown, stats_before, stats_after), w)
         }
       }))
   }"

definition pages_main :: "placement \<Rightarrow> nat \<Rightarrow> page_world \<Rightarrow> ((panic + u8 list \<times> u64 \<times> u64) \<times> page_world) option" where
  "pages_main ga cell w =
     (case page_pool_new ga 4096 w of
        (Inl e, w) \<Rightarrow> Some (Inl e, w)
      | (Inr pool, w) \<Rightarrow> (case new_tenant cell ''block-cache'' w of (tenant, w) \<Rightarrow>
          unless_panic (page_allocate tenant pool w) (\<lambda>builder pool w. do {
            cap \<leftarrow> page_builder_capacity w;
            if cap \<noteq> 4096 then Some (Inl AssertFailed, w)
            else do {
              (r, builder, w) \<leftarrow> page_builder_append block_bytes builder w;
              (case unwrap r of
                 Inl e \<Rightarrow> Some (Inl e, w)
               | Inr _ \<Rightarrow> unless_panic (map_option (\<lambda>(r, w). (r, (), w)) (page_builder_seal builder w)) (\<lambda>page _ w. do {
                   bs \<leftarrow> page_deref page w;
                   (case bs of
                      Inl e \<Rightarrow> Some (Inl e, w)
                    | Inr bs \<Rightarrow>
                        if length bs < 8 then Some (Inl SliceIndex, w)
                        else do {
                          w \<leftarrow> page_drop page w;
                          pages_reuse (take 8 bs) tenant pool w
                        })
                 }))
            }
          })))"

section \<open>examples/hello.rs\<close>

text \<open>The three chunks and, after the first, the counters of the tenant. The bytes are ASCII, so that
  \<open>from_utf8\<close> accepts them.\<close>

definition hello_closure :: "unit init" where
  "hello_closure buf = (map (\<lambda>i. ucast (of_nat i * 7 :: usize)) [0..<length buf], Some ())"

fun append_unwrap :: "u8 list list \<Rightarrow> chunk_builder \<Rightarrow> chunk_world \<Rightarrow> ((panic + unit) \<times> chunk_builder \<times> chunk_world) option" where
  "append_unwrap [] b w = Some (Inr (), b, w)"
| "append_unwrap (d # ds) b w = do {
     (r, b, w) \<leftarrow> chunk_builder_append d b w;
     (case unwrap r of Inl e \<Rightarrow> Some (Inl e, b, w) | Inr _ \<Rightarrow> append_unwrap ds b w)
   }"

text \<open>The builder with its three \<open>append\<close> calls and \<open>seal\<close>; when an \<open>unwrap\<close> panics the builder is dropped.\<close>

definition hello_framed :: "placement \<Rightarrow> tenant \<Rightarrow> chunk_pool \<Rightarrow> chunk_world \<Rightarrow> ((panic + chunk) \<times> chunk_pool \<times> chunk_world) option" where
  "hello_framed ga tenant pool w =
     chunk_alloc_fill (append_unwrap [ascii ''['', ascii ''header'', ascii '']'']) ga tenant 32 pool w"

record hello_output =
  out_chunk :: "u8 list"
  out_chunks_in_use :: u64
  out_bytes_in_use :: u64
  out_computed :: "u8 list"
  out_framed :: "u8 list"

definition hello_main :: "placement \<Rightarrow> nat \<Rightarrow> chunk_world \<Rightarrow> ((panic + hello_output) \<times> chunk_world) option" where
  "hello_main ga cell w =
     (case chunk_new ga w of
        (Inl e, w) \<Rightarrow> Some (Inl e, w)
      | (Inr pool, w) \<Rightarrow> (case new_tenant cell ''greetings'' w of (tenant, w) \<Rightarrow>
          unless_panic (chunk_alloc_from ga tenant (ascii ''hello world'') pool w) (\<lambda>chunk pool w. do {
            shown \<leftarrow> chunk_deref chunk w;
            let chunks = tenant_chunks_in_use (tenant_stats_of tenant (w_tenants w));
            let bytes = tenant_bytes_in_use (tenant_stats_of tenant (w_tenants w));
            unless_panic (chunk_alloc_with ga tenant 16 hello_closure pool w) (\<lambda>computed pool w. do {
              bs \<leftarrow> chunk_deref computed w;
              if length bs < 4 then Some (Inl SliceIndex, w)
              else unless_panic (hello_framed ga tenant pool w) (\<lambda>framed pool w. do {
                fr \<leftarrow> chunk_deref framed w;
                w \<leftarrow> drop_all [framed, computed, chunk] w;
                w \<leftarrow> chunk_pool_drop pool w;
                Some (Inr \<lparr>out_chunk = shown, out_chunks_in_use = chunks, out_bytes_in_use = bytes,
                  out_computed = take 4 bs, out_framed = fr\<rparr>, w)
              })
            })
          })))"

section \<open>examples/tenants.rs\<close>

text \<open>\<open>print_tenant\<close> shows the chunks, the bytes and the peak; the metrics thread reads through a clone.\<close>

definition print_tenant :: "tenant \<Rightarrow> chunk_world \<Rightarrow> u64 \<times> u64 \<times> u64" where
  "print_tenant t w =
     (let s = tenant_stats_of t (w_tenants w)
      in (tenant_chunks_in_use s, tenant_bytes_in_use s, tenant_peak_bytes_in_use s))"

definition tenants_main :: "placement \<Rightarrow> nat \<Rightarrow> nat \<Rightarrow> chunk_world
    \<Rightarrow> ((panic + (u64 \<times> u64 \<times> u64) \<times> (u64 \<times> u64 \<times> u64) \<times> u64) \<times> chunk_world) option" where
  "tenants_main ga cell_a cell_b w =
     (case chunk_new ga w of
        (Inl e, w) \<Rightarrow> Some (Inl e, w)
      | (Inr pool, w) \<Rightarrow> (case new_tenant cell_a ''alice'' w of (alice, w) \<Rightarrow> (case new_tenant cell_b ''bob'' w of (bob, w) \<Rightarrow>
          unless_panic (chunk_alloc_from ga alice (replicate 1024 0) pool w) (\<lambda>a1 pool w.
          unless_panic (chunk_alloc_from ga alice (replicate 2048 0) pool w) (\<lambda>a2 pool w.
          unless_panic (chunk_alloc_from ga bob (replicate 512 0) pool w) (\<lambda>b1 pool w. do {
            let shown_a = print_tenant alice w;
            let shown_b = print_tenant bob w;
            let seen = tenant_bytes_in_use (tenant_stats_of (tenant_clone alice) (w_tenants w));
            w \<leftarrow> drop_all [b1, a2, a1] w;
            w \<leftarrow> chunk_pool_drop pool w;
            Some (Inr (shown_a, shown_b, seen), w)
          }))))))"

section \<open>examples/prewarm.rs\<close>

text \<open>\<open>time_first_n_allocations\<close> without its clock: the result is the number of chunks in use when the time is taken.
  At its end the chunks are dropped in order, and then the pool.\<close>

definition prewarm_n :: nat where
  "prewarm_n = 256"

definition prewarm_chunk_size :: usize where
  "prewarm_chunk_size = 4 * 1024"

fun first_n :: "placement \<Rightarrow> tenant \<Rightarrow> nat \<Rightarrow> chunk list \<Rightarrow> chunk_pool \<Rightarrow> chunk_world
    \<Rightarrow> ((panic + chunk list) \<times> chunk_pool \<times> chunk_world) option" where
  "first_n ga tenant 0 sink pool w = Some (Inr sink, pool, w)"
| "first_n ga tenant (Suc n) sink pool w = do {
     (r, pool, w) \<leftarrow> chunk_allocate ga tenant prewarm_chunk_size pool w;
     (case r of
        Inl e \<Rightarrow> Some (Inl e, pool, w)
      | Inr b \<Rightarrow> do {
          (r, w) \<leftarrow> chunk_builder_seal b w;
          (case r of Inl e \<Rightarrow> Some (Inl e, pool, w) | Inr c \<Rightarrow> first_n ga tenant n (sink @ [c]) pool w)
        })
   }"

definition time_first_n_allocations :: "placement \<Rightarrow> tenant \<Rightarrow> chunk_pool \<Rightarrow> chunk_world \<Rightarrow> ((panic + u64) \<times> chunk_world) option" where
  "time_first_n_allocations ga tenant pool w =
     unless_panic (first_n ga tenant prewarm_n [] pool w) (\<lambda>sink pool w. do {
       let chunks = tenant_chunks_in_use (tenant_stats_of tenant (w_tenants w));
       w \<leftarrow> drop_all sink w;
       w \<leftarrow> chunk_pool_drop pool w;
       Some (Inr chunks, w)
     })"

definition prewarm_cold :: "placement \<Rightarrow> nat \<Rightarrow> chunk_world \<Rightarrow> ((panic + u64) \<times> chunk_world) option" where
  "prewarm_cold ga cell w =
     (case chunk_new ga w of
        (Inl e, w) \<Rightarrow> Some (Inl e, w)
      | (Inr pool, w) \<Rightarrow> (case new_tenant cell ''cold'' w of (tenant, w) \<Rightarrow> time_first_n_allocations ga tenant pool w))"

definition prewarm_warm :: "placement \<Rightarrow> nat \<Rightarrow> chunk_world \<Rightarrow> ((panic + u64) \<times> chunk_world) option" where
  "prewarm_warm ga cell w = do {
     (r, w) \<leftarrow> chunk_with_capacity ga (16 * 1024) (of_nat prewarm_n) w;
     (case r of
        Inl e \<Rightarrow> Some (Inl e, w)
      | Inr pool \<Rightarrow> (case new_tenant cell ''warm'' w of (tenant, w) \<Rightarrow> time_first_n_allocations ga tenant pool w))
   }"

section \<open>Lemmas\<close>

subsection \<open>Pages\<close>

text \<open>The next allocation after the last drop of a page is served from the returned buffer.\<close>

lemma push_return_allocations:
  "push_return x w = Some w' \<Longrightarrow> ps_allocations_from_heap (sh_stats (w_shared w')) = ps_allocations_from_heap (sh_stats (w_shared w))"
  by (auto simp: push_return_def bind_eq_Some_conv)

lemma drop_shared_allocations:
  "drop_shared w = Some w' \<Longrightarrow> w_strong w' \<noteq> 0 \<Longrightarrow> w_shared w' = w_shared w"
  by (auto simp: drop_shared_def pool_shared_drop_def bind_eq_Some_conv Let_def split: if_splits)

lemma page_drop_reuse:
  assumes inv: "page_inv h0 base (Some pp) k w B" and p: "get_page p w = Some (i, 1)"
  shows "\<exists>w' a. page_drop p w = Some w' \<and> pool_inv (Some pp) w' a (page_buffers w' B) \<and> a_return a \<noteq> []
    \<and> ps_allocations_from_heap (sh_stats (w_shared w')) = ps_allocations_from_heap (sh_stats (w_shared w))"
proof -
  from p have q: "p < length (w_pages w)" "w_pages w ! p = (i, 1)" by (simp_all add: get_page_Some)
  from live_cells_split [OF q] obtain L where L: "live_cells (w_pages w) = add_mset i L"
    "live_cells ((w_pages w)[p := (i, 0)]) = L" by fastforce
  let ?w = "w\<lparr>w_pages := (w_pages w)[p := (i, 0)]\<rparr>"
  let ?u = "upd_tenant (pi_tenant i) (record_release (pi_capacity i)) ?w"
  have "inner_ok (sh_page_size (w_shared w)) i" using inv L(1) by (simp add: page_inv_def)
  then obtain buf where buf: "pi_buf i = Some buf" by (auto simp: inner_ok_def)
  have holds: "page_holds w B = add_mset (buf, pi_tenant i) (page_holds ?w B)"
    using L buf by (simp add: page_holds_def inner_hold_def)
  have "pool_life h0 (Some pp) k ?w U = pool_life h0 (Some pp) k w U" for U by (rule pool_life_cong) simp_all
  then have "pool_life h0 (Some pp) k ?u (add_mset buf (page_buffers ?w B))" using inv holds by (simp add: page_inv_def)
  then obtain a where own: "pool_owned h0 (Some pp) k ?u a (add_mset buf (page_buffers ?w B))" by (auto simp: pool_life_some)
  from give_back_owned [OF own] obtain w' where w': "give_back buf ?u = Some w'" "pool_frame ?u w'"
    "pool_owned h0 (Some pp) k w' (a_give buf a) (page_buffers ?w B)" by auto
  have "page_drop p w = Some w'" using p buf w'(1) by (simp add: page_drop_def page_inner_drop_def give_back_def)
  moreover have "page_buffers w' B = page_buffers ?w B" using pool_frame_pages [OF w'(2)] by (simp add: page_holds_def)
  moreover have "ps_allocations_from_heap (sh_stats (w_shared w')) = ps_allocations_from_heap (sh_stats (w_shared w))"
  proof -
    from w'(1) obtain v where v: "push_return buf ?u = Some v" "drop_shared v = Some w'"
      by (auto simp: give_back_def bind_eq_Some_conv)
    have "w_strong w' \<noteq> 0" using w'(3) by (simp add: pool_owned_def)
    from drop_shared_allocations [OF v(2) this] push_return_allocations [OF v(1)] show ?thesis by simp
  qed
  ultimately show ?thesis using pool_owned_inv [OF w'(3)] by (auto simp: a_give_def)
qed

lemma page_allocate_reuse:
  assumes inv: "page_inv h0 base (Some pp) k w B" and own: "pool_inv (Some pp) w a (page_buffers w B)" "a_return a \<noteq> []"
  shows "\<exists>b pp' w'. page_allocate t pp w = Some (Inr b, pp', w') \<and> page_inv h0 base (Some pp') k w' (add_mset b B)
    \<and> w_pages w' = w_pages w
    \<and> ps_allocations_from_heap (sh_stats (w_shared w')) = ps_allocations_from_heap (sh_stats (w_shared w))"
proof -
  obtain x a' where "a_take a = Some (x, a')" using own(2) by (metis a_take_None not_None_eq prod.exhaust)
  from allocate_raw_page_take [OF own(1) this] obtain pp' w' where
    al: "allocate_raw_page pp w = Some (Inr x, pp', w')"
      "ps_allocations_from_heap (sh_stats (w_shared w')) = ps_allocations_from_heap (sh_stats (w_shared w))" by blast
  show ?thesis
    using inv
  proof (cases rule: page_allocate_cases [where t = t])
    case (failed e pp'' w'')
    with al show ?thesis by (auto simp: page_allocate_def bind_eq_Some_conv)
  next
    case (built b pp'' w'')
    then have "w_shared w'' = w_shared w'" using al by (auto simp: page_allocate_def bind_eq_Some_conv)
    with built al show ?thesis by auto
  qed
qed

text \<open>A pool without free pages asks its source.\<close>

lemma page_allocate_first:
  assumes "pp_local_head pp = 0" and "sh_return_head (w_shared w) = 0" and "0 < w_strong w"
  shows "\<exists>pp' w' r. page_allocate t pp w = Some (r, pp', w') \<and>
    (case fst (src_allocate (sh_source (w_shared w)) (w_heap w)) of Inl e \<Rightarrow> r = Inl e | Inr x \<Rightarrow> \<exists>b. r = Inr b)"
  using assms
  by (auto simp: page_allocate_def allocate_raw_page_def pop_local_def drain_return_queue_def allocate_fresh_def get_shared_def Let_def
      split: sum.split prod.split)

lemma page_inv_new_tenant:
  assumes "page_inv h0 base pp k w {#}" and "w_pages w = []" and "new_tenant cell s w = (t, w')"
  shows "page_inv h0 (w_tenants w') pp k w' {#}" and "w_pages w' = []" and "w_shared w' = w_shared w"
    and "w_tenants w' = (w_tenants w)(cell := tenant_stats_default)" and "w_heap w' = w_heap w" and "w_strong w' = w_strong w"
proof -
  have w': "w' = w\<lparr>w_tenants := (w_tenants w)(cell := tenant_stats_default)\<rparr>"
    using assms(3) by (auto simp: new_tenant_def tenant_new_def)
  have "pool_life h0 pp k w' {#} = pool_life h0 pp k w {#}" by (rule pool_life_cong) (simp_all add: w')
  then show "page_inv h0 (w_tenants w') pp k w' {#}"
    using assms(1,2) by (simp add: page_inv_def page_holds_def charged_def w')
qed (use assms in \<open>auto simp: new_tenant_def tenant_new_def\<close>)

text \<open>The pool of the program.\<close>

definition heap_4096 :: heap_source where
  "heap_4096 = \<lparr>hs_page_size = 4096, hs_layout = \<lparr>l_size = 4096, l_align = 8\<rparr>\<rparr>"

lemma page_pool_new_4096:
  obtains pp w' where "page_pool_new ga 4096 w = (Inr pp, w')" and "w_pages w' = w_pages w"
    and "live_cells (w_pages w) = {#} \<Longrightarrow> page_inv (w_heap w) (w_tenants w) (Some pp) 0 w' {#}"
    and "sh_source (w_shared w') = heap_vtable ga heap_4096" and "sh_page_size (w_shared w') = 4096" and "w_tenants w' = w_tenants w"
    and "pp_local_head pp = 0" and "sh_return_head (w_shared w') = 0" and "0 < w_strong w'" and "w_heap w' = w_heap w"
proof -
  let ?src = "heap_vtable ga \<lparr>hs_page_size = 4096, hs_layout = \<lparr>l_size = 4096, l_align = 8\<rparr>\<rparr>"
  have new: "page_pool_new ga 4096 w = with_source ?src w"
    by (simp add: page_pool_new_def heap_source_new_eq isize_max_def)
  have ct: "page_source_contract ?src" by (rule heap_src.page_source_contract_axioms)
  obtain pp w' where ws: "with_source ?src w = (Inr pp, w')"
    by (auto simp: with_source_def Let_def heap_vtable_def ptr_size_def)
  from ws have "w_pages w' = w_pages w" "sh_source (w_shared w') = ?src" "sh_page_size (w_shared w') = 4096" "w_tenants w' = w_tenants w"
    "pp_local_head pp = 0" "sh_return_head (w_shared w') = 0" "0 < w_strong w'" "w_heap w' = w_heap w"
    by (auto simp: with_source_def Let_def heap_vtable_def split: if_splits)
  with that [OF new [unfolded ws]] page_inv_new [OF ct ws] show thesis by (simp add: heap_4096_def)
qed

lemma pages_reuse_ok:
  assumes inv: "page_inv h0 base (Some pp) 0 w {#}" and own: "pool_inv (Some pp) w a (page_buffers w {#})" "a_return a \<noteq> []"
    and none: "live_cells (w_pages w) = {#}"
  shows "\<exists>n w'. pages_reuse shown t pp w = Some (Inr (shown, n, n), w') \<and> w_heap w' = h0
    \<and> t_bytes_in_use (w_tenants w' x) = t_bytes_in_use (base x)"
proof -
  from page_allocate_reuse [OF inv own, of t] obtain b pp1 w1 where
    al: "page_allocate t pp w = Some (Inr b, pp1, w1)" and i1: "page_inv h0 base (Some pp1) 0 w1 {#b#}" and p1: "w_pages w1 = w_pages w"
    and same: "ps_allocations_from_heap (sh_stats (w_shared w1)) = ps_allocations_from_heap (sh_stats (w_shared w))" by blast
  let ?p = "length (w_pages w1)"
  from page_builder_seal_inv [OF i1] obtain w2 i where
    se: "page_builder_seal b w1 = Some (Inr ?p, w2)" and i2: "page_inv h0 base (Some pp1) 0 w2 {#}"
    and sh: "w_shared w2 = w_shared w1" and p2: "w_pages w2 = w_pages w1 @ [(i, 1)]" by blast
  have "get_page ?p w2 = Some (i, 1)" by (simp add: get_page_def get_cell_def p2)
  from page_drop_inv [OF i2 this] obtain w3 where d: "page_drop ?p w2 = Some w3" and i3: "page_inv h0 base (Some pp1) 0 w3 {#}"
    and p3: "w_pages w3 = w_pages w1 @ [(i, 0)]" by (auto simp: p2)
  have n3: "live_cells (w_pages w3) = {#}" using none by (simp add: p3 p1 live_cells_def)
  from page_pool_drop_inv [OF i3] obtain w4 where pd: "page_pool_drop pp1 w3 = Some w4" and i4: "page_inv h0 base None 0 w4 {#}"
    and p4: "w_pages w4 = w_pages w3" by blast
  have "page_holds w4 {#} = {#}" using n3 p4 by (simp add: page_holds_def)
  then have "pool_life h0 None 0 w4 {#}" "charged base (sh_page_size (w_shared w4)) (w_tenants w4) {#}"
    using i4 by (simp_all add: page_inv_def)
  then have "w_heap w4 = h0 \<and> t_bytes_in_use (w_tenants w4 x) = t_bytes_in_use (base x)"
    by (auto simp: charged_def dest: pool_life_end)
  with al se d pd page_inv_shared [OF inv] page_inv_shared [OF i2] sh same show ?thesis
    by (auto simp: pages_reuse_def page_pool_stats_def pool_allocations_from_heap_def Let_def)
qed

subsection \<open>Chunks\<close>

lemma new_tenant_eq: "new_tenant cell s w = (t, w') \<longleftrightarrow>
    t = \<lparr>tenant_id = tenant_id_from s, tenant_cell = cell\<rparr> \<and> w' = w\<lparr>w_tenants := (w_tenants w)(cell := tenant_stats_default)\<rparr>"
  by (auto simp: new_tenant_def tenant_new_def)

lemma tenant_stats_default_fields: "t_chunks_in_use tenant_stats_default = 0" "t_bytes_in_use tenant_stats_default = 0"
  by (simp_all add: tenant_stats_default_def)

text \<open>The end of a program: all chunks are dropped, then the pool.\<close>

lemma shares_finish:
  assumes "shares h0 base cp w (mset cs)"
  shows "\<exists>w1 w'. drop_all cs w = Some w1 \<and> chunk_pool_drop cp w1 = Some w' \<and> w_heap w' = h0
    \<and> (\<forall>t. t_chunks_in_use (w_tenants w' t) = t_chunks_in_use (base t) \<and> t_bytes_in_use (w_tenants w' t) = t_bytes_in_use (base t))"
proof -
  have "shares h0 base cp w (mset cs + {#})" using assms by simp
  from shares_drop_all [OF this] obtain w1 where w1: "drop_all cs w = Some w1" "shares h0 base cp w1 {#}" by blast
  from shares_pool_drop [OF w1(2)] shares_end(1,2) [OF w1(2)] w1(1) show ?thesis by auto
qed

lemma alloc_from_cases:
  assumes "shares h0 base cp w H" and "length data < 2 ^ 32"
  obtains (failed) e cp' w' where "chunk_alloc_from ga t data cp w = Some (Inl e, cp', w')"
    | (made) c cp' w' where "chunk_alloc_from ga t data cp w = Some (Inr c, cp', w')" and "shares h0 base cp' w' (add_mset c H)"
        and "chunk_as_slice c w' = Some data" and "chunks_stable w w'"
        and "w_tenants w' = (w_tenants w)(tenant_cell t := record_chunk_allocate (of_nat (length data)) (w_tenants w (tenant_cell t)))"
proof -
  from shares_alloc_from [OF assms, of ga t] obtain r cp' w' where
    "chunk_alloc_from ga t data cp w = Some (r, cp', w')" "chunks_stable w w'" "case r of
         Inl e \<Rightarrow> shares h0 base cp' w' H
       | Inr c \<Rightarrow> shares h0 base cp' w' (add_mset c H) \<and> chunk_as_slice c w' = Some data
           \<and> w_tenants w' = (w_tenants w)(tenant_cell t := record_chunk_allocate (of_nat (length data)) (w_tenants w (tenant_cell t)))"
    by blast
  with that show thesis by (cases r) auto
qed

lemma alloc_with_cases:
  assumes "shares h0 base cp w H" and "keeps_length f" and "\<And>bs. snd (f bs) = Some ()" and "unat sz < 2 ^ 32"
  obtains (failed) e cp' w' where "chunk_alloc_with ga t sz f cp w = Some (Inl e, cp', w')"
    | (made) c X cp' w' where "chunk_alloc_with ga t sz f cp w = Some (Inr c, cp', w')" and "shares h0 base cp' w' (add_mset c H)"
        and "length X = unat sz" and "chunk_as_slice c w' = Some (fst (f X))"
proof -
  from shares_alloc_with [OF assms, of ga t] obtain r cp' w' where
    "chunk_alloc_with ga t sz f cp w = Some (r, cp', w')" "case r of
         Inl e \<Rightarrow> shares h0 base cp' w' H
       | Inr c \<Rightarrow> shares h0 base cp' w' (add_mset c H) \<and> (\<exists>X. length X = unat sz \<and> chunk_as_slice c w' = Some (fst (f X)))" by blast
  with that show thesis by (cases r) auto
qed

text \<open>A sequence of appends to a builder, each unwrapped.\<close>

lemma append_unwrap_ok:
  assumes "\<forall>d \<in> set ds. length d \<le> isize_max"
  shows "chunk_fill_ok (append_unwrap ds)"
  unfolding chunk_fill_ok_def
proof (intro allI impI)
  fix h0 cpo k w b B
  assume "chunk_inv h0 cpo k w (add_mset b B)"
  then show "\<exists>r b' w'. append_unwrap ds b w = Some (r, b', w') \<and> builder_step h0 cpo k B b w b' w'"
    using assms
  proof (induction ds arbitrary: b w)
    case Nil
    then show ?case by (simp add: builder_step_refl)
  next
    case (Cons d ds)
    from chunk_contents_live [OF Cons.prems(1)] obtain xs where
      xs: "chunk_builder_as_slice b w = Some xs" "length xs = unat (cb_len b)" by auto
    show ?case
    proof (cases "length xs + length d \<le> unat (cb_capacity b)")
      case True
      from chunk_append_contents [OF Cons.prems(1) xs(1) True] obtain b1 w1 where
        a: "chunk_builder_append d b w = Some (Inr (Inr ()), b1, w1)" "builder_step h0 cpo k B b w b1 w1" by blast
      then have "chunk_inv h0 cpo k w1 (add_mset b1 B)" by (simp add: builder_step_def)
      from Cons.IH [OF this] Cons.prems(2) a show ?thesis by (auto intro: builder_step_trans)
    next
      case False
      with chunk_append_full [of d b w] xs(2) Cons.prems builder_step_refl [OF Cons.prems(1)] show ?thesis by simp
    qed
  qed
qed

lemma append_unwrap_fits:
  assumes "chunk_inv h0 cpo k w (add_mset b B)" and "chunk_builder_as_slice b w = Some xs"
    and "length xs + length (concat ds) \<le> unat (cb_capacity b)"
  shows "\<exists>b' w'. append_unwrap ds b w = Some (Inr (), b', w') \<and> builder_step h0 cpo k B b w b' w'
    \<and> chunk_builder_as_slice b' w' = Some (xs @ concat ds)"
  using assms
proof (induction ds arbitrary: b w xs)
  case Nil
  then show ?case by (simp add: builder_step_refl)
next
  case (Cons d ds)
  then have "length xs + length d \<le> unat (cb_capacity b)" by simp
  from chunk_append_contents [OF Cons.prems(1,2) this] obtain b1 w1 where
    a: "chunk_builder_append d b w = Some (Inr (Inr ()), b1, w1)" "builder_step h0 cpo k B b w b1 w1"
    "chunk_builder_as_slice b1 w1 = Some (xs @ d)" by blast
  then have "chunk_inv h0 cpo k w1 (add_mset b1 B)" by (simp add: builder_step_def)
  from Cons.IH [OF this a(3)] builder_step_capacity [OF a(2)] Cons.prems(3) a show ?case by (auto intro: builder_step_trans)
qed

text \<open>Allocate, append and seal.\<close>

lemma alloc_appends_cases:
  assumes inv: "shares h0 base cp w H" and ds: "\<forall>d \<in> set ds. length d \<le> isize_max"
    and fits: "length (concat ds) \<le> unat sz" and sz: "unat sz < 2 ^ 32"
  obtains (failed) e cp' w' where "chunk_alloc_fill (append_unwrap ds) ga t sz cp w = Some (Inl e, cp', w')"
    | (made) c cp' w' where "chunk_alloc_fill (append_unwrap ds) ga t sz cp w = Some (Inr c, cp', w')"
        and "shares h0 base cp' w' (add_mset c H)" and "chunk_as_slice c w' = Some (concat ds)"
proof -
  note ci = sharesD(1) [OF inv]
  from shares_alloc_fill [OF inv append_unwrap_ok [OF ds] sz, of ga t] obtain r cp' w' where
    a: "chunk_alloc_fill (append_unwrap ds) ga t sz cp w = Some (r, cp', w')" "chunks_stable w w'"
    and res: "case r of Inl e \<Rightarrow> shares h0 base cp' w' H
      | Inr c \<Rightarrow> shares h0 base cp' w' (add_mset c H) \<and> c = length (w_chunks w)"
    by (fastforce split: sum.splits)
  have "chunk_as_slice c w' = Some (concat ds)" if Inr: "r = Inr c" for c
  proof -
    from a(1) Inr obtain b cp1 w1 where al: "chunk_allocate ga t sz cp w = Some (Inr b, cp1, w1)"
      by (auto simp: chunk_alloc_fill_def split: Option.bind_split_asm sum.split_asm)
    from allocate_aligned_inv [OF ci is_power_of_two_default, of ga t sz] al obtain k where
      ok: "chunk_allocated h0 0 {#} k (tenant_cell t) sz default_align w (Inr b) cp1 w1"
      by (auto simp: chunk_allocate_def)
    then have inv1: "chunk_inv h0 (Some cp1) 0 w1 (add_mset b {#})" and b: "cb_capacity b = ucast sz" "cb_len b = 0"
      and ch: "w_chunks w1 = w_chunks w" by (simp_all add: chunk_allocated_def new_builder_def)
    have cap: "unat (cb_capacity b) = unat sz" using b ucast_small [OF sz] by (metis unat_ucast_up)
    from chunk_contents_live [OF inv1] b(2) have "chunk_builder_as_slice b w1 = Some []" by auto
    from append_unwrap_fits [OF inv1 this, of ds] fits cap obtain b2 w2 where
      f: "append_unwrap ds b w1 = Some (Inr (), b2, w2)" "builder_step h0 (Some cp1) 0 {#} b w1 b2 w2"
      "chunk_builder_as_slice b2 w2 = Some (concat ds)" by auto
    from chunk_alloc_fill_sealed [where fill = "append_unwrap ds", OF al ch f(1,2)] a(1) res Inr f(3) show ?thesis by auto
  qed
  with a res that show thesis by (cases r) auto
qed

lemma hello_closure_facts:
  "keeps_length hello_closure" "snd (hello_closure bs) = Some ()"
  "length bs = 16 \<Longrightarrow> length (fst (hello_closure bs)) = 16 \<and> take 4 (fst (hello_closure bs)) = [0, 7, 14, 21]"
  by (simp_all add: keeps_length_def hello_closure_def take_map) (simp add: upt_conv_Cons)

text \<open>The loop of \<open>time_first_n_allocations\<close>.\<close>

lemma first_n_ok:
  assumes "shares h0 base cp w (mset sink)"
  shows "\<exists>r cp' w'. first_n ga t n sink cp w = Some (r, cp', w') \<and>
    (case r of
       Inl e \<Rightarrow> True
     | Inr sink' \<Rightarrow> shares h0 base cp' w' (mset sink') \<and> length sink' = length sink + n
         \<and> t_chunks_in_use (w_tenants w' (tenant_cell t)) = t_chunks_in_use (w_tenants w (tenant_cell t)) + of_nat n)"
  using assms
proof (induction n arbitrary: sink cp w)
  case 0
  then show ?case by simp
next
  case (Suc n)
  have sz: "unat prewarm_chunk_size < 2 ^ 32" by (simp add: prewarm_chunk_size_def)
  have ok: "chunk_fill_ok (append_unwrap [])" by (rule append_unwrap_ok) simp
  from shares_alloc_fill [OF Suc.prems ok sz, of ga t] obtain r cp1 w1 where
    al: "chunk_alloc_fill (append_unwrap []) ga t prewarm_chunk_size cp w = Some (r, cp1, w1)" and res: "case r of
         Inl e \<Rightarrow> shares h0 base cp1 w1 (mset sink)
       | Inr c \<Rightarrow> shares h0 base cp1 w1 (add_mset c (mset sink)) \<and> c = length (w_chunks w)
           \<and> w_tenants w1 = (w_tenants w)(tenant_cell t := record_chunk_allocate prewarm_chunk_size (w_tenants w (tenant_cell t)))"
    by blast
  have step: "first_n ga t (Suc n) sink cp w = (case r of Inl e \<Rightarrow> Some (Inl e, cp1, w1) | Inr c \<Rightarrow> first_n ga t n (sink @ [c]) cp1 w1)"
    using al by (auto simp: chunk_alloc_fill_def split: Option.bind_split_asm sum.split_asm sum.split)
  show ?case
  proof (cases r)
    case (Inl e)
    with step show ?thesis by simp
  next
    case (Inr c)
    with res have sh: "shares h0 base cp1 w1 (mset (sink @ [c]))" by auto
    have "t_chunks_in_use (w_tenants w1 (tenant_cell t)) = t_chunks_in_use (w_tenants w (tenant_cell t)) + 1"
      using res Inr by (simp add: record_chunk_allocate_def fetch_add_def Let_def)
    with Suc.IH [OF sh] step Inr show ?thesis by (fastforce split: sum.splits)
  qed
qed

lemma time_first_n_ok:
  assumes "shares h0 base cp w {#}" and "w' = w\<lparr>w_tenants := (w_tenants w)(cell := tenant_stats_default)\<rparr>" and "tenant_cell t = cell"
  shows "\<exists>r v. time_first_n_allocations ga t cp w' = Some (r, v) \<and>
    (case r of Inl e \<Rightarrow> True | Inr n \<Rightarrow> n = 256 \<and> w_heap v = h0 \<and> t_chunks_in_use (w_tenants v cell) = 0)"
proof -
  let ?base = "(w_tenants w)(cell := tenant_stats_default)"
  have "shares h0 ?base cp w' (mset [])" using shares_new_tenant [OF assms(1,2)] by simp
  from first_n_ok [OF this, of ga t prewarm_n] obtain r cp1 w1 where
    f: "first_n ga t prewarm_n [] cp w' = Some (r, cp1, w1)" and res: "case r of
       Inl e \<Rightarrow> True
     | Inr sink \<Rightarrow> shares h0 ?base cp1 w1 (mset sink) \<and> length sink = length ([] :: chunk list) + prewarm_n
         \<and> t_chunks_in_use (w_tenants w1 (tenant_cell t)) = t_chunks_in_use (w_tenants w' (tenant_cell t)) + of_nat prewarm_n"
    by blast
  show ?thesis
  proof (cases r)
    case (Inl e)
    with f show ?thesis by (simp add: time_first_n_allocations_def)
  next
    case (Inr sink)
    with res have sh: "shares h0 ?base cp1 w1 (mset sink)" and n: "t_chunks_in_use (w_tenants w1 cell) = 256"
      using assms(2,3) by (simp_all add: prewarm_n_def tenant_stats_default_fields)
    from shares_finish [OF sh] f Inr n assms(3) show ?thesis
      by (fastforce simp: time_first_n_allocations_def accessor_defs tenant_stats_of_def tenant_stats_default_fields)
  qed
qed

text \<open>The first page of \<open>pages.rs\<close>: appended to, sealed, read and dropped, which leaves its buffer in the return
  queue.\<close>

lemma pages_first_block:
  assumes inv: "page_inv h0 base (Some pp) 0 w3 {#b#}" and "w_pages w3 = []" and sz: "sh_page_size (w_shared w3) = 4096"
    and len: "pb_len b = 0"
  obtains b4 w4 w5 w6 a where "page_builder_append block_bytes b w3 = Some (Inr (Inr ()), b4, w4)"
    and "page_builder_seal b4 w4 = Some (Inr 0, w5)" and "page_as_slice 0 w5 = Some (Inr block_bytes)"
    and "page_drop 0 w5 = Some w6" and "page_inv h0 base (Some pp) 0 w6 {#}"
    and "pool_inv (Some pp) w6 a (page_buffers w6 {#})" and "a_return a \<noteq> []" and "live_cells (w_pages w6) = {#}"
proof -
  have "page_builder_as_slice b w3 = Some (Inr [])"
    by (rule page_contents_live [OF inv]) (use len in simp)
  from page_builder_append_inv [OF inv _ this, of block_bytes] sz len obtain b4 w4 where
    ap: "page_builder_append block_bytes b w3 = Some (Inr (Inr ()), b4, w4)" and i4: "page_inv h0 base (Some pp) 0 w4 {#b4#}"
    and p4: "w_pages w4 = []" and c4: "page_builder_as_slice b4 w4 = Some (Inr block_bytes)"
    using assms(2) by (auto simp: block_bytes_def ascii_def isize_max_def)
  from page_builder_seal_inv [OF i4] p4 obtain w5 i where
    se: "page_builder_seal b4 w4 = Some (Inr 0, w5)" and i5: "page_inv h0 base (Some pp) 0 w5 {#}"
    and p5: "w_pages w5 = [(i, 1)]" and c5: "page_as_slice 0 w5 = Some (Inr block_bytes)" using c4 by auto
  have g: "get_page 0 w5 = Some (i, 1)" by (simp add: get_page_def get_cell_def p5)
  from page_drop_reuse [OF i5 g] obtain w6 a where dr: "page_drop 0 w5 = Some w6"
    and own: "pool_inv (Some pp) w6 a (page_buffers w6 {#})" "a_return a \<noteq> []" by blast
  from page_drop_inv [OF i5 g] dr have i6: "page_inv h0 base (Some pp) 0 w6 {#}" and p6: "w_pages w6 = [(i, 0)]"
    by (auto simp: p5)
  show thesis by (rule that [OF ap se c5 dr i6 own]) (simp add: p6 live_cells_def)
qed

section \<open>Properties\<close>

text \<open>\<open>examples/pages.rs\<close> runs to its end. Only the first allocation can fail, when the global allocator does;
  otherwise no assertion fails, the page shows the eight bytes appended to it, the allocation after the drop takes the
  recycled buffer, so that the count of heap allocations is the same before and after, and at the end memory
  is as it was and nothing is charged to the tenant.\<close>

theorem pages_example_reuses:
  assumes "w_pages w = []"
  shows "\<exists>r w'. pages_main ga cell w = Some (r, w') \<and>
    (case fst (heap_allocate ga heap_4096 (w_heap w)) of
       Inl e \<Rightarrow> r = Inl e
     | Inr x \<Rightarrow> (\<exists>n. r = Inr (block_bytes, n, n)) \<and> w_heap w' = w_heap w \<and> t_bytes_in_use (w_tenants w' cell) = 0)"
proof -
  obtain pp w1 where new: "page_pool_new ga 4096 w = (Inr pp, w1)" and p1: "w_pages w1 = []"
    and i1: "page_inv (w_heap w) (w_tenants w) (Some pp) 0 w1 {#}"
    and s1: "sh_source (w_shared w1) = heap_vtable ga heap_4096" "sh_page_size (w_shared w1) = 4096" "w_heap w1 = w_heap w"
      "pp_local_head pp = 0" "sh_return_head (w_shared w1) = 0" "0 < w_strong w1"
    by (rule page_pool_new_4096 [of ga w]) (use assms in \<open>auto simp: live_cells_def\<close>)
  obtain t w2 where ten: "new_tenant cell ''block-cache'' w1 = (t, w2)" by fastforce
  note i2 = page_inv_new_tenant [OF i1 p1 ten]
  have "src_allocate (sh_source (w_shared w2)) (w_heap w2) = heap_allocate ga heap_4096 (w_heap w)"
    using s1 i2(3,5) by (simp add: heap_vtable_def)
  with page_allocate_first [of pp w2 t] s1 i2(3,6) have first: "\<exists>pp' w' r. page_allocate t pp w2 = Some (r, pp', w') \<and>
    (case fst (heap_allocate ga heap_4096 (w_heap w)) of Inl e \<Rightarrow> r = Inl e | Inr x \<Rightarrow> \<exists>b. r = Inr b)" by simp
  show ?thesis
    using i2(1)
  proof (cases rule: page_allocate_cases [where t = t])
    case (failed e pp' w')
    with first have "fst (heap_allocate ga heap_4096 (w_heap w)) = Inl e" by (auto split: sum.splits)
    with failed new ten show ?thesis by (simp add: pages_main_def)
  next
    case (built b pp3 w3)
    have sz: "sh_page_size (w_shared w3) = 4096" using keeps_size [OF built(4)] i2(3) s1(2) by simp
    have len: "length block_bytes = 8" by (simp add: block_bytes_def ascii_def)
    have cap: "page_builder_capacity w3 = Some 4096" using page_inv_shared [OF built(2)] sz by (simp add: page_builder_capacity_def)
    obtain b4 w4 w5 w6 a where ap: "page_builder_append block_bytes b w3 = Some (Inr (Inr ()), b4, w4)"
      and se: "page_builder_seal b4 w4 = Some (Inr 0, w5)" and c5: "page_as_slice 0 w5 = Some (Inr block_bytes)"
      and dr: "page_drop 0 w5 = Some w6" and i6: "page_inv (w_heap w) (w_tenants w2) (Some pp3) 0 w6 {#}"
      and own: "pool_inv (Some pp3) w6 a (page_buffers w6 {#})" "a_return a \<noteq> []" "live_cells (w_pages w6) = {#}"
      by (rule pages_first_block [OF built(2) _ sz built(5)]) (use built(3) i2(2) in simp_all)
    from pages_reuse_ok [OF i6 own, of block_bytes t cell] obtain n w7 where
      "pages_reuse block_bytes t pp3 w6 = Some (Inr (block_bytes, n, n), w7)" "w_heap w7 = w_heap w"
      "t_bytes_in_use (w_tenants w7 cell) = t_bytes_in_use (w_tenants w2 cell)" by blast
    moreover obtain x where "fst (heap_allocate ga heap_4096 (w_heap w)) = Inr x" using first built(1) by (auto split: sum.splits)
    ultimately show ?thesis using new ten built(1) cap ap se c5 dr len i2(4)
      by (simp add: pages_main_def tenant_stats_default_def)
  qed
qed

theorem pages_example_reuses_witness:
  "\<exists>n w'. pages_main first_fit_alloc 0 page_start = Some (Inr (block_bytes, n, n), w') \<and> w_heap w' = Map.empty"
proof -
  have "\<exists>x. fst (heap_allocate first_fit_alloc heap_4096 (w_heap page_start)) = Inr x"
    by (simp add: heap_allocate_def alloc_zeroed_def heap_4096_def page_start_def first_fit_alloc_def first_fit_empty
        placeable_def isize_max_def aligned_to_def)
  with pages_example_reuses [OF demo_start(3), of first_fit_alloc 0] demo_start(4) show ?thesis by auto
qed

text \<open>\<open>examples/hello.rs\<close>. Unless an allocation fails, the program shows the bytes of its three chunks, the
  copied ones, the first four computed ones and the framed ones, counts one chunk of eleven bytes after the
  first, and leaves memory as it was and nothing charged to its tenant.\<close>

theorem hello_example_output:
  assumes "w_packed w = []" and "w_chunks w = []"
  shows "\<exists>r w'. hello_main ga cell w = Some (r, w') \<and>
    (case r of
       Inl e \<Rightarrow> True
     | Inr out \<Rightarrow> out = \<lparr>out_chunk = ascii ''hello world'', out_chunks_in_use = 1, out_bytes_in_use = 11,
           out_computed = [0, 7, 14, 21], out_framed = ascii ''[header]''\<rparr>
         \<and> w_heap w' = w_heap w \<and> t_chunks_in_use (w_tenants w' cell) = 0 \<and> t_bytes_in_use (w_tenants w' cell) = 0)"
proof -
  obtain cp w0 where new: "chunk_new ga w = (Inr cp, w0)" and sh0: "shares (w_heap w) (w_tenants w) cp w0 {#}"
    by (rule chunk_new_shares [OF assms])
  let ?t = "\<lparr>tenant_id = tenant_id_from ''greetings'', tenant_cell = cell\<rparr>"
  let ?base = "(w_tenants w0)(cell := tenant_stats_default)"
  let ?w = "w0\<lparr>w_tenants := ?base\<rparr>"
  have ten: "new_tenant cell ''greetings'' w0 = (?t, ?w)" by (simp add: new_tenant_eq)
  have sh: "shares (w_heap w) ?base cp ?w {#}" by (rule shares_new_tenant [OF sh0 refl])
  have len: "length (ascii ''hello world'') < 2 ^ 32" by (simp add: ascii_def)
  show ?thesis
    using sh len
  proof (cases rule: alloc_from_cases [where ga = ga and t = ?t])
    case (failed e cp1 w1)
    then show ?thesis by (simp add: hello_main_def new ten)
  next
    case a: (made c1 cp1 w1)
    have counts: "tenant_chunks_in_use (tenant_stats_of ?t (w_tenants w1)) = 1"
      "tenant_bytes_in_use (tenant_stats_of ?t (w_tenants w1)) = 11"
      by (simp_all add: a(5) accessor_defs tenant_stats_of_def record_chunk_allocate_def tenant_stats_default_def fetch_add_def
          ascii_def Let_def)
    note main = hello_main_def new ten a(1,3) counts Let_def hello_framed_def
    have sz: "unat (16 :: usize) < 2 ^ 32" "unat (32 :: usize) < 2 ^ 32" by simp_all
    show ?thesis
      using a(2) hello_closure_facts(1,2) sz(1)
    proof (cases rule: alloc_with_cases [where ga = ga and t = ?t])
      case (failed e cp2 w2)
      then show ?thesis by (simp add: main)
    next
      case b: (made c2 X cp2 w2)
      let ?ds = "[ascii ''['', ascii ''header'', ascii '']'']"
      have bs: "length (fst (hello_closure X)) = 16" "take 4 (fst (hello_closure X)) = [0, 7, 14, 21]"
        using hello_closure_facts(3) [of X] b(3) by simp_all
      have fits: "\<forall>d \<in> set ?ds. length d \<le> isize_max" "length (concat ?ds) \<le> unat (32 :: usize)"
        by (simp_all add: ascii_def isize_max_def)
      show ?thesis
        using b(2) fits sz(2)
      proof (cases rule: alloc_appends_cases [where ga = ga and t = ?t])
        case (failed e cp3 w3)
        with b bs show ?thesis by (simp add: main)
      next
        case c: (made c3 cp3 w3)
        then have "shares (w_heap w) ?base cp3 w3 (mset [c3, c2, c1])" by simp
        from shares_finish [OF this] obtain v w' where
          "drop_all [c3, c2, c1] w3 = Some v" "chunk_pool_drop cp3 v = Some w'" "w_heap w' = w_heap w"
          and t: "\<forall>t. t_chunks_in_use (w_tenants w' t) = t_chunks_in_use (?base t)
            \<and> t_bytes_in_use (w_tenants w' t) = t_bytes_in_use (?base t)" by blast
        moreover have "concat ?ds = ascii ''[header]''" by (simp add: ascii_def)
        ultimately show ?thesis using b bs c t by (simp add: main tenant_stats_default_fields del: drop_all.simps)
      qed
    qed
  qed
qed

text \<open>\<open>examples/tenants.rs\<close>. Unless an allocation fails, the program shows two chunks of 3072 bytes with that
  peak for the first tenant and one chunk of 512 bytes for the second, a reader on another thread sees the
  same bytes, and at its end memory is as before and neither tenant is charged.\<close>

theorem tenants_example_counts:
  assumes "w_packed w = []" and "w_chunks w = []" and "cell_a \<noteq> cell_b"
  shows "\<exists>r w'. tenants_main ga cell_a cell_b w = Some (r, w') \<and>
    (case r of
       Inl e \<Rightarrow> True
     | Inr out \<Rightarrow> out = ((2, 3072, 3072), (1, 512, 512), 3072) \<and> w_heap w' = w_heap w
         \<and> t_bytes_in_use (w_tenants w' cell_a) = 0 \<and> t_bytes_in_use (w_tenants w' cell_b) = 0)"
proof -
  obtain cp w0 where new: "chunk_new ga w = (Inr cp, w0)" and sh0: "shares (w_heap w) (w_tenants w) cp w0 {#}"
    and t0: "w_tenants w0 = w_tenants w" by (rule chunk_new_shares [OF assms(1,2)])
  let ?base = "(w_tenants w)(cell_a := tenant_stats_default, cell_b := tenant_stats_default)"
  let ?alice = "\<lparr>tenant_id = tenant_id_from ''alice'', tenant_cell = cell_a\<rparr>"
    and ?bob = "\<lparr>tenant_id = tenant_id_from ''bob'', tenant_cell = cell_b\<rparr>"
  let ?w = "w0\<lparr>w_tenants := ?base\<rparr>"
  have ten: "new_tenant cell_a ''alice'' w0 = (?alice, w0\<lparr>w_tenants := (w_tenants w)(cell_a := tenant_stats_default)\<rparr>)"
    "new_tenant cell_b ''bob'' (w0\<lparr>w_tenants := (w_tenants w)(cell_a := tenant_stats_default)\<rparr>) = (?bob, ?w)"
    using t0 by (simp_all add: new_tenant_eq)
  note main = tenants_main_def new ten
  have sh: "shares (w_heap w) ?base cp ?w {#}" by (rule shares_new_tenant [OF sh0 refl])
  have len: "length (replicate 1024 (0 :: u8)) < 2 ^ 32" "length (replicate 2048 (0 :: u8)) < 2 ^ 32"
    "length (replicate 512 (0 :: u8)) < 2 ^ 32" by simp_all
  show ?thesis
    using sh len(1)
  proof (cases rule: alloc_from_cases [where ga = ga and t = ?alice])
    case (failed e cp1 w1)
    then show ?thesis by (simp add: main)
  next
    case a1: (made c1 cp1 w1)
    show ?thesis
      using a1(2) len(2)
    proof (cases rule: alloc_from_cases [where ga = ga and t = ?alice])
      case (failed e cp1 w1)
      with a1 show ?thesis by (simp add: main)
    next
      case a2: (made c2 cp2 w2)
      show ?thesis
        using a2(2) len(3)
      proof (cases rule: alloc_from_cases [where ga = ga and t = ?bob])
        case (failed e cp1 w1)
        with a1 a2 show ?thesis by (simp add: main)
      next
        case b1: (made c3 cp3 w3)
        have t3: "w_tenants w3 = ?base(cell_a := record_chunk_allocate 2048 (record_chunk_allocate 1024 tenant_stats_default),
            cell_b := record_chunk_allocate 512 tenant_stats_default)"
          using a1(5) a2(5) b1(5) assms(3) by (simp add: fun_eq_iff)
        have "shares (w_heap w) ?base cp3 w3 (mset [c3, c2, c1])" using b1(2) by (simp add: add_mset_commute)
        from shares_finish [OF this] obtain v w' where
          "drop_all [c3, c2, c1] w3 = Some v" "chunk_pool_drop cp3 v = Some w'" "w_heap w' = w_heap w"
          and bytes: "\<forall>t. t_bytes_in_use (w_tenants w' t) = t_bytes_in_use (?base t)" by blast
        moreover have "print_tenant ?alice w3 = (2, 3072, 3072)" "print_tenant ?bob w3 = (1, 512, 512)"
          "tenant_bytes_in_use (tenant_stats_of (tenant_clone ?alice) (w_tenants w3)) = 3072"
          using assms(3) by (simp_all add: print_tenant_def accessor_defs tenant_stats_of_def t3 record_chunk_allocate_def
              tenant_stats_default_def fetch_add_def tenant_clone_def Let_def)
        moreover have "t_bytes_in_use (w_tenants w' cell_a) = 0" "t_bytes_in_use (w_tenants w' cell_b) = 0"
          using bytes by (simp_all add: tenant_stats_default_def)
        ultimately show ?thesis using a1(1) a2(1) b1(1) by (simp add: main del: drop_all.simps)
      qed
    qed
  qed
qed

text \<open>\<open>examples/prewarm.rs\<close>. Cold or warm, the timed function makes its 256 chunks unless an allocation fails, and
  leaves memory as it was and its tenant without chunks.\<close>

theorem prewarm_example_ends:
  assumes "w_packed w = []" and "w_chunks w = []"
  shows "\<exists>r v. prewarm_cold ga cell w = Some (r, v) \<and>
      (case r of Inl e \<Rightarrow> True | Inr n \<Rightarrow> n = 256 \<and> w_heap v = w_heap w \<and> t_chunks_in_use (w_tenants v cell) = 0)"
    and "prewarm_warm ga cell w = Some (r, v) \<Longrightarrow>
      (case r of Inl e \<Rightarrow> True | Inr n \<Rightarrow> n = 256 \<and> w_heap v = w_heap w \<and> t_chunks_in_use (w_tenants v cell) = 0)"
proof -
  obtain cp w0 where new: "chunk_new ga w = (Inr cp, w0)" and sh: "shares (w_heap w) (w_tenants w) cp w0 {#}"
    by (rule chunk_new_shares [OF assms])
  from time_first_n_ok [OF sh refl, of _ cell ga] new show "\<exists>r v. prewarm_cold ga cell w = Some (r, v) \<and>
      (case r of Inl e \<Rightarrow> True | Inr n \<Rightarrow> n = 256 \<and> w_heap v = w_heap w \<and> t_chunks_in_use (w_tenants v cell) = 0)"
    by (simp add: prewarm_cold_def new_tenant_def tenant_new_def)
  show "case r of Inl e \<Rightarrow> True | Inr n \<Rightarrow> n = 256 \<and> w_heap v = w_heap w \<and> t_chunks_in_use (w_tenants v cell) = 0"
    if run: "prewarm_warm ga cell w = Some (r, v)"
  proof -
    from run obtain q w1 where wc: "chunk_with_capacity ga (16 * 1024) (of_nat prewarm_n) w = Some (q, w1)"
      by (auto simp: prewarm_warm_def split: Option.bind_split_asm)
    show ?thesis
    proof (cases q)
      case (Inl e)
      with run wc show ?thesis by (auto simp: prewarm_warm_def)
    next
      case (Inr cp)
      have "unat (16 * 1024 :: usize) \<le> 2 ^ 32" by simp
      from with_capacity_shares [OF wc [unfolded Inr] assms this] have sh: "shares (w_heap w) (w_tenants w) cp w1 {#}" .
      from time_first_n_ok [OF sh refl, of "\<lparr>tenant_id = tenant_id_from ''warm'', tenant_cell = cell\<rparr>" cell ga] run wc Inr
      show ?thesis by (auto simp: prewarm_warm_def new_tenant_def tenant_new_def)
    qed
  qed
qed

end
