(* ===== verification/Share_Threads.thy ===== *)
theory Share_Threads
  imports Examples
begin

text \<open>
  \<open>examples/share_across_threads.rs\<close>: \<open>main\<close> hands clones of one chunk to threads that read it and drop their
  clone, while \<open>main\<close> is still spawning others; it joins them, asserts that one chunk is in use, drops its own
  handle and asserts that none is. The steps of \<open>main\<close> and of the threads are interleaved in any order.
\<close>

section \<open>The program\<close>

definition share_bytes :: "u8 list" where
  "share_bytes = ascii ''same bytes, many threads''"

text \<open>\<open>std::str::from_utf8\<close>: the byte sequences that are well-formed UTF-8.\<close>

definition utf8_tail :: "u8 \<Rightarrow> bool" where
  "utf8_tail b \<longleftrightarrow> 0x80 \<le> b \<and> b \<le> 0xBF"

fun utf8_valid :: "u8 list \<Rightarrow> bool" where
  "utf8_valid [] = True"
| "utf8_valid (b # bs) =
     (if b < 0x80 then utf8_valid bs
      else if 0xC2 \<le> b \<and> b \<le> 0xDF then (case bs of c # r \<Rightarrow> utf8_tail c \<and> utf8_valid r | _ \<Rightarrow> False)
      else if 0xE0 \<le> b \<and> b \<le> 0xEF then
        (case bs of c # d # r \<Rightarrow> utf8_tail c \<and> utf8_tail d \<and> (b = 0xE0 \<longrightarrow> 0xA0 \<le> c) \<and> (b = 0xED \<longrightarrow> c \<le> 0x9F) \<and> utf8_valid r
         | _ \<Rightarrow> False)
      else if 0xF0 \<le> b \<and> b \<le> 0xF4 then
        (case bs of c # d # e # r \<Rightarrow> utf8_tail c \<and> utf8_tail d \<and> utf8_tail e \<and> (b = 0xF0 \<longrightarrow> 0x90 \<le> c)
             \<and> (b = 0xF4 \<longrightarrow> c \<le> 0x8F) \<and> utf8_valid r
         | _ \<Rightarrow> False)
      else False)"

text \<open>A thread reads its chunk as a string and its length, prints both, and drops the chunk at its end; if the bytes are
  no string, it panics and drops the chunk on the way.\<close>

datatype share_thread =
    ShareRead chunk
  | ShareDrop chunk "u8 list" usize
  | ShareDone "u8 list" usize
  | ShareUnwind chunk
  | SharePanicked

datatype share_pc = ShareSpawn nat | ShareDropped

record share_state =
  ss_world :: chunk_world
  ss_main :: share_pc
  ss_threads :: "share_thread list"

datatype share_event = SpawnThread | ThreadStep nat | AssertAndDrop

fun share_thread_step :: "share_thread \<Rightarrow> chunk_world \<Rightarrow> (share_thread \<times> chunk_world) option" where
  "share_thread_step (ShareRead c) w = do {
     bs \<leftarrow> chunk_deref c w;
     len \<leftarrow> chunk_len c w;
     Some (if utf8_valid bs then ShareDrop c bs len else ShareUnwind c, w)
   }"
| "share_thread_step (ShareDrop c bs len) w = do { w \<leftarrow> chunk_drop c w; Some (ShareDone bs len, w) }"
| "share_thread_step (ShareDone bs len) w = Some (ShareDone bs len, w)"
| "share_thread_step (ShareUnwind c) w = do { w \<leftarrow> chunk_drop c w; Some (SharePanicked, w) }"
| "share_thread_step SharePanicked w = Some (SharePanicked, w)"

fun share_done :: "share_thread \<Rightarrow> bool" where
  "share_done (ShareDone bs len) = True"
| "share_done SharePanicked = True"
| "share_done _ = False"

fun share_allowed :: "share_event \<Rightarrow> share_state \<Rightarrow> bool" where
  "share_allowed SpawnThread s = (\<exists>n. ss_main s = ShareSpawn (Suc n))"
| "share_allowed (ThreadStep i) s = (i < length (ss_threads s))"
| "share_allowed AssertAndDrop s = (ss_main s = ShareSpawn 0 \<and> list_all share_done (ss_threads s))"

text \<open>\<open>c\<close> is the chunk of \<open>main\<close>. A failing assertion is the panic \<open>AssertFailed\<close>; \<open>join().unwrap()\<close> panics if the thread
  has.\<close>

fun share_step :: "tenant \<Rightarrow> chunk \<Rightarrow> share_event \<Rightarrow> share_state \<Rightarrow> (panic + share_state) option" where
  "share_step tenant c SpawnThread s = do {
     (d, w) \<leftarrow> chunk_clone c (ss_world s);
     Some (Inr (s\<lparr>ss_world := w, ss_threads := ss_threads s @ [ShareRead d],
       ss_main := (case ss_main s of ShareSpawn n \<Rightarrow> ShareSpawn (n - 1) | pc \<Rightarrow> pc)\<rparr>))
   }"
| "share_step tenant c (ThreadStep i) s = do {
     (th, w) \<leftarrow> share_thread_step (ss_threads s ! i) (ss_world s);
     Some (Inr (s\<lparr>ss_world := w, ss_threads := (ss_threads s)[i := th]\<rparr>))
   }"
| "share_step tenant c AssertAndDrop s =
     (if list_ex (\<lambda>th. th = SharePanicked) (ss_threads s) then Some (Inl ExpectFailed)
      else if tenant_chunks_in_use (tenant_stats_of tenant (w_tenants (ss_world s))) \<noteq> 1 then Some (Inl AssertFailed)
      else do {
        w \<leftarrow> chunk_drop c (ss_world s);
        if tenant_chunks_in_use (tenant_stats_of tenant (w_tenants w)) \<noteq> 0 then Some (Inl AssertFailed)
        else Some (Inr (s\<lparr>ss_world := w, ss_main := ShareDropped\<rparr>))
      })"

text \<open>A step that ends without a panic.\<close>

definition share_exec :: "tenant \<Rightarrow> chunk \<Rightarrow> share_event \<Rightarrow> share_state \<Rightarrow> share_state option" where
  "share_exec tenant c e s = do { r \<leftarrow> share_step tenant c e s; (case r of Inl _ \<Rightarrow> None | Inr s' \<Rightarrow> Some s') }"

abbreviation share_run :: "tenant \<Rightarrow> chunk \<Rightarrow> share_state \<Rightarrow> share_event list \<Rightarrow> share_state \<Rightarrow> bool" where
  "share_run tenant c \<equiv> run share_allowed (share_exec tenant c)"

text \<open>The program up to its first spawn.\<close>

definition share_start :: "placement \<Rightarrow> nat \<Rightarrow> nat \<Rightarrow> chunk_world
    \<Rightarrow> ((panic + tenant \<times> chunk \<times> chunk_pool \<times> share_state) \<times> chunk_world) option" where
  "share_start ga cell threads w =
     (case chunk_new ga w of
        (Inl e, w) \<Rightarrow> Some (Inl e, w)
      | (Inr pool, w) \<Rightarrow> (case new_tenant cell ''shared'' w of (tenant, w) \<Rightarrow>
          unless_panic (chunk_alloc_from ga tenant share_bytes pool w) (\<lambda>chunk pool w.
            Some (Inr (tenant, chunk, pool, \<lparr>ss_world = w, ss_main = ShareSpawn threads, ss_threads = []\<rparr>), w))))"

section \<open>The invariant\<close>

fun share_handles :: "share_thread \<Rightarrow> chunk multiset" where
  "share_handles (ShareRead c) = {#c#}"
| "share_handles (ShareDrop c bs len) = {#c#}"
| "share_handles (ShareUnwind c) = {#c#}"
| "share_handles _ = {#}"

fun share_thread_ok :: "chunk \<Rightarrow> share_thread \<Rightarrow> bool" where
  "share_thread_ok c (ShareRead d) = (d = c)"
| "share_thread_ok c (ShareDrop d bs len) = (d = c \<and> bs = share_bytes \<and> len = 24)"
| "share_thread_ok c (ShareDone bs len) = (bs = share_bytes \<and> len = 24)"
| "share_thread_ok c _ = False"

definition share_inv :: "heap \<Rightarrow> stats_table \<Rightarrow> chunk_pool \<Rightarrow> nat \<Rightarrow> chunk \<Rightarrow> share_state \<Rightarrow> bool" where
  "share_inv h0 base cp cell c s \<longleftrightarrow>
     shares h0 base cp (ss_world s) ((if ss_main s = ShareDropped then {#} else {#c#}) + tally share_handles (ss_threads s)) \<and>
     list_all (share_thread_ok c) (ss_threads s) \<and> t_chunks_in_use (base cell) = 0 \<and>
     (if ss_main s = ShareDropped then list_all share_done (ss_threads s)
      else chunk_as_slice c (ss_world s) = Some share_bytes \<and> t_chunks_in_use (w_tenants (ss_world s) cell) = 1)"

section \<open>Lemmas\<close>

lemma clone_tenants: "chunk_clone c w = Some (d, w') \<Longrightarrow> w_tenants w' = w_tenants w"
  by (auto simp: chunk_clone_def bind_eq_Some_conv)

lemma drop_not_last_tenants:
  assumes "shares h0 base cp w (add_mset c H)" and "c \<in># H" and "chunk_drop c w = Some w'"
  shows "w_tenants w' = w_tenants w"
proof -
  from shares_get [OF assms(1), of c] obtain i where "get_chunk c w = Some (i, Suc (count H c))" by auto
  moreover obtain k where "count H c = Suc k" using assms(2) by (metis count_eq_zero_iff not0_implies_Suc)
  ultimately show ?thesis using assms(3) by (auto simp: chunk_drop_def)
qed

lemma share_bytes_length: "length share_bytes = 24"
  by (simp add: share_bytes_def ascii_def)

lemma share_bytes_utf8: "utf8_valid share_bytes"
  by (simp add: share_bytes_def ascii_def)

lemma share_spawn:
  assumes inv: "share_inv h0 base cp cell c s" and al: "share_allowed SpawnThread s"
  shows "\<exists>s'. share_exec t c SpawnThread s = Some s' \<and> share_inv h0 base cp cell c s'"
proof -
  from al obtain n where n: "ss_main s = ShareSpawn (Suc n)" by auto
  let ?H = "{#c#} + tally share_handles (ss_threads s)"
  have sh: "shares h0 base cp (ss_world s) ?H" using inv n by (simp add: share_inv_def)
  from shares_clone [OF sh, of c] obtain w where w: "chunk_clone c (ss_world s) = Some (c, w)"
    "shares h0 base cp w (add_mset c ?H)" "chunks_stable (ss_world s) w" by auto
  have "chunk_as_slice c w = Some share_bytes"
    using inv n shares_stable [OF w(3,2), of c] by (simp add: share_inv_def)
  with inv n w clone_tenants [OF w(1)] show ?thesis by (simp add: share_exec_def share_inv_def add.commute)
qed

text \<open>A step of a thread that ends with the same handle or none.\<close>

lemma share_thread_moves:
  assumes inv: "share_inv h0 base cp cell c s" and i: "i < length (ss_threads s)"
    and st: "share_thread_step (ss_threads s ! i) (ss_world s) = Some (th, w)" and ok: "share_thread_ok c th"
    and sh: "\<And>R. shares h0 base cp (ss_world s) (share_handles (ss_threads s ! i) + R) \<Longrightarrow> shares h0 base cp w (share_handles th + R)"
    and main: "ss_main s \<noteq> ShareDropped \<Longrightarrow> chunk_as_slice c w = Some share_bytes \<and> w_tenants w = w_tenants (ss_world s)"
    and fin: "share_done (ss_threads s ! i) \<Longrightarrow> share_done th"
  shows "\<exists>s'. share_exec t c (ThreadStep i) s = Some s' \<and> share_inv h0 base cp cell c s'"
proof -
  let ?s = "s\<lparr>ss_world := w, ss_threads := (ss_threads s)[i := th]\<rparr>"
  note tot = tally_update [OF i, of share_handles]
  have "shares h0 base cp w ((if ss_main s = ShareDropped then {#} else {#c#}) + tally share_handles (ss_threads ?s))"
    using inv sh [of "(if ss_main s = ShareDropped then {#} else {#c#}) + tally share_handles (remove_nth i (ss_threads s))"] tot
    by (simp add: share_inv_def ac_simps)
  moreover have "list_all (share_thread_ok c) (ss_threads ?s)"
    using inv ok i by (auto simp: share_inv_def list_all_length nth_list_update)
  moreover have "list_all share_done (ss_threads ?s)" if "ss_main s = ShareDropped"
    using inv fin i that by (auto simp: share_inv_def list_all_length nth_list_update)
  ultimately have "share_inv h0 base cp cell c ?s" using inv main by (simp add: share_inv_def)
  with st show ?thesis by (simp add: share_exec_def)
qed

lemma share_thread:
  assumes inv: "share_inv h0 base cp cell c s" and i: "i < length (ss_threads s)"
  shows "\<exists>s'. share_exec t c (ThreadStep i) s = Some s' \<and> share_inv h0 base cp cell c s'"
proof -
  let ?w = "ss_world s"
  let ?R = "tally share_handles (remove_nth i (ss_threads s))"
  have sh: "shares h0 base cp ?w ((if ss_main s = ShareDropped then {#} else {#c#}) + (share_handles (ss_threads s ! i) + ?R))"
    using inv tally_update(1) [OF i, of share_handles] by (simp add: share_inv_def)
  have ok: "share_thread_ok c (ss_threads s ! i)" using inv i by (simp add: share_inv_def list_all_length)
  have live: "ss_main s \<noteq> ShareDropped" if "\<not> share_done (ss_threads s ! i)"
    using inv i that by (auto simp: share_inv_def list_all_length)
  have main: "ss_main s \<noteq> ShareDropped \<Longrightarrow> chunk_as_slice c ?w = Some share_bytes" using inv by (simp add: share_inv_def)
  show ?thesis
  proof (cases "ss_threads s ! i")
    case (ShareRead d)
    with ok live main have d: "d = c" "ss_main s \<noteq> ShareDropped" "chunk_as_slice c ?w = Some share_bytes" by simp_all
    from shares_read [OF sh, of c] d have "chunk_len c ?w = Some 24" by (auto simp: share_bytes_length)
    with d ShareRead share_bytes_utf8 show ?thesis
      by (intro share_thread_moves [OF inv i, where w = ?w and th = "ShareDrop c share_bytes 24"]) simp_all
  next
    case (ShareDrop d bs len)
    with ok live main have d: "d = c" "ss_main s \<noteq> ShareDropped" "bs = share_bytes" "len = 24"
      "chunk_as_slice c ?w = Some share_bytes" by simp_all
    have "shares h0 base cp ?w (add_mset c (add_mset c ?R))" using sh ShareDrop d by simp
    from shares_drop [OF this] drop_not_last_tenants [OF this] obtain w where
      w: "chunk_drop c ?w = Some w" "shares h0 base cp w (add_mset c ?R)" "chunks_stable ?w w" "w_tenants w = w_tenants ?w" by auto
    have "shares h0 base cp w R" if "shares h0 base cp ?w (add_mset c R)" for R
      using shares_drop [OF that] w(1) by auto
    with w d ShareDrop shares_stable [OF w(3,2) _ d(5)] show ?thesis
      by (intro share_thread_moves [OF inv i, where w = w and th = "ShareDone share_bytes 24"]) simp_all
  next
    case (ShareDone bs len)
    with ok main show ?thesis by (intro share_thread_moves [OF inv i, where w = ?w and th = "ShareDone bs len"]) simp_all
  qed (use ok in simp_all)
qed

lemma share_done_handles:
  assumes "list_all share_done ths"
  shows "tally share_handles ths = {#}"
proof -
  have "\<forall>th \<in> set ths. share_handles th = {#}"
    using assms by (fastforce simp: list_all_iff dest!: bspec elim: share_done.elims)
  then show ?thesis by (simp add: tally_def sum_list_0 cong: map_cong)
qed

lemma share_inv_counts:
  assumes inv: "share_inv h0 base cp cell c s"
  shows "t_chunks_in_use (w_tenants (ss_world s) cell) = (if ss_main s = ShareDropped then 0 else 1)"
proof (cases "ss_main s = ShareDropped")
  case True
  with inv have "shares h0 base cp (ss_world s) {#}" using share_done_handles [of "ss_threads s"] by (simp add: share_inv_def)
  from shares_end(1) [OF this, of cell] True inv show ?thesis by (simp add: share_inv_def)
qed (use inv in \<open>simp add: share_inv_def\<close>)

lemma share_finish:
  assumes inv: "share_inv h0 base cp (tenant_cell t) c s" and al: "share_allowed AssertAndDrop s"
  shows "\<exists>s'. share_exec t c AssertAndDrop s = Some s' \<and> share_inv h0 base cp (tenant_cell t) c s'"
proof -
  have none: "tally share_handles (ss_threads s) = {#}" using al by (simp add: share_done_handles)
  from inv al none have sh: "shares h0 base cp (ss_world s) {#c#}" and one: "t_chunks_in_use (w_tenants (ss_world s) (tenant_cell t)) = 1"
    and zero: "t_chunks_in_use (base (tenant_cell t)) = 0" by (simp_all add: share_inv_def)
  from shares_drop [OF sh] obtain w where w: "chunk_drop c (ss_world s) = Some w" "shares h0 base cp w {#}" by blast
  from shares_end(1) [OF w(2), of "tenant_cell t"] zero have "t_chunks_in_use (w_tenants w (tenant_cell t)) = 0" by simp
  moreover have "\<not> list_ex (\<lambda>th. th = SharePanicked) (ss_threads s)" using inv by (auto simp: share_inv_def list_all_iff list_ex_iff)
  ultimately show ?thesis using inv al none w one zero by (simp add: share_exec_def share_inv_def accessor_defs tenant_stats_of_def)
qed

interpretation share_client: safe_client share_allowed "share_exec t c" "share_inv h0 base cp (tenant_cell t) c" "\<lambda>_ _. True"
    for t c h0 base cp
proof unfold_locales
  show "\<exists>s'. share_exec t c e s = Some s' \<and> share_inv h0 base cp (tenant_cell t) c s' \<and> True"
    if "share_inv h0 base cp (tenant_cell t) c s" "share_allowed e s" for e s
    using that share_spawn [OF that(1)] share_thread [OF that(1)] share_finish [OF that(1)] by (cases e) auto
qed simp_all

lemma share_start_inv:
  assumes "w_packed w = []" and "w_chunks w = []" and st: "share_start ga cell n w = Some (Inr (t, c, cp, s), w')"
  shows "\<exists>h0 base. share_inv h0 base cp (tenant_cell t) c s"
proof -
  obtain cp0 w0 where new: "chunk_new ga w = (Inr cp0, w0)" and sh0: "shares (w_heap w) (w_tenants w) cp0 w0 {#}"
    by (rule chunk_new_shares [OF assms(1,2)])
  let ?t = "\<lparr>tenant_id = tenant_id_from ''shared'', tenant_cell = cell\<rparr>"
  let ?base = "(w_tenants w0)(cell := tenant_stats_default)"
  let ?w = "w0\<lparr>w_tenants := ?base\<rparr>"
  have ten: "new_tenant cell ''shared'' w0 = (?t, ?w)" by (simp add: new_tenant_eq)
  have sh: "shares (w_heap w) ?base cp0 ?w {#}" by (rule shares_new_tenant [OF sh0 refl])
  have len: "length share_bytes < 2 ^ 32" by (simp add: share_bytes_length)
  show ?thesis
    using sh len
  proof (cases rule: alloc_from_cases [where ga = ga and t = ?t])
    case (failed e cp1 w1)
    with st new ten show ?thesis by (auto simp: share_start_def)
  next
    case (made d cp1 w1)
    have "t_chunks_in_use (w_tenants w1 cell) = 1"
      by (simp add: made(5) record_chunk_allocate_def tenant_stats_default_def fetch_add_def Let_def)
    then have "share_inv (w_heap w) ?base cp1 cell d \<lparr>ss_world = w1, ss_main = ShareSpawn n, ss_threads = []\<rparr>"
      using made(2,3) by (simp add: share_inv_def tenant_stats_default_fields)
    moreover have "t = ?t" "c = d" "cp = cp1" "s = \<lparr>ss_world = w1, ss_main = ShareSpawn n, ss_threads = []\<rparr>"
      using st new ten made(1) by (auto simp: share_start_def)
    ultimately show ?thesis by (intro exI [of _ "w_heap w"] exI [of _ ?base]) simp
  qed
qed

text \<open>The first steps in an empty memory.\<close>

lemma share_demo_allocate:
  "\<exists>b cp' w'. chunk_allocate first_fit_alloc t 24 \<lparr>cp_pages = demo_pool, cp_current = None, cp_threshold = 8192\<rparr>
     ((snd (chunk_new first_fit_alloc chunk_start))\<lparr>w_tenants := tab\<rparr>) = Some (Inr b, cp', w')"
  by (simp add: chunk_demo_eval chunk_new_def chunk_with_page_size_def page_pool_new_def heap_source_new_eq default_page_size_def)

lemma share_demo: "\<exists>t c cp s w'. share_start first_fit_alloc 0 2 chunk_start = Some (Inr (t, c, cp, s), w')"
proof -
  let ?cp = "\<lparr>cp_pages = demo_pool, cp_current = None, cp_threshold = 8192\<rparr>"
  let ?t = "\<lparr>tenant_id = tenant_id_from ''shared'', tenant_cell = 0\<rparr>"
  obtain w where new: "chunk_new first_fit_alloc chunk_start = (Inr ?cp, w)"
    by (simp add: chunk_new_def chunk_with_page_size_def page_pool_new_def heap_source_new_eq default_page_size_def with_source_def
        from_pool_def heap_vtable_def ptr_size_def demo_pool_def pool_page_size_def isize_max_def)
  let ?w2 = "w\<lparr>w_tenants := (w_tenants w)(0 := tenant_stats_default)\<rparr>"
  have sh: "shares (w_heap chunk_start) (w_tenants chunk_start) ?cp w {#}"
    by (rule chunk_new_shares [of chunk_start first_fit_alloc]) (use new in \<open>simp_all add: chunk_start_def\<close>)
  from shares_new_tenant [OF this refl, of "(w_tenants w)(0 := tenant_stats_default)"]
  have inv: "chunk_inv (w_heap chunk_start) (Some ?cp) 0 ?w2 {#}" by (rule sharesD(1))
  have len: "length share_bytes < 2 ^ 32" by (simp add: share_bytes_length)
  from chunk_alloc_from_result [OF inv len, of first_fit_alloc ?t] obtain r cp' w' where
    al: "chunk_alloc_from first_fit_alloc ?t share_bytes ?cp ?w2 = Some (r, cp', w')"
    and res: "case r of Inl e \<Rightarrow> chunk_allocate first_fit_alloc ?t 24 ?cp ?w2 = Some (Inl e, cp', w') | Inr c \<Rightarrow> True"
    by (fastforce simp: share_bytes_length split: sum.splits)
  with share_demo_allocate [of ?t "(w_tenants w)(0 := tenant_stats_default)"] new obtain c where "r = Inr c"
    by (cases r) auto
  moreover have "new_tenant 0 ''shared'' w = (?t, ?w2)" by (simp add: new_tenant_eq)
  ultimately show ?thesis using new al by (simp add: share_start_def)
qed

section \<open>Properties\<close>

text \<open>\<open>examples/share_across_threads.rs\<close> in every interleaving. Unless the one allocation fails, in each
  state that the main thread and the others reach every next step is defined and no assertion fails: while
  the main thread holds its handle exactly one chunk is in use, however many clones there are, and after its drop none. A
  thread that has finished has read the bytes that were stored and their number.\<close>

theorem share_threads_example:
  assumes "w_packed w = []" and "w_chunks w = []" and "share_start ga cell n w = Some (r, w')"
  shows "case r of
      Inl e \<Rightarrow> True
    | Inr (t, c, cp, s) \<Rightarrow> \<forall>es s'. share_run t c s es s' \<longrightarrow>
        (\<forall>e. share_allowed e s' \<longrightarrow> (\<exists>s''. share_step t c e s' = Some (Inr s'')))
        \<and> tenant_chunks_in_use (tenant_stats_of t (w_tenants (ss_world s'))) = (if ss_main s' = ShareDropped then 0 else 1)
        \<and> (\<forall>bs len. ShareDone bs len \<in> set (ss_threads s') \<longrightarrow> bs = share_bytes \<and> len = 24)"
proof (cases r)
  case (Inr x)
  obtain t c cp s where x: "x = (t, c, cp, s)" by (cases x) auto
  from share_start_inv [OF assms(1,2) assms(3) [unfolded Inr x]] obtain h0 base where
    start: "share_inv h0 base cp (tenant_cell t) c s" by blast
  have "(\<forall>e. share_allowed e s' \<longrightarrow> (\<exists>s''. share_step t c e s' = Some (Inr s'')))
      \<and> tenant_chunks_in_use (tenant_stats_of t (w_tenants (ss_world s'))) = (if ss_main s' = ShareDropped then 0 else 1)
      \<and> (\<forall>bs len. ShareDone bs len \<in> set (ss_threads s') \<longrightarrow> bs = share_bytes \<and> len = 24)"
    if run: "share_run t c s es s'" for es s'
  proof (intro conjI allI impI)
    have inv: "share_inv h0 base cp (tenant_cell t) c s'" using share_client.run_inv [OF run start] by blast
    show "\<exists>s''. share_step t c e s' = Some (Inr s'')" if "share_allowed e s'" for e
      using share_client.call_defined [OF inv that] by (auto simp: share_exec_def split: Option.bind_split_asm sum.split_asm)
    show "bs = share_bytes" "len = 24" if "ShareDone bs len \<in> set (ss_threads s')" for bs len
      using inv that by (auto simp: share_inv_def list_all_iff)
    show "tenant_chunks_in_use (tenant_stats_of t (w_tenants (ss_world s'))) = (if ss_main s' = ShareDropped then 0 else 1)"
      using share_inv_counts [OF inv] by (simp add: tenant_chunks_in_use_def tenant_stats_of_def)
  qed
  with Inr x show ?thesis by auto
qed simp

theorem share_threads_example_witness:
  "\<exists>t c cp s w'. share_start first_fit_alloc 0 2 chunk_start = Some (Inr (t, c, cp, s), w')
     \<and> (\<exists>s'. share_step t c SpawnThread s = Some (Inr s'))"
proof -
  from share_demo obtain t c cp s w' where st: "share_start first_fit_alloc 0 2 chunk_start = Some (Inr (t, c, cp, s), w')" by blast
  have none: "w_packed chunk_start = []" "w_chunks chunk_start = []" by (simp_all add: chunk_start_def)
  have run: "share_run t c s [] s" by (rule run_none)
  have "ss_main s = ShareSpawn 2"
    using st by (auto simp: share_start_def unless_panic_def split: prod.split_asm sum.split_asm Option.bind_split_asm)
  then have "share_allowed SpawnThread s" by (simp add: numeral_2_eq_2)
  moreover have "\<forall>e. share_allowed e s \<longrightarrow> (\<exists>s'. share_step t c e s = Some (Inr s'))"
    using share_threads_example [OF none st] run by simp
  ultimately show ?thesis using st by blast
qed

end
