(* ===== verification/Spec2Isabelle.thy ===== *)
theory Spec2Isabelle
  imports Page_Lifetimes Chunk_Lifetimes Share_Threads
begin

text \<open>
  \<^bold>\<open>Verification of paged-alloc\<close>

  \<^bold>\<open>The program.\<close> paged-alloc is a Rust library for worker threads that allocate memory on behalf of
  tenants. A \<open>PageSource\<close> (\<open>src/source.rs\<close>, \<open>src/mmap.rs\<close>) obtains fixed-size pages from the global
  allocator or the kernel. A \<open>PagePool\<close> (\<open>src/pool.rs\<close>) belongs to one worker and recycles pages: its
  private free list is threaded through the free buffers themselves, and threads that drop the last
  handle of a page give the buffer back through a lock-free return queue in the shared part, \<open>PoolShared\<close>.
  A page is filled through a \<open>PageBuilder\<close> and then sealed into an immutable, reference-counted \<open>Page\<close>
  (\<open>src/page.rs\<close>). A \<open>ChunkPool\<close> (\<open>src/chunk.rs\<close>) packs allocations of any size into the pages of such a
  pool, or goes to the global allocator, with \<open>ChunkBuilder\<close> and \<open>Chunk\<close> as its handles. Every allocation
  is charged to a \<open>Tenant\<close>, whose counters (\<open>src/tenant.rs\<close>) any thread may read.

  \<^bold>\<open>Memory and results.\<close> Memory is a map from the address of a live block to its bytes (\<open>Prelude\<close>), so a
  read, write or release outside a live block has no result. An operation returns an \<open>option\<close>: \<open>None\<close> stands
  for undefined behaviour (a wild access, a double free, a reference after the last drop) and, for loops that
  are \<open>partial_function (option)\<close>, for not returning. Inside the option, a sum of \<open>panic\<close> and the value has
  the panics of the source, an aborting allocation failure included. That a result is \<open>Some\<close> is therefore
  proved wherever a property speaks of a call. Integers are words of the width the source has and wrap as
  release builds do; \<open>Arc\<close> values are indices into tables that keep the strong counts.

  \<^bold>\<open>The theories\<close>, each after the ones it uses:

  \<^item> \<open>Prelude\<close>: words and bytes, slices and blocks of memory, panics, generic lemmas.
  \<^item> \<open>Tenants\<close> (\<open>src/tenant.rs\<close>): identifiers, counters, accounting; a ledger that the counters refine; the
    atomic steps of \<open>record_allocate\<close> interleaved.
  \<^item> \<open>Sources\<close> (\<open>src/source.rs\<close>, \<open>src/mmap.rs\<close>): the trait as a record of functions and its safety contract
    as the locale \<open>page_source_contract\<close>, which binds a source for the pages it has produced itself. It is
    interpreted for \<open>HeapSource\<close>, and shown for \<open>MmapSource\<close> and \<open>HugePageSource\<close> inside the locales \<open>mmap_os\<close> and
    \<open>huge_os\<close> of the system calls, which a concrete system interprets.
  \<^item> \<open>Free_List\<close>: the list threaded through free buffers, as the locale \<open>intrusive_list\<close> and its
    interpretation, and the loops of \<open>src/pool.rs\<close> that walk it.
  \<^item> \<open>Page_Pool\<close> (\<open>src/pool.rs\<close>): the pool, its invariant and its refinement of two abstract lists;
    \<open>Pool_Ownership\<close>: the pool over its whole life, with references held by others.
  \<^item> \<open>Builders\<close>: what page and chunk builders have in common, as the locale \<open>byte_builder\<close>.
  \<^item> \<open>Pages\<close> (\<open>src/page.rs\<close> and the allocating half of \<open>src/pool.rs\<close>), \<open>Page_Handles\<close>: builders, pages, the
    helpers \<open>alloc_from\<close>, \<open>alloc_with\<close>, \<open>alloc_with_len\<close> with panicking closures, drops.
  \<^item> \<open>Client_Runs\<close>: programs as sequences of allowed calls, with the locale \<open>safe_client\<close>; \<open>Page_System\<close>: all
    programs over a page pool.
  \<^item> \<open>Packed_Pages\<close>, \<open>Chunks\<close> (the operations of \<open>src/chunk.rs\<close>), \<open>Alignment\<close>, \<open>Chunk_Claims\<close>,
    \<open>Chunk_Alloc\<close>, \<open>Chunk_Builders\<close>, \<open>Chunk_Handles\<close>, \<open>Chunk_Calls\<close>: the chunk layer, from reference-counted
    buffers and address arithmetic over the disjointness of byte ranges to single calls. The locale \<open>buffer_life\<close>
    is what the layer needs of a pool underneath, \<open>chunk_store\<close> adds what allocation needs, and \<open>writable_builder\<close> what
    a call on a builder may do; they hold of the sequential and of the concurrent pool.
    \<open>Chunk_System\<close>: all programs over a chunk pool.
  \<^item> \<open>Chunk_Shares\<close>, \<open>Append_Log\<close> (\<open>examples/append_log.rs\<close>): chunks as values shared between threads, and the
    example program over them, a writer and readers of an index of chunks in any interleaving.
  \<^item> \<open>Return_Queue\<close>: \<open>push_return\<close> and \<open>allocate_raw_page\<close> as steps of single memory accesses, in any
    interleaving of any number of returning threads with the owner.
  \<^item> \<open>Pool_Threads\<close>, \<open>Pool_Progress\<close>: the pool itself under concurrency, drops of references and of the pool
    included, for both layers.
  \<^item> \<open>Page_Threads\<close>, \<open>Page_Lifetimes\<close>: whole lifetimes of pages under concurrency. The owner allocates and drops the
    pool, other threads append, seal, clone, read and drop handles; a drop is its decrements, the \<open>fetch_sub\<close>s
    of \<open>record_release\<close>, the steps of \<open>push_return\<close> and, for the last owner, the release of the shared part.
  \<^item> \<open>Chunk_Drops\<close>, \<open>Chunk_Threads\<close>, \<open>Chunk_Progress\<close>, \<open>Chunk_Lifetimes\<close>: whole lifetimes of chunks under
    concurrency. The owner goes through each path of \<open>allocate_aligned\<close> one access at a time (\<open>chunk_owner_step\<close>),
    retiring and opening pages, and drops the pool; other threads write to builders, seal, clone, read and drop, and
    the last drop of a chunk and of a packed page is its atomic operations (\<open>chunk_drop_step\<close>).
  \<^item> \<open>File_Cache\<close> (\<open>examples/file_cache.rs\<close>), \<open>Share_Threads\<close> (\<open>examples/share_across_threads.rs\<close>): the two
    other programs with threads, in any interleaving; \<open>Examples\<close>: \<open>hello.rs\<close>, \<open>pages.rs\<close>, \<open>tenants.rs\<close> and
    \<open>prewarm.rs\<close>, each \<open>main\<close> as one definition, its assertions included.
  \<^item> \<open>Reports\<close>: the accessors, the messages of the error types, the \<open>Debug\<close> texts, \<open>Deref\<close> and \<open>AsRef\<close>.

  \<^bold>\<open>What is shown.\<close> Of every program that respects Rust's ownership, over a page pool or a chunk pool and
  any source that keeps the contract: each call has a defined result, sealed contents never change, the
  byte ranges of live chunks are in live memory and disjoint, the in-use counters are those of the live
  handles, and when all owners are gone, in any order, memory and counters are as before. Of single calls:
  the result on every branch, panics and refused appends included, the bytes stored, the size class, the
  alignment and the counters. Of the return queue: no interleaving loses or duplicates a buffer, the queue is
  linearizable, a return completes from any point when it runs alone, and the atomic operations of the
  sequential theories are what the steps do without interference. Of page and chunk lifetimes under
  concurrency: no interleaving reaches undefined behaviour, live ranges are disjoint, what is sealed stays as it is
  until the last handle goes, a counter is exactly the live handles and the accesses to it that calls under way have
  still to make, drops and allocations complete when they run alone, every state can be brought to an end, and
  there the memory is as before the pool; an uninterrupted thread does what the sequential definitions do.
  Of the sources: each keeps the contract.
  Of tenants: counters refine a ledger, and peaks are right for a single writer. Of the append log: readers
  find every published record with the bytes that were written, and nothing stays charged at its end. Of the
  file cache: its totals depend on the seeds alone and not on the schedule, and it ends with nothing charged.
  Of the short examples: they end without a failing assertion. Of the \<open>Debug\<close> texts: they can be read back,
  and report the state of the pool. Every handle a program holds is well formed.

  Some theorems show limits of the code: the peak of a tenant that allocates from two threads can be
  lost, a failing \<open>prewarm\<close> leaves pages uncounted, \<open>free_pages\<close> can be seen below zero while a
  return is in flight, and requests of 4 GiB or more are truncated to 32 bits.

  \<^bold>\<open>Bounds and termination.\<close> Loops over lists in memory are proved to return whenever the list is well formed, the
  packed path after at most two rounds, prefaulting for every page size. Chunk pools are considered for
  pages of at most 4 GiB, and exact accounts for requests below 4 GiB, since handles keep 32-bit offsets and
  capacities. Five steps suffice for an undisturbed \<open>push_return\<close> and seven from a stale point of its loop;
  nine suffice for the drop of a page, twelve for that of a chunk, thirteen for the allocation of a page and 61 for
  that of a chunk, which may retire a page, open another and count. The reader of \<open>Debug\<close> texts has as fuel the length
  of the text. There is no other fuel.

  \<^bold>\<open>Parameters.\<close> Where the global allocator places a block (\<open>placement\<close>), what the system calls do (\<open>os\<close>)
  and the closures that fill buffers. A placement that is unusable is a failed allocation, the system calls
  keep the laws of \<open>mmap_os\<close>, and closures keep the length of the slice they are lent.

  \<^bold>\<open>Not modelled.\<close> One pool per program state. Memory orderings: interleavings are sequentially consistent.
  Reference counts of \<open>Arc\<close> change atomically, and those of \<open>TenantStats\<close> and \<open>ChunkPoolStats\<close>, which own nothing
  but counters, are left out. \<open>Drop for PoolShared\<close> is one step of the concurrent machines, since only its thread
  can reach the queue by then. A concurrent run starts after any sequential program, \<open>prewarm\<close> included, but has no
  \<open>prewarm\<close> of its own; in the models of the example programs with threads each call on a chunk is one step. Memory is
  structured in blocks: that the blocks of the allocator do not overlap is part of what memory is.
  The derived \<open>Debug\<close> of \<open>TenantId\<close> and \<open>Tenant\<close> escapes strings by tables of Unicode; \<open>Error\<close>, \<open>Send\<close> and
  \<open>Sync\<close> have no run-time content; \<open>src/lib.rs\<close> re-exports. Of the examples, clocks and what is printed of
  elapsed times are left out. \<open>benches\<close> and \<open>tests\<close> are clients of the library; the theorems on all programs
  apply to what they do with it.
\<close>

end
